(* ===== verification/Prelude.thy ===== *)
theory Prelude
  imports Main "HOL-Library.Word"
begin

text \<open>
  Shared ground of the development: Go's bytes and fixed-size arrays, the error values of
  all packages, little- and big-endian integers, and the generic lemmas on lists, words and
  result values that the component theories use.

  Conventions.
  \<^item> A Go \<open>byte\<close> is an \<open>8 word\<close>, a \<open>[]byte\<close> a list of them.
  \<^item> A Go array \<open>[n]byte\<close> is the type \<open>'n barray\<close>: the lists of exactly \<open>n\<close> bytes, so a
    \<open>Hash\<close> is a \<open>32 barray\<close> and a block header an \<open>80 barray\<close>.
  \<^item> A Go function that returns \<open>(value, error)\<close> returns \<open>go_error + value\<close>: \<open>Inl\<close> for a
    non-nil error. A run-time panic is the error value \<open>Panic\<close>.
  \<^item> A Go map is a partial function, a slice a list.
\<close>

unbundle bit_operations_syntax

named_theorems byte_simps \<open>lengths and contents of encoded integers and byte arrays\<close>
named_theorems go_simps \<open>unfolding of Go's slice and array operations\<close>

section \<open>Bytes and errors\<close>

type_synonym byte = "8 word"
type_synonym bytes = "8 word list"
type_synonym u16 = "16 word"
type_synonym u32 = "32 word"
type_synonym u64 = "64 word"

text \<open>Every error value the packages declare or construct, and the run-time panic.\<close>

datatype go_error =
    Panic
  | ErrEmpty                   \<comment> \<open>commitment: no leaves; accumulator: height out of range\<close>
  | ErrLeafIndex               \<comment> \<open>commitment: leaf index out of range\<close>
  | ErrFieldIndex              \<comment> \<open>commitment: field index out of range\<close>
  | ErrUnknownTx               \<comment> \<open>teranode\<close>
  | ErrUnknownBlock            \<comment> \<open>teranode\<close>
  | ErrNoAccumulator           \<comment> \<open>teranode\<close>
  | ErrEmptyBlock              \<comment> \<open>teranode: cannot seal an empty block\<close>
  | ErrSubtreeNotInBlock       \<comment> \<open>teranode: subtree root not in block\<close>
  | ErrTargetNotInPrefix       \<comment> \<open>teranode: target not within the carrier's prefix\<close>
  | ErrTXIDMismatch            \<comment> \<open>bundle\<close>
  | ErrTruncated               \<comment> \<open>bundle, payment, fabric: truncated or malformed bytes\<close>
  | ErrTrailing                \<comment> \<open>payment: trailing bytes after message\<close>
  | ErrNoKey                   \<comment> \<open>walletalice\<close>
  | ErrInputIdx                \<comment> \<open>walletalice\<close>
  | ErrTXIDOnly                \<comment> \<open>walletalice: a bundle without revealed fields\<close>
  | ErrBundleCount             \<comment> \<open>walletbob: bundle count differs from input count\<close>
  | ErrNoKeysAtTill            \<comment> \<open>walletbob\<close>
  | ErrNoBroadcaster           \<comment> \<open>walletbob\<close>
  | ErrOther string            \<comment> \<open>an error of an external service\<close>

type_synonym 'a res = "go_error + 'a"

definition is_ok :: "'a res \<Rightarrow> bool" where
  "is_ok r = (case r of Inl _ \<Rightarrow> False | Inr _ \<Rightarrow> True)"

lemma is_ok_simps [simp]: "is_ok (Inr x) = True" "is_ok (Inl e) = False"
  by (simp_all add: is_ok_def)

definition map_res :: "('a \<Rightarrow> 'b) \<Rightarrow> 'a res \<Rightarrow> 'b res" where
  "map_res f r = (case r of Inl e \<Rightarrow> Inl e | Inr x \<Rightarrow> Inr (f x))"

lemma map_res_simps [simp]: "map_res f (Inl e) = Inl e" "map_res f (Inr x) = Inr (f x)"
  by (simp_all add: map_res_def)

lemma map_res_eq_Inr [simp]: "map_res f r = Inr y \<longleftrightarrow> (\<exists>x. r = Inr x \<and> y = f x)"
  by (cases r) auto

lemma map_res_eq_Inl [simp]: "map_res f r = Inl e \<longleftrightarrow> r = Inl e"
  by (cases r) auto

section \<open>Fixed-size arrays\<close>

typedef (overloaded) ('n::len) barray = "{xs :: bytes. length xs = LENGTH('n)}"
  morphisms bytes_of Abs_barray
  by (rule exI [of _ "replicate LENGTH('n) 0"]) simp

text \<open>
  \<open>var r [n]byte; copy(r[:], bs)\<close>: the first \<open>n\<close> bytes of \<open>bs\<close>, and zeros where \<open>bs\<close>
  is shorter.
\<close>

definition barray_of :: "bytes \<Rightarrow> ('n::len) barray" where
  "barray_of bs = Abs_barray (take LENGTH('n) (bs @ replicate LENGTH('n) 0))"

lemma Abs_barray_bytes_of [code abstype]: "Abs_barray (bytes_of x) = x"
  by (rule bytes_of_inverse)

lemma bytes_of_barray_of [code abstract]:
  "bytes_of (barray_of bs :: 'n::len barray) = take LENGTH('n) (bs @ replicate LENGTH('n) 0)"
  by (simp add: barray_of_def Abs_barray_inverse)

instantiation barray :: (len) equal
begin

definition equal_barray :: "'a barray \<Rightarrow> 'a barray \<Rightarrow> bool" where
  "equal_barray x y = (bytes_of x = bytes_of y)"

instance
  by standard (simp add: equal_barray_def bytes_of_inject)

end

instantiation barray :: (len) size
begin

definition size_barray :: "'a barray \<Rightarrow> nat" where
  "size_barray x = length (bytes_of x)"

instance ..

end

lemma length_bytes_of [simp, byte_simps]: "length (bytes_of (x :: 'n::len barray)) = LENGTH('n)"
  using bytes_of [of x] by simp

lemma size_barray_len [simp]: "size (x :: 'n::len barray) = LENGTH('n)"
  by (simp add: size_barray_def)

lemma barray_of_bytes_of [simp]: "barray_of (bytes_of x) = x"
  by (simp add: barray_of_def bytes_of_inverse)

lemma bytes_of_barray_of_exact [simp]:
  "length bs = LENGTH('n) \<Longrightarrow> bytes_of (barray_of bs :: 'n::len barray) = bs"
  by (simp add: bytes_of_barray_of)

lemma bytes_of_eq_iff: "bytes_of x = bytes_of y \<longleftrightarrow> x = y"
  by (rule bytes_of_inject)

lemma bytes_of_not_Nil [simp]: "bytes_of x \<noteq> []"
proof -
  have "0 < length (bytes_of x)" by simp
  then show ?thesis by (metis length_greater_0_conv)
qed

lemma barray_of_inject_exact:
  "length xs = LENGTH('n) \<Longrightarrow> length ys = LENGTH('n) \<Longrightarrow>
   (barray_of xs :: 'n::len barray) = barray_of ys \<longleftrightarrow> xs = ys"
  by (metis bytes_of_barray_of_exact)

section \<open>Integers as bytes\<close>

text \<open>
  \<open>encoding/binary\<close>: the \<open>n\<close> low bytes of a word, least significant first, and their reader.
  Big-endian is the reverse.
\<close>

definition le_bytes :: "nat \<Rightarrow> 'a::len word \<Rightarrow> bytes" where
  "le_bytes n w = map (\<lambda>i. ucast (drop_bit (8 * i) w)) [0..<n]"

primrec le_word :: "bytes \<Rightarrow> 'a::len word" where
  "le_word [] = 0"
| "le_word (b # bs) = ucast b OR push_bit 8 (le_word bs)"

definition be_bytes :: "nat \<Rightarrow> 'a::len word \<Rightarrow> bytes" where
  "be_bytes n w = rev (le_bytes n w)"

definition be_word :: "bytes \<Rightarrow> 'a::len word" where
  "be_word bs = le_word (rev bs)"

lemma length_le_bytes [simp, byte_simps]: "length (le_bytes n w) = n"
  by (simp add: le_bytes_def)

lemma length_be_bytes [simp, byte_simps]: "length (be_bytes n w) = n"
  by (simp add: be_bytes_def)

lemma bit_le_word:
  "bit (le_word bs :: 'a::len word) k \<longleftrightarrow>
     k < LENGTH('a) \<and> k < 8 * length bs \<and> bit (bs ! (k div 8)) (k mod 8)"
proof (induction bs arbitrary: k)
  case Nil
  then show ?case by simp
next
  case (Cons b bs)
  show ?case
  proof (cases "k < 8")
    case True
    then show ?thesis
      by (auto simp: bit_simps)
  next
    case False
    then have "k div 8 = Suc ((k - 8) div 8)" and "k mod 8 = (k - 8) mod 8"
      by (auto simp: le_div_geq le_mod_geq)
    moreover have "\<not> bit b k"
      using False bit_imp_le_length [of b k] by auto
    ultimately show ?thesis
      using False Cons.IH [of "k - 8"] by (auto simp: bit_simps)
  qed
qed

lemma le_word_le_bytes:
  "LENGTH('a) \<le> 8 * n \<Longrightarrow> le_word (le_bytes n w) = (w :: 'a::len word)"
proof (rule bit_word_eqI)
  fix k
  assume n: "LENGTH('a) \<le> 8 * n" and k: "k < LENGTH('a)"
  then have "k div 8 < n" by auto
  then show "bit (le_word (le_bytes n w) :: 'a word) k = bit w k"
    using n k by (simp add: bit_le_word le_bytes_def bit_simps)
qed

lemma be_word_be_bytes:
  "LENGTH('a) \<le> 8 * n \<Longrightarrow> be_word (be_bytes n w) = (w :: 'a::len word)"
  by (simp add: be_word_def be_bytes_def le_word_le_bytes)

lemma le_bytes_le_word:
  assumes "8 * length bs \<le> LENGTH('a)"
  shows "le_bytes (length bs) (le_word bs :: 'a::len word) = bs"
proof (rule nth_equalityI)
  show "length (le_bytes (length bs) (le_word bs :: 'a word)) = length bs"
    by simp
next
  fix i
  assume "i < length (le_bytes (length bs) (le_word bs :: 'a word))"
  then have i: "i < length bs" by simp
  show "le_bytes (length bs) (le_word bs :: 'a word) ! i = bs ! i"
  proof (rule bit_word_eqI)
    fix k
    assume "k < LENGTH(8)"
    then have k: "k < 8" by simp
    have "(8 * i + k) div 8 = i" and "(8 * i + k) mod 8 = k"
      using k by auto
    moreover have "8 * i + k < 8 * length bs"
      using i k by linarith
    ultimately show "bit (le_bytes (length bs) (le_word bs :: 'a word) ! i) k = bit (bs ! i) k"
      using i k assms by (simp add: le_bytes_def bit_simps bit_le_word)
  qed
qed

lemma le_bytes_inject:
  "LENGTH('a) \<le> 8 * n \<Longrightarrow> le_bytes n (v :: 'a::len word) = le_bytes n w \<longleftrightarrow> v = w"
  by (metis le_word_le_bytes)

section \<open>Lists, words and positions\<close>

text \<open>A Go index expression \<open>xs[i]\<close>: the element, or the run-time panic.\<close>

definition go_index :: "'a list \<Rightarrow> nat \<Rightarrow> 'a res" where
  "go_index xs i = (if i < length xs then Inr (xs ! i) else Inl Panic)"

lemma go_index_ok [simp]: "i < length xs \<Longrightarrow> go_index xs i = Inr (xs ! i)"
  by (simp add: go_index_def)

text \<open>The sub-slice \<open>xs[i:j]\<close> where \<open>i \<le> j \<le> len(xs)\<close>.\<close>

definition go_slice :: "'a list \<Rightarrow> nat \<Rightarrow> nat \<Rightarrow> 'a list" where
  "go_slice xs i j = take (j - i) (drop i xs)"

lemma length_go_slice [simp]: "j \<le> length xs \<Longrightarrow> length (go_slice xs i j) = j - i"
  by (simp add: go_slice_def)

lemma nth_go_slice: "i + k < j \<Longrightarrow> j \<le> length xs \<Longrightarrow> go_slice xs i j ! k = xs ! (i + k)"
  by (simp add: go_slice_def)

lemma go_slice_next: "j \<le> k \<Longrightarrow> i \<le> j \<Longrightarrow> go_slice xs i k = go_slice xs i j @ go_slice xs j k"
proof -
  assume a: "j \<le> k" "i \<le> j"
  have "take (k - i) (drop i xs) = take (j - i) (drop i xs) @ take (k - j) (drop (j - i) (drop i xs))"
    using a by (metis (no_types, lifting) take_add add_diff_cancel_left' diff_add_inverse le_add_diff_inverse add_diff_assoc2 diff_add)
  then show ?thesis using a by (simp add: go_slice_def)
qed

lemma go_slice_append:
  "j \<le> length xs \<Longrightarrow> go_slice (xs @ ys) i j = go_slice xs i j"
  by (simp add: go_slice_def)

text \<open>A Go map read \<open>m[k]\<close>: the stored value, or the zero value of the element type.\<close>

definition go_get :: "'v \<Rightarrow> ('k \<rightharpoonup> 'v) \<Rightarrow> 'k \<Rightarrow> 'v" where
  "go_get zero m k = (case m k of None \<Rightarrow> zero | Some v \<Rightarrow> v)"

lemma go_get_update [simp]: "go_get z (m(k \<mapsto> v)) k' = (if k' = k then v else go_get z m k')"
  by (simp add: go_get_def)

lemma go_get_empty [simp]: "go_get z Map.empty k = z"
  by (simp add: go_get_def)

lemma unat_word_of_nat: "n < 2 ^ LENGTH('a) \<Longrightarrow> unat (word_of_nat n :: 'a::len word) = n"
  by (simp add: unsigned_of_nat take_bit_nat_eq_self)

lemma unat_word_of_nat_64: "n < 2 ^ 64 \<Longrightarrow> unat (word_of_nat n :: u64) = n"
  by (rule unat_word_of_nat) simp

lemma unat_word_of_nat_16: "n < 2 ^ 16 \<Longrightarrow> unat (word_of_nat n :: u16) = n"
  using unat_word_of_nat [of n, where 'a = 16] by simp

lemma unat_word_of_nat_32: "n < 2 ^ 32 \<Longrightarrow> unat (word_of_nat n :: u32) = n"
  using unat_word_of_nat [of n, where 'a = 32] by simp

text \<open>The number of binary digits, as \<open>math/bits.Len64\<close> counts them.\<close>

fun bit_len :: "nat \<Rightarrow> nat" where
  "bit_len n = (if n = 0 then 0 else Suc (bit_len (n div 2)))"

declare bit_len.simps [simp del]

lemma bit_len_0 [simp]: "bit_len 0 = 0"
  by (simp add: bit_len.simps)

lemma bit_len_pos: "0 < n \<Longrightarrow> bit_len n = Suc (bit_len (n div 2))"
  by (subst bit_len.simps) simp

lemma bit_len_upper: "n < 2 ^ bit_len n"
proof (induction n rule: bit_len.induct)
  case (1 n)
  then show ?case
    by (cases "n = 0") (auto simp: bit_len_pos)
qed

lemma bit_len_lower: "0 < n \<Longrightarrow> 2 ^ (bit_len n - 1) \<le> n"
proof (induction n rule: bit_len.induct)
  case (1 n)
  show ?case
  proof (cases "n div 2 = 0")
    case True
    then show ?thesis using 1 by (simp add: bit_len_pos)
  next
    case False
    then have "2 ^ (bit_len (n div 2) - 1) \<le> n div 2"
      using 1 by simp
    moreover obtain k where k: "bit_len (n div 2) = Suc k"
      using False by (simp add: bit_len_pos)
    ultimately have "2 ^ k \<le> n div 2"
      by simp
    then have "2 ^ Suc k \<le> n"
      by (simp only: power_Suc)
    then show ?thesis using 1 k by (simp add: bit_len_pos)
  qed
qed

lemma bit_len_le_iff: "bit_len n \<le> k \<longleftrightarrow> n < 2 ^ k"
proof
  assume "bit_len n \<le> k"
  then have "(2::nat) ^ bit_len n \<le> 2 ^ k" by simp
  then show "n < 2 ^ k"
    using bit_len_upper [of n] by linarith
next
  assume n: "n < 2 ^ k"
  show "bit_len n \<le> k"
  proof (cases "n = 0")
    case True
    then show ?thesis by simp
  next
    case False
    then have "(2::nat) ^ (bit_len n - 1) < 2 ^ k"
      using bit_len_lower [of n] n by linarith
    then have "bit_len n - 1 < k"
      by (simp add: power_strict_increasing_iff)
    then show ?thesis by simp
  qed
qed

lemma bit_len_shift: "0 < a \<Longrightarrow> r < 2 ^ k \<Longrightarrow> bit_len (a * 2 ^ k + r) = bit_len a + k"
proof (induction k arbitrary: r)
  case (Suc k)
  have "(a * 2 ^ Suc k + r) div 2 = a * 2 ^ k + r div 2" by simp
  then show ?case
    using Suc.IH [of "r div 2"] Suc.prems bit_len_pos [of "a * 2 ^ Suc k + r"] by simp
qed simp

lemma bit_len_mono: "m \<le> n \<Longrightarrow> bit_len m \<le> bit_len n"
  using bit_len_upper [of n] by (simp add: bit_len_le_iff)

lemma bit_len_mask: "bit_len (2 ^ k - 1) = k"
proof (rule antisym)
  show "bit_len (2 ^ k - 1) \<le> k" by (simp add: bit_len_le_iff)
  have "2 ^ k - 1 < (2::nat) ^ bit_len (2 ^ k - 1)" by (rule bit_len_upper)
  then have "(2::nat) ^ k \<le> 2 ^ bit_len (2 ^ k - 1)" by linarith
  then show "k \<le> bit_len (2 ^ k - 1)" by simp
qed

end
