(* ===== verification/Sha256.thy ===== *)
theory Sha256
  imports Prelude
begin

text \<open>
  The hash functions of Go's standard library that the program calls: \<open>crypto/sha256\<close>
  (\<open>Sum256\<close>) and \<open>crypto/hmac\<close> over it. Both are written out executably from their
  standard (FIPS 180-4 and FIPS 198-1), because every digest of the program is one of them.
  No lemma of the development depends on how the digest is computed beyond its length; the
  known answer at the end of this theory pins the definition to the published function.
\<close>

section \<open>SHA-256\<close>

text \<open>Round constants and the initial chaining value, in decimal.\<close>

definition sha_k :: "u32 list" where
  "sha_k = [
   1116352408, 1899447441, 3049323471, 3921009573, 961987163, 1508970993,
   2453635748, 2870763221, 3624381080, 310598401, 607225278, 1426881987,
   1925078388, 2162078206, 2614888103, 3248222580, 3835390401, 4022224774,
   264347078, 604807628, 770255983, 1249150122, 1555081692, 1996064986,
   2554220882, 2821834349, 2952996808, 3210313671, 3336571891, 3584528711,
   113926993, 338241895, 666307205, 773529912, 1294757372, 1396182291,
   1695183700, 1986661051, 2177026350, 2456956037, 2730485921, 2820302411,
   3259730800, 3345764771, 3516065817, 3600352804, 4094571909, 275423344,
   430227734, 506948616, 659060556, 883997877, 958139571, 1322822218,
   1537002063, 1747873779, 1955562222, 2024104815, 2227730452, 2361852424,
   2428436474, 2756734187, 3204031479, 3329325298]"

definition sha_h0 :: "u32 list" where
  "sha_h0 = [1779033703, 3144134277, 1013904242, 2773480762, 1359893119, 2600822924, 528734635, 1541459225]"

definition big_sigma0 :: "u32 \<Rightarrow> u32" where
  "big_sigma0 x = word_rotr 2 x XOR word_rotr 13 x XOR word_rotr 22 x"

definition big_sigma1 :: "u32 \<Rightarrow> u32" where
  "big_sigma1 x = word_rotr 6 x XOR word_rotr 11 x XOR word_rotr 25 x"

definition small_sigma0 :: "u32 \<Rightarrow> u32" where
  "small_sigma0 x = word_rotr 7 x XOR word_rotr 18 x XOR drop_bit 3 x"

definition small_sigma1 :: "u32 \<Rightarrow> u32" where
  "small_sigma1 x = word_rotr 17 x XOR word_rotr 19 x XOR drop_bit 10 x"

text \<open>The message schedule, kept newest word first: \<open>rev\<close> of it is \<open>W_0, W_1, \<dots>\<close>.\<close>

primrec sha_extend :: "nat \<Rightarrow> u32 list \<Rightarrow> u32 list" where
  "sha_extend 0 ws = ws"
| "sha_extend (Suc n) ws =
     sha_extend n ((small_sigma1 (ws ! 1) + ws ! 6 + small_sigma0 (ws ! 14) + ws ! 15) # ws)"

type_synonym sha_vars = "u32 \<times> u32 \<times> u32 \<times> u32 \<times> u32 \<times> u32 \<times> u32 \<times> u32"

definition sha_round :: "u32 \<times> u32 \<Rightarrow> sha_vars \<Rightarrow> sha_vars" where
  "sha_round kw st = (case (kw, st) of ((k, w), (a, b, c, d, e, f, g, h)) \<Rightarrow>
     let t1 = h + big_sigma1 e + ((e AND f) XOR (NOT e AND g)) + k + w;
         t2 = big_sigma0 a + ((a AND b) XOR (a AND c) XOR (b AND c))
     in (t1 + t2, a, b, c, d + t1, e, f, g))"

definition sha_compress :: "u32 list \<Rightarrow> bytes \<Rightarrow> u32 list" where
  "sha_compress hs block =
     (let m = map (\<lambda>i. be_word (go_slice block (4 * i) (4 * i + 4))) [0..<16];
          ws = rev (sha_extend 48 (rev m))
      in case fold sha_round (zip sha_k ws)
                (hs ! 0, hs ! 1, hs ! 2, hs ! 3, hs ! 4, hs ! 5, hs ! 6, hs ! 7) of
           (a, b, c, d, e, f, g, h) \<Rightarrow> map2 (+) hs [a, b, c, d, e, f, g, h])"

text \<open>One bit, zeros up to 56 modulo 64, and the length in bits as a 64-bit integer.\<close>

definition sha_pad :: "bytes \<Rightarrow> bytes" where
  "sha_pad m =
     m @ [0x80] @ replicate ((119 - length m mod 64) mod 64) 0
       @ be_bytes 8 (word_of_nat (8 * length m) :: u64)"

function sha_blocks :: "u32 list \<Rightarrow> bytes \<Rightarrow> u32 list" where
  "sha_blocks hs bs =
     (if length bs < 64 then hs else sha_blocks (sha_compress hs (take 64 bs)) (drop 64 bs))"
  by pat_completeness auto
termination
  by (relation "measure (\<lambda>(hs, bs). length bs)") auto

declare sha_blocks.simps [simp del]

definition sha256 :: "bytes \<Rightarrow> 32 barray" where
  "sha256 m = barray_of (concat (map (be_bytes 4) (sha_blocks sha_h0 (sha_pad m))))"

section \<open>HMAC\<close>

definition hmac_block :: "bytes \<Rightarrow> bytes" where
  "hmac_block key =
     (let k = (if 64 < length key then bytes_of (sha256 key) else key)
      in k @ replicate (64 - length k) 0)"

definition hmac_sha256 :: "bytes \<Rightarrow> bytes \<Rightarrow> 32 barray" where
  "hmac_sha256 key msg =
     (let k = hmac_block key
      in sha256 (map (\<lambda>b. b XOR 0x5c) k @ bytes_of (sha256 (map (\<lambda>b. b XOR 0x36) k @ msg))))"

section \<open>Shape of the digest\<close>

lemma pad_to_64: "64 dvd n + 9 + (119 - n mod 64) mod (64::nat)"
proof -
  define q r where "q = n div 64" and "r = n mod 64"
  have n: "n = 64 * q + r" and r: "r < 64"
    by (simp_all add: q_def r_def)
  show ?thesis
  proof (cases "r \<le> 55")
    case True
    then have "119 - r = 55 - r + 64" by simp
    then have "(119 - r) mod 64 = 55 - r"
      using r by (simp only: mod_add_self2) simp
    then have "n + 9 + (119 - n mod 64) mod 64 = 64 * (q + 1)"
      using n True by (simp add: r_def [symmetric])
    then show ?thesis by (simp only: dvd_triv_left)
  next
    case False
    then have "(119 - r) mod 64 = 119 - r" by simp
    then have "n + 9 + (119 - n mod 64) mod 64 = 64 * (q + 2)"
      using n r by (simp add: r_def [symmetric])
    then show ?thesis by (simp only: dvd_triv_left)
  qed
qed

lemma length_sha_pad: "length (sha_pad m) mod 64 = 0"
proof -
  have "length (sha_pad m) = length m + 9 + (119 - length m mod 64) mod 64"
    by (simp add: sha_pad_def)
  then show ?thesis using pad_to_64 [of "length m"] by simp
qed

lemma length_sha_compress [simp]: "length hs = 8 \<Longrightarrow> length (sha_compress hs b) = 8"
  by (auto simp: sha_compress_def Let_def split: prod.split)

lemma length_sha_blocks: "length hs = 8 \<Longrightarrow> length (sha_blocks hs bs) = 8"
proof (induction hs bs rule: sha_blocks.induct)
  case (1 hs bs)
  then show ?case by (subst sha_blocks.simps) simp
qed

text \<open>The eight words of the final chaining value fill the digest: nothing is cut or padded.\<close>

lemma length_concat_be4: "length (concat (map (be_bytes 4) (ws :: u32 list))) = 4 * length ws"
  by (induction ws) auto

lemma bytes_of_sha256:
  "bytes_of (sha256 m) = concat (map (be_bytes 4) (sha_blocks sha_h0 (sha_pad m)))"
proof -
  have "length (sha_blocks sha_h0 (sha_pad m)) = 8"
    by (rule length_sha_blocks) (simp add: sha_h0_def)
  then show ?thesis
    by (simp add: sha256_def length_concat_be4)
qed

lemma length_hmac_block: "length (hmac_block key) = 64"
  by (simp add: hmac_block_def Let_def)

section \<open>Known answer\<close>

text \<open>The digest of \<open>abc\<close> that FIPS 180-4 publishes with its example.\<close>

lemma sha_blocks_abc:
  "map uint (concat (map (be_bytes 4) (sha_blocks sha_h0 (sha_pad [97, 98, 99])))) =
     [186, 120, 22, 191, 143, 1, 207, 234, 65, 65, 64, 222, 93, 174, 34, 35,
      176, 3, 97, 163, 150, 23, 122, 156, 180, 16, 255, 97, 242, 0, 21, 173]"
  by code_simp

lemma sha256_abc:
  "map uint (bytes_of (sha256 [97, 98, 99])) =
     [186, 120, 22, 191, 143, 1, 207, 234, 65, 65, 64, 222, 93, 174, 34, 35,
      176, 3, 97, 163, 150, 23, 122, 156, 180, 16, 255, 97, 242, 0, 21, 173]"
  unfolding bytes_of_sha256 by (rule sha_blocks_abc)

end
