(* ===== verification/Commitment.thy ===== *)
theory Commitment
  imports Sha256
begin

text \<open>
  Package \<open>commitment\<close> (src/commitment/commitment.go): SHA-256d Merkle trees with the
  odd-node duplication rule, sibling paths, the fold that verifies them, and the checks of
  levels L0 (fields), L1 (subtree) and L2 (block).

  The first half of the theory is the model in the order of the source; the second half
  proves that a path cut from a built tree folds to its root and has the length the depth
  law states, and that a fold binds the leaf and every sibling up to an exhibited SHA-256d
  collision.
\<close>

section \<open>Types\<close>

type_synonym hash = "32 barray"

definition zero_hash :: hash where
  "zero_hash = barray_of []"

record path_elem =
  Sibling :: hash
  Right :: bool

record field_leaf =
  Index :: byte
  Bytes :: bytes

type_synonym tx_fields = "field_leaf list"

definition MaxDepth :: nat where
  "MaxDepth = 255"

section \<open>The Merkle core\<close>

definition DoubleSHA256 :: "bytes \<Rightarrow> hash" where
  "DoubleSHA256 b = (let first = sha256 b in sha256 (bytes_of first))"

definition HashPair :: "hash \<Rightarrow> hash \<Rightarrow> hash" where
  "HashPair left right = DoubleSHA256 (bytes_of left @ bytes_of right)"

definition leafHash :: "field_leaf \<Rightarrow> hash" where
  "leafHash f = DoubleSHA256 (Index f # Bytes f)"

text \<open>
  The inner loop of \<open>BuildMerkleTree\<close> consumes the level two nodes at a time; a last node
  without a partner is paired with itself.
\<close>

fun next_level :: "hash list \<Rightarrow> hash list" where
  "next_level [] = []"
| "next_level [left] = [HashPair left left]"
| "next_level (left # right # rest) = HashPair left right # next_level rest"

lemma length_next_level [simp]: "length (next_level xs) = (length xs + 1) div 2"
  by (induction xs rule: next_level.induct) auto

text \<open>The outer loop: every level from the given one up to the root.\<close>

function build_layers :: "hash list \<Rightarrow> hash list list" where
  "build_layers level =
     (if 1 < length level then level # build_layers (next_level level) else [level])"
  by pat_completeness auto
termination
  by (relation "measure length") auto

declare build_layers.simps [simp del]

definition BuildMerkleTree :: "hash list \<Rightarrow> (hash \<times> hash list list) res" where
  "BuildMerkleTree leaves =
     (if length leaves = 0 then Inl ErrEmpty
      else let layers = build_layers leaves in Inr (hd (last layers), layers))"

definition MerkleRoot :: "hash list \<Rightarrow> hash res" where
  "MerkleRoot leaves = map_res fst (BuildMerkleTree leaves)"

text \<open>
  \<open>MerklePath\<close> climbs all levels but the last. The layers are the caller's: a level too
  short for the index is the run-time panic of \<open>cur[sib]\<close> or \<open>cur[idx-1]\<close>.
\<close>

fun path_loop :: "hash list list \<Rightarrow> nat \<Rightarrow> path_elem list \<Rightarrow> path_elem list res" where
  "path_loop [] idx path = Inr path"
| "path_loop (cur # rest) idx path =
     (if idx mod 2 = 0 then
        (let sib = (if idx + 1 < length cur then idx + 1 else idx) in
         case go_index cur sib of
           Inl e \<Rightarrow> Inl e
         | Inr s \<Rightarrow> path_loop rest (idx div 2) (path @ [\<lparr>Sibling = s, Right = True\<rparr>]))
      else
        (case go_index cur (idx - 1) of
           Inl e \<Rightarrow> Inl e
         | Inr s \<Rightarrow> path_loop rest (idx div 2) (path @ [\<lparr>Sibling = s, Right = False\<rparr>])))"

definition MerklePath :: "hash list list \<Rightarrow> int \<Rightarrow> path_elem list res" where
  "MerklePath layers index =
     (if length layers = 0 \<or> index < 0 \<or> int (length (hd layers)) \<le> index then Inl ErrLeafIndex
      else path_loop (butlast layers) (nat index) [])"

text \<open>
  A Go slice with spare capacity: the backing array, how much of it is in use, and how
  often \<open>append\<close> had to move it. How much a move over-allocates is the runtime's choice,
  the argument \<open>grow\<close>.
\<close>

record 'a go_buf =
  backing :: "'a list"
  used :: nat
  moves :: nat

definition contents :: "'a go_buf \<Rightarrow> 'a list" where
  "contents s = take (used s) (backing s)"

definition reslice0 :: "'a go_buf \<Rightarrow> 'a go_buf" where
  "reslice0 s = s\<lparr>used := 0\<rparr>"

definition buf_append :: "(nat \<Rightarrow> 'a list) \<Rightarrow> 'a go_buf \<Rightarrow> 'a \<Rightarrow> 'a go_buf" where
  "buf_append grow s x =
     (if used s < length (backing s)
      then s\<lparr>backing := (backing s)[used s := x], used := used s + 1\<rparr>
      else \<lparr>backing = take (used s) (backing s) @ [x] @ grow (used s),
            used = used s + 1, moves = moves s + 1\<rparr>)"

fun path_into_loop ::
  "(nat \<Rightarrow> path_elem list) \<Rightarrow> hash list list \<Rightarrow> nat \<Rightarrow> path_elem go_buf \<Rightarrow> path_elem go_buf res" where
  "path_into_loop grow [] idx dst = Inr dst"
| "path_into_loop grow (cur # rest) idx dst =
     (if idx mod 2 = 0 then
        (let sib = (if idx + 1 < length cur then idx + 1 else idx) in
         case go_index cur sib of
           Inl e \<Rightarrow> Inl e
         | Inr s \<Rightarrow> path_into_loop grow rest (idx div 2)
                      (buf_append grow dst \<lparr>Sibling = s, Right = True\<rparr>))
      else
        (case go_index cur (idx - 1) of
           Inl e \<Rightarrow> Inl e
         | Inr s \<Rightarrow> path_into_loop grow rest (idx div 2)
                      (buf_append grow dst \<lparr>Sibling = s, Right = False\<rparr>)))"

definition MerklePathInto ::
  "(nat \<Rightarrow> path_elem list) \<Rightarrow> hash list list \<Rightarrow> int \<Rightarrow> path_elem go_buf \<Rightarrow> path_elem go_buf res" where
  "MerklePathInto grow layers index dst =
     (if length layers = 0 \<or> index < 0 \<or> int (length (hd layers)) \<le> index then Inl ErrLeafIndex
      else path_into_loop grow (butlast layers) (nat index) (reslice0 dst))"

definition fold_step :: "hash \<Rightarrow> path_elem \<Rightarrow> hash" where
  "fold_step node e =
     (if Right e then HashPair node (Sibling e) else HashPair (Sibling e) node)"

fun Fold :: "hash \<Rightarrow> path_elem list \<Rightarrow> hash" where
  "Fold node [] = node"
| "Fold node (e # path) = Fold (fold_step node e) path"

definition Len64 :: "u64 \<Rightarrow> nat" where
  "Len64 x = bit_len (unat x)"

definition CeilLog2 :: "u64 \<Rightarrow> nat" where
  "CeilLog2 n = (if n \<le> 1 then 0 else Len64 (n - 1))"

section \<open>L0: the field tree\<close>

definition BuildMTxID :: "tx_fields \<Rightarrow> (hash \<times> hash list list) res" where
  "BuildMTxID fs =
     (if length fs = 0 then Inl ErrEmpty else BuildMerkleTree (map leafHash fs))"

definition MTxIDPath :: "tx_fields \<Rightarrow> byte \<Rightarrow> (hash \<times> path_elem list \<times> hash) res" where
  "MTxIDPath fs fieldIndex =
     (if length fs \<le> unat fieldIndex then Inl ErrFieldIndex
      else case BuildMTxID fs of
        Inl e \<Rightarrow> Inl e
      | Inr (root, layers) \<Rightarrow>
          (case MerklePath layers (int (unat fieldIndex)) of
             Inl e \<Rightarrow> Inl e
           | Inr path \<Rightarrow> Inr (leafHash (fs ! unat fieldIndex), path, root)))"

definition LeafForField :: "field_leaf \<Rightarrow> hash" where
  "LeafForField f = leafHash f"

definition VerifyMTxIDPath :: "hash \<Rightarrow> path_elem list \<Rightarrow> hash \<Rightarrow> bool" where
  "VerifyMTxIDPath leaf path mtxid =
     (if MaxDepth < length path then False else Fold leaf path = mtxid)"

section \<open>L1, L2 and the composed check\<close>

definition VerifySubtreePath :: "hash \<Rightarrow> path_elem list \<Rightarrow> hash \<Rightarrow> bool" where
  "VerifySubtreePath txid path subtreeRoot =
     (if 20 < length path then False else Fold txid path = subtreeRoot)"

definition VerifyBlockPath :: "hash \<Rightarrow> path_elem list \<Rightarrow> hash \<Rightarrow> bool" where
  "VerifyBlockPath subtreeRoot path blockMerkleRoot =
     (if MaxDepth < length path then False else Fold subtreeRoot path = blockMerkleRoot)"

definition VerifyToBlockRoot ::
  "hash \<Rightarrow> path_elem list \<Rightarrow> path_elem list \<Rightarrow> path_elem list \<Rightarrow> hash \<Rightarrow> bool \<times> nat" where
  "VerifyToBlockRoot leaf l0 l1 l2 blockMerkleRoot =
     (let depth = length l0 + length l1 + length l2 in
      if MaxDepth < depth \<or> 20 < length l1 then (False, depth)
      else let mtxid = Fold leaf l0;
               sub = Fold mtxid l1;
               root = Fold sub l2
           in (root = blockMerkleRoot, depth))"


section \<open>Shape of a built tree\<close>

definition tree_root :: "hash list \<Rightarrow> hash" where
  "tree_root xs = hd (last (build_layers xs))"

lemma build_layers_single: "length xs \<le> 1 \<Longrightarrow> build_layers xs = [xs]"
  by (simp add: build_layers.simps)

lemma build_layers_step: "1 < length xs \<Longrightarrow> build_layers xs = xs # build_layers (next_level xs)"
  by (subst build_layers.simps) simp

lemma build_layers_not_Nil [simp]: "build_layers xs \<noteq> []"
  by (subst build_layers.simps) simp

lemma hd_build_layers [simp]: "hd (build_layers xs) = xs"
  by (subst build_layers.simps) simp

lemma butlast_build_layers_step:
  "1 < length xs \<Longrightarrow> butlast (build_layers xs) = xs # butlast (build_layers (next_level xs))"
  by (simp add: build_layers_step)

lemma tree_root_single: "tree_root [x] = x"
  by (simp add: tree_root_def build_layers_single)

lemma tree_root_step: "1 < length xs \<Longrightarrow> tree_root xs = tree_root (next_level xs)"
  by (simp add: tree_root_def build_layers_step)

lemma BuildMerkleTree_eq:
  "BuildMerkleTree xs = (if xs = [] then Inl ErrEmpty else Inr (tree_root xs, build_layers xs))"
  by (simp add: BuildMerkleTree_def tree_root_def Let_def)

lemma MerkleRoot_eq: "MerkleRoot xs = (if xs = [] then Inl ErrEmpty else Inr (tree_root xs))"
  by (simp add: MerkleRoot_def BuildMerkleTree_eq)

text \<open>Induction along the levels of a tree.\<close>

lemma tree_induct [consumes 1, case_names leaf level]:
  assumes "xs \<noteq> []"
    and leaf: "\<And>x. P [x]"
    and level: "\<And>xs. 1 < length xs \<Longrightarrow> P (next_level xs) \<Longrightarrow> P xs"
  shows "P xs"
  using \<open>xs \<noteq> []\<close>
proof (induction xs rule: build_layers.induct)
  case (1 xs)
  show ?case
  proof (cases "1 < length xs")
    case True
    moreover from True have "length (next_level xs) \<noteq> 0"
      by simp
    then have "next_level xs \<noteq> []" by (simp only: length_0_conv not_False_eq_True)
    ultimately show ?thesis
      using 1 level by blast
  next
    case False
    with 1 obtain x where "xs = [x]"
      by (cases xs) auto
    with leaf show ?thesis by simp
  qed
qed

lemma nth_next_level:
  "i < (length xs + 1) div 2 \<Longrightarrow>
   next_level xs ! i = HashPair (xs ! (2 * i)) (xs ! (if 2 * i + 1 < length xs then 2 * i + 1 else 2 * i))"
proof (induction xs arbitrary: i rule: next_level.induct)
  case (3 l r rest)
  then show ?case by (cases i) auto
qed auto

lemma length_last_build_layers: "xs \<noteq> [] \<Longrightarrow> length (last (build_layers xs)) = 1"
  by (induction xs rule: tree_induct) (simp_all add: build_layers_single build_layers_step)

text \<open>The number of levels above the leaves is the depth law.\<close>

lemma bit_len_halving: "1 < n \<Longrightarrow> bit_len (n - 1) = Suc (bit_len ((n + 1) div 2 - 1))"
proof -
  assume "1 < n"
  moreover have "(n - 1) div 2 = (n + 1) div 2 - 1"
    using \<open>1 < n\<close> by simp
  ultimately show ?thesis
    by (simp add: bit_len_pos)
qed

lemma length_build_layers:
  "xs \<noteq> [] \<Longrightarrow> length (build_layers xs) = Suc (bit_len (length xs - 1))"
  by (induction xs rule: tree_induct)
    (simp_all add: build_layers_single build_layers_step bit_len_halving [simplified])

lemma CeilLog2_of_nat:
  assumes "0 < n" "n < 2 ^ 64"
  shows "CeilLog2 (word_of_nat n) = bit_len (n - 1)"
proof (cases "n = 1")
  case True
  then show ?thesis by (simp add: CeilLog2_def)
next
  case False
  have un: "unat (word_of_nat n :: u64) = n"
    using assms by (simp add: unat_word_of_nat_64)
  then have "\<not> (word_of_nat n :: u64) \<le> 1"
    using False assms by (simp add: word_le_nat_alt)
  moreover have "unat ((word_of_nat n :: u64) - 1) = n - 1"
    using un assms by (metis One_nat_def Suc_leI word_le_nat_alt unat_1 unat_sub)
  ultimately show ?thesis
    by (simp add: CeilLog2_def Len64_def)
qed

section \<open>Folds\<close>

lemma Fold_append [simp]: "Fold x (p @ q) = Fold (Fold x p) q"
  by (induction p arbitrary: x) auto

text \<open>The 64 bytes that a step of the fold hashes.\<close>

definition step_input :: "hash \<Rightarrow> path_elem \<Rightarrow> bytes" where
  "step_input node e =
     (if Right e then bytes_of node @ bytes_of (Sibling e) else bytes_of (Sibling e) @ bytes_of node)"

lemma fold_step_input: "fold_step x e = DoubleSHA256 (step_input x e)"
  by (simp add: fold_step_def step_input_def HashPair_def)

lemma step_input_inject:
  "Right e = Right f \<Longrightarrow> step_input x e = step_input y f \<longleftrightarrow> x = y \<and> e = f"
  by (cases e; cases f) (auto simp: step_input_def bytes_of_eq_iff)

text \<open>
  A collision of SHA-256d, exhibited: two different inputs with the same digest. Collisions
  exist, so the soundness statements below name the very pair that a forgery contains.
\<close>

definition collision :: "bytes \<times> bytes \<Rightarrow> bool" where
  "collision ab = (fst ab \<noteq> snd ab \<and> DoubleSHA256 (fst ab) = DoubleSHA256 (snd ab))"

definition exhibits :: "(bytes \<times> bytes) option \<Rightarrow> bool" where
  "exhibits r = (case r of None \<Rightarrow> False | Some ab \<Rightarrow> collision ab)"

lemma exhibits_simps [simp]: "exhibits None = False" "exhibits (Some ab) = collision ab"
  by (simp_all add: exhibits_def)

text \<open>
  Compare two folds of equal directions from the root down; the topmost step at which the
  inputs differ is a collision.
\<close>

fun fold_collision ::
  "hash \<Rightarrow> path_elem list \<Rightarrow> hash \<Rightarrow> path_elem list \<Rightarrow> (bytes \<times> bytes) option" where
  "fold_collision x (e # p) y (f # q) =
     (case fold_collision (fold_step x e) p (fold_step y f) q of
        Some c \<Rightarrow> Some c
      | None \<Rightarrow> if step_input x e = step_input y f then None
                else Some (step_input x e, step_input y f))"
| "fold_collision x p y q = None"

lemma fold_binding_aux:
  assumes "map Right p = map Right q" and "Fold x p = Fold y q"
  shows "(fold_collision x p y q = None \<longrightarrow> x = y \<and> p = q) \<and>
         (\<forall>c. fold_collision x p y q = Some c \<longrightarrow> collision c)"
  using assms
proof (induction x p y q rule: fold_collision.induct)
  case (1 x e p y f q)
  then have IH: "fold_collision (fold_step x e) p (fold_step y f) q = None \<Longrightarrow>
      fold_step x e = fold_step y f \<and> p = q"
    and IH': "\<And>c. fold_collision (fold_step x e) p (fold_step y f) q = Some c \<Longrightarrow> collision c"
    and dir: "Right e = Right f"
    by auto
  show ?case
    using IH IH' step_input_inject [OF dir, of x y]
    by (auto simp: fold_step_input collision_def split: option.splits)
qed auto

lemma fold_binding_cases:
  assumes "map Right p = map Right q" and "Fold x p = Fold y q"
  shows "(x = y \<and> p = q) \<or> exhibits (fold_collision x p y q)"
  using fold_binding_aux [OF assms] by (cases "fold_collision x p y q") auto

section \<open>Paths of a built tree\<close>

lemma path_loop_acc:
  "path_loop ls idx acc = map_res (\<lambda>p. acc @ p) (path_loop ls idx [])"
proof (induction ls arbitrary: idx acc)
  case Nil
  then show ?case by simp
next
  case (Cons cur ls)
  have acc: "path_loop ls i (acc @ [e]) = map_res (\<lambda>p. acc @ p) (path_loop ls i [e])" for i e
    by (cases "path_loop ls i []") (simp_all add: Cons.IH [of i "acc @ [e]"] Cons.IH [of i "[e]"])
  show ?case
    by (simp add: acc Let_def split: sum.split)
qed

lemma path_loop_step:
  assumes "i < length cur"
  shows "path_loop (cur # rest) i [] =
    map_res ((#) (if i mod 2 = 0
        then \<lparr>Sibling = cur ! (if i + 1 < length cur then i + 1 else i), Right = True\<rparr>
        else \<lparr>Sibling = cur ! (i - 1), Right = False\<rparr>))
      (path_loop rest (i div 2) [])"
proof -
  have one: "path_loop rest k [e] = map_res ((#) e) (path_loop rest k [])" for k e
    by (cases "path_loop rest k []") (simp_all add: path_loop_acc [of rest k "[e]"])
  show ?thesis
    using assms by (auto simp: one Let_def)
qed

text \<open>
  The path of an existing leaf: it exists, folds to the root, and has one element per level
  above the leaves.
\<close>

lemma built_path:
  assumes "xs \<noteq> []" and "i < length xs"
  shows "\<exists>p. path_loop (butlast (build_layers xs)) i [] = Inr p \<and>
             Fold (xs ! i) p = tree_root xs \<and> length p = bit_len (length xs - 1)"
  using assms
proof (induction xs arbitrary: i rule: tree_induct)
  case (leaf x)
  then show ?case by (simp add: build_layers_single tree_root_single)
next
  case (level xs)
  let ?e = "if i mod 2 = 0
      then \<lparr>Sibling = xs ! (if i + 1 < length xs then i + 1 else i), Right = True\<rparr>
      else \<lparr>Sibling = xs ! (i - 1), Right = False\<rparr>"
  have half: "i div 2 < (length xs + 1) div 2"
    using level.prems by auto
  then obtain p where p: "path_loop (butlast (build_layers (next_level xs))) (i div 2) [] = Inr p"
    "Fold (next_level xs ! (i div 2)) p = tree_root (next_level xs)"
    "length p = bit_len (length (next_level xs) - 1)"
    using level.IH [of "i div 2"] by auto
  have "fold_step (xs ! i) ?e = next_level xs ! (i div 2)"
  proof (cases "even i")
    case True
    then show ?thesis
      using half by (simp add: fold_step_def nth_next_level even_iff_mod_2_eq_zero)
  next
    case False
    then obtain k where k: "i = 2 * k + 1" by (rule oddE)
    then have "k < (length xs + 1) div 2" using level.prems by simp
    then show ?thesis
      using k level.prems by (simp add: fold_step_def nth_next_level)
  qed
  then show ?case
    using p level.hyps level.prems bit_len_halving [of "length xs"]
    by (simp add: butlast_build_layers_step path_loop_step tree_root_step del: path_loop.simps)
qed

lemma MerklePath_ok:
  assumes "i < length xs"
  obtains p where "MerklePath (build_layers xs) (int i) = Inr p"
    and "Fold (xs ! i) p = tree_root xs" and "length p = bit_len (length xs - 1)"
proof -
  have "xs \<noteq> []" using assms by auto
  then show ?thesis
    using built_path [OF _ assms] assms that by (auto simp: MerklePath_def)
qed

lemma MerklePath_Fold:
  "MerklePath (build_layers xs) i = Inr p \<Longrightarrow>
   0 \<le> i \<and> nat i < length xs \<and> Fold (xs ! nat i) p = tree_root xs \<and> length p = bit_len (length xs - 1)"
proof -
  assume a: "MerklePath (build_layers xs) i = Inr p"
  then have i: "0 \<le> i" "nat i < length xs"
    by (auto simp: MerklePath_def split: if_splits)
  then show ?thesis
    using a MerklePath_ok [of "nat i" xs] by auto
qed

lemma MerklePath_out_of_range:
  "i < 0 \<or> int (length xs) \<le> i \<Longrightarrow> MerklePath (build_layers xs) i = Inl ErrLeafIndex"
  by (auto simp: MerklePath_def)

section \<open>The proof a tree has for given directions\<close>

text \<open>
  For every sequence of directions of the tree's depth there is one leaf and one sibling
  path that fold to the root: directions that lead into the duplicate of an odd last node
  lead to that node.
\<close>

fun tree_proof :: "hash list list \<Rightarrow> bool list \<Rightarrow> nat \<times> path_elem list" where
  "tree_proof (cur # rest) (b # bs) =
     (case tree_proof rest bs of (k, p) \<Rightarrow>
        let r = (if 2 * k + 1 < length cur then 2 * k + 1 else 2 * k) in
        if b then (2 * k, \<lparr>Sibling = cur ! r, Right = True\<rparr> # p)
        else (r, \<lparr>Sibling = cur ! (2 * k), Right = False\<rparr> # p))"
| "tree_proof layers bs = (0, [])"

lemma tree_proof_fold:
  assumes "xs \<noteq> []" and "length bs = bit_len (length xs - 1)"
    and "tree_proof (build_layers xs) bs = (i, p)"
  shows "i < length xs \<and> Fold (xs ! i) p = tree_root xs \<and> map Right p = bs"
  using assms
proof (induction xs arbitrary: bs i p rule: tree_induct)
  case (leaf x)
  then show ?case by (simp add: build_layers_single tree_root_single)
next
  case (level xs)
  from level.prems level.hyps bit_len_halving obtain b bs' where bs: "bs = b # bs'"
    by (cases bs) auto
  obtain k q where kq: "tree_proof (build_layers (next_level xs)) bs' = (k, q)"
    by (cases "tree_proof (build_layers (next_level xs)) bs'")
  have "length bs' = bit_len (length (next_level xs) - 1)"
    using level.prems level.hyps bs bit_len_halving [of "length xs"] by simp
  then have IH: "k < length (next_level xs)" "Fold (next_level xs ! k) q = tree_root (next_level xs)"
    "map Right q = bs'"
    using level.IH [OF _ kq] by auto
  then show ?case
    using level.prems level.hyps bs kq
    by (auto simp: build_layers_step tree_root_step fold_step_def nth_next_level Let_def
        split: if_splits)
qed

text \<open>The position that the directions of a path spell, lowest level first.\<close>

fun path_pos :: "path_elem list \<Rightarrow> nat" where
  "path_pos [] = 0"
| "path_pos (e # p) = (if Right e then 0 else 1) + 2 * path_pos p"

lemma path_pos_less: "path_pos p < 2 ^ length p"
  by (induction p) auto

lemma path_pos_div: "path_pos (e # p) div 2 = path_pos p"
  by simp

lemma tree_proof_pos:
  assumes "xs \<noteq> []" and "length q = bit_len (length xs - 1)" and "path_pos q < length xs"
  shows "fst (tree_proof (build_layers xs) (map Right q)) = path_pos q \<and>
         path_loop (butlast (build_layers xs)) (path_pos q) [] =
           Inr (snd (tree_proof (build_layers xs) (map Right q)))"
  using assms
proof (induction xs arbitrary: q rule: tree_induct)
  case (leaf x)
  then show ?case by (simp add: build_layers_single)
next
  case (level xs)
  from level.prems level.hyps bit_len_halving obtain e q' where q: "q = e # q'"
    by (cases q) auto
  have "length q' = bit_len (length (next_level xs) - 1)" and "path_pos q' < length (next_level xs)"
    using level.prems level.hyps q bit_len_halving [of "length xs"] by auto
  then have IH: "fst (tree_proof (build_layers (next_level xs)) (map Right q')) = path_pos q'"
    "path_loop (butlast (build_layers (next_level xs))) (path_pos q') [] =
       Inr (snd (tree_proof (build_layers (next_level xs)) (map Right q')))"
    using level.IH by auto
  then show ?case
    using level.prems level.hyps q
    by (auto simp: build_layers_step path_loop_step Let_def split: prod.split
        simp del: path_loop.simps)
qed

section \<open>Binding\<close>

text \<open>
  The leaf and path that a tree has for the directions of a given path, and the collision
  that the given pair exhibits when it differs from them.
\<close>

definition honest_leaf :: "hash list \<Rightarrow> path_elem list \<Rightarrow> nat" where
  "honest_leaf xs q = fst (tree_proof (build_layers xs) (map Right q))"

definition honest_path :: "hash list \<Rightarrow> path_elem list \<Rightarrow> path_elem list" where
  "honest_path xs q = snd (tree_proof (build_layers xs) (map Right q))"

definition forgery :: "hash list \<Rightarrow> hash \<Rightarrow> path_elem list \<Rightarrow> (bytes \<times> bytes) option" where
  "forgery xs x q = fold_collision x q (xs ! honest_leaf xs q) (honest_path xs q)"

lemma honest_proof:
  assumes "xs \<noteq> []" and "length q = bit_len (length xs - 1)"
  shows "honest_leaf xs q < length xs"
    and "Fold (xs ! honest_leaf xs q) (honest_path xs q) = tree_root xs"
    and "map Right (honest_path xs q) = map Right q"
proof -
  have "tree_proof (build_layers xs) (map Right q) = (honest_leaf xs q, honest_path xs q)"
    by (simp add: honest_leaf_def honest_path_def)
  note * = tree_proof_fold [OF assms(1) _ this]
  show "honest_leaf xs q < length xs"
    and "Fold (xs ! honest_leaf xs q) (honest_path xs q) = tree_root xs"
    and "map Right (honest_path xs q) = map Right q"
    using * assms(2) by simp_all
qed

lemma tree_binding:
  assumes "xs \<noteq> []" and "length q = bit_len (length xs - 1)" and "Fold x q = tree_root xs"
  shows "(x = xs ! honest_leaf xs q \<and> q = honest_path xs q) \<or> exhibits (forgery xs x q)"
  unfolding forgery_def
  by (rule fold_binding_cases) (simp_all add: honest_proof [OF assms(1,2)] assms(3))

lemma honest_pos:
  assumes "xs \<noteq> []" and "length q = bit_len (length xs - 1)" and "path_pos q < length xs"
  shows "honest_leaf xs q = path_pos q"
    and "MerklePath (build_layers xs) (int (path_pos q)) = Inr (honest_path xs q)"
  using tree_proof_pos [OF assms] assms
  by (auto simp: honest_leaf_def honest_path_def MerklePath_def)

text \<open>A revealed field is bound through its leaf hash as well.\<close>

definition leaf_input :: "field_leaf \<Rightarrow> bytes" where
  "leaf_input f = Index f # Bytes f"

lemma leaf_input_inject: "leaf_input f = leaf_input g \<longleftrightarrow> f = g"
  by (cases f; cases g) (auto simp: leaf_input_def)

definition field_forgery :: "tx_fields \<Rightarrow> field_leaf \<Rightarrow> path_elem list \<Rightarrow> (bytes \<times> bytes) option" where
  "field_forgery fs f q =
     (let leaves = map leafHash fs in
      case forgery leaves (leafHash f) q of
        Some c \<Rightarrow> Some c
      | None \<Rightarrow> Some (leaf_input f, leaf_input (fs ! honest_leaf leaves q)))"

lemma field_binding:
  assumes "fs \<noteq> []" and "length q = bit_len (length fs - 1)"
    and "Fold (leafHash f) q = tree_root (map leafHash fs)"
  shows "f = fs ! honest_leaf (map leafHash fs) q \<or> exhibits (field_forgery fs f q)"
proof -
  let ?ls = "map leafHash fs"
  have b: "(leafHash f = ?ls ! honest_leaf ?ls q \<and> q = honest_path ?ls q) \<or> exhibits (forgery ?ls (leafHash f) q)"
    by (rule tree_binding) (use assms in auto)
  have i: "honest_leaf ?ls q < length fs"
    using honest_proof(1) [of ?ls q] assms by simp
  show ?thesis
  proof (cases "forgery ?ls (leafHash f) q")
    case (Some c)
    have "exhibits (forgery ?ls (leafHash f) q) \<or> f = fs ! honest_leaf ?ls q"
    proof (cases "exhibits (forgery ?ls (leafHash f) q)")
      case False
      then have "leafHash f = ?ls ! honest_leaf ?ls q" "q = honest_path ?ls q"
        using b by auto
      moreover have "fold_collision x p x p = None" for x p
        by (induction p arbitrary: x) auto
      ultimately have "forgery ?ls (leafHash f) q = None"
        by (simp add: forgery_def)
      with Some show ?thesis by simp
    qed simp
    with Some show ?thesis by (auto simp: field_forgery_def Let_def)
  next
    case None
    then have "leafHash f = leafHash (fs ! honest_leaf ?ls q)"
      using b i by auto
    then show ?thesis
      using None leaf_input_inject [of f "fs ! honest_leaf ?ls q"]
      by (auto simp: field_forgery_def Let_def collision_def leafHash_def leaf_input_def)
  qed
qed

section \<open>Slices with spare capacity\<close>

lemma contents_buf_append:
  "used s \<le> length (backing s) \<Longrightarrow> contents (buf_append grow s x) = contents s @ [x]"
  by (auto simp: contents_def buf_append_def take_Suc_conv_app_nth)

lemma buf_append_used: "used s \<le> length (backing s) \<Longrightarrow>
  used (buf_append grow s x) \<le> length (backing (buf_append grow s x))"
  by (auto simp: buf_append_def)

lemma path_into_loop_contents:
  "used dst \<le> length (backing dst) \<Longrightarrow>
   map_res contents (path_into_loop grow ls i dst) = path_loop ls i (contents dst)"
proof (induction ls arbitrary: i dst)
  case (Cons cur ls)
  then show ?case
    by (simp add: Let_def contents_buf_append buf_append_used split: sum.split)
qed simp

lemma path_into_loop_moves:
  "path_into_loop grow ls i dst = Inr dst' \<Longrightarrow> used dst + length ls \<le> length (backing dst) \<Longrightarrow>
   moves dst' = moves dst \<and> length (backing dst') = length (backing dst)"
proof (induction ls arbitrary: i dst)
  case (Cons cur ls)
  have "moves (buf_append grow dst e) = moves dst \<and>
        length (backing (buf_append grow dst e)) = length (backing dst) \<and>
        used (buf_append grow dst e) + length ls \<le> length (backing (buf_append grow dst e))" for e
    using Cons.prems by (simp add: buf_append_def)
  then show ?case
    using Cons.prems Cons.IH by (auto simp: Let_def split: if_splits sum.splits) metis+
qed simp

lemma path_loop_length: "path_loop ls i p = Inr q \<Longrightarrow> length q = length p + length ls"
  by (induction ls arbitrary: i p) (fastforce simp: Let_def split: if_splits sum.splits)+

lemma MerklePathInto_contents:
  "map_res contents (MerklePathInto grow layers i dst) = MerklePath layers i"
  using path_into_loop_contents [of "reslice0 dst" grow "butlast layers" "nat i"]
  by (simp add: MerklePathInto_def MerklePath_def contents_def reslice0_def)

lemma MerklePathInto_ok:
  assumes "MerklePath layers i = Inr p"
  obtains dst' where "MerklePathInto grow layers i dst = Inr dst'" and "contents dst' = p"
  using MerklePathInto_contents [of grow layers i dst] assms by auto

section \<open>Inner nodes and repeated tails\<close>

lemma build_layers_drop:
  "k < length (build_layers xs) \<Longrightarrow> drop k (build_layers xs) = build_layers (build_layers xs ! k)"
proof (induction xs arbitrary: k rule: build_layers.induct)
  case (1 xs)
  show ?case
  proof (cases k)
    case 0
    then show ?thesis
      by (metis drop_0 hd_build_layers hd_conv_nth build_layers_not_Nil)
  next
    case (Suc j)
    then have "1 < length xs"
      using "1.prems" by (cases "1 < length xs") (simp_all add: build_layers_single)
    then show ?thesis
      using 1 Suc by (simp add: build_layers_step)
  qed
qed

lemma tree_root_layer:
  "k < length (build_layers xs) \<Longrightarrow> tree_root (build_layers xs ! k) = tree_root xs"
  by (metis build_layers_drop last_drop tree_root_def)

lemma next_level_repeat: "even (length xs) \<Longrightarrow> next_level (xs @ [x]) = next_level (xs @ [x, x])"
  by (induction xs rule: next_level.induct) auto

lemma tree_root_repeat:
  "xs \<noteq> [] \<Longrightarrow> even (length xs) \<Longrightarrow> tree_root (xs @ [x]) = tree_root (xs @ [x, x])"
  using tree_root_step [of "xs @ [x]"] tree_root_step [of "xs @ [x, x]"] next_level_repeat [of xs x]
  by (cases xs) auto

section \<open>Properties\<close>

text \<open>
  C1. Every leaf of a built tree has a sibling path, the path folds back to the root, and its
  length is \<open>CeilLog2\<close> of the number of leaves (the depth law of the design).
\<close>

theorem merkle_path_verifies:
  assumes "i < length leaves" and "length leaves < 2 ^ 64"
  shows "\<exists>root layers path.
           BuildMerkleTree leaves = Inr (root, layers) \<and>
           MerklePath layers (int i) = Inr path \<and>
           Fold (leaves ! i) path = root \<and>
           length path = CeilLog2 (word_of_nat (length leaves))"
proof -
  obtain p where "MerklePath (build_layers leaves) (int i) = Inr p"
    and "Fold (leaves ! i) p = tree_root leaves" and "length p = bit_len (length leaves - 1)"
    using MerklePath_ok [OF assms(1)] .
  moreover have "CeilLog2 (word_of_nat (length leaves)) = bit_len (length leaves - 1)"
    by (rule CeilLog2_of_nat) (use assms in auto)
  ultimately show ?thesis
    using assms(1) by (auto simp: BuildMerkleTree_eq)
qed

theorem merkle_path_verifies_witness:
  "\<exists>root layers path.
     BuildMerkleTree [zero_hash, DoubleSHA256 [1], DoubleSHA256 [2]] = Inr (root, layers) \<and>
     MerklePath layers (int 2) = Inr path \<and>
     Fold (DoubleSHA256 [2]) path = root \<and> length path = CeilLog2 3"
  using merkle_path_verifies [of 2 "[zero_hash, DoubleSHA256 [1], DoubleSHA256 [2]]"] by simp

text \<open>
  C2. Soundness of inclusion (I-C1). A leaf and path of the tree's depth that fold to the root
  of a built tree are a leaf of that tree with its own siblings, at the position the
  directions spell; otherwise the forged pair exhibits two different inputs with the same
  SHA-256d digest, and \<open>forgery\<close> computes them.
\<close>

theorem merkle_root_binds:
  assumes "BuildMerkleTree leaves = Inr (root, layers)"
    and "length path + 1 = length layers" and "Fold leaf path = root"
  shows "(honest_leaf leaves path < length leaves \<and> leaf = leaves ! honest_leaf leaves path \<and>
          path = honest_path leaves path \<and>
          (path_pos path < length leaves \<longrightarrow>
             honest_leaf leaves path = path_pos path \<and>
             MerklePath layers (int (path_pos path)) = Inr path))
         \<or> exhibits (forgery leaves leaf path)"
proof -
  have ne: "leaves \<noteq> []" and root: "root = tree_root leaves" and layers: "layers = build_layers leaves"
    using assms(1) by (auto simp: BuildMerkleTree_eq split: if_splits)
  have len: "length path = bit_len (length leaves - 1)"
    using assms(2) layers length_build_layers [OF ne] by simp
  show ?thesis
  proof (cases "exhibits (forgery leaves leaf path)")
    case False
    then have "leaf = leaves ! honest_leaf leaves path" "path = honest_path leaves path"
      using tree_binding [OF ne len] assms(3) root by auto
    then show ?thesis
      using honest_proof(1) [OF ne len] honest_pos [OF ne len] layers by metis
  qed simp
qed

theorem merkle_root_binds_witness:
  "(honest_leaf [zero_hash, DoubleSHA256 []] [\<lparr>Sibling = zero_hash, Right = False\<rparr>] < 2 \<and>
    DoubleSHA256 [] = [zero_hash, DoubleSHA256 []] !
       honest_leaf [zero_hash, DoubleSHA256 []] [\<lparr>Sibling = zero_hash, Right = False\<rparr>])
   \<or> exhibits (forgery [zero_hash, DoubleSHA256 []] (DoubleSHA256 [])
       [\<lparr>Sibling = zero_hash, Right = False\<rparr>])"
  using merkle_root_binds [of "[zero_hash, DoubleSHA256 []]" "HashPair zero_hash (DoubleSHA256 [])"
      "[[zero_hash, DoubleSHA256 []], [HashPair zero_hash (DoubleSHA256 [])]]"
      "[\<lparr>Sibling = zero_hash, Right = False\<rparr>]" "DoubleSHA256 []"]
  by (auto simp: BuildMerkleTree_def build_layers.simps fold_step_def)

text \<open>
  \<open>CeilLog2\<close> is exact on every 64-bit argument: the least exponent whose power of two
  reaches \<open>n\<close>.
\<close>

theorem CeilLog2_exact:
  "CeilLog2 n \<le> k \<longleftrightarrow> unat n \<le> 2 ^ k"
proof (cases "n \<le> 1")
  case True
  then have "unat n \<le> 1" by (simp add: word_le_nat_alt)
  moreover have "(1::nat) \<le> 2 ^ k" by simp
  ultimately have "unat n \<le> 2 ^ k" by linarith
  then show ?thesis using True by (simp add: CeilLog2_def)
next
  case False
  then have "1 < unat n" by (simp add: word_le_nat_alt)
  moreover from this have "unat (n - 1) = unat n - 1"
    by (metis less_imp_le_nat unat_1 unat_sub word_le_nat_alt)
  ultimately show ?thesis
    using False by (simp add: CeilLog2_def Len64_def bit_len_le_iff) linarith
qed

text \<open>
  \<open>MerklePathInto\<close> computes the path of \<open>MerklePath\<close> (or its error) whatever the buffer
  held before, and with room for the whole path it never reallocates.
\<close>

theorem MerklePathInto_refines:
  "map_res contents (MerklePathInto grow layers i dst) = MerklePath layers i \<and>
   (\<forall>dst'. length layers \<le> length (backing dst) + 1 \<longrightarrow>
      MerklePathInto grow layers i dst = Inr dst' \<longrightarrow>
      moves dst' = moves dst \<and> length (backing dst') = length (backing dst))"
proof -
  have "map_res contents (MerklePathInto grow layers i dst) = MerklePath layers i"
    by (rule MerklePathInto_contents)
  moreover have "moves dst' = moves dst \<and> length (backing dst') = length (backing dst)"
    if "length layers \<le> length (backing dst) + 1" "MerklePathInto grow layers i dst = Inr dst'" for dst'
    using that path_into_loop_moves [of grow "butlast layers" "nat i" "reslice0 dst" dst']
    by (simp add: MerklePathInto_def reslice0_def split: if_splits)
  ultimately show ?thesis by blast
qed

theorem MerklePathInto_refines_witness:
  "map_res contents (MerklePathInto (\<lambda>_. []) [[zero_hash, DoubleSHA256 []], [zero_hash]] 1
     \<lparr>backing = [\<lparr>Sibling = zero_hash, Right = True\<rparr>], used = 1, moves = 0\<rparr>)
   = MerklePath [[zero_hash, DoubleSHA256 []], [zero_hash]] 1 \<and>
   MerklePath [[zero_hash, DoubleSHA256 []], [zero_hash]] 1
     = Inr [\<lparr>Sibling = zero_hash, Right = False\<rparr>]"
  using MerklePathInto_refines [of "\<lambda>_. []" "[[zero_hash, DoubleSHA256 []], [zero_hash]]" 1
      "\<lparr>backing = [\<lparr>Sibling = zero_hash, Right = True\<rparr>], used = 1, moves = 0\<rparr>"]
  by (simp add: MerklePath_def)

text \<open>
  C3. Minimal reveal at L0: the path of one field verifies against the transaction id, and
  whoever verifies a path of that depth against the id holds the field at the position of
  the directions (index and content), or the revealed pair exhibits a SHA-256d collision.
\<close>

theorem field_reveal_sound:
  assumes "MTxIDPath fs k = Inr (leaf, path, mtxid)" and "length fs < 256"
  shows "leaf = LeafForField (fs ! unat k) \<and> VerifyMTxIDPath leaf path mtxid \<and>
         (\<forall>g q. length q = length path \<longrightarrow> VerifyMTxIDPath (LeafForField g) q mtxid \<longrightarrow>
            g \<in> set fs \<or> exhibits (field_forgery fs g q))"
proof -
  let ?ls = "map leafHash fs"
  have k: "unat k < length fs" and ne: "fs \<noteq> []"
    and m: "mtxid = tree_root ?ls" and leaf: "leaf = leafHash (fs ! unat k)"
    and p: "MerklePath (build_layers ?ls) (int (unat k)) = Inr path"
    using assms(1)
    by (auto simp: MTxIDPath_def BuildMTxID_def BuildMerkleTree_eq split: if_splits sum.splits)
  from MerklePath_Fold [OF p] k have path: "Fold leaf path = mtxid"
    "length path = bit_len (length fs - 1)"
    by (auto simp: leaf m)
  have "bit_len (length fs - 1) \<le> 8"
    using assms(2) by (simp add: bit_len_le_iff)
  then have "length path \<le> MaxDepth"
    using path by (simp add: MaxDepth_def)
  moreover have "g \<in> set fs \<or> exhibits (field_forgery fs g q)"
    if "length q = length path" "VerifyMTxIDPath (LeafForField g) q mtxid" for g q
  proof -
    have "length q = bit_len (length fs - 1)" "Fold (leafHash g) q = tree_root ?ls"
      using that path m by (auto simp: VerifyMTxIDPath_def LeafForField_def split: if_splits)
    then show ?thesis
      using field_binding [OF ne] honest_proof(1) [of ?ls q] ne by fastforce
  qed
  ultimately show ?thesis
    using leaf path by (auto simp: VerifyMTxIDPath_def LeafForField_def)
qed

theorem field_reveal_sound_witness:
  "VerifyMTxIDPath (leafHash \<lparr>Index = 1, Bytes = [7]\<rparr>)
     [\<lparr>Sibling = leafHash \<lparr>Index = 0, Bytes = []\<rparr>, Right = False\<rparr>]
     (HashPair (leafHash \<lparr>Index = 0, Bytes = []\<rparr>) (leafHash \<lparr>Index = 1, Bytes = [7]\<rparr>))"
  using field_reveal_sound [of "[\<lparr>Index = 0, Bytes = []\<rparr>, \<lparr>Index = 1, Bytes = [7]\<rparr>]" 1
      "leafHash \<lparr>Index = 1, Bytes = [7]\<rparr>"
      "[\<lparr>Sibling = leafHash \<lparr>Index = 0, Bytes = []\<rparr>, Right = False\<rparr>]"
      "HashPair (leafHash \<lparr>Index = 0, Bytes = []\<rparr>) (leafHash \<lparr>Index = 1, Bytes = [7]\<rparr>)"]
  by (auto simp: MTxIDPath_def BuildMTxID_def BuildMerkleTree_def build_layers.simps MerklePath_def)

text \<open>
  The depth of the path is not part of what a root commits to: every inner node of a tree
  verifies as a leaf with the rest of the path, and an odd list and the same list with its
  last element repeated have the same root. The soundness above needs the depth.
\<close>

theorem root_ambiguity:
  assumes "BuildMerkleTree leaves = Inr (root, layers)"
  shows "(\<forall>k j. k < length layers \<longrightarrow> j < length (layers ! k) \<longrightarrow>
            (\<exists>path. MerklePath (drop k layers) (int j) = Inr path \<and>
                    Fold (layers ! k ! j) path = root)) \<and>
         (odd (length leaves) \<longrightarrow> 1 < length leaves \<longrightarrow>
            MerkleRoot (leaves @ [last leaves]) = Inr root)"
proof -
  have ne: "leaves \<noteq> []" and root: "root = tree_root leaves" and layers: "layers = build_layers leaves"
    using assms(1) by (auto simp: BuildMerkleTree_eq split: if_splits)
  have "\<exists>path. MerklePath (drop k layers) (int j) = Inr path \<and> Fold (layers ! k ! j) path = root"
    if "k < length layers" "j < length (layers ! k)" for k j
    using MerklePath_ok [of j "layers ! k"] that build_layers_drop [of k leaves]
      tree_root_layer [of k leaves] by (metis layers root)
  moreover have "MerkleRoot (leaves @ [last leaves]) = Inr root"
    if o: "odd (length leaves)" "1 < length leaves"
  proof -
    obtain ys y where l: "leaves = ys @ [y]"
      using ne by (metis append_butlast_last_id)
    then have "ys \<noteq> []" "even (length ys)" using o by auto
    then show ?thesis
      using tree_root_repeat [of ys y] by (simp add: l root MerkleRoot_eq)
  qed
  ultimately show ?thesis by blast
qed

theorem root_ambiguity_witness:
  "MerkleRoot [zero_hash, DoubleSHA256 [], DoubleSHA256 [1], DoubleSHA256 [1]]
   = MerkleRoot [zero_hash, DoubleSHA256 [], DoubleSHA256 [1]]"
  using root_ambiguity [of "[zero_hash, DoubleSHA256 [], DoubleSHA256 [1]]"
      "tree_root [zero_hash, DoubleSHA256 [], DoubleSHA256 [1]]"
      "build_layers [zero_hash, DoubleSHA256 [], DoubleSHA256 [1]]"]
  by (simp add: BuildMerkleTree_eq MerkleRoot_eq)

end
