(* ===== verification/Sha256mb.thy ===== *)
theory Sha256mb
  imports Commitment
begin

text \<open>
  Package \<open>sha256mb\<close> (src/internal/sha256mb): SHA-256d of 16 messages at a time. Modelled are the
  Go sides of both builds, sha256x16_amd64.go and the scalar sha256x16_other.go.

  The assembly kernel \<open>sha256X16Avx512\<close> is third-party machine code and a parameter: a function of
  the transposed digests, the scratch memory, the round table, the block masks and the inputs. What
  the code relies on is the hypothesis \<open>kernel_law\<close>, the documented behaviour of
  minio/sha256-simd: lane \<open>i\<close> of the digests is compressed with block \<open>b\<close> of input \<open>i\<close> for every
  mask \<open>b\<close> whose bit \<open>i\<close> is set. Nothing is asked for an empty list of masks, of which the assembly
  reads the first before it tests the length; the code passes one or two. \<open>ref_kernel\<close> is a function with that behaviour.

  \<open>in1[i]\<close> and \<open>in2[i]\<close> are slices of all of \<open>b1[i]\<close> and \<open>b2[i]\<close>; reading them is reading the arrays.
\<close>

section \<open>Writing into an array\<close>

text \<open>\<open>copy(b[ofs:], x)\<close> and the \<open>Put\<close> functions of \<open>encoding/binary\<close>, where \<open>x\<close> fits.\<close>

definition write_at :: "bytes \<Rightarrow> nat \<Rightarrow> bytes \<Rightarrow> bytes" where
  "write_at b ofs x = take ofs b @ x @ drop (ofs + length x) b"

lemma length_write_at [simp]: "ofs + length x \<le> length b \<Longrightarrow> length (write_at b ofs x) = length b"
  by (simp add: write_at_def)

lemma read_written: "ofs + length x \<le> length b \<Longrightarrow> j = ofs + length x \<Longrightarrow> go_slice (write_at b ofs x) ofs j = x"
  by (simp add: write_at_def go_slice_def)

lemma read_beside:
  assumes "ofs + length x \<le> length b" and "i \<le> j" and "j \<le> ofs \<or> ofs + length x \<le> i" and "j \<le> length b"
  shows "go_slice (write_at b ofs x) i j = go_slice b i j"
proof (rule nth_equalityI)
  fix k assume "k < length (go_slice (write_at b ofs x) i j)"
  then have k: "i + k < j" using assms by simp
  have "write_at b ofs x ! (i + k) = b ! (i + k)"
    using assms k by (auto simp: write_at_def nth_append)
  then show "go_slice (write_at b ofs x) i j ! k = go_slice b i j ! k"
    using assms k by (simp add: nth_go_slice)
qed (use assms in simp)

section \<open>The kernel and its tables\<close>

text \<open>
  The 512 entries of \<open>table\<close> are 64 rows of eight equal ones, one row per round: each round constant
  doubled to 64 bits, for the eight 64-bit words of a vector.
\<close>

definition table_rows :: "u64 list" where
  "table_rows = [
   0x428a2f98428a2f98, 0x7137449171374491, 0xb5c0fbcfb5c0fbcf, 0xe9b5dba5e9b5dba5,
   0x3956c25b3956c25b, 0x59f111f159f111f1, 0x923f82a4923f82a4, 0xab1c5ed5ab1c5ed5,
   0xd807aa98d807aa98, 0x12835b0112835b01, 0x243185be243185be, 0x550c7dc3550c7dc3,
   0x72be5d7472be5d74, 0x80deb1fe80deb1fe, 0x9bdc06a79bdc06a7, 0xc19bf174c19bf174,
   0xe49b69c1e49b69c1, 0xefbe4786efbe4786, 0x0fc19dc60fc19dc6, 0x240ca1cc240ca1cc,
   0x2de92c6f2de92c6f, 0x4a7484aa4a7484aa, 0x5cb0a9dc5cb0a9dc, 0x76f988da76f988da,
   0x983e5152983e5152, 0xa831c66da831c66d, 0xb00327c8b00327c8, 0xbf597fc7bf597fc7,
   0xc6e00bf3c6e00bf3, 0xd5a79147d5a79147, 0x06ca635106ca6351, 0x1429296714292967,
   0x27b70a8527b70a85, 0x2e1b21382e1b2138, 0x4d2c6dfc4d2c6dfc, 0x53380d1353380d13,
   0x650a7354650a7354, 0x766a0abb766a0abb, 0x81c2c92e81c2c92e, 0x92722c8592722c85,
   0xa2bfe8a1a2bfe8a1, 0xa81a664ba81a664b, 0xc24b8b70c24b8b70, 0xc76c51a3c76c51a3,
   0xd192e819d192e819, 0xd6990624d6990624, 0xf40e3585f40e3585, 0x106aa070106aa070,
   0x19a4c11619a4c116, 0x1e376c081e376c08, 0x2748774c2748774c, 0x34b0bcb534b0bcb5,
   0x391c0cb3391c0cb3, 0x4ed8aa4a4ed8aa4a, 0x5b9cca4f5b9cca4f, 0x682e6ff3682e6ff3,
   0x748f82ee748f82ee, 0x78a5636f78a5636f, 0x84c8781484c87814, 0x8cc702088cc70208,
   0x90befffa90befffa, 0xa4506ceba4506ceb, 0xbef9a3f7bef9a3f7, 0xc67178f2c67178f2]"

definition table :: "u64 list" where
  "table = concat (map (replicate 8) table_rows)"

definition sha_init :: "u32 list" where
  "sha_init = [0x6A09E667, 0xBB67AE85, 0x3C6EF372, 0xA54FF53A, 0x510E527F, 0x9B05688C, 0x1F83D9AB, 0x5BE0CD19]"

text \<open>Arguments: digests, scratch, table, masks, inputs. Results: what is then in digests and scratch.\<close>

type_synonym x16_kernel = "bytes \<Rightarrow> bytes \<Rightarrow> u64 list \<Rightarrow> u64 list \<Rightarrow> bytes list \<Rightarrow> bytes \<times> bytes"

text \<open>The processor: the cpuid flags and the kernel.\<close>

record x16_cpu =
  hasAVX512 :: bool
  sha256X16Avx512 :: x16_kernel

definition Available :: "x16_cpu \<Rightarrow> bool" where
  "Available cpu = hasAVX512 cpu"

section \<open>Digests of the lanes\<close>

text \<open>
  \<open>getDigest\<close>: \<open>j\<close> runs over 0, 2, \<dots>, 14, and the inner loop, whose step is the width of its range,
  over one \<open>i\<close> each.
\<close>

definition getDigest :: "nat \<Rightarrow> bytes \<Rightarrow> 32 barray" where
  "getDigest index st =
     barray_of (fold (\<lambda>j sum. let i = index * 4 + j * 32 in
         write_at sum (j * 2) (be_bytes 4 (le_word (go_slice st i (i + 4)) :: u32)))
       (map ((*) 2) [0..<8]) (replicate 32 0))"

definition init_lane :: "nat \<Rightarrow> bytes \<Rightarrow> bytes" where
  "init_lane i d =
     fold (\<lambda>k d. write_at d ((i + k * 16) * 4) (le_bytes 4 (sha_init ! k))) [0..<8] d"

definition initialState :: bytes where
  "initialState = fold init_lane [0..<16] (replicate 512 0)"

definition blockAvx512 :: "x16_cpu \<Rightarrow> bytes \<Rightarrow> bytes list \<Rightarrow> u64 list \<Rightarrow> 32 barray list" where
  "blockAvx512 cpu digests input masks =
     (let (digests, _) = sha256X16Avx512 cpu digests (replicate 512 0) table masks input
      in map (\<lambda>i. getDigest i digests) [0..<16])"

section \<open>Sixteen messages\<close>

text \<open>The scalar fallback, which is all of sha256x16_other.go.\<close>

definition scalar_x16 :: "64 barray list \<Rightarrow> 32 barray list" where
  "scalar_x16 msgs = map (\<lambda>i. let h = sha256 (bytes_of (msgs ! i)) in sha256 (bytes_of h)) [0..<16]"

definition DoubleSHA256x16 :: "x16_cpu \<Rightarrow> 64 barray list \<Rightarrow> 32 barray list" where
  "DoubleSHA256x16 cpu msgs =
     (if \<not> hasAVX512 cpu then scalar_x16 msgs
      else
        let in1 = map (\<lambda>i. write_at (write_at (write_at (replicate 128 0) 0 (bytes_of (msgs ! i))) 64 [0x80])
                             120 (be_bytes 8 (512 :: u64))) [0..<16];
            h1 = blockAvx512 cpu initialState in1 [0xffff, 0xffff];
            in2 = map (\<lambda>i. write_at (write_at (write_at (replicate 64 0) 0 (bytes_of (h1 ! i))) 32 [0x80])
                             56 (be_bytes 8 (256 :: u64))) [0..<16]
        in blockAvx512 cpu initialState in2 [0xffff])"

section \<open>The reusable context\<close>

record x16_hasher =
  scratch :: bytes
  lane_state :: bytes
  b1 :: "bytes list"
  b2 :: "bytes list"

definition NewHasher :: x16_hasher where
  "NewHasher =
     \<lparr>scratch = replicate 512 0, lane_state = replicate 512 0,
      b1 = map (\<lambda>i. write_at (write_at (replicate 128 0) 64 [0x80]) 120 (be_bytes 8 (512 :: u64))) [0..<16],
      b2 = map (\<lambda>i. write_at (write_at (replicate 64 0) 32 [0x80]) 56 (be_bytes 8 (256 :: u64))) [0..<16]\<rparr>"

definition hasher_x16 :: "x16_cpu \<Rightarrow> x16_hasher \<Rightarrow> 64 barray list \<Rightarrow> x16_hasher \<times> 32 barray list" where
  "hasher_x16 cpu h msgs =
     (if \<not> hasAVX512 cpu then (h, scalar_x16 msgs)
      else
        let in1 = map (\<lambda>i. write_at (b1 h ! i) 0 (bytes_of (msgs ! i))) [0..<16];
            (st, sc) = sha256X16Avx512 cpu initialState (scratch h) table [0xffff, 0xffff] in1;
            in2 = map (\<lambda>i. write_at (b2 h ! i) 0 (bytes_of (getDigest i st))) [0..<16];
            (st, sc) = sha256X16Avx512 cpu initialState sc table [0xffff] in2
        in (h\<lparr>scratch := sc, lane_state := st, b1 := in1, b2 := in2\<rparr>, map (\<lambda>i. getDigest i st) [0..<16]))"

section \<open>What the kernel is documented to do\<close>

text \<open>Word \<open>k\<close> of lane \<open>i\<close> of the transposed digests, and the lane.\<close>

definition slot :: "nat \<Rightarrow> nat \<Rightarrow> nat" where
  "slot i k = (i + k * 16) * 4"

definition lane_word :: "bytes \<Rightarrow> nat \<Rightarrow> nat \<Rightarrow> u32" where
  "lane_word d i k = le_word (go_slice d (slot i k) (slot i k + 4))"

definition lane :: "bytes \<Rightarrow> nat \<Rightarrow> u32 list" where
  "lane d i = map (lane_word d i) [0..<8]"

definition round_table :: "u64 list \<Rightarrow> bool" where
  "round_table tbl \<longleftrightarrow> tbl = concat (map (\<lambda>k. replicate 8 (push_bit 32 (ucast k) OR ucast k)) sha_k)"

text \<open>The blocks of lane \<open>i\<close> that the masks select.\<close>

definition lane_blocks :: "u64 list \<Rightarrow> bytes \<Rightarrow> nat \<Rightarrow> u32 list \<Rightarrow> u32 list" where
  "lane_blocks masks input i hs =
     fold (\<lambda>b hs. if bit (masks ! b) i then sha_compress hs (go_slice input (64 * b) (64 * b + 64)) else hs)
       [0..<length masks] hs"

definition kernel_law :: "x16_kernel \<Rightarrow> bool" where
  "kernel_law run \<longleftrightarrow>
     (\<forall>d sc tbl masks inputs.
        length d = 512 \<longrightarrow> round_table tbl \<longrightarrow> masks \<noteq> [] \<longrightarrow> length inputs = 16 \<longrightarrow>
        (\<forall>i<16. 64 * length masks \<le> length (inputs ! i)) \<longrightarrow>
        length (fst (run d sc tbl masks inputs)) = 512 \<and>
        (\<forall>i<16. lane (fst (run d sc tbl masks inputs)) i = lane_blocks masks (inputs ! i) i (lane d i)))"

text \<open>A function with this behaviour.\<close>

definition ref_kernel :: x16_kernel where
  "ref_kernel d sc tbl masks inputs =
     (concat (map (\<lambda>n. le_bytes 4 (lane_blocks masks (inputs ! (n mod 16)) (n mod 16) (lane d (n mod 16)) ! (n div 16)))
        [0..<128]), sc)"

section \<open>Lanes\<close>

lemma round_table_table: "round_table table"
proof -
  have "map (\<lambda>k. push_bit 32 (ucast k) OR ucast k) sha_k = table_rows"
    by (simp add: sha_k_def table_rows_def)
  then have "concat (map (replicate 8) (map (\<lambda>k. push_bit 32 (ucast k) OR ucast k) sha_k)) = table"
    by (simp only: table_def)
  then show ?thesis by (simp add: round_table_def comp_def)
qed

lemma slot_bound: "i < 16 \<Longrightarrow> k < 8 \<Longrightarrow> slot i k + 4 \<le> 512"
  by (simp add: slot_def)

lemma slot_apart:
  assumes "i < 16" and "i' < 16" and "(i, k) \<noteq> (i', k')"
  shows "slot i k + 4 \<le> slot i' k' \<or> slot i' k' + 4 \<le> slot i k"
proof -
  have "i + k * 16 \<noteq> i' + k' * 16"
  proof
    assume e: "i + k * 16 = i' + k' * 16"
    have "(i + k * 16) mod 16 = i" "(i' + k' * 16) mod 16 = i'" using assms by simp_all
    then have "i = i'" using e by simp
    then show False using e assms(3) by simp
  qed
  then show ?thesis by (simp add: slot_def) linarith
qed

lemma lane_word_write:
  assumes "length d = 512" and "i < 16" and "k < 8" and "i' < 16" and "k' < 8"
  shows "lane_word (write_at d (slot i k) (le_bytes 4 w)) i' k' = (if i' = i \<and> k' = k then w else lane_word d i' k')"
proof (cases "(i, k) = (i', k')")
  case True
  then show ?thesis using assms slot_bound [of i k]
    by (simp add: lane_word_def read_written le_word_le_bytes)
next
  case False
  then have "go_slice (write_at d (slot i k) (le_bytes 4 w)) (slot i' k') (slot i' k' + 4) = go_slice d (slot i' k') (slot i' k' + 4)"
    using assms slot_bound slot_apart [of i i' k k'] by (intro read_beside) auto
  then show ?thesis using False by (auto simp: lane_word_def)
qed

lemma init_lane_writes:
  assumes "length d = 512" and "i < 16" and "n \<le> 8"
  shows "length (fold (\<lambda>k d. write_at d (slot i k) (le_bytes 4 (ws ! k :: u32))) [0..<n] d) = 512 \<and>
    (\<forall>i' k. i' < 16 \<longrightarrow> k < 8 \<longrightarrow>
       lane_word (fold (\<lambda>k d. write_at d (slot i k) (le_bytes 4 (ws ! k))) [0..<n] d) i' k
         = (if i' = i \<and> k < n then ws ! k else lane_word d i' k))"
  using assms(3)
proof (induction n)
  case (Suc n)
  then show ?case using assms(1,2) slot_bound [of i n] by (auto simp: lane_word_write less_Suc_eq)
qed (use assms in simp)

lemma init_lanes:
  "n \<le> 16 \<Longrightarrow> length (fold init_lane [0..<n] (replicate 512 0)) = 512 \<and>
     (\<forall>i k. i < n \<longrightarrow> k < 8 \<longrightarrow> lane_word (fold init_lane [0..<n] (replicate 512 0)) i k = sha_init ! k)"
proof (induction n)
  case (Suc n)
  let ?d = "fold init_lane [0..<n] (replicate 512 0)"
  have "init_lane n ?d = fold (\<lambda>k d. write_at d (slot n k) (le_bytes 4 (sha_init ! k))) [0..<8] ?d"
    by (simp only: init_lane_def slot_def)
  then show ?case using Suc init_lane_writes [of ?d n 8 sha_init] by (simp add: less_Suc_eq)
qed simp

lemma length_initialState: "length initialState = 512"
  using init_lanes [of 16] by (simp add: initialState_def)

lemma initial_lane: "i < 16 \<Longrightarrow> lane initialState i = sha_h0"
proof -
  assume "i < 16"
  then have "lane initialState i = map (\<lambda>k. sha_init ! k) [0..<8]"
    using init_lanes [of 16] by (simp add: lane_def initialState_def)
  moreover have "map (\<lambda>k. sha_init ! k) [0..<8] = sha_h0" by code_simp
  ultimately show ?thesis by simp
qed

lemma fold_writes:
  assumes "\<And>k. length (f k) = 4" and "4 * n \<le> length s"
  shows "fold (\<lambda>k s. write_at s (4 * k) (f k)) [0..<n] s = concat (map f [0..<n]) @ drop (4 * n) s"
  using assms(2)
proof (induction n)
  case (Suc n)
  have "length (concat (map f [0..<n])) = 4 * n" using assms(1) by (induction n) simp_all
  then show ?case using Suc assms(1) by (simp add: write_at_def)
qed simp

text \<open>\<open>getDigest\<close> is the big-endian digest of the lane.\<close>

lemma getDigest_lane: "getDigest i d = barray_of (concat (map (be_bytes 4) (lane d i)))"
proof -
  have "fold (\<lambda>j sum. let i = i * 4 + j * 32 in write_at sum (j * 2) (be_bytes 4 (le_word (go_slice d i (i + 4)) :: u32)))
      (map ((*) 2) [0..<8]) (replicate 32 0)
    = fold (\<lambda>k s. write_at s (4 * k) (be_bytes 4 (lane_word d i k))) [0..<8] (replicate 32 0)"
    by (simp add: fold_map comp_def lane_word_def slot_def Let_def algebra_simps)
  also have "\<dots> = concat (map (be_bytes 4) (lane d i))"
    by (subst fold_writes) (simp_all add: lane_def comp_def)
  finally show ?thesis by (simp only: getDigest_def)
qed

text \<open>The reference kernel.\<close>

lemma go_slice_chunk:
  assumes "\<And>n. length (f n) = 4" and "n < m"
  shows "go_slice (concat (map f [0..<m])) (4 * n) (4 * n + 4) = f n"
proof -
  have len: "length (concat (map f [0..<k])) = 4 * k" for k using assms(1) by (induction k) simp_all
  have "[0..<m] = [0..<n] @ n # [Suc n..<m]" using assms(2) upt_add_eq_append [of 0 n "m - n"] by (simp add: upt_conv_Cons)
  then have "concat (map f [0..<m]) = concat (map f [0..<n]) @ f n @ concat (map f [Suc n..<m])" by simp
  then show ?thesis using len [of n] assms(1) by (simp add: go_slice_def)
qed

lemma length_lane_blocks: "length hs = 8 \<Longrightarrow> length (lane_blocks masks input i hs) = 8"
  unfolding lane_blocks_def by (rule fold_invariant [where Q = "\<lambda>_. True"]) auto

lemma ref_kernel_law: "kernel_law ref_kernel"
  unfolding kernel_law_def
proof (intro allI impI conjI)
  fix d sc :: bytes and tbl masks :: "u64 list" and inputs :: "bytes list" and i :: nat
  let ?f = "\<lambda>n. le_bytes 4 (lane_blocks masks (inputs ! (n mod 16)) (n mod 16) (lane d (n mod 16)) ! (n div 16))"
  have out: "fst (ref_kernel d sc tbl masks inputs) = concat (map ?f [0..<128])" by (simp add: ref_kernel_def)
  have len: "length (concat (map ?f [0..<k])) = 4 * k" for k by (induction k) simp_all
  show "length (fst (ref_kernel d sc tbl masks inputs)) = 512" unfolding out len by simp
  assume i: "i < 16"
  let ?l = "lane_blocks masks (inputs ! i) i (lane d i)"
  have "lane_word (fst (ref_kernel d sc tbl masks inputs)) i k = ?l ! k" if "k < 8" for k
  proof -
    have "go_slice (concat (map ?f [0..<128])) (slot i k) (slot i k + 4) = ?f (i + k * 16)"
      using go_slice_chunk [of ?f "i + k * 16" 128] i that by (simp add: slot_def mult.commute)
    then show ?thesis using i by (simp add: lane_word_def out le_word_le_bytes)
  qed
  then have "lane (fst (ref_kernel d sc tbl masks inputs)) i = map ((!) ?l) [0..<8]" by (simp add: lane_def)
  also have "\<dots> = ?l" using length_lane_blocks [of "lane d i" masks] by (metis length_map lane_def length_upt map_nth minus_nat.diff_0)
  finally show "lane (fst (ref_kernel d sc tbl masks inputs)) i = ?l" .
qed

section \<open>One call of the kernel is SHA-256 in every lane\<close>

lemma lane_blocks_all:
  "i < 16 \<Longrightarrow> length x = 64 * n \<Longrightarrow> lane_blocks (replicate n 0xffff) x i hs = sha_blocks hs x"
proof (induction n arbitrary: hs x)
  case 0
  then show ?case by (simp add: lane_blocks_def sha_blocks.simps)
next
  case (Suc n)
  have "bit (mask 16 :: u64) i" using Suc.prems(1) by (simp add: bit_mask_iff)
  then have on: "bit (0xffff :: u64) i" by (simp add: mask_eq_exp_minus_1)
  have upt: "[0..<Suc n] = 0 # map Suc [0..<n]" by (simp add: map_Suc_upt upt_conv_Cons)
  have rest: "go_slice x (64 * Suc b) (64 * Suc b + 64) = go_slice (drop 64 x) (64 * b) (64 * b + 64)" for b
    by (simp add: go_slice_def add.commute)
  have nth: "(replicate (Suc n) 0xffff :: u64 list) ! b = 0xffff" if "b < Suc n" for b
    using that by (simp only: nth_replicate)
  have "lane_blocks (replicate (Suc n) 0xffff) x i hs
      = fold (\<lambda>b hs. sha_compress hs (go_slice x (64 * b) (64 * b + 64))) [0..<Suc n] hs"
    unfolding lane_blocks_def length_replicate by (rule List.fold_cong) (use on nth in auto)
  also have "\<dots> = fold (\<lambda>b hs. sha_compress hs (go_slice (drop 64 x) (64 * b) (64 * b + 64))) [0..<n]
      (sha_compress hs (take 64 x))"
    unfolding upt by (simp only: fold.simps fold_map comp_def rest) (simp add: go_slice_def [of x 0])
  also have "\<dots> = lane_blocks (replicate n 0xffff) (drop 64 x) i (sha_compress hs (take 64 x))"
    unfolding lane_blocks_def length_replicate by (rule List.fold_cong) (use on in auto)
  also have "\<dots> = sha_blocks (sha_compress hs (take 64 x)) (drop 64 x)" using Suc by simp
  finally show ?case using Suc.prems by (subst sha_blocks.simps) simp
qed

lemma kernel_sha256:
  assumes "kernel_law run" and "length inputs = 16" and "i < 16" and "\<And>k. k < 16 \<Longrightarrow> length (inputs ! k) = 64 * n"
    and "inputs ! i = sha_pad m"
  shows "getDigest i (fst (run initialState sc table (replicate n 0xffff) inputs)) = sha256 m"
proof -
  let ?d = "fst (run initialState sc table (replicate n 0xffff) inputs)"
  have "0 < n" using assms(4) [OF assms(3)] assms(5) by (cases n) (simp_all add: sha_pad_def)
  have "lane ?d i = lane_blocks (replicate n 0xffff) (inputs ! i) i (lane initialState i)"
    using assms(1-4) \<open>0 < n\<close> length_initialState round_table_table unfolding kernel_law_def by simp
  also have "\<dots> = sha_blocks sha_h0 (sha_pad m)"
    using assms(4) [OF assms(3)] assms(5) lane_blocks_all [OF assms(3), of "inputs ! i" n] initial_lane [OF assms(3)]
    by simp
  finally show ?thesis by (simp add: getDigest_lane sha256_def)
qed

text \<open>The padding the code writes is the padding of the standard.\<close>

definition tail64 :: bytes where
  "tail64 = [0x80] @ replicate 55 0 @ be_bytes 8 (512 :: u64)"

definition tail32 :: bytes where
  "tail32 = [0x80] @ replicate 23 0 @ be_bytes 8 (256 :: u64)"

lemma length_tails [simp]: "length tail64 = 64" "length tail32 = 32"
  by (simp_all add: tail64_def tail32_def)

lemma sha_pad_64: "sha_pad (bytes_of (m :: 64 barray)) = bytes_of m @ tail64"
  by (simp add: sha_pad_def tail64_def)

lemma sha_pad_32: "sha_pad (bytes_of (m :: 32 barray)) = bytes_of m @ tail32"
  by (simp add: sha_pad_def tail32_def)

lemma padded_128:
  "write_at (write_at (replicate 128 0) 64 [0x80]) 120 (be_bytes 8 (512 :: u64)) = replicate 64 0 @ tail64"
  by (simp add: write_at_def tail64_def flip: replicate_add)

lemma padded_64:
  "write_at (write_at (replicate 64 0) 32 [0x80]) 56 (be_bytes 8 (256 :: u64)) = replicate 32 0 @ tail32"
  by (simp add: write_at_def tail32_def flip: replicate_add)

lemma write_front: "length x = length y \<Longrightarrow> write_at (y @ t) 0 x = x @ t"
  by (simp add: write_at_def)

lemma padded_block_128:
  "write_at (write_at (write_at (replicate 128 0) 0 (bytes_of (m :: 64 barray))) 64 [0x80]) 120 (be_bytes 8 (512 :: u64))
     = sha_pad (bytes_of m)"
  by (simp add: sha_pad_64 tail64_def write_at_def flip: replicate_add)

lemma padded_block_64:
  "write_at (write_at (write_at (replicate 64 0) 0 (bytes_of (m :: 32 barray))) 32 [0x80]) 56 (be_bytes 8 (256 :: u64))
     = sha_pad (bytes_of m)"
  by (simp add: sha_pad_32 tail32_def write_at_def flip: replicate_add)

lemma scalar_x16_eq: "length msgs = 16 \<Longrightarrow> scalar_x16 msgs = map (\<lambda>m. DoubleSHA256 (bytes_of m)) msgs"
  by (rule nth_equalityI) (simp_all add: scalar_x16_def DoubleSHA256_def Let_def)

lemma two_rounds:
  assumes "kernel_law run" and "length msgs = 16" and "i < 16"
    and "in1 = map (\<lambda>i. sha_pad (bytes_of (msgs ! i :: 64 barray))) [0..<16]"
    and "\<And>k. k < 16 \<Longrightarrow> in2 ! k = sha_pad (bytes_of (getDigest k (fst (run initialState sc table [0xffff, 0xffff] in1))))"
    and "length in2 = 16"
  shows "getDigest i (fst (run initialState sc' table [0xffff] in2)) = DoubleSHA256 (bytes_of (msgs ! i))"
proof -
  have two: "[0xffff, 0xffff] = replicate 2 (0xffff :: u64)" and one: "[0xffff] = replicate 1 (0xffff :: u64)"
    by (simp_all add: numeral_2_eq_2)
  have "getDigest k (fst (run initialState sc table [0xffff, 0xffff] in1)) = sha256 (bytes_of (msgs ! k))" if "k < 16" for k
    unfolding two by (rule kernel_sha256 [OF assms(1)]) (use that assms(4) in \<open>simp_all add: sha_pad_64\<close>)
  then have in2: "in2 ! k = sha_pad (bytes_of (sha256 (bytes_of (msgs ! k))))" if "k < 16" for k
    using assms(5) that by simp
  show ?thesis unfolding one DoubleSHA256_def Let_def
    by (rule kernel_sha256 [OF assms(1)]) (use assms(3,6) in2 in \<open>simp_all add: sha_pad_32\<close>)
qed

section \<open>The interface the verifiers use\<close>

text \<open>
  A context that hashes 16 messages per call, whatever it keeps between calls. \<open>ok\<close> is what a call
  needs of the context and leaves of it.
\<close>

locale sixteen_lanes =
  fixes run :: "'h \<Rightarrow> 64 barray list \<Rightarrow> 'h \<times> hash list"
    and ok :: "'h \<Rightarrow> bool"
  assumes digests: "ok h \<Longrightarrow> length msgs = 16 \<Longrightarrow> snd (run h msgs) = map (\<lambda>m. DoubleSHA256 (bytes_of m)) msgs"
    and keeps: "ok h \<Longrightarrow> length msgs = 16 \<Longrightarrow> ok (fst (run h msgs))"

definition hasher_ok :: "x16_hasher \<Rightarrow> bool" where
  "hasher_ok h \<longleftrightarrow> length (b1 h) = 16 \<and> length (b2 h) = 16 \<and>
     (\<forall>i<16. \<exists>x. length x = 64 \<and> b1 h ! i = x @ tail64) \<and> (\<forall>i<16. \<exists>x. length x = 32 \<and> b2 h ! i = x @ tail32)"

lemma NewHasher_ok: "hasher_ok NewHasher"
  by (simp add: hasher_ok_def NewHasher_def padded_128 padded_64)

definition cpu_ok :: "x16_cpu \<Rightarrow> bool" where
  "cpu_ok cpu \<longleftrightarrow> (hasAVX512 cpu \<longrightarrow> kernel_law (sha256X16Avx512 cpu))"

lemma hasher_x16_ok:
  assumes "cpu_ok cpu" and "hasher_ok h" and "length msgs = 16"
  shows "hasher_ok (fst (hasher_x16 cpu h msgs)) \<and>
    snd (hasher_x16 cpu h msgs) = map (\<lambda>m. DoubleSHA256 (bytes_of m)) msgs"
proof (cases "hasAVX512 cpu")
  case True
  let ?run = "sha256X16Avx512 cpu"
  have law: "kernel_law ?run" using assms(1) True by (simp add: cpu_ok_def)
  define in1 where "in1 = map (\<lambda>i. write_at (b1 h ! i) 0 (bytes_of (msgs ! i))) [0..<16]"
  obtain st sc where r1: "?run initialState (scratch h) table [0xffff, 0xffff] in1 = (st, sc)" by fastforce
  define in2 where "in2 = map (\<lambda>i. write_at (b2 h ! i) 0 (bytes_of (getDigest i st))) [0..<16]"
  obtain st' sc' where r2: "?run initialState sc table [0xffff] in2 = (st', sc')" by fastforce
  have res: "hasher_x16 cpu h msgs =
      (h\<lparr>scratch := sc', lane_state := st', b1 := in1, b2 := in2\<rparr>, map (\<lambda>i. getDigest i st') [0..<16])"
    using True r1 r2 by (simp add: hasher_x16_def in1_def in2_def)
  have w1: "write_at (b1 h ! i) 0 (bytes_of (m :: 64 barray)) = bytes_of m @ tail64" if "i < 16" for i m
  proof -
    from assms(2) that obtain x where "length x = 64" "b1 h ! i = x @ tail64" unfolding hasher_ok_def by blast
    then show ?thesis by (simp add: write_front)
  qed
  have w2: "write_at (b2 h ! i) 0 (bytes_of (m :: 32 barray)) = bytes_of m @ tail32" if "i < 16" for i m
  proof -
    from assms(2) that obtain x where "length x = 32" "b2 h ! i = x @ tail32" unfolding hasher_ok_def by blast
    then show ?thesis by (simp add: write_front)
  qed
  have i1: "in1 = map (\<lambda>i. sha_pad (bytes_of (msgs ! i))) [0..<16]" by (simp add: in1_def w1 sha_pad_64)
  have i2: "in2 ! k = sha_pad (bytes_of (getDigest k st))" if "k < 16" for k
    using that by (simp add: in2_def w2 sha_pad_32)
  have "getDigest i st' = DoubleSHA256 (bytes_of (msgs ! i))" if "i < 16" for i
    using two_rounds [OF law assms(3) that i1, of in2 "scratch h" sc] i2 r1 r2 by (simp add: in2_def)
  then have "map (\<lambda>i. getDigest i st') [0..<16] = map (\<lambda>m. DoubleSHA256 (bytes_of m)) msgs"
    using assms(3) by (intro nth_equalityI) simp_all
  moreover have "hasher_ok (h\<lparr>scratch := sc', lane_state := st', b1 := in1, b2 := in2\<rparr>)"
    using w1 w2 by (auto simp: hasher_ok_def in1_def in2_def)
  ultimately show ?thesis unfolding res by simp
qed (use assms in \<open>simp add: hasher_x16_def scalar_x16_eq\<close>)

lemma hasher_lanes: "cpu_ok cpu \<Longrightarrow> sixteen_lanes (hasher_x16 cpu) hasher_ok"
  by unfold_locales (use hasher_x16_ok in blast)+

definition scalar_cpu :: x16_cpu where
  "scalar_cpu = \<lparr>hasAVX512 = False, sha256X16Avx512 = ref_kernel\<rparr>"

definition vector_cpu :: x16_cpu where
  "vector_cpu = \<lparr>hasAVX512 = True, sha256X16Avx512 = ref_kernel\<rparr>"

lemma cpus_ok: "cpu_ok scalar_cpu" "cpu_ok vector_cpu"
  by (simp_all add: cpu_ok_def scalar_cpu_def vector_cpu_def ref_kernel_law)

interpretation scalar_lanes: sixteen_lanes "hasher_x16 scalar_cpu" hasher_ok
  by (rule hasher_lanes [OF cpus_ok(1)])

interpretation vector_lanes: sixteen_lanes "hasher_x16 vector_cpu" hasher_ok
  by (rule hasher_lanes [OF cpus_ok(2)])

lemma DoubleSHA256x16_lanes:
  assumes "cpu_ok cpu" and "length msgs = 16"
  shows "DoubleSHA256x16 cpu msgs = map (\<lambda>m. DoubleSHA256 (bytes_of m)) msgs"
proof (cases "hasAVX512 cpu")
  case True
  let ?run = "sha256X16Avx512 cpu" and ?sc = "replicate 512 0"
  have law: "kernel_law ?run" using assms(1) True by (simp add: cpu_ok_def)
  define in1 where "in1 = map (\<lambda>i. sha_pad (bytes_of (msgs ! i))) [0..<16]"
  define h1 where "h1 = map (\<lambda>i. getDigest i (fst (?run initialState ?sc table [0xffff, 0xffff] in1))) [0..<16]"
  define in2 where "in2 = map (\<lambda>i. sha_pad (bytes_of (h1 ! i))) [0..<16]"
  have res: "DoubleSHA256x16 cpu msgs = map (\<lambda>i. getDigest i (fst (?run initialState ?sc table [0xffff] in2))) [0..<16]"
    using True by (simp add: DoubleSHA256x16_def blockAvx512_def padded_block_128 padded_block_64 in1_def in2_def h1_def
        case_prod_beta Let_def)
  have "getDigest i (fst (?run initialState ?sc table [0xffff] in2)) = DoubleSHA256 (bytes_of (msgs ! i))" if "i < 16" for i
    by (rule two_rounds [OF law assms(2) that in1_def]) (simp_all add: in2_def h1_def)
  then show ?thesis unfolding res using assms(2) by (intro nth_equalityI) simp_all
qed (use assms in \<open>simp add: DoubleSHA256x16_def scalar_x16_eq\<close>)

text \<open>A context after earlier calls.\<close>

definition used_hasher :: "x16_cpu \<Rightarrow> 64 barray list list \<Rightarrow> x16_hasher" where
  "used_hasher cpu calls = fold (\<lambda>msgs h. fst (hasher_x16 cpu h msgs)) calls NewHasher"

lemma used_hasher_ok:
  assumes "cpu_ok cpu" and "\<And>msgs. msgs \<in> set calls \<Longrightarrow> length msgs = 16"
  shows "hasher_ok (used_hasher cpu calls)"
  unfolding used_hasher_def
  by (rule fold_invariant [where Q = "\<lambda>msgs. length msgs = 16"])
    (use assms NewHasher_ok hasher_x16_ok in blast)+

section \<open>The property\<close>

text \<open>
  C34. Sixteen lanes are sixteen SHA-256d digests. On a processor without AVX-512, and on one whose
  kernel behaves as documented, \<open>DoubleSHA256x16\<close> and the method of a reusable context after any
  earlier calls, with their round table, initial state, padding, block masks and transposition, give
  for each of the 16 messages the digest \<open>DoubleSHA256\<close> of package \<open>commitment\<close>.
\<close>
theorem DoubleSHA256x16_correct:
  assumes "hasAVX512 cpu \<longrightarrow> kernel_law (sha256X16Avx512 cpu)" and "length msgs = 16"
    and "\<forall>m. m \<in> set calls \<longrightarrow> length m = 16"
  shows "DoubleSHA256x16 cpu msgs = map (\<lambda>m. DoubleSHA256 (bytes_of m)) msgs \<and>
    snd (hasher_x16 cpu (used_hasher cpu calls) msgs) = map (\<lambda>m. DoubleSHA256 (bytes_of m)) msgs"
proof -
  have ok: "cpu_ok cpu" using assms(1) by (simp add: cpu_ok_def)
  have "hasher_ok (used_hasher cpu calls)" by (rule used_hasher_ok [OF ok]) (use assms(3) in blast)
  then show ?thesis using DoubleSHA256x16_lanes [OF ok assms(2)] hasher_x16_ok [OF ok _ assms(2)] by blast
qed

theorem DoubleSHA256x16_correct_witness:
  "DoubleSHA256x16 vector_cpu (replicate 16 (barray_of [1])) = replicate 16 (DoubleSHA256 (1 # replicate 63 0)) \<and>
   snd (hasher_x16 vector_cpu (used_hasher vector_cpu [replicate 16 (barray_of [2])]) (replicate 16 (barray_of [1])))
     = replicate 16 (DoubleSHA256 (1 # replicate 63 0))"
proof -
  have "hasAVX512 vector_cpu \<longrightarrow> kernel_law (sha256X16Avx512 vector_cpu)"
    by (simp add: vector_cpu_def ref_kernel_law)
  moreover have "bytes_of (barray_of [1] :: 64 barray) = 1 # replicate 63 0"
    by (simp add: bytes_of_barray_of numeral_eq_Suc)
  ultimately show ?thesis
    using DoubleSHA256x16_correct [of vector_cpu "replicate 16 (barray_of [1])" "[replicate 16 (barray_of [2])]"]
    by simp
qed

end
