(* ===== verification/Lockstep.thy ===== *)
theory Lockstep
  imports Sha256mb
begin

text \<open>
  Sixteen Merkle paths folded level by level, one call of the 16-lane hasher per level: the loop that
  src/bench/fabric16.go (\<open>fold16\<close>) and src/fabric/pull.go (the pulling worker) have in common. A
  \<open>*sha256mb.Hasher\<close> is its state \<open>h\<close> together with \<open>run\<close>, which hashes 16 messages and returns the
  state after the call.
\<close>

type_synonym 'h lanes = "'h \<Rightarrow> 64 barray list \<Rightarrow> 'h \<times> hash list"

text \<open>The 64 bytes of one lane at one level.\<close>

definition lane_msg :: "hash \<Rightarrow> path_elem \<Rightarrow> 64 barray" where
  "lane_msg node e =
     (if Right e then barray_of (bytes_of node @ bytes_of (Sibling e))
      else barray_of (bytes_of (Sibling e) @ bytes_of node))"

text \<open>Element \<open>j\<close> of the path of every lane; a path too short is an index panic.\<close>

fun level_elems :: "path_elem list list \<Rightarrow> nat \<Rightarrow> path_elem list res" where
  "level_elems [] j = Inr []"
| "level_elems (p # ps) j =
     (case go_index p j of
        Inl e \<Rightarrow> Inl e
      | Inr e \<Rightarrow> map_res ((#) e) (level_elems ps j))"

text \<open>The loop over the \<open>n\<close> levels from \<open>j\<close> on.\<close>

primrec lockstep ::
  "'h lanes \<Rightarrow> path_elem list list \<Rightarrow> nat \<Rightarrow> nat \<Rightarrow> 'h \<Rightarrow> hash list \<Rightarrow> ('h \<times> hash list) res" where
  "lockstep run paths 0 j h node = Inr (h, node)"
| "lockstep run paths (Suc n) j h node =
     (case level_elems paths j of
        Inl e \<Rightarrow> Inl e
      | Inr es \<Rightarrow>
        (let msgs = map2 lane_msg node es; (h, out) = run h msgs in lockstep run paths n (j + 1) h out))"

section \<open>The lanes are folds\<close>

lemma lane_msg_hash: "DoubleSHA256 (bytes_of (lane_msg node e)) = fold_step node e"
  by (simp add: lane_msg_def fold_step_input step_input_def)

lemma level_elems_ok: "(\<And>p. p \<in> set ps \<Longrightarrow> j < length p) \<Longrightarrow> level_elems ps j = Inr (map (\<lambda>p. p ! j) ps)"
  by (induction ps) auto

text \<open>A loop that counts the lanes for which a condition holds.\<close>

lemma fold_count: "fold (\<lambda>k c. if P k then c + 1 else c) ks c = c + length (filter P ks)"
  by (induction ks arbitrary: c) simp_all

lemma count_nth: "length (filter (\<lambda>k. P (xs ! k)) [0..<length xs]) = length (filter P xs)"
proof -
  have "filter P xs = filter P (map ((!) xs) [0..<length xs])" by (simp add: map_nth)
  then show ?thesis by (simp add: filter_map comp_def)
qed

context sixteen_lanes
begin

lemma run_lanes:
  assumes "ok h" and "length msgs = 16"
  obtains h' where "run h msgs = (h', map (\<lambda>m. DoubleSHA256 (bytes_of m)) msgs)" and "ok h'"
  using digests [OF assms] keeps [OF assms] by (metis prod.collapse)

lemma lockstep_loop_ok:
  assumes "ok h" and "length paths = 16" and "\<And>p. p \<in> set paths \<Longrightarrow> length p = j + n"
    and "length node = 16"
  shows "\<exists>h'. lockstep run paths n j h node = Inr (h', map2 (\<lambda>x p. Fold x (drop j p)) node paths) \<and> ok h'"
  using assms
proof (induction n arbitrary: j h node)
  case 0
  then have "map2 (\<lambda>x p. Fold x (drop j p)) node paths = node"
    by (intro nth_equalityI) simp_all
  then show ?case using 0 by simp
next
  case (Suc n)
  have j: "j < length p" if "p \<in> set paths" for p using Suc.prems(3) [OF that] by simp
  let ?msgs = "map2 lane_msg node (map (\<lambda>p. p ! j) paths)"
  obtain h1 where r: "run h ?msgs = (h1, map (\<lambda>m. DoubleSHA256 (bytes_of m)) ?msgs)" "ok h1"
    by (rule run_lanes [OF Suc.prems(1), of ?msgs]) (use Suc.prems(2,4) in simp_all)
  let ?out = "map (\<lambda>m. DoubleSHA256 (bytes_of m)) ?msgs"
  have out: "?out ! k = fold_step (node ! k) (paths ! k ! j)" if "k < 16" for k
    using that Suc.prems(2,4) by (simp add: lane_msg_hash)
  obtain h' where IH: "lockstep run paths n (j + 1) h1 ?out
      = Inr (h', map2 (\<lambda>x p. Fold x (drop (j + 1) p)) ?out paths)" "ok h'"
    using Suc.IH [OF r(2) Suc.prems(2), of "j + 1" ?out] Suc.prems(2-4) by auto
  have "map2 (\<lambda>x p. Fold x (drop (j + 1) p)) ?out paths = map2 (\<lambda>x p. Fold x (drop j p)) node paths"
  proof (rule nth_equalityI)
    fix k assume "k < length (map2 (\<lambda>x p. Fold x (drop (j + 1) p)) ?out paths)"
    then have k: "k < 16" using Suc.prems(2,4) by simp
    then have "drop j (paths ! k) = paths ! k ! j # drop (j + 1) (paths ! k)"
      using j [of "paths ! k"] Suc.prems(2) by (simp add: Cons_nth_drop_Suc)
    then show "map2 (\<lambda>x p. Fold x (drop (j + 1) p)) ?out paths ! k
        = map2 (\<lambda>x p. Fold x (drop j p)) node paths ! k"
      using k out [OF k] Suc.prems(2,4) by simp
  qed (use Suc.prems in simp)
  then show ?case using IH r(1) level_elems_ok [of paths j] j by (simp add: Let_def)
qed

lemma lockstep_ok:
  assumes "ok h" and "length paths = 16" and "\<And>p. p \<in> set paths \<Longrightarrow> length p = n" and "length node = 16"
  shows "\<exists>h'. lockstep run paths n 0 h node = Inr (h', map2 Fold node paths) \<and> ok h'"
  using lockstep_loop_ok [OF assms(1,2), of 0 n node] assms(3,4) by simp

end

end
