(* ===== verification/BenchLanes.thy ===== *)
theory BenchLanes
  imports Lockstep
begin

text \<open>
  Package \<open>bench\<close>, the 16-lane verifiers (src/bench/fabric16.go, src/bench/blockverify.go): groups of
  16 proofs folded in lockstep, the count of the valid proofs of a batch, and the Merkle root of a
  block computed 16 pairs at a time in two alternating buffers.

  The hasher is a parameter \<open>run\<close>; the properties use the one of package \<open>sha256mb\<close>. The measuring loops
  around these functions (goroutines, deadlines, rates) are in MeasureBench.
\<close>

section \<open>Batches of proofs\<close>

record batch_proof =
  Leaf :: hash
  L1 :: "path_elem list"
  L2 :: "path_elem list"
  SubtreeRoot :: hash
  BlockRoot :: hash
  BlockHash :: hash

definition foldScalar :: "hash \<Rightarrow> path_elem list \<Rightarrow> hash" where
  "foldScalar leaf path =
     fold (\<lambda>e node. if Right e then HashPair node (Sibling e) else HashPair (Sibling e) node) path leaf"

definition fold16 :: "'h lanes \<Rightarrow> 'h \<Rightarrow> batch_proof list \<Rightarrow> ('h \<times> hash list) res" where
  "fold16 run h grp =
     (let node = map Leaf grp; levels = length (L1 (hd grp)) in lockstep run (map L1 grp) levels 0 h node)"

text \<open>The block paths, checked for the first proof of each subtree root.\<close>

definition valid_subs :: "batch_proof list \<Rightarrow> (hash \<rightharpoonup> bool)" where
  "valid_subs proofs =
     fold (\<lambda>p valid. case valid (SubtreeRoot p) of
         Some _ \<Rightarrow> valid
       | None \<Rightarrow> valid(SubtreeRoot p \<mapsto> (foldScalar (SubtreeRoot p) (L2 p) = BlockRoot p))) proofs Map.empty"

text \<open>
  The pass over the groups, \<open>n\<close> of them from index \<open>base\<close> on; a lane counts when its fold gives its
  subtree root and \<open>check\<close> holds of the root.
\<close>

primrec count_groups ::
  "'h lanes \<Rightarrow> (hash \<Rightarrow> bool) \<Rightarrow> batch_proof list \<Rightarrow> nat \<Rightarrow> nat \<Rightarrow> 'h \<Rightarrow> nat \<Rightarrow> ('h \<times> nat) res" where
  "count_groups run check proofs 0 base h count = Inr (h, count)"
| "count_groups run check proofs (Suc n) base h count =
     (let grp = go_slice proofs base (base + 16) in
      case fold16 run h grp of
        Inl e \<Rightarrow> Inl e
      | Inr (h, node) \<Rightarrow>
        (let count = fold (\<lambda>k count. if node ! k = SubtreeRoot (grp ! k) \<and> check (SubtreeRoot (grp ! k))
                             then count + 1 else count) [0..<16] count
         in count_groups run check proofs n (base + 16) h count))"

definition CountValid16 :: "'h lanes \<Rightarrow> 'h \<Rightarrow> batch_proof list \<Rightarrow> nat res" where
  "CountValid16 run h proofs =
     (let n16 = (length proofs div 16) * 16; validSub = valid_subs proofs in
      map_res snd (count_groups run (go_get False validSub) proofs (n16 div 16) 0 h 0))"

text \<open>One pass of a worker of \<open>FabricThroughput16\<close>: it does not look at the block paths.\<close>

definition fabric16_pass :: "'h lanes \<Rightarrow> 'h \<Rightarrow> batch_proof list \<Rightarrow> nat \<Rightarrow> ('h \<times> nat) res" where
  "fabric16_pass run h proofs local =
     (let n16 = (length proofs div 16) * 16 in
      count_groups run (\<lambda>_. True) proofs (n16 div 16) 0 h local)"

section \<open>Whole blocks\<close>

text \<open>
  The three arrays of \<open>buildTree16\<close>, which the callers allocate separately, and a slice of one: the
  array and a length. Reading goes to the arrays as they are at that moment.
\<close>

datatype buf = LeavesBuf | ABuf | BBuf

record tree_bufs =
  leaves_buf :: "hash list"
  a_buf :: "hash list"
  b_buf :: "hash list"

fun buf_get :: "tree_bufs \<Rightarrow> buf \<Rightarrow> hash list" where
  "buf_get s LeavesBuf = leaves_buf s"
| "buf_get s ABuf = a_buf s"
| "buf_get s BBuf = b_buf s"

fun buf_set :: "tree_bufs \<Rightarrow> buf \<Rightarrow> hash list \<Rightarrow> tree_bufs" where
  "buf_set s LeavesBuf xs = s\<lparr>leaves_buf := xs\<rparr>"
| "buf_set s ABuf xs = s\<lparr>a_buf := xs\<rparr>"
| "buf_set s BBuf xs = s\<lparr>b_buf := xs\<rparr>"

text \<open>The pairs with the numbers \<open>qs\<close> of \<open>cur\<close>; an odd tail is its own partner.\<close>

fun pair_msgs :: "hash list \<Rightarrow> nat list \<Rightarrow> 64 barray list res" where
  "pair_msgs cur [] = Inr []"
| "pair_msgs cur (q # qs) =
     (let i = q * 2 in
      case go_index cur i of
        Inl e \<Rightarrow> Inl e
      | Inr l \<Rightarrow>
        (let r = (if i + 1 < length cur then cur ! (i + 1) else l) in
         map_res ((#) (barray_of (bytes_of l @ bytes_of r))) (pair_msgs cur qs)))"

text \<open>
  \<open>buildLevel16\<close>, the loop from \<open>base\<close> on: from the slice \<open>src[:n]\<close> into \<open>dst[:m]\<close>. The lanes past the
  last pair keep the messages of an earlier call.
\<close>

function level_loop ::
  "'h lanes \<Rightarrow> buf \<Rightarrow> nat \<Rightarrow> buf \<Rightarrow> nat \<Rightarrow> nat \<Rightarrow> 'h \<times> tree_bufs \<times> 64 barray list
    \<Rightarrow> ('h \<times> tree_bufs \<times> 64 barray list) res" where
  "level_loop run src n dst m base st =
     (if base < m then
        (case st of (h, s, msgs) \<Rightarrow>
          let cnt = (if 16 < m - base then 16 else m - base) in
          case pair_msgs (take n (buf_get s src)) [base..<base + cnt] of
            Inl e \<Rightarrow> Inl e
          | Inr ps \<Rightarrow>
            (let msgs = ps @ drop cnt msgs;
                 (h, out) = run h msgs;
                 next = buf_get s dst;
                 s = buf_set s dst (take base next @ take cnt out @ drop (base + cnt) next)
             in level_loop run src n dst m (base + 16) (h, s, msgs)))
      else Inr st)"
  by pat_completeness auto
termination
  by (relation "measure (\<lambda>(run, src, n, dst, m, base, st). m - base)") auto

declare level_loop.simps [simp del]

definition buildLevel16 ::
  "'h lanes \<Rightarrow> buf \<Rightarrow> nat \<Rightarrow> buf \<Rightarrow> nat \<Rightarrow> 'h \<times> tree_bufs \<times> 64 barray list
    \<Rightarrow> ('h \<times> tree_bufs \<times> 64 barray list) res" where
  "buildLevel16 run src n dst m st = level_loop run src n dst m 0 st"

text \<open>\<open>dst[:m]\<close> panics when the array is too short; the slice \<open>cur\<close> is \<open>src[:n]\<close>.\<close>

function tree_loop ::
  "'h lanes \<Rightarrow> buf \<Rightarrow> nat \<Rightarrow> buf \<Rightarrow> 'h \<times> tree_bufs \<times> 64 barray list
    \<Rightarrow> (hash \<times> 'h \<times> tree_bufs \<times> 64 barray list) res" where
  "tree_loop run src n dst st =
     (if 1 < n then
        (let m = (n + 1) div 2 in
         if length (buf_get (fst (snd st)) dst) < m then Inl Panic
         else case buildLevel16 run src n dst m st of
             Inl e \<Rightarrow> Inl e
           | Inr st \<Rightarrow> tree_loop run dst m (if dst = ABuf then BBuf else ABuf) st)
      else map_res (\<lambda>r. (r, st)) (go_index (take n (buf_get (fst (snd st)) src)) 0))"
  by pat_completeness auto
termination
  by (relation "measure (\<lambda>(run, src, n, dst, st). n)") auto

declare tree_loop.simps [simp del]

definition buildTree16 ::
  "'h lanes \<Rightarrow> 'h \<Rightarrow> hash list \<Rightarrow> hash list \<Rightarrow> hash list \<Rightarrow> 64 barray list
    \<Rightarrow> (hash \<times> 'h \<times> tree_bufs \<times> 64 barray list) res" where
  "buildTree16 run h leaves a b msgs =
     (let s = \<lparr>leaves_buf = leaves, a_buf = a, b_buf = b\<rparr> in
      if length leaves = 1 then Inr (leaves ! 0, h, s, msgs)
      else tree_loop run LeavesBuf (length leaves) ABuf (h, s, msgs))"

section \<open>Lockstep folds\<close>

lemma foldScalar_Fold: "foldScalar leaf path = Fold leaf path"
proof -
  have "fold (\<lambda>e node. if Right e then HashPair node (Sibling e) else HashPair (Sibling e) node) path node
      = Fold node path" for node
    by (induction path arbitrary: node) (simp_all add: fold_step_def)
  then show ?thesis by (simp add: foldScalar_def)
qed

context sixteen_lanes
begin

lemma fold16_ok:
  assumes "ok h" and "length grp = 16" and "\<And>p. p \<in> set grp \<Longrightarrow> length (L1 p) = n"
  shows "\<exists>h'. fold16 run h grp = Inr (h', map (\<lambda>p. Fold (Leaf p) (L1 p)) grp) \<and> ok h'"
proof -
  have "length (L1 (hd grp)) = n" using assms(2,3) by (cases grp) auto
  moreover have "map2 Fold (map Leaf grp) (map L1 grp) = map (\<lambda>p. Fold (Leaf p) (L1 p)) grp"
    by (intro nth_equalityI) simp_all
  moreover have "\<exists>h'. lockstep run (map L1 grp) n 0 h (map Leaf grp) = Inr (h', map2 Fold (map Leaf grp) (map L1 grp)) \<and> ok h'"
    by (rule lockstep_ok [OF assms(1)]) (use assms(2,3) in auto)
  ultimately show ?thesis by (simp add: fold16_def Let_def)
qed

end

section \<open>Counting\<close>

text \<open>A group has paths of one length.\<close>

definition same_levels :: "batch_proof list \<Rightarrow> bool" where
  "same_levels grp \<longleftrightarrow> (\<forall>p. p \<in> set grp \<longrightarrow> length (L1 p) = length (L1 (hd grp)))"

definition proof_counts :: "(hash \<Rightarrow> bool) \<Rightarrow> batch_proof \<Rightarrow> bool" where
  "proof_counts check p \<longleftrightarrow> Fold (Leaf p) (L1 p) = SubtreeRoot p \<and> check (SubtreeRoot p)"

context sixteen_lanes
begin

lemma count_groups_ok:
  assumes "ok h" and "base + 16 * n \<le> length proofs"
    and "\<And>g. g < n \<Longrightarrow> same_levels (go_slice proofs (base + 16 * g) (base + 16 * g + 16))"
  shows "\<exists>h'. count_groups run check proofs n base h count
     = Inr (h', count + length (filter (proof_counts check) (go_slice proofs base (base + 16 * n)))) \<and> ok h'"
  using assms
proof (induction n arbitrary: base h count)
  case (Suc n)
  let ?g = "go_slice proofs base (base + 16)"
  have len: "length ?g = 16" using Suc.prems(2) by simp
  obtain h1 where f: "fold16 run h ?g = Inr (h1, map (\<lambda>p. Fold (Leaf p) (L1 p)) ?g)" "ok h1"
    using fold16_ok [OF Suc.prems(1) len] Suc.prems(3) [of 0] by (auto simp: same_levels_def)
  have "fold (\<lambda>k count. if map (\<lambda>p. Fold (Leaf p) (L1 p)) ?g ! k = SubtreeRoot (?g ! k) \<and> check (SubtreeRoot (?g ! k))
      then count + 1 else count) [0..<16] count
    = fold (\<lambda>k count. if proof_counts check (?g ! k) then count + 1 else count) [0..<16] count"
    by (rule List.fold_cong) (use len in \<open>auto simp: proof_counts_def\<close>)
  also have "\<dots> = count + length (filter (proof_counts check) ?g)"
    using count_nth [of "proof_counts check" ?g] len by (simp add: fold_count)
  finally have c: "fold (\<lambda>k count. if map (\<lambda>p. Fold (Leaf p) (L1 p)) ?g ! k = SubtreeRoot (?g ! k) \<and> check (SubtreeRoot (?g ! k))
      then count + 1 else count) [0..<16] count = count + length (filter (proof_counts check) ?g)" .
  have "same_levels (go_slice proofs (base + 16 + 16 * g) (base + 16 + 16 * g + 16))" if "g < n" for g
    using Suc.prems(3) [of "Suc g"] that by (simp add: algebra_simps)
  then obtain h2 where "count_groups run check proofs n (base + 16) h1 (count + length (filter (proof_counts check) ?g))
      = Inr (h2, count + length (filter (proof_counts check) ?g)
          + length (filter (proof_counts check) (go_slice proofs (base + 16) (base + 16 + 16 * n))))" "ok h2"
    using Suc.IH [OF f(2), of "base + 16" "count + length (filter (proof_counts check) ?g)"] Suc.prems(2) by auto
  moreover have "go_slice proofs base (base + 16 * Suc n) = ?g @ go_slice proofs (base + 16) (base + 16 + 16 * n)"
    using go_slice_next [of "base + 16" "base + 16 + 16 * n" base proofs] by (simp add: algebra_simps)
  ultimately show ?case using f(1) c by (simp add: Let_def)
qed (simp add: go_slice_def)

end

text \<open>The first proof of a subtree root decides about its block path.\<close>

lemma valid_subs_find:
  "valid_subs proofs r = map_option (\<lambda>p. Fold r (L2 p) = BlockRoot p) (List.find (\<lambda>p. SubtreeRoot p = r) proofs)"
proof -
  have "fold (\<lambda>p valid. case valid (SubtreeRoot p) of
         Some _ \<Rightarrow> valid
       | None \<Rightarrow> valid(SubtreeRoot p \<mapsto> (foldScalar (SubtreeRoot p) (L2 p) = BlockRoot p))) proofs m r
    = (case m r of Some v \<Rightarrow> Some v
       | None \<Rightarrow> map_option (\<lambda>p. Fold r (L2 p) = BlockRoot p) (List.find (\<lambda>p. SubtreeRoot p = r) proofs))" for m
    by (induction proofs arbitrary: m) (auto simp: foldScalar_Fold split: option.splits)
  then show ?thesis by (simp add: valid_subs_def)
qed

section \<open>The tree in two buffers\<close>

lemma buf_get_set [simp]: "buf_get (buf_set s r xs) r' = (if r' = r then xs else buf_get s r')"
  by (cases r; cases r') simp_all

lemma pair_msgs_ok:
  "(\<And>q. q \<in> set qs \<Longrightarrow> q < (length cur + 1) div 2) \<Longrightarrow>
   \<exists>ps. pair_msgs cur qs = Inr ps \<and> length ps = length qs \<and>
     map (\<lambda>m. DoubleSHA256 (bytes_of m)) ps = map (\<lambda>q. next_level cur ! q) qs"
proof (induction qs)
  case (Cons q qs)
  then obtain ps where ps: "pair_msgs cur qs = Inr ps" "length ps = length qs"
    "map (\<lambda>m. DoubleSHA256 (bytes_of m)) ps = map (\<lambda>q. next_level cur ! q) qs" by auto
  have q: "q < (length cur + 1) div 2" using Cons.prems by simp
  then have "q * 2 < length cur" by linarith
  moreover have "next_level cur ! q
      = HashPair (cur ! (q * 2)) (if q * 2 + 1 < length cur then cur ! (q * 2 + 1) else cur ! (q * 2))"
    using nth_next_level [OF q] by (simp add: mult.commute)
  ultimately show ?case using ps by (simp add: HashPair_def Let_def)
qed simp

lemma take_nth_upt: "b + c \<le> length xs \<Longrightarrow> take b xs @ map ((!) xs) [b..<b + c] = take (b + c) xs"
  by (rule nth_equalityI) (auto simp: nth_append)

context sixteen_lanes
begin

lemma level_loop_ok:
  assumes "ok h" and "length msgs = 16" and "src \<noteq> dst" and "n \<le> length (buf_get s src)"
    and "m = (n + 1) div 2" and "m \<le> length (buf_get s dst)"
    and "take (min base m) (buf_get s dst) = take (min base m) (next_level (take n (buf_get s src)))"
  shows "\<exists>h' s' msgs'. level_loop run src n dst m base (h, s, msgs) = Inr (h', s', msgs') \<and> ok h' \<and> length msgs' = 16 \<and>
    take m (buf_get s' dst) = next_level (take n (buf_get s src)) \<and>
    (\<forall>r. r \<noteq> dst \<longrightarrow> buf_get s' r = buf_get s r) \<and> length (buf_get s' dst) = length (buf_get s dst)"
  using assms
proof (induction "m - base" arbitrary: base h s msgs rule: less_induct)
  case less
  let ?cur = "take n (buf_get s src)" and ?dst = "buf_get s dst"
  let ?next = "next_level ?cur"
  have len: "length ?cur = n" "length ?next = m" using less.prems(4,5) by simp_all
  show ?case
  proof (cases "base < m")
    case False
    then have "take m ?dst = ?next" using less.prems(7) len by simp
    then show ?thesis using False less.prems by (subst level_loop.simps) auto
  next
    case True
    define cnt where "cnt = (if 16 < m - base then 16 else m - base)"
    have cnt: "cnt \<le> 16" "base + cnt \<le> m" "0 < cnt" using True by (auto simp: cnt_def)
    obtain ps where ps: "pair_msgs ?cur [base..<base + cnt] = Inr ps" "length ps = cnt"
      "map (\<lambda>m. DoubleSHA256 (bytes_of m)) ps = map ((!) ?next) [base..<base + cnt]"
      using pair_msgs_ok [of "[base..<base + cnt]" ?cur] cnt less.prems(5) len by auto
    let ?msgs = "ps @ drop cnt msgs"
    have lm: "length ?msgs = 16" using ps(2) cnt less.prems(2) by simp
    obtain h1 where r: "run h ?msgs = (h1, map (\<lambda>m. DoubleSHA256 (bytes_of m)) ?msgs)" "ok h1"
      by (rule run_lanes [OF less.prems(1) lm])
    have out: "take cnt (map (\<lambda>m. DoubleSHA256 (bytes_of m)) ?msgs) = map ((!) ?next) [base..<base + cnt]"
      using ps(2,3) by simp
    let ?new = "take base ?dst @ map ((!) ?next) [base..<base + cnt] @ drop (base + cnt) ?dst"
    let ?s = "buf_set s dst ?new"
    have step: "level_loop run src n dst m base (h, s, msgs) = level_loop run src n dst m (base + 16) (h1, ?s, ?msgs)"
      using True ps(1) r(1) out by (subst level_loop.simps) (simp add: Let_def flip: cnt_def)
    have cur: "take n (buf_get ?s src) = ?cur" using less.prems(3) by simp
    have lnew: "length ?new = length ?dst" using cnt less.prems(6) by simp
    have "take base ?dst = take base ?next" using less.prems(7) True by (simp add: min_def)
    then have "take (base + cnt) ?new = take (base + cnt) ?next"
      using cnt less.prems(6) len take_nth_upt [of base cnt ?next] by simp
    moreover have "min (base + 16) m = base + cnt" using True by (simp add: cnt_def)
    ultimately have pre: "take (min (base + 16) m) (buf_get ?s dst) = take (min (base + 16) m) (next_level (take n (buf_get ?s src)))"
      unfolding cur by simp
    have "m - (base + 16) < m - base" using True by simp
    from less.hyps [OF this r(2) lm less.prems(3) _ less.prems(5) _ pre]
    have "\<exists>h' s' msgs'. level_loop run src n dst m (base + 16) (h1, ?s, ?msgs) = Inr (h', s', msgs') \<and> ok h' \<and>
      length msgs' = 16 \<and> take m (buf_get s' dst) = next_level (take n (buf_get ?s src)) \<and>
      (\<forall>r. r \<noteq> dst \<longrightarrow> buf_get s' r = buf_get ?s r) \<and> length (buf_get s' dst) = length (buf_get ?s dst)"
      using less.prems(3,4,6) lnew by simp
    then show ?thesis unfolding step cur using lnew by auto
  qed
qed

lemma tree_loop_ok:
  assumes "ok h" and "length msgs = 16" and "dst = ABuf \<and> src \<noteq> ABuf \<or> dst = BBuf \<and> src = ABuf"
    and "n \<le> length (buf_get s src)" and "0 < n"
    and "(n + 1) div 2 \<le> length (a_buf s)" and "(n + 1) div 2 \<le> length (b_buf s)"
  shows "\<exists>h' s' msgs'. tree_loop run src n dst (h, s, msgs) = Inr (tree_root (take n (buf_get s src)), h', s', msgs') \<and>
    ok h' \<and> length msgs' = 16 \<and> leaves_buf s' = leaves_buf s \<and> (\<forall>r. length (buf_get s' r) = length (buf_get s r))"
  using assms
proof (induction n arbitrary: src dst h s msgs rule: less_induct)
  case (less n)
  let ?cur = "take n (buf_get s src)"
  show ?case
  proof (cases "1 < n")
    case False
    then have "n = 1" using less.prems(5) by simp
    then have "?cur = [buf_get s src ! 0]" "go_index ?cur 0 = Inr (buf_get s src ! 0)"
      using less.prems(4) by (cases "buf_get s src"; simp)+
    then show ?thesis using False less.prems(1,2) by (subst tree_loop.simps) (simp add: tree_root_single)
  next
    case True
    let ?m = "(n + 1) div 2"
    have ne: "src \<noteq> dst" using less.prems(3) by auto
    have room: "?m \<le> length (buf_get s dst)" using less.prems(3,6,7) by auto
    obtain h1 s1 msgs1 where l: "buildLevel16 run src n dst ?m (h, s, msgs) = Inr (h1, s1, msgs1)" "ok h1" "length msgs1 = 16"
      "take ?m (buf_get s1 dst) = next_level ?cur" "\<And>r. r \<noteq> dst \<Longrightarrow> buf_get s1 r = buf_get s r"
      "length (buf_get s1 dst) = length (buf_get s dst)"
      using level_loop_ok [OF less.prems(1,2) ne less.prems(4) refl room, of 0] by (auto simp: buildLevel16_def)
    have lens: "length (buf_get s1 r) = length (buf_get s r)" for r using l(5,6) by (cases "r = dst") auto
    let ?dst = "if dst = ABuf then BBuf else ABuf"
    have small: "?m < n" "0 < ?m" "(?m + 1) div 2 \<le> ?m" using True by auto
    have "length (a_buf s1) = length (a_buf s)" "length (b_buf s1) = length (b_buf s)"
      using lens [of ABuf] lens [of BBuf] by simp_all
    then have "\<exists>h' s' msgs'. tree_loop run dst ?m ?dst (h1, s1, msgs1) = Inr (tree_root (take ?m (buf_get s1 dst)), h', s', msgs') \<and>
      ok h' \<and> length msgs' = 16 \<and> leaves_buf s' = leaves_buf s1 \<and> (\<forall>r. length (buf_get s' r) = length (buf_get s1 r))"
      using less.IH [OF small(1) l(2,3), of ?dst dst s1] less.prems(3,6,7) room lens [of dst] small by auto
    moreover have "tree_root (next_level ?cur) = tree_root ?cur"
      using tree_root_step [of ?cur] True less.prems(4) by simp
    moreover have "leaves_buf s1 = leaves_buf s" using l(5) [of LeavesBuf] less.prems(3) by auto
    moreover have "tree_loop run src n dst (h, s, msgs) = tree_loop run dst ?m ?dst (h1, s1, msgs1)"
      using True room l(1) by (subst tree_loop.simps) (simp add: not_less)
    ultimately show ?thesis using l(4) lens by simp
  qed
qed

lemma buildTree16_ok:
  assumes "ok h" and "leaves \<noteq> []" and "length msgs = 16"
    and "(length leaves + 1) div 2 \<le> length a" and "(length leaves + 1) div 2 \<le> length b"
  shows "\<exists>h' s msgs'. buildTree16 run h leaves a b msgs = Inr (tree_root leaves, h', s, msgs') \<and> ok h' \<and>
    length msgs' = 16 \<and> leaves_buf s = leaves \<and> length (a_buf s) = length a \<and> length (b_buf s) = length b"
proof (cases "length leaves = 1")
  case True
  then obtain x where "leaves = [x]" by (cases leaves) auto
  then show ?thesis using assms(1,3) by (simp add: buildTree16_def tree_root_single)
next
  case False
  let ?s = "\<lparr>leaves_buf = leaves, a_buf = a, b_buf = b\<rparr>"
  have "\<exists>h' s msgs'. tree_loop run LeavesBuf (length leaves) ABuf (h, ?s, msgs)
      = Inr (tree_root (take (length leaves) (buf_get ?s LeavesBuf)), h', s, msgs') \<and>
      ok h' \<and> length msgs' = 16 \<and> leaves_buf s = leaves_buf ?s \<and> (\<forall>r. length (buf_get s r) = length (buf_get ?s r))"
    by (rule tree_loop_ok [OF assms(1,3)]) (use assms in auto)
  then obtain h' s msgs' where r: "tree_loop run LeavesBuf (length leaves) ABuf (h, ?s, msgs) = Inr (tree_root leaves, h', s, msgs')"
    "ok h'" "length msgs' = 16" "leaves_buf s = leaves" "\<And>r. length (buf_get s r) = length (buf_get ?s r)" by auto
  then show ?thesis using False r(5) [of ABuf] r(5) [of BBuf] by (simp add: buildTree16_def)
qed

end

section \<open>Properties\<close>

text \<open>
  The lockstep verifier counts the valid proofs, of whole groups. When the paths of each group of
  16 have one length, \<open>CountValid16\<close> does not panic and returns how many of the proofs in whole groups
  fold to their subtree root while the first proof of that root folds on to its block root. The up to
  15 proofs past the last group are not counted, valid or not, and the pass that \<open>FabricThroughput16\<close>
  measures does not look at the block paths.
\<close>
theorem CountValid16_counts:
  assumes "hasAVX512 cpu \<longrightarrow> kernel_law (sha256X16Avx512 cpu)"
    and "\<forall>g. g < length ps div 16 \<longrightarrow> same_levels (go_slice ps (16 * g) (16 * g + 16))"
  shows "CountValid16 (hasher_x16 cpu) NewHasher ps = Inr (length (filter (\<lambda>p.
      Fold (Leaf p) (L1 p) = SubtreeRoot p \<and>
      (\<exists>q. List.find (\<lambda>q. SubtreeRoot q = SubtreeRoot p) ps = Some q \<and> Fold (SubtreeRoot q) (L2 q) = BlockRoot q))
      (take (16 * (length ps div 16)) ps))) \<and>
    map_res snd (fabric16_pass (hasher_x16 cpu) NewHasher ps n) = Inr (n + length (filter (\<lambda>p. Fold (Leaf p) (L1 p) = SubtreeRoot p)
      (take (16 * (length ps div 16)) ps)))"
proof -
  have lanes: "sixteen_lanes (hasher_x16 cpu) hasher_ok"
    by (rule hasher_lanes) (use assms(1) in \<open>simp add: cpu_ok_def\<close>)
  have run: "\<exists>h'. count_groups (hasher_x16 cpu) check ps (length ps div 16) 0 NewHasher k
      = Inr (h', k + length (filter (proof_counts check) (take (16 * (length ps div 16)) ps))) \<and> hasher_ok h'" for check k
    using sixteen_lanes.count_groups_ok [OF lanes NewHasher_ok, of 0 "length ps div 16" ps] assms(2)
    by (simp add: go_slice_def)
  have "go_get False (valid_subs ps) r \<longleftrightarrow>
      (\<exists>q. List.find (\<lambda>q. SubtreeRoot q = r) ps = Some q \<and> Fold (SubtreeRoot q) (L2 q) = BlockRoot q)" for r
  proof (cases "List.find (\<lambda>q. SubtreeRoot q = r) ps")
    case (Some q)
    then have "SubtreeRoot q = r" by (auto simp: find_Some_iff)
    then show ?thesis using Some by (simp add: go_get_def valid_subs_find)
  qed (simp add: go_get_def valid_subs_find)
  then have "proof_counts (go_get False (valid_subs ps)) = (\<lambda>p. Fold (Leaf p) (L1 p) = SubtreeRoot p \<and>
      (\<exists>q. List.find (\<lambda>q. SubtreeRoot q = SubtreeRoot p) ps = Some q \<and> Fold (SubtreeRoot q) (L2 q) = BlockRoot q))"
    by (intro ext) (simp add: proof_counts_def)
  moreover have "proof_counts (\<lambda>_. True) = (\<lambda>p. Fold (Leaf p) (L1 p) = SubtreeRoot p)"
    by (intro ext) (simp add: proof_counts_def)
  ultimately show ?thesis
    using run [of "go_get False (valid_subs ps)" 0] run [of "\<lambda>_. True" n]
    by (auto simp: CountValid16_def fabric16_pass_def)
qed

text \<open>Seventeen valid proofs, sixteen counted.\<close>

definition trivial_proof :: batch_proof where
  "trivial_proof = \<lparr>Leaf = zero_hash, L1 = [], L2 = [], SubtreeRoot = zero_hash, BlockRoot = zero_hash, BlockHash = zero_hash\<rparr>"

theorem CountValid16_counts_witness:
  "CountValid16 (hasher_x16 vector_cpu) NewHasher (replicate 17 trivial_proof) = Inr 16"
proof -
  have "hasAVX512 vector_cpu \<longrightarrow> kernel_law (sha256X16Avx512 vector_cpu)" by (simp add: vector_cpu_def ref_kernel_law)
  moreover have "\<forall>g. g < length (replicate 17 trivial_proof) div 16 \<longrightarrow>
      same_levels (go_slice (replicate 17 trivial_proof) (16 * g) (16 * g + 16))"
    by (simp add: same_levels_def go_slice_def)
  moreover have "List.find (\<lambda>q. SubtreeRoot q = zero_hash) (replicate 17 trivial_proof) = Some trivial_proof"
    by (simp add: numeral_eq_Suc trivial_proof_def)
  ultimately show ?thesis
    using CountValid16_counts [of vector_cpu "replicate 17 trivial_proof" 0] by (simp add: trivial_proof_def)
qed

text \<open>
  C35. Building a tree sixteen pairs at a time is building the tree. With two scratch arrays of at least
  half the leaves, \<open>buildTree16\<close>, which writes each level into one array while it reads the level
  below from the other, returns the root of \<open>MerkleRoot\<close> for every nonempty list of leaves, does not
  panic, and leaves the leaves as they were.
\<close>
theorem buildTree16_root:
  assumes "hasAVX512 cpu \<longrightarrow> kernel_law (sha256X16Avx512 cpu)" and "leaves \<noteq> []" and "length msgs = 16"
    and "(length leaves + 1) div 2 \<le> length a" and "(length leaves + 1) div 2 \<le> length b"
  shows "\<exists>root h s msgs'. buildTree16 (hasher_x16 cpu) NewHasher leaves a b msgs = Inr (root, h, s, msgs') \<and>
    MerkleRoot leaves = Inr root \<and> leaves_buf s = leaves"
proof -
  have lanes: "sixteen_lanes (hasher_x16 cpu) hasher_ok"
    by (rule hasher_lanes) (use assms(1) in \<open>simp add: cpu_ok_def\<close>)
  show ?thesis using sixteen_lanes.buildTree16_ok [OF lanes NewHasher_ok assms(2-5)] assms(2)
    by (auto simp: MerkleRoot_eq)
qed

theorem buildTree16_root_witness:
  "\<exists>root h s msgs'. buildTree16 (hasher_x16 vector_cpu) NewHasher (replicate 37 zero_hash) (replicate 19 zero_hash)
      (replicate 19 zero_hash) (replicate 16 (barray_of [])) = Inr (root, h, s, msgs') \<and>
    MerkleRoot (replicate 37 zero_hash) = Inr root"
proof -
  have "hasAVX512 vector_cpu \<longrightarrow> kernel_law (sha256X16Avx512 vector_cpu)" by (simp add: vector_cpu_def ref_kernel_law)
  from buildTree16_root [OF this, of "replicate 37 zero_hash" "replicate 16 (barray_of [])" "replicate 19 zero_hash" "replicate 19 zero_hash"]
  show ?thesis by auto
qed

end
