(* ===== verification/Bench.thy ===== *)
theory Bench
  imports BenchLanes Complex_Main
begin

text \<open>
  Package \<open>bench\<close>, the derived figures and the constructed batches (src/bench/bench.go,
  src/bench/capacity.go, src/bench/backend.go, src/bench/backend_minio.go, src/bench/fabric.go). A rate is a real number; the
  arithmetic of \<open>float64\<close> is over the reals, without rounding. Measured times and rates are arguments.
  One pass over a batch is here; the concurrent measuring loops that repeat it are in MeasureBench.
\<close>

section \<open>Parameters\<close>

definition BlockIntervalSec :: u64 where "BlockIntervalSec = 600"
definition HeaderBytes :: nat where "HeaderBytes = 80"
definition BlocksPerYear :: nat where "BlocksPerYear = 144 * 365"
definition SubtreeCap :: u64 where "SubtreeCap = push_bit 20 1"
definition DigestBytes :: nat where "DigestBytes = 32"

definition ceilLog2 :: "u64 \<Rightarrow> nat" where
  "ceilLog2 n = CeilLog2 n"

definition min64 :: "u64 \<Rightarrow> u64 \<Rightarrow> u64" where
  "min64 a b = (if a < b then a else b)"

definition ceilDiv :: "u64 \<Rightarrow> u64 \<Rightarrow> u64" where
  "ceilDiv a b = (a + b - 1) div b"

definition HeaderGrowthBytesPerYear :: nat where
  "HeaderGrowthBytesPerYear = HeaderBytes * BlocksPerYear"

text \<open>The conversion \<open>uint64(r)\<close> of a rate from 0 on below \<open>2^64\<close>; beyond, Go leaves the result open.\<close>

definition uint64_of :: "real \<Rightarrow> u64" where
  "uint64_of r = word_of_nat (nat \<lfloor>r\<rfloor>)"

definition txPerBlock :: "real \<Rightarrow> u64" where
  "txPerBlock r = uint64_of r * BlockIntervalSec"

section \<open>Rows of the scaling table\<close>

text \<open>The leaf and the path that \<open>SimulateBlock\<close> folds; \<open>text\<close> is the leaf's preimage.\<close>

definition bench_path :: "nat \<Rightarrow> path_elem list" where
  "bench_path depth =
     map (\<lambda>i. \<lparr>Sibling = DoubleSHA256 [word_of_nat i, word_of_nat (i div 256)], Right = (i mod 2 = 0)\<rparr>) [0..<depth]"

definition ascii :: "string \<Rightarrow> bytes" where
  "ascii s = map of_char s"

text \<open>
  The repetitions of the timed loop all make the same comparison; a mismatch would panic. The last two
  results are the measured times.
\<close>

definition SimulateBlock :: "real \<Rightarrow> real \<Rightarrow> real \<Rightarrow> (u64 \<times> nat \<times> nat \<times> real \<times> real) res" where
  "SimulateBlock rTxPerS buildMS verifyMS =
     (let T = txPerBlock rTxPerS;
          depth = ceilLog2 T;
          proofBytes = DigestBytes * depth;
          leaf = DoubleSHA256 (ascii ''bench-leaf'');
          path = bench_path depth;
          root = Fold leaf path
      in if Fold leaf path \<noteq> root then Inl Panic else Inr (T, depth, proofBytes, buildMS, verifyMS))"

record bench_row =
  row_R :: real
  row_T :: u64
  row_Depth :: nat
  row_ProofBytes :: nat
  row_Subtrees :: u64
  row_L1Len :: nat
  row_L2Len :: int
  row_BuildMS :: real
  row_VerifyMS :: real
  row_PushNetBytes :: nat
  row_PullNetBytes :: nat
  row_FlyClientCeilB :: nat

definition Row :: "real \<Rightarrow> real \<Rightarrow> real \<Rightarrow> bench_row res" where
  "Row rTxPerS buildMS verifyMS =
     map_res (\<lambda>(T, depth, proofBytes, buildMS, verifyMS).
       let l1 = ceilLog2 (min64 T SubtreeCap) in
       \<lparr>row_R = rTxPerS, row_T = T, row_Depth = depth, row_ProofBytes = proofBytes,
        row_Subtrees = ceilDiv T SubtreeCap, row_L1Len = l1, row_L2Len = int depth - int l1,
        row_BuildMS = buildMS, row_VerifyMS = verifyMS, row_PushNetBytes = 0, row_PullNetBytes = proofBytes,
        row_FlyClientCeilB = HeaderGrowthBytesPerYear\<rparr>)
       (SimulateBlock rTxPerS buildMS verifyMS)"

text \<open>\<open>SweepThroughput\<close>: \<open>measured\<close> gives the two times of a row; \<open>None\<close> is the nil slice.\<close>

fun sweep_rows :: "(real \<Rightarrow> real \<times> real) \<Rightarrow> real list \<Rightarrow> bench_row list res" where
  "sweep_rows measured [] = Inr []"
| "sweep_rows measured (r # rs) =
     (case Row r (fst (measured r)) (snd (measured r)) of
        Inl e \<Rightarrow> Inl e
      | Inr row \<Rightarrow> map_res ((#) row) (sweep_rows measured rs))"

definition SweepThroughput :: "(real \<Rightarrow> real \<times> real) \<Rightarrow> real list option \<Rightarrow> bench_row list res" where
  "SweepThroughput measured rs =
     (let rs = (case rs of None \<Rightarrow> [10 ^ 6, 10 ^ 7, 10 ^ 8, 10 ^ 9, 10 ^ 10, 10 ^ 11] | Some rs \<Rightarrow> rs)
      in sweep_rows measured rs)"

definition SweepThroughputExtended :: "(real \<Rightarrow> real \<times> real) \<Rightarrow> bench_row list res" where
  "SweepThroughputExtended measured =
     SweepThroughput measured (Some [10 ^ 6, 10 ^ 7, 10 ^ 8, 10 ^ 9, 10 ^ 10, 10 ^ 11, 10 ^ 12])"

section \<open>Capacity\<close>

definition ShaNiRatePerCore :: real where
  "ShaNiRatePerCore = 100000000"

text \<open>
  The rate of \<open>n\<close> hashes in \<open>el\<close> seconds. The chain of hashes that is timed is discarded.
\<close>

definition HashRatePerSec :: "int \<Rightarrow> real \<Rightarrow> real" where
  "HashRatePerSec n el = (let n = (if n \<le> 0 then 2000000 else n) in if el \<le> 0 then 0 else real_of_int n / el)"

record capacity =
  cap_R :: real
  cap_T :: u64
  cap_Subtrees :: u64
  cap_SubtreesPerSec :: real
  cap_InternalHashes :: u64
  cap_MarginalHashRate :: real
  cap_InclusiveHashRate :: real
  cap_CoresMeasured :: real
  cap_CoresShaNi :: real
  cap_ProofBytes :: nat
  cap_MeasuredHashRate :: real

definition PlanCapacity :: "real \<Rightarrow> real \<Rightarrow> capacity" where
  "PlanCapacity r perCoreHashRate =
     (let T = txPerBlock r;
          internal = (if 0 < T then T - 1 else 0);
          inclusive = real (unat (2 * T)) / real (unat BlockIntervalSec)
      in \<lparr>cap_R = r, cap_T = T, cap_Subtrees = ceilDiv T SubtreeCap,
          cap_SubtreesPerSec = real (unat (ceilDiv T SubtreeCap)) / real (unat BlockIntervalSec),
          cap_InternalHashes = internal,
          cap_MarginalHashRate = real (unat internal) / real (unat BlockIntervalSec),
          cap_InclusiveHashRate = inclusive,
          cap_CoresMeasured = (if 0 < perCoreHashRate then inclusive / perCoreHashRate else 0),
          cap_CoresShaNi = inclusive / ShaNiRatePerCore,
          cap_ProofBytes = DigestBytes * ceilLog2 T,
          cap_MeasuredHashRate = perCoreHashRate\<rparr>)"

definition VerifBar :: real where
  "VerifBar = 15000000"

definition FabricCapacityForBar :: "real \<Rightarrow> real \<Rightarrow> nat \<times> real \<times> real" where
  "FabricCapacityForBar r perCoreHashRate =
     (let T = txPerBlock r; depth = ceilLog2 T in
      (depth, (if 0 < perCoreHashRate then VerifBar * real depth / perCoreHashRate else 0),
       VerifBar * real depth / ShaNiRatePerCore))"

section \<open>Backends\<close>

text \<open>\<open>HashPairBatch\<close> gets the two inputs and the length of the output; a short input panics.\<close>

record backend =
  be_name :: string
  HashPairFn :: "hash \<Rightarrow> hash \<Rightarrow> hash"
  HashPairBatch :: "hash list \<Rightarrow> hash list \<Rightarrow> nat \<Rightarrow> hash list res"
  Lanes :: int

fun pair_batch :: "(hash \<Rightarrow> hash \<Rightarrow> hash) \<Rightarrow> hash list \<Rightarrow> hash list \<Rightarrow> nat list \<Rightarrow> hash list res" where
  "pair_batch pair l r [] = Inr []"
| "pair_batch pair l r (i # is) =
     (case go_index l i of
        Inl e \<Rightarrow> Inl e
      | Inr a \<Rightarrow> (case go_index r i of
            Inl e \<Rightarrow> Inl e
          | Inr b \<Rightarrow> map_res ((#) (pair a b)) (pair_batch pair l r is)))"

definition SoftwareBackend :: backend where
  "SoftwareBackend =
     \<lparr>be_name = ''software'', HashPairFn = HashPair, HashPairBatch = (\<lambda>l r n. pair_batch HashPair l r [0..<n]), Lanes = 1\<rparr>"

text \<open>
  The accelerated backend (src/bench/backend_minio.go): \<open>sum256\<close> is \<open>Sum256\<close> of the package
  minio/sha256-simd, documented to compute SHA-256.
\<close>

definition minioHashPair :: "(bytes \<Rightarrow> 32 barray) \<Rightarrow> hash \<Rightarrow> hash \<Rightarrow> hash" where
  "minioHashPair sum256 l r =
     (let buf = bytes_of l @ bytes_of r; h1 = sum256 buf in sum256 (bytes_of h1))"

definition MinioBackend :: "(bytes \<Rightarrow> 32 barray) \<Rightarrow> backend" where
  "MinioBackend sum256 =
     \<lparr>be_name = ''minio-sha-ni'', HashPairFn = minioHashPair sum256,
      HashPairBatch = (\<lambda>l r n. pair_batch (minioHashPair sum256) l r [0..<n]), Lanes = 1\<rparr>"

definition AvailableBackends :: "(bytes \<Rightarrow> 32 barray) \<Rightarrow> backend list" where
  "AvailableBackends sum256 = [SoftwareBackend, MinioBackend sum256]"

lemma minio_same: "(\<And>m. sum256 m = sha256 m) \<Longrightarrow> minioHashPair sum256 = HashPair"
  by (intro ext) (simp add: minioHashPair_def HashPair_def DoubleSHA256_def)

lemma backends_agree:
  "(\<And>m. sum256 m = sha256 m) \<Longrightarrow> be \<in> set (AvailableBackends sum256) \<Longrightarrow>
   HashPairFn be = HashPair \<and> HashPairBatch be = (\<lambda>l r n. pair_batch HashPair l r [0..<n])"
  using minio_same by (auto simp: AvailableBackends_def MinioBackend_def SoftwareBackend_def)

definition ShaSoftwareReference :: real where
  "ShaSoftwareReference = 6000000"

text \<open>\<open>CapabilityNote\<close>, with the measured rate as an argument; the dash is three bytes of UTF-8.\<close>

definition CapabilityNote :: "real \<Rightarrow> real \<times> string" where
  "CapabilityNote perCoreRate =
     (perCoreRate,
      if 3 * ShaSoftwareReference < perCoreRate
      then ''hardware SHA acceleration present (SHA-NI / ARMv8-crypto) '' @ [CHR 0xE2, CHR 0x80, CHR 0x94] @
        '' rate >> software reference''
      else ''pure-software SHA-256d path (no SHA-NI exposed) '' @ [CHR 0xE2, CHR 0x80, CHR 0x94] @
        '' the unaccelerated anchor'')"

text \<open>The digits of \<open>itoa\<close>, written from the right end of its buffer.\<close>

function itoa_loop :: "int \<Rightarrow> string \<Rightarrow> string" where
  "itoa_loop n b = (if 0 < n then itoa_loop (n div 10) (char_of (48 + nat (n mod 10)) # b) else b)"
  by pat_completeness auto
termination
  by (relation "measure (\<lambda>(n, b). nat n)") auto

declare itoa_loop.simps [simp del]

definition itoa :: "int \<Rightarrow> string" where
  "itoa n =
     (if n = 0 then ''0''
      else
        let neg = n < 0; n = (if neg then - n else n); b = itoa_loop n []
        in if neg then CHR ''-'' # b else b)"

definition MultiBufScalarBackend :: "int \<Rightarrow> backend" where
  "MultiBufScalarBackend lanes =
     (let lanes = (if lanes < 1 then 8 else lanes) in
      SoftwareBackend\<lparr>be_name := ''multibuf-scalar(x'' @ itoa lanes @ '')'', Lanes := lanes\<rparr>)"

section \<open>Constructed batches\<close>

definition txidFromIndex :: "u64 \<Rightarrow> u64 \<Rightarrow> hash" where
  "txidFromIndex block i = DoubleSHA256 (le_bytes 8 block @ le_bytes 8 i)"

text \<open>\<open>sub[s]\<close> of \<open>BuildBatch\<close>.\<close>

definition sub_proof :: "nat \<Rightarrow> nat \<Rightarrow> nat \<Rightarrow> batch_proof" where
  "sub_proof l1len l2len s =
     (let leaf = txidFromIndex 0 (word_of_nat s);
          l1 = map (\<lambda>i. \<lparr>Sibling = DoubleSHA256 [word_of_nat s, word_of_nat (s div 256), word_of_nat i, 0xA1],
                         Right = (i mod 2 = 0)\<rparr>) [0..<l1len];
          sr = Fold leaf l1;
          l2 = map (\<lambda>i. \<lparr>Sibling = DoubleSHA256 [word_of_nat s, word_of_nat i, 0xA2], Right = (i mod 2 = 0)\<rparr>) [0..<l2len]
      in \<lparr>Leaf = leaf, L1 = l1, L2 = l2, SubtreeRoot = sr, BlockRoot = Fold sr l2,
          BlockHash = DoubleSHA256 (ascii ''block-0'')\<rparr>)"

text \<open>A negative length of \<open>make\<close> panics.\<close>

definition BuildBatch :: "int \<Rightarrow> int \<Rightarrow> int \<Rightarrow> batch_proof list res" where
  "BuildBatch depth P S =
     (let S = (if S < 1 then 1 else S);
          S = (if P < S then P else S);
          l1len = (if 20 < depth then 20 else depth);
          l2len = depth - l1len
      in if S < 0 then Inl Panic
         else if 0 < S \<and> l1len < 0 then Inl Panic
         else
           let sub = map (sub_proof (nat l1len) (nat l2len)) [0..<nat S]
           in Inr (map (\<lambda>p. sub ! (p mod nat S)) [0..<nat P]))"

definition foldWith :: "backend \<Rightarrow> hash \<Rightarrow> path_elem list \<Rightarrow> hash" where
  "foldWith be leaf path =
     fold (\<lambda>e node. if Right e then HashPairFn be node (Sibling e) else HashPairFn be (Sibling e) node) path leaf"

text \<open>One pass of a worker of \<open>FabricThroughput\<close> from a cold map.\<close>

definition fabric_pass :: "backend \<Rightarrow> batch_proof list \<Rightarrow> nat \<Rightarrow> nat" where
  "fabric_pass be proofs local =
     snd (fold (\<lambda>p (seen, local).
         if foldWith be (Leaf p) (L1 p) \<noteq> SubtreeRoot p then (seen, local)
         else
           let (br, seen) = (case seen (SubtreeRoot p) of
                 Some br \<Rightarrow> (br, seen)
               | None \<Rightarrow> (let br = foldWith be (SubtreeRoot p) (L2 p) in (br, seen(SubtreeRoot p \<mapsto> br))))
           in (seen, if br = BlockRoot p then local + 1 else local))
       proofs (Map.empty, local))"

section \<open>Arithmetic of the table\<close>

lemma SubtreeCap_unat: "unat SubtreeCap = 2 ^ 20"
  by (simp add: SubtreeCap_def push_bit_eq_mult)

lemma txPerBlock_unat:
  assumes "0 \<le> r" and "r * 600 < 2 ^ 64"
  shows "unat (txPerBlock r) = 600 * nat \<lfloor>r\<rfloor>"
proof -
  have "of_int \<lfloor>r\<rfloor> \<le> r" by simp
  then have "of_int (\<lfloor>r\<rfloor> * 600) < (2 ^ 64 :: real)"
    using assms(2) unfolding of_int_mult of_int_numeral by linarith
  then have "\<lfloor>r\<rfloor> * 600 < 2 ^ 64" by (metis of_int_less_numeral_power_cancel_iff)
  then have small: "600 * nat \<lfloor>r\<rfloor> < 2 ^ 64" using assms(1) by (simp add: nat_less_iff)
  have "txPerBlock r = word_of_nat (600 * nat \<lfloor>r\<rfloor>)"
    by (simp add: txPerBlock_def uint64_of_def BlockIntervalSec_def mult.commute)
  then show ?thesis using unat_word_of_nat_64 [OF small] by simp
qed

lemma ceilLog2_unat: "ceilLog2 n = bit_len (unat n - 1)"
proof (cases "n = 0")
  case False
  then have "0 < unat n" by (simp add: word_neq_0_conv unat_gt_0)
  moreover have "unat n < 2 ^ 64" using unsigned_less [of n] by simp
  ultimately show ?thesis using CeilLog2_of_nat [of "unat n"] by (simp add: ceilLog2_def)
qed (simp add: ceilLog2_def CeilLog2_def)

lemma min64_unat: "unat (min64 a b) = min (unat a) (unat b)"
  by (simp add: min64_def word_less_nat_alt min_def)

lemma ceilDiv_unat:
  assumes "unat a + unat b \<le> 2 ^ 64" and "0 < unat b" and "0 < unat a"
  shows "unat (ceilDiv a b) = (unat a + unat b - 1) div unat b"
proof -
  have "a + b - 1 = word_of_nat (unat a + unat b - 1)"
    using assms by (simp add: of_nat_diff)
  moreover have "unat (word_of_nat (unat a + unat b - 1) :: u64) = unat a + unat b - 1"
    by (rule unat_word_of_nat_64) (use assms in linarith)
  ultimately have "unat (a + b - 1) = unat a + unat b - 1" by (simp only:)
  then show ?thesis by (simp add: ceilDiv_def unat_div_distrib)
qed

lemma ceiling_bounds:
  fixes c n :: nat
  assumes "0 < c" and "0 < n"
  shows "n \<le> (n + c - 1) div c * c \<and> ((n + c - 1) div c - 1) * c < n"
proof -
  define q where "q = (n + c - 1) div c"
  have "q * c \<le> n + c - 1" by (simp add: q_def)
  moreover have "n + c - 1 < q * c + c"
    using dividend_less_div_times [OF assms(1), of "n + c - 1"] by (simp add: q_def add.commute)
  moreover have "(q - 1) * c = q * c - c" by (simp add: diff_mult_distrib)
  ultimately show ?thesis unfolding q_def [symmetric] using assms by linarith
qed

section \<open>The work of a tree\<close>

text \<open>The calls of \<open>HashPair\<close> that \<open>BuildMerkleTree\<close> makes: the nodes above the leaves.\<close>

definition tree_work :: "hash list \<Rightarrow> nat" where
  "tree_work leaves = sum_list (map length (tl (build_layers leaves)))"

lemma tree_work_step: "1 < length xs \<Longrightarrow> tree_work xs = (length xs + 1) div 2 + tree_work (next_level xs)"
proof -
  assume "1 < length xs"
  then have "tree_work xs = sum_list (map length (build_layers (next_level xs)))"
    by (simp add: tree_work_def build_layers_step)
  also have "\<dots> = length (hd (build_layers (next_level xs))) + sum_list (map length (tl (build_layers (next_level xs))))"
    by (metis build_layers_not_Nil list.collapse list.simps(9) sum_list.Cons)
  finally show ?thesis by (simp add: tree_work_def)
qed

lemma tree_work_bounds:
  "xs \<noteq> [] \<Longrightarrow> length xs \<le> tree_work xs + 1 \<and> tree_work xs + 1 \<le> length xs + bit_len (length xs - 1) \<and>
     (tree_work xs + 1 = length xs \<longrightarrow> (\<exists>k. length xs = 2 ^ k))"
proof (induction xs rule: tree_induct)
  case (leaf x)
  show ?case by (simp add: tree_work_def build_layers_single exI [of _ 0])
next
  case (level xs)
  let ?n = "length xs"
  have w: "tree_work xs = (?n + 1) div 2 + tree_work (next_level xs)" by (rule tree_work_step [OF level.hyps])
  have b: "bit_len (?n - 1) = Suc (bit_len ((?n + 1) div 2 - 1))" by (rule bit_len_halving [OF level.hyps])
  have l: "length (next_level xs) = (?n + 1) div 2" by simp
  have ub: "?n \<le> 2 * ((?n + 1) div 2)" "2 * ((?n + 1) div 2) \<le> ?n + 1" by linarith+
  note IH = level.IH [unfolded l]
  note IH1 = conjunct1 [OF IH] and IH2 = conjunct1 [OF conjunct2 [OF IH]] and IH3 = conjunct2 [OF conjunct2 [OF IH]]
  have "?n \<le> tree_work xs + 1" using IH1 w ub by linarith
  moreover have "tree_work xs + 1 \<le> ?n + bit_len (?n - 1)" using IH2 w ub b by linarith
  moreover have "\<exists>k. ?n = 2 ^ k" if e: "tree_work xs + 1 = ?n"
  proof -
    have e': "tree_work (next_level xs) + 1 = (?n + 1) div 2" "?n = 2 * ((?n + 1) div 2)"
      using e IH1 w ub by linarith+
    from IH3 e'(1) obtain k where "(?n + 1) div 2 = 2 ^ k" by blast
    with e'(2) have "?n = 2 ^ Suc k" by simp
    then show ?thesis by blast
  qed
  ultimately show ?case by blast
qed

lemma three_not_pow2: "\<not> 3 dvd (2 :: nat) ^ k"
proof (induction k)
  case (Suc k)
  then show ?case by (simp only: power_Suc) presburger
qed simp

section \<open>Constructed batches are valid\<close>

lemma foldWith_software: "foldWith SoftwareBackend leaf path = Fold leaf path"
proof -
  have e: "HashPairFn SoftwareBackend = HashPair" by (simp add: SoftwareBackend_def)
  show ?thesis using foldScalar_Fold [of leaf path] unfolding foldWith_def foldScalar_def e .
qed

definition proof_valid :: "batch_proof \<Rightarrow> bool" where
  "proof_valid p \<longleftrightarrow> Fold (Leaf p) (L1 p) = SubtreeRoot p \<and> Fold (SubtreeRoot p) (L2 p) = BlockRoot p"

lemma sub_proof_valid: "proof_valid (sub_proof m n s)"
  by (simp add: proof_valid_def sub_proof_def Let_def)

lemma sub_proof_lengths: "length (L1 (sub_proof m n s)) = m" "length (L2 (sub_proof m n s)) = n"
  by (simp_all add: sub_proof_def Let_def)

lemma fabric_pass_all:
  assumes "\<And>p. p \<in> set ps \<Longrightarrow> proof_valid p"
    and "\<And>p q. p \<in> set ps \<Longrightarrow> q \<in> set ps \<Longrightarrow> SubtreeRoot p = SubtreeRoot q \<Longrightarrow> BlockRoot p = BlockRoot q"
  shows "fabric_pass SoftwareBackend ps n = n + length ps"
proof -
  define f :: "batch_proof \<Rightarrow> (hash \<rightharpoonup> hash) \<times> nat \<Rightarrow> (hash \<rightharpoonup> hash) \<times> nat"
    where "f = (\<lambda>p (seen, local).
         if foldWith SoftwareBackend (Leaf p) (L1 p) \<noteq> SubtreeRoot p then (seen, local)
         else
           let (br, seen) = (case seen (SubtreeRoot p) of
                 Some br \<Rightarrow> (br, seen)
               | None \<Rightarrow> (let br = foldWith SoftwareBackend (SubtreeRoot p) (L2 p) in (br, seen(SubtreeRoot p \<mapsto> br))))
           in (seen, if br = BlockRoot p then local + 1 else local))"
  have "snd (fold f qs (seen, local)) = local + length qs"
    if "set qs \<subseteq> set ps" and "\<And>r br. seen r = Some br \<Longrightarrow> \<exists>p. p \<in> set ps \<and> SubtreeRoot p = r \<and> BlockRoot p = br"
    for qs seen local
    using that
  proof (induction qs arbitrary: seen local)
    case (Cons p qs)
    have p: "p \<in> set ps" "proof_valid p" using Cons.prems(1) assms(1) by auto
    define seen' where "seen' = (case seen (SubtreeRoot p) of Some _ \<Rightarrow> seen | None \<Rightarrow> seen(SubtreeRoot p \<mapsto> BlockRoot p))"
    have "BlockRoot p = br" if s: "seen (SubtreeRoot p) = Some br" for br
    proof -
      obtain q where "q \<in> set ps" "SubtreeRoot q = SubtreeRoot p" "BlockRoot q = br" using Cons.prems(2) [OF s] by blast
      then show ?thesis using assms(2) [OF p(1), of q] by simp
    qed
    then have "f p (seen, local) = (seen', local + 1)"
      using p(2) by (auto simp: f_def seen'_def foldWith_software proof_valid_def Let_def split: option.split)
    moreover have "\<exists>p. p \<in> set ps \<and> SubtreeRoot p = r \<and> BlockRoot p = br" if "seen' r = Some br" for r br
    proof (cases "r = SubtreeRoot p")
      case True
      then show ?thesis using that Cons.prems(2) p(1) unfolding seen'_def by (auto split: option.splits)
    next
      case False
      then show ?thesis using that Cons.prems(2) unfolding seen'_def by (auto split: option.splits)
    qed
    ultimately show ?case using Cons.IH [of seen' "local + 1"] Cons.prems(1) by simp
  qed simp
  from this [of ps Map.empty n] show ?thesis by (simp add: fabric_pass_def f_def)
qed

text \<open>Two subtrees of a constructed batch with one root are a collision.\<close>

definition sub_collision :: "nat \<Rightarrow> nat \<Rightarrow> nat \<Rightarrow> nat \<Rightarrow> bool" where
  "sub_collision m n s s' \<longleftrightarrow>
     exhibits (fold_collision (Leaf (sub_proof m n s)) (L1 (sub_proof m n s)) (Leaf (sub_proof m n s')) (L1 (sub_proof m n s'))) \<or>
     collision (le_bytes 8 (0 :: u64) @ le_bytes 8 (word_of_nat s :: u64), le_bytes 8 (0 :: u64) @ le_bytes 8 (word_of_nat s' :: u64))"

lemma same_root_collides:
  assumes "SubtreeRoot (sub_proof m n s) = SubtreeRoot (sub_proof m n s')" and "s \<noteq> s'" and "s < 2 ^ 64" and "s' < 2 ^ 64"
  shows "sub_collision m n s s'"
proof -
  let ?p = "sub_proof m n s" and ?q = "sub_proof m n s'"
  have "map Right (L1 ?p) = map Right (L1 ?q)" by (simp add: sub_proof_def Let_def comp_def)
  moreover have "Fold (Leaf ?p) (L1 ?p) = Fold (Leaf ?q) (L1 ?q)"
    using assms(1) sub_proof_valid [of m n s] sub_proof_valid [of m n s'] by (simp add: proof_valid_def)
  ultimately have "Leaf ?p = Leaf ?q \<or> exhibits (fold_collision (Leaf ?p) (L1 ?p) (Leaf ?q) (L1 ?q))"
    using fold_binding_cases by blast
  moreover have "le_bytes 8 (word_of_nat s :: u64) \<noteq> le_bytes 8 (word_of_nat s' :: u64)"
    using assms(2-4) unat_word_of_nat_64 by (subst le_bytes_inject) (simp, metis)
  ultimately show ?thesis
    by (auto simp: sub_collision_def sub_proof_def txidFromIndex_def collision_def Let_def)
qed

section \<open>Properties\<close>

text \<open>
  The scaling table follows the depth law. For a rate whose block count and its rounding to
  subtrees stay below \<open>2^64\<close>, the row has the number of transactions of 600 seconds, a depth that is
  the exact ceiling of its logarithm, 32 bytes per level, the smallest number of subtrees that hold
  the block, L1 and L2 lengths that add up to the depth with at most 20 levels in a subtree, and a
  header growth that does not depend on the rate.
\<close>
theorem Row_depth_law:
  assumes "1 \<le> r" and "r * 600 + 2 ^ 20 \<le> 2 ^ 64" and "Row r buildMS verifyMS = Inr row"
  shows "unat (row_T row) = 600 * nat \<lfloor>r\<rfloor> \<and>
    unat (row_T row) \<le> 2 ^ row_Depth row \<and> 2 ^ (row_Depth row - 1) < unat (row_T row) \<and>
    row_ProofBytes row = 32 * row_Depth row \<and>
    unat (row_T row) \<le> unat (row_Subtrees row) * 2 ^ 20 \<and>
    (unat (row_Subtrees row) - 1) * 2 ^ 20 < unat (row_T row) \<and>
    int (row_L1Len row) + row_L2Len row = int (row_Depth row) \<and> 0 \<le> row_L2Len row \<and> row_L1Len row \<le> 20 \<and>
    row_FlyClientCeilB row = 4204800"
proof -
  let ?T = "txPerBlock r" and ?N = "600 * nat \<lfloor>r\<rfloor>"
  have T: "unat ?T = ?N" by (rule txPerBlock_unat) (use assms(1,2) in simp_all)
  have "1 \<le> \<lfloor>r\<rfloor>" using assms(1) by simp
  then have N: "600 \<le> ?N" by linarith
  have "of_int \<lfloor>r\<rfloor> \<le> r" by simp
  then have "of_int (\<lfloor>r\<rfloor> * 600 + 2 ^ 20) \<le> (2 ^ 64 :: real)"
    using assms(2) unfolding of_int_add of_int_mult of_int_numeral of_int_power by linarith
  then have "\<lfloor>r\<rfloor> * 600 + 2 ^ 20 \<le> 2 ^ 64" by (metis of_int_le_numeral_power_cancel_iff)
  moreover have "int ?N = \<lfloor>r\<rfloor> * 600" using assms(1) by simp
  ultimately have "int (?N + 2 ^ 20) \<le> int (2 ^ 64)" by simp
  then have room: "?N + 2 ^ 20 \<le> 2 ^ 64" by (simp only: of_nat_le_iff)
  have row: "row_T row = ?T" "row_Depth row = bit_len (?N - 1)" "row_ProofBytes row = 32 * bit_len (?N - 1)"
    "row_Subtrees row = ceilDiv ?T SubtreeCap" "row_L1Len row = bit_len (min ?N (2 ^ 20) - 1)"
    "row_L2Len row = int (row_Depth row) - int (row_L1Len row)" "row_FlyClientCeilB row = 4204800"
    using assms(3) by (auto simp: Row_def SimulateBlock_def DigestBytes_def ceilLog2_unat T min64_unat SubtreeCap_unat
        HeaderGrowthBytesPerYear_def HeaderBytes_def BlocksPerYear_def Let_def)
  let ?d = "bit_len (?N - 1)" and ?S = "unat (row_Subtrees row)"
  have "?N - 1 < 2 ^ ?d" by (rule bit_len_upper)
  then have up: "?N \<le> 2 ^ ?d" using N by linarith
  have "2 ^ (?d - 1) \<le> ?N - 1" using N by (intro bit_len_lower) linarith
  then have low: "2 ^ (?d - 1) < ?N" using N by linarith
  have "?S = (?N + 2 ^ 20 - 1) div 2 ^ 20"
    using ceilDiv_unat [of ?T SubtreeCap] room N assms(1) by (simp add: row(4) T SubtreeCap_unat)
  then have sub: "?N \<le> ?S * 2 ^ 20" "(?S - 1) * 2 ^ 20 < ?N" using ceiling_bounds [of "2 ^ 20" ?N] N by simp_all
  have l1: "row_L1Len row \<le> 20" "row_L1Len row \<le> ?d"
    using row(5) bit_len_mono [of "min ?N (2 ^ 20) - 1" "2 ^ 20 - 1"] bit_len_mono [of "min ?N (2 ^ 20) - 1" "?N - 1"]
      bit_len_mask [of 20] by simp_all
  have TN: "unat (row_T row) = ?N" by (simp only: row(1) T)
  show ?thesis
    unfolding TN row(2,3,6,7) using up low sub l1 [unfolded row(2)] by (intro conjI) (assumption | rule refl | linarith)+
qed

text \<open>One hundred thousand million transactions a second.\<close>

theorem Row_depth_law_witness:
  "\<exists>row. Row 100000000000 0 0 = Inr row \<and> row_Depth row = 46 \<and> row_ProofBytes row = 1472"
proof -
  obtain row where row: "Row 100000000000 0 0 = Inr row" by (auto simp: Row_def SimulateBlock_def Let_def)
  have T: "unat (row_T row) = 60000000000000" and d: "unat (row_T row) \<le> 2 ^ row_Depth row"
    "2 ^ (row_Depth row - 1) < unat (row_T row)" and p: "row_ProofBytes row = 32 * row_Depth row"
    using Row_depth_law [OF _ _ row] by simp_all
  have "\<not> row_Depth row \<le> 45"
  proof
    assume "row_Depth row \<le> 45"
    then have "(2 :: nat) ^ row_Depth row \<le> 2 ^ 45" by (rule power_increasing) simp
    then show False using T d(1) by simp
  qed
  moreover have "\<not> 46 \<le> row_Depth row - 1"
  proof
    assume "46 \<le> row_Depth row - 1"
    then have "(2 :: nat) ^ 46 \<le> 2 ^ (row_Depth row - 1)" by (rule power_increasing) simp
    then show False using T d(2) by simp
  qed
  ultimately have "row_Depth row = 46" by linarith
  then show ?thesis using row p by simp
qed

text \<open>
  The planned hash count is a strict lower bound of the work. A tree over the planned number of
  leaves takes more calls of \<open>HashPair\<close> than \<open>InternalHashes\<close>, because a level of odd size pairs its
  last node with itself and a multiple of 600 is never a power of two, but at most one more per level.
\<close>
theorem PlanCapacity_work:
  assumes "1 \<le> r" and "r * 600 < 2 ^ 64" and "length leaves = unat (cap_T (PlanCapacity r rate))"
  shows "unat (cap_InternalHashes (PlanCapacity r rate)) < tree_work leaves \<and>
    tree_work leaves \<le> unat (cap_InternalHashes (PlanCapacity r rate)) + ceilLog2 (cap_T (PlanCapacity r rate))"
proof -
  let ?T = "txPerBlock r" and ?N = "600 * nat \<lfloor>r\<rfloor>"
  have T: "unat ?T = ?N" by (rule txPerBlock_unat) (use assms(1,2) in simp_all)
  have "1 \<le> \<lfloor>r\<rfloor>" using assms(1) by simp
  then have N: "600 \<le> ?N" by linarith
  have cap: "cap_T (PlanCapacity r rate) = ?T" "cap_InternalHashes (PlanCapacity r rate) = (if 0 < ?T then ?T - 1 else 0)"
    by (simp_all add: PlanCapacity_def Let_def)
  have "unat ?T \<noteq> 0" using T N by linarith
  then have "0 < ?T" by (simp add: unat_gt_0 word_neq_0_conv)
  then have internal: "unat (cap_InternalHashes (PlanCapacity r rate)) = ?N - 1"
    using cap(2) T N by (metis One_nat_def Suc_leI unat_1 unat_gt_0 unat_sub word_le_nat_alt word_neq_0_conv)
  have len: "length leaves = ?N" using assms(3) cap(1) T by simp
  then have "leaves \<noteq> []" using N by auto
  note w = tree_work_bounds [OF this, unfolded len]
  have "\<not> (\<exists>k. ?N = 2 ^ k)"
  proof
    assume "\<exists>k. ?N = 2 ^ k"
    then obtain k where "?N = 2 ^ k" by blast
    moreover have "3 dvd ?N" by simp
    ultimately show False using three_not_pow2 [of k] by metis
  qed
  then have "tree_work leaves + 1 \<noteq> ?N" using w by blast
  moreover have d: "ceilLog2 ?T = bit_len (?N - 1)" by (simp only: ceilLog2_unat T)
  ultimately show ?thesis unfolding internal cap(1) d using w N by linarith
qed

theorem PlanCapacity_work_witness:
  "unat (cap_InternalHashes (PlanCapacity 1 0)) < tree_work (replicate 600 zero_hash)"
proof -
  have "length (replicate 600 zero_hash) = unat (cap_T (PlanCapacity 1 0))"
    using txPerBlock_unat [of 1] by (simp add: PlanCapacity_def Let_def)
  then show ?thesis using PlanCapacity_work [of 1 "replicate 600 zero_hash" 0] by simp
qed

text \<open>
  Constructed batches are valid. For a depth from 0 on and a positive number of proofs,
  \<open>BuildBatch\<close> returns that many proofs, of which every one folds to its subtree and block root over
  \<open>depth\<close> levels, at most 20 of them in L1; a pass of \<open>FabricThroughput\<close> counts all of them, or two of
  the subtrees exhibit a collision. A negative depth or number panics.
\<close>
theorem BuildBatch_valid:
  assumes "0 \<le> depth" and "0 < P" and "P \<le> 2 ^ 63"
  shows "(\<exists>ps. BuildBatch depth P S = Inr ps \<and> length ps = nat P \<and>
      (\<forall>i<nat P. proof_valid (ps ! i) \<and> length (L1 (ps ! i)) = min (nat depth) 20 \<and>
         length (L1 (ps ! i)) + length (L2 (ps ! i)) = nat depth) \<and>
      (fabric_pass SoftwareBackend ps 0 = nat P \<or>
       (\<exists>s s'. s \<noteq> s' \<and> sub_collision (min (nat depth) 20) (nat depth - 20) s s'))) \<and>
    BuildBatch (- 1) P S = Inl Panic \<and> BuildBatch depth (- P) S = Inl Panic"
proof -
  define k where "k = nat (if P < (if S < 1 then 1 else S) then P else if S < 1 then 1 else S)"
  let ?m = "min (nat depth) 20" and ?n = "nat depth - 20"
  define ps where "ps = map (\<lambda>p. map (sub_proof ?m ?n) [0..<k] ! (p mod k)) [0..<nat P]"
  have k: "0 < k" "k \<le> nat P" using assms(2) by (auto simp: k_def)
  have built: "BuildBatch depth P S = Inr ps"
  proof -
    have "nat (if 20 < depth then 20 else depth) = ?m" "nat (depth - (if 20 < depth then 20 else depth)) = ?n"
      using assms(1) by (auto simp: min_def)
    then show ?thesis using assms(1,2) by (simp add: BuildBatch_def ps_def k_def Let_def)
  qed
  have nth: "ps ! i = sub_proof ?m ?n (i mod k)" if "i < nat P" for i using that k by (simp add: ps_def)
  have all: "\<forall>i<nat P. proof_valid (ps ! i) \<and> length (L1 (ps ! i)) = ?m \<and> length (L1 (ps ! i)) + length (L2 (ps ! i)) = nat depth"
    using nth by (simp add: sub_proof_valid sub_proof_lengths min_def)
  have mem: "\<exists>s<k. p = sub_proof ?m ?n s" if "p \<in> set ps" for p
  proof -
    obtain i where "i < nat P" "p = sub_proof ?m ?n (i mod k)" using \<open>p \<in> set ps\<close> k by (auto simp: ps_def)
    then show ?thesis using k(1) mod_less_divisor by blast
  qed
  have "fabric_pass SoftwareBackend ps 0 = nat P \<or> (\<exists>s s'. s \<noteq> s' \<and> sub_collision ?m ?n s s')"
  proof (cases "\<exists>s s'. s \<noteq> s' \<and> sub_collision ?m ?n s s'")
    case False
    have "BlockRoot p = BlockRoot q" if pq: "p \<in> set ps" "q \<in> set ps" "SubtreeRoot p = SubtreeRoot q" for p q
    proof -
      obtain s s' where s: "s < k" "s' < k" "p = sub_proof ?m ?n s" "q = sub_proof ?m ?n s'" using mem pq(1,2) by metis
      have "nat P < 2 ^ 64" using assms(3) by (simp add: nat_less_iff)
      then have "s < 2 ^ 64" "s' < 2 ^ 64" using s(1,2) k(2) by linarith+
      moreover have "SubtreeRoot (sub_proof ?m ?n s) = SubtreeRoot (sub_proof ?m ?n s')" using pq(3) s(3,4) by simp
      ultimately have "s = s'" using False same_root_collides by metis
      then show ?thesis using s(3,4) by simp
    qed
    moreover have "proof_valid p" if "p \<in> set ps" for p using mem [OF that] sub_proof_valid by metis
    ultimately have "fabric_pass SoftwareBackend ps 0 = 0 + length ps" by (intro fabric_pass_all) blast+
    then show ?thesis by (simp add: ps_def)
  qed simp
  moreover have "BuildBatch (- 1) P S = Inl Panic" "BuildBatch depth (- P) S = Inl Panic"
    using assms(2) by (auto simp: BuildBatch_def Let_def)
  moreover have "length ps = nat P" by (simp add: ps_def)
  ultimately show ?thesis using built all by (intro conjI exI [of _ ps])
qed

theorem BuildBatch_valid_witness:
  "\<exists>ps. BuildBatch 30 40 7 = Inr ps \<and> length ps = 40"
  using BuildBatch_valid [of 30 40 7] by auto

end
