(* ===== verification/Workers.thy ===== *)
theory Workers
  imports Prelude Complex_Main
begin

text \<open>
  The goroutines of the measuring functions (src/bench/fabric.go, fabric16.go, throughput.go,
  blockverify.go, src/fabric/report.go, pull.go), which all have one shape: workers repeat a pass over
  shared read-only data, each with buffers and a count of its own, until the clock passes a deadline,
  and then add their count to a shared total; the caller waits for all of them.

  The steps of the workers interleave in any order. The shared total is updated by an atomic add, or
  between \<open>mu.Lock()\<close> and \<open>mu.Unlock()\<close> by a read and a write that are separate steps. A worker that
  panics ends the program. The clock is read by a step of its own and moves on between steps.
\<close>

section \<open>State\<close>

text \<open>One pass of worker \<open>i\<close>: its buffers after the pass, and what it adds to the count.\<close>

type_synonym 'l pass = "nat \<Rightarrow> 'l \<Rightarrow> ('l \<times> u64) res"

text \<open>Where a worker is, with its buffers and its count; \<open>Store\<close> holds the value it has read.\<close>

datatype 'l pc =
    Body 'l u64
  | Test 'l u64
  | Add 'l u64
  | Load 'l u64
  | Store 'l u64 u64
  | Unlock 'l
  | Done 'l

record 'l pool =
  procs :: "'l pc list"
  tally :: u64
  held :: bool
  clock :: nat
  crashed :: bool

text \<open>
  A loop \<open>for time.Now().Before(deadline) { pass }\<close> tests first (\<open>head\<close>), a loop
  \<open>for { pass; if time.Now().After(deadline) { break } }\<close> tests after each pass.
\<close>

definition start_pool :: "bool \<Rightarrow> 'l list \<Rightarrow> nat \<Rightarrow> 'l pool" where
  "start_pool head locals now =
     \<lparr>procs = map (\<lambda>l. if head then Test l 0 else Body l 0) locals, tally = 0, held = False,
      clock = now, crashed = False\<rparr>"

definition move :: "'l pool \<Rightarrow> nat \<Rightarrow> 'l pc \<Rightarrow> 'l pool" where
  "move s i p = s\<lparr>procs := (procs s)[i := p]\<rparr>"

definition at_pc :: "'l pool \<Rightarrow> nat \<Rightarrow> 'l pc \<Rightarrow> bool" where
  "at_pc s i p \<longleftrightarrow> \<not> crashed s \<and> i < length (procs s) \<and> procs s ! i = p"

definition all_done :: "'l pool \<Rightarrow> bool" where
  "all_done s \<longleftrightarrow> (\<forall>p\<in>set (procs s). case p of Done _ \<Rightarrow> True | _ \<Rightarrow> False)"

section \<open>Steps\<close>

inductive worker_step :: "bool \<Rightarrow> 'l pass \<Rightarrow> (nat \<Rightarrow> bool) \<Rightarrow> 'l pool \<Rightarrow> 'l pool \<Rightarrow> bool"
  for mutex :: bool and pass :: "'l pass" and go_on :: "nat \<Rightarrow> bool" where
  body: "at_pc s i (Body l c) \<Longrightarrow> pass i l = Inr (l', k) \<Longrightarrow>
    worker_step mutex pass go_on s (move s i (Test l' (c + k)))"
| panic: "at_pc s i (Body l c) \<Longrightarrow> pass i l = Inl e \<Longrightarrow>
    worker_step mutex pass go_on s (s\<lparr>crashed := True\<rparr>)"
| again: "at_pc s i (Test l c) \<Longrightarrow> go_on (clock s) \<Longrightarrow>
    worker_step mutex pass go_on s (move s i (Body l c))"
| leave: "at_pc s i (Test l c) \<Longrightarrow> \<not> go_on (clock s) \<Longrightarrow>
    worker_step mutex pass go_on s (move s i (Add l c))"
| atomic_add: "at_pc s i (Add l c) \<Longrightarrow> \<not> mutex \<Longrightarrow>
    worker_step mutex pass go_on s (move (s\<lparr>tally := tally s + c\<rparr>) i (Done l))"
| lock: "at_pc s i (Add l c) \<Longrightarrow> mutex \<Longrightarrow> \<not> held s \<Longrightarrow>
    worker_step mutex pass go_on s (move (s\<lparr>held := True\<rparr>) i (Load l c))"
| load: "at_pc s i (Load l c) \<Longrightarrow>
    worker_step mutex pass go_on s (move s i (Store l c (tally s)))"
| store: "at_pc s i (Store l c t) \<Longrightarrow>
    worker_step mutex pass go_on s (move (s\<lparr>tally := t + c\<rparr>) i (Unlock l))"
| unlock: "at_pc s i (Unlock l) \<Longrightarrow>
    worker_step mutex pass go_on s (move (s\<lparr>held := False\<rparr>) i (Done l))"

inductive pool_step :: "bool \<Rightarrow> 'l pass \<Rightarrow> (nat \<Rightarrow> bool) \<Rightarrow> 'l pool \<Rightarrow> 'l pool \<Rightarrow> bool"
  for mutex :: bool and pass :: "'l pass" and go_on :: "nat \<Rightarrow> bool" where
  work: "worker_step mutex pass go_on s s' \<Longrightarrow> pool_step mutex pass go_on s s'"
| tick: "clock s \<le> t \<Longrightarrow> pool_step mutex pass go_on s (s\<lparr>clock := t\<rparr>)"

text \<open>
  Beside the state a run keeps a history that no step reads: how many passes each worker has completed. A
  step completes a pass of worker \<open>i\<close> when it takes \<open>i\<close> from the pass to the test that follows it.
\<close>

definition completes :: "'l pool \<Rightarrow> 'l pool \<Rightarrow> nat \<Rightarrow> bool" where
  "completes s s' i \<longleftrightarrow> (case procs s ! i of Body _ _ \<Rightarrow> (case procs s' ! i of Test _ _ \<Rightarrow> True | _ \<Rightarrow> False) | _ \<Rightarrow> False)"

definition after_step :: "'l pool \<Rightarrow> 'l pool \<Rightarrow> (nat \<Rightarrow> nat) \<Rightarrow> nat \<Rightarrow> nat" where
  "after_step s s' made = (\<lambda>i. if completes s s' i then Suc (made i) else made i)"

inductive reach_pool ::
  "bool \<Rightarrow> 'l pass \<Rightarrow> (nat \<Rightarrow> bool) \<Rightarrow> 'l pool \<Rightarrow> (nat \<Rightarrow> nat) \<Rightarrow> 'l pool \<Rightarrow> bool"
  for mutex :: bool and pass :: "'l pass" and go_on :: "nat \<Rightarrow> bool" and s0 :: "'l pool" where
  start: "reach_pool mutex pass go_on s0 (\<lambda>_. 0) s0"
| step: "reach_pool mutex pass go_on s0 made s \<Longrightarrow> pool_step mutex pass go_on s s' \<Longrightarrow>
    reach_pool mutex pass go_on s0 (after_step s s' made) s'"

text \<open>
  The pools that a measuring function can reach, with the passes its workers have completed on the way: \<open>head\<close> goes with \<open>time.Now().Before(deadline)\<close>, the
  other shape with \<open>time.Now().After(deadline)\<close>.
\<close>

definition before :: "bool \<Rightarrow> nat \<Rightarrow> nat \<Rightarrow> bool" where
  "before head deadline t \<longleftrightarrow> (if head then t < deadline else t \<le> deadline)"

definition timed_loop :: "bool \<Rightarrow> bool \<Rightarrow> 'l pass \<Rightarrow> 'l list \<Rightarrow> nat \<Rightarrow> nat
    \<Rightarrow> (nat \<Rightarrow> nat) \<Rightarrow> 'l pool \<Rightarrow> bool" where
  "timed_loop mutex head pass locals now deadline made s \<longleftrightarrow>
     reach_pool mutex pass (before head deadline) (start_pool head locals now) made s"

text \<open>The rate that the caller computes from the total of a finished pool and the seconds of the window.\<close>

text \<open>\<open>bench\<close> replaces a window that is not positive by a second; \<open>fabric\<close> has an \<open>int64\<close> total.\<close>

definition count_rate :: "u64 \<Rightarrow> real \<Rightarrow> real" where
  "count_rate count secs = (let secs = (if secs \<le> 0 then 1 else secs) in real (unat count) / secs)"

definition total_rate :: "u64 \<Rightarrow> real \<Rightarrow> real" where
  "total_rate tot secs = real_of_int (sint tot) / secs"

definition at_least_one :: "nat \<Rightarrow> nat" where
  "at_least_one workers = (if workers < 1 then 1 else workers)"

section \<open>Invariant\<close>

fun critical :: "'l pc \<Rightarrow> bool" where
  "critical (Load _ _) = True"
| "critical (Store _ _ _) = True"
| "critical (Unlock _) = True"
| "critical _ = False"

fun flushed :: "'l pc \<Rightarrow> bool" where
  "flushed (Unlock _) = True"
| "flushed (Done _) = True"
| "flushed _ = False"

fun local_of :: "'l pc \<Rightarrow> 'l" where
  "local_of (Body l _) = l"
| "local_of (Test l _) = l"
| "local_of (Add l _) = l"
| "local_of (Load l _) = l"
| "local_of (Store l _ _) = l"
| "local_of (Unlock l) = l"
| "local_of (Done l) = l"

fun count_of :: "'l pc \<Rightarrow> u64 option" where
  "count_of (Body _ c) = Some c"
| "count_of (Test _ c) = Some c"
| "count_of (Add _ c) = Some c"
| "count_of (Load _ c) = Some c"
| "count_of (Store _ c _) = Some c"
| "count_of _ = None"

text \<open>How many steps a worker has left once the clock is past the deadline.\<close>

fun rank :: "'l pc \<Rightarrow> nat" where
  "rank (Body _ _) = 6"
| "rank (Test _ _) = 5"
| "rank (Add _ _) = 4"
| "rank (Load _ _) = 3"
| "rank (Store _ _ _) = 2"
| "rank (Unlock _) = 1"
| "rank (Done _) = 0"

text \<open>The history grows in the step of a completed pass only, for the worker that takes it.\<close>

lemma completes_stay: "procs s' ! i = procs s ! i \<Longrightarrow> \<not> completes s s' i"
  by (simp add: completes_def split: pc.splits)

lemma completes_other: "procs s2 = procs s \<Longrightarrow> j \<noteq> i \<Longrightarrow> \<not> completes s (move s2 i p) j"
  by (rule completes_stay) (simp add: move_def)

lemma after_step_body:
  assumes "at_pc s i (Body l c)"
  shows "after_step s (move s i (Test l' c')) made = made(i := Suc (made i))"
proof
  fix j
  have "completes s (move s i (Test l' c')) i" using assms by (simp add: completes_def at_pc_def move_def)
  then show "after_step s (move s i (Test l' c')) made j = (made(i := Suc (made i))) j"
    using completes_other [OF refl, of j i s] by (cases "j = i") (simp_all add: after_step_def)
qed

lemma after_step_move:
  assumes "at_pc s i p0" and "procs s2 = procs s" and "case p0 of Body _ _ \<Rightarrow> False | _ \<Rightarrow> True"
  shows "after_step s (move s2 i p) made = made"
proof
  fix j
  have "\<not> completes s (move s2 i p) i" using assms(1,3) by (cases p0) (simp_all add: completes_def at_pc_def)
  then show "after_step s (move s2 i p) made j = made j"
    using completes_other [OF assms(2), of j i p] by (cases "j = i") (simp_all add: after_step_def)
qed

lemma after_step_same: "procs s' = procs s \<Longrightarrow> after_step s s' made = made"
  by (rule ext) (simp add: after_step_def completes_stay)

text \<open>
  The contract of a pass: from buffers in order it does not panic, leaves them in order, and adds the
  same amount each time.
\<close>

locale worker_loop =
  fixes pass :: "'l pass" and ok :: "nat \<Rightarrow> 'l \<Rightarrow> bool" and gain :: "nat \<Rightarrow> u64"
  assumes pass_ok: "ok i l \<Longrightarrow> \<exists>l'. pass i l = Inr (l', gain i) \<and> ok i l'"
begin

text \<open>Worker \<open>i\<close> at \<open>p\<close> after \<open>m\<close> passes, while the total is \<open>t\<close>.\<close>

definition worker_ok :: "bool \<Rightarrow> u64 \<Rightarrow> nat \<Rightarrow> nat \<Rightarrow> 'l pc \<Rightarrow> bool" where
  "worker_ok head t i m p \<longleftrightarrow> ok i (local_of p) \<and>
     (case count_of p of Some c \<Rightarrow> c = of_nat m * gain i | None \<Rightarrow> True) \<and>
     (case p of Store _ _ t' \<Rightarrow> t' = t | _ \<Rightarrow> True) \<and>
     (head \<or> 0 < m \<or> (case p of Body _ _ \<Rightarrow> True | _ \<Rightarrow> False))"

definition share :: "nat \<Rightarrow> nat \<Rightarrow> 'l pc \<Rightarrow> u64" where
  "share i m p = (if flushed p then of_nat m * gain i else 0)"

definition lock_ok :: "bool \<Rightarrow> bool \<Rightarrow> 'l pc list \<Rightarrow> bool" where
  "lock_ok mutex h ps \<longleftrightarrow> (\<forall>i<length ps. critical (ps ! i) \<longrightarrow> h \<and> (\<forall>j<length ps. critical (ps ! j) \<longrightarrow> j = i)) \<and>
     (h \<longrightarrow> mutex \<and> (\<exists>i<length ps. critical (ps ! i)))"

definition pool_ok :: "bool \<Rightarrow> bool \<Rightarrow> (nat \<Rightarrow> nat) \<Rightarrow> 'l pool \<Rightarrow> bool" where
  "pool_ok mutex head ms s \<longleftrightarrow> \<not> crashed s \<and>
     (\<forall>i<length (procs s). worker_ok head (tally s) i (ms i) (procs s ! i)) \<and>
     tally s = (\<Sum>i<length (procs s). share i (ms i) (procs s ! i)) \<and> lock_ok mutex (held s) (procs s)"

lemma sum_change:
  fixes f :: "nat \<Rightarrow> u64"
  assumes "i < n"
  shows "(\<Sum>j<n. if j = i then x else f j) = (\<Sum>j<n. f j) - f i + x"
proof -
  have "(\<Sum>j<n. if j = i then x else f j) = x + (\<Sum>j\<in>{..<n} - {i}. f j)"
    using assms by (subst sum.remove [of _ i]) (auto intro: sum.cong)
  moreover have "(\<Sum>j<n. f j) = f i + (\<Sum>j\<in>{..<n} - {i}. f j)" using assms by (subst sum.remove [of _ i]) auto
  ultimately show ?thesis by simp
qed

lemma pool_ok_move:
  assumes "pool_ok mutex head ms s" and "at_pc s i p0"
    and "worker_ok head t i m p" and "t = tally s - share i (ms i) p0 + share i m p"
    and "t = tally s \<or> mutex \<and> critical p0 \<or> \<not> mutex"
    and "lock_ok mutex h ((procs s)[i := p])"
  shows "pool_ok mutex head (ms(i := m)) (move (s\<lparr>tally := t, held := h\<rparr>) i p)"
proof -
  let ?ps = "procs s" and ?n = "length (procs s)"
  have i: "i < ?n" "?ps ! i = p0" using assms(2) by (simp_all add: at_pc_def)
  have s: "\<not> crashed s" "\<And>j. j < ?n \<Longrightarrow> worker_ok head (tally s) j (ms j) (?ps ! j)"
    "tally s = (\<Sum>j<?n. share j (ms j) (?ps ! j))" "lock_ok mutex (held s) ?ps"
    using assms(1) unfolding pool_ok_def by blast+
  have others: "worker_ok head t j (ms j) (?ps ! j)" if j: "j < ?n" "j \<noteq> i" for j
  proof (cases "t = tally s")
    case False
    then have "\<not> critical (?ps ! j)"
      using assms(5) s(4) i j by (auto simp: lock_ok_def)
    then show ?thesis using s(2) [OF j(1)] by (cases "?ps ! j") (simp_all add: worker_ok_def)
  qed (use s(2) j in simp)
  have "(\<Sum>j<?n. share j ((ms(i := m)) j) (?ps[i := p] ! j))
      = (\<Sum>j<?n. if j = i then share i m p else share j (ms j) (?ps ! j))"
    by (intro sum.cong) (auto simp: nth_list_update)
  also have "\<dots> = t" using sum_change [OF i(1)] s(3) i(2) assms(4) by simp
  finally show ?thesis
    using s(1) i(1) others assms(3,6) by (simp add: pool_ok_def move_def nth_list_update)
qed

lemma lock_ok_same:
  "lock_ok mutex h ps \<Longrightarrow> i < length ps \<Longrightarrow> critical p = critical (ps ! i) \<Longrightarrow> lock_ok mutex h (ps[i := p])"
  unfolding lock_ok_def by (simp add: nth_list_update) metis

lemma lock_ok_acquire:
  "lock_ok mutex False ps \<Longrightarrow> i < length ps \<Longrightarrow> mutex \<Longrightarrow> critical p \<Longrightarrow> lock_ok mutex True (ps[i := p])"
  unfolding lock_ok_def by (auto simp: nth_list_update)

lemma lock_ok_release:
  "lock_ok mutex h ps \<Longrightarrow> i < length ps \<Longrightarrow> critical (ps ! i) \<Longrightarrow> \<not> critical p \<Longrightarrow> lock_ok mutex False (ps[i := p])"
  unfolding lock_ok_def by (auto simp: nth_list_update)

lemma worker_at:
  assumes "pool_ok mutex head ms s" and "at_pc s i p"
  shows "worker_ok head (tally s) i (ms i) p" and "lock_ok mutex (held s) (procs s)"
    and "i < length (procs s)" and "procs s ! i = p"
  using assms by (auto simp: pool_ok_def at_pc_def)

lemma pool_ok_stay:
  assumes "pool_ok mutex head ms s" and "at_pc s i p0" and "worker_ok head (tally s) i m p"
    and "critical p = critical p0" and "\<not> flushed p" and "\<not> flushed p0"
  shows "pool_ok mutex head (ms(i := m)) (move s i p)"
proof -
  note w = worker_at [OF assms(1,2)]
  have "lock_ok mutex (held s) ((procs s)[i := p])"
    using lock_ok_same [OF w(2,3)] w(4) assms(4) by simp
  from pool_ok_move [OF assms(1,2,3) _ _ this] show ?thesis using assms(5,6) by (simp add: share_def)
qed

lemma worker_step_ok:
  assumes "worker_step mutex pass go_on s s'" and "pool_ok mutex head ms s"
  shows "pool_ok mutex head (after_step s s' ms) s'"
  using assms
proof cases
  case (body i l c l' k)
  note w = worker_at [OF assms(2) body(2)]
  obtain l1 where l1: "pass i l = Inr (l1, gain i)" "ok i l1"
    using pass_ok w(1) by (auto simp: worker_ok_def)
  then have "worker_ok head (tally s) i (Suc (ms i)) (Test l' (c + k))"
    using w(1) body(3) by (simp add: worker_ok_def algebra_simps)
  from pool_ok_stay [OF assms(2) body(2) this] show ?thesis using body(1) after_step_body [OF body(2)] by simp
next
  case (panic i l c e)
  then show ?thesis using pass_ok worker_at(1) [OF assms(2) panic(2)] by (force simp: worker_ok_def)
next
  case (again i l c)
  then have "worker_ok head (tally s) i (ms i) (Body l c)"
    using worker_at(1) [OF assms(2) again(2)] by (simp add: worker_ok_def)
  from pool_ok_stay [OF assms(2) again(2) this] show ?thesis using again(1) after_step_move [OF again(2)] by simp
next
  case (leave i l c)
  then have "worker_ok head (tally s) i (ms i) (Add l c)"
    using worker_at(1) [OF assms(2) leave(2)] by (simp add: worker_ok_def)
  from pool_ok_stay [OF assms(2) leave(2) this] show ?thesis using leave(1) after_step_move [OF leave(2)] by simp
next
  case (atomic_add i l c)
  note w = worker_at [OF assms(2) atomic_add(2)]
  have "lock_ok mutex (held s) ((procs s)[i := Done l])" using lock_ok_same [OF w(2,3)] w(4) by simp
  from pool_ok_move [OF assms(2) atomic_add(2) _ _ _ this, of "tally s + c" "ms i"]
  show ?thesis using w(1) atomic_add(1,3) after_step_move [OF atomic_add(2)] by (simp add: worker_ok_def share_def)
next
  case (lock i l c)
  note w = worker_at [OF assms(2) lock(2)]
  have "lock_ok mutex True ((procs s)[i := Load l c])"
    using lock_ok_acquire [OF _ w(3)] w(2) lock(3,4) by simp
  from pool_ok_move [OF assms(2) lock(2) _ _ _ this, of "tally s" "ms i"]
  show ?thesis using w(1) lock(1) after_step_move [OF lock(2)] by (simp add: worker_ok_def share_def)
next
  case (load i l c)
  note w = worker_at [OF assms(2) load(2)]
  have "worker_ok head (tally s) i (ms i) (Store l c (tally s))" using w(1) by (simp add: worker_ok_def)
  from pool_ok_stay [OF assms(2) load(2) this] show ?thesis using load(1) after_step_move [OF load(2)] by simp
next
  case (store i l c t)
  note w = worker_at [OF assms(2) store(2)]
  have "lock_ok mutex (held s) ((procs s)[i := Unlock l])" using lock_ok_same [OF w(2,3)] w(4) by simp
  from pool_ok_move [OF assms(2) store(2) _ _ _ this, of "t + c" "ms i"]
  show ?thesis using w store(1) after_step_move [OF store(2)] by (auto simp: worker_ok_def share_def lock_ok_def)
next
  case (unlock i l)
  note w = worker_at [OF assms(2) unlock(2)]
  have "lock_ok mutex False ((procs s)[i := Done l])" using lock_ok_release [OF w(2,3)] w(4) by simp
  from pool_ok_move [OF assms(2) unlock(2) _ _ _ this, of "tally s" "ms i"]
  show ?thesis using w(1) unlock(1) after_step_move [OF unlock(2)] by (simp add: worker_ok_def share_def)
qed

lemma start_pool_ok:
  assumes "\<And>i. i < length locals \<Longrightarrow> ok i (locals ! i)"
  shows "pool_ok mutex head (\<lambda>_. 0) (start_pool head locals now)"
proof -
  have "(\<Sum>i<length locals. share i 0
      (map (\<lambda>l. if head then Test l 0 else Body l 0) locals ! i)) = 0"
    by (rule sum.neutral) (simp add: share_def)
  then show ?thesis using assms by (auto simp: pool_ok_def start_pool_def worker_ok_def lock_ok_def)
qed

lemma pool_ok_clock: "pool_ok mutex head ms (s\<lparr>clock := t\<rparr>) = pool_ok mutex head ms s"
  by (simp add: pool_ok_def)

lemma pool_step_ok:
  assumes "pool_step mutex pass go_on s s'" and "pool_ok mutex head ms s"
  shows "pool_ok mutex head (after_step s s' ms) s'"
  using assms(1)
proof cases
  case work
  then show ?thesis using worker_step_ok assms(2) by blast
next
  case (tick t)
  then show ?thesis using assms(2) pool_ok_clock after_step_same [of s' s] by simp
qed

lemma reach_pool_ok:
  assumes "reach_pool mutex pass go_on (start_pool head locals now) made s"
    and "\<And>i. i < length locals \<Longrightarrow> ok i (locals ! i)"
  shows "pool_ok mutex head made s"
  using assms(1)
proof induction
  case start
  show ?case using start_pool_ok [OF assms(2)] by blast
next
  case (step made s s')
  then show ?case using pool_step_ok by blast
qed

text \<open>When all workers are done the total is the sum of what they counted, whatever the order.\<close>

lemma all_done_total:
  assumes "pool_ok mutex head ms s" and "all_done s"
  shows "tally s = (\<Sum>i<length (procs s). of_nat (ms i) * gain i)" and "\<not> held s"
    and "i < length (procs s) \<Longrightarrow> \<exists>l. procs s ! i = Done l \<and> ok i l \<and> (head \<or> 0 < ms i)"
proof -
  have d: "\<exists>l. procs s ! i = Done l" if "i < length (procs s)" for i
  proof -
    have "case procs s ! i of Done _ \<Rightarrow> True | _ \<Rightarrow> False"
      using assms(2) nth_mem [OF that] unfolding all_done_def by blast
    then show ?thesis by (cases "procs s ! i") simp_all
  qed
  have "tally s = (\<Sum>i<length (procs s). share i (ms i) (procs s ! i))" using assms(1) unfolding pool_ok_def by blast
  also have "\<dots> = (\<Sum>i<length (procs s). of_nat (ms i) * gain i)"
    by (rule sum.cong) (use d in \<open>force simp: share_def\<close>)+
  finally show "tally s = (\<Sum>i<length (procs s). of_nat (ms i) * gain i)" .
  have "\<not> critical (procs s ! i)" if "i < length (procs s)" for i using d [OF that] by auto
  then show "\<not> held s" using assms(1) unfolding pool_ok_def lock_ok_def by blast
  assume i: "i < length (procs s)"
  then obtain l where l: "procs s ! i = Done l" using d by blast
  have "worker_ok head (tally s) i (ms i) (procs s ! i)" using assms(1) i unfolding pool_ok_def by blast
  then show "\<exists>l. procs s ! i = Done l \<and> ok i l \<and> (head \<or> 0 < ms i)" using l by (simp add: worker_ok_def)
qed

text \<open>While a worker is not done some worker can take a step: no deadlock.\<close>

lemma worker_step_possible:
  assumes "pool_ok mutex head ms s" and "\<not> all_done s"
  shows "\<exists>s'. worker_step mutex pass go_on s s'"
proof -
  have live: "\<not> crashed s" "lock_ok mutex (held s) (procs s)" using assms(1) by (simp_all add: pool_ok_def)
  obtain i where i: "i < length (procs s)" "\<And>l. procs s ! i \<noteq> Done l"
    using assms(2) by (auto simp: all_done_def in_set_conv_nth split: pc.splits)
  have move: "\<exists>s'. worker_step mutex pass go_on s s'" if "at_pc s j p" "critical p" for j p
    using that by (cases p) (auto intro: worker_step.intros)
  show ?thesis
  proof (cases "procs s ! i")
    case (Body l c)
    then have at: "at_pc s i (Body l c)" using live i(1) by (simp add: at_pc_def)
    then have "ok i l" using worker_at(1) [OF assms(1) at] by (simp add: worker_ok_def)
    then show ?thesis using pass_ok worker_step.body [OF at] by metis
  next
    case (Test l c)
    then have "at_pc s i (Test l c)" using live i(1) by (simp add: at_pc_def)
    then show ?thesis by (cases "go_on (clock s)") (blast intro: worker_step.again worker_step.leave)+
  next
    case (Add l c)
    then have at: "at_pc s i (Add l c)" using live i(1) by (simp add: at_pc_def)
    show ?thesis
    proof (cases "mutex \<and> held s")
      case True
      then obtain j where "j < length (procs s)" "critical (procs s ! j)" using live(2) by (auto simp: lock_ok_def)
      then show ?thesis using move [of j "procs s ! j"] live(1) by (simp add: at_pc_def)
    qed (use at in \<open>blast intro: worker_step.atomic_add worker_step.lock\<close>)
  next
    case (Done l)
    then show ?thesis using i(2) by blast
  qed (use move live i(1) in \<open>force simp: at_pc_def\<close>)+
qed

end

lemma reach_length: "reach_pool mutex pass go_on s0 made s \<Longrightarrow> length (procs s) = length (procs s0)"
proof (induction rule: reach_pool.induct)
  case (step made s s')
  have "length (procs s') = length (procs s)"
    using step(2) by (auto elim!: pool_step.cases worker_step.cases simp: move_def)
  then show ?case using step(3) by simp
qed simp

text \<open>After the deadline every step of a worker brings the end nearer.\<close>

definition steps_left :: "'l pool \<Rightarrow> nat" where
  "steps_left s = (if crashed s then 0 else 1 + sum_list (map rank (procs s)))"

lemma steps_left_move:
  assumes "at_pc s i p0" and "rank p < rank p0" and "procs s' = procs s" and "crashed s' = crashed s"
  shows "steps_left (move s' i p) < steps_left s"
proof -
  have i: "i < length (procs s)" "procs s ! i = p0" "\<not> crashed s" using assms(1) by (simp_all add: at_pc_def)
  have "rank (procs s ! i) \<le> sum_list (map rank (procs s))"
    using i(1) elem_le_sum_list [of i "map rank (procs s)"] by simp
  then have "sum_list (map rank ((procs s)[i := p])) < sum_list (map rank (procs s))"
    using i assms(2) by (simp add: map_update sum_list_update)
  then show ?thesis using i(3) assms(3,4) by (simp add: steps_left_def move_def)
qed

lemma worker_step_ends:
  assumes "worker_step mutex pass go_on s s'" and "\<not> go_on (clock s)"
  shows "steps_left s' < steps_left s \<and> clock s' = clock s"
  using assms
proof cases
  case (panic i l c e)
  then show ?thesis by (simp add: steps_left_def at_pc_def)
qed (auto simp: move_def [THEN arg_cong, of clock] intro!: steps_left_move)

section \<open>What a measurement returns\<close>

lemma sum_share: "(\<Sum>i<n. of_nat (made i) * of_nat k) = (of_nat ((\<Sum>i<n. made i) * k) :: u64)"
  by (simp add: sum_distrib_right)

text \<open>
  For workers that all add \<open>k\<close> in a pass, after a run in which worker \<open>i\<close> has completed \<open>made i\<close> passes:
  no worker has crashed; as long as one is not done some worker can step; past the deadline each step
  brings the end nearer; and at the end the total is \<open>k\<close> times the number of passes that the run
  completed, of which every worker made at least one if it tests after the pass.
\<close>

definition counts_passes ::
  "bool \<Rightarrow> bool \<Rightarrow> 'l pass \<Rightarrow> nat \<Rightarrow> nat \<Rightarrow> nat \<Rightarrow> (nat \<Rightarrow> nat) \<Rightarrow> 'l pool \<Rightarrow> bool" where
  "counts_passes mutex head pass deadline n k made s \<longleftrightarrow> \<not> crashed s \<and>
     (all_done s \<or> (\<exists>s'. worker_step mutex pass (before head deadline) s s')) \<and>
     (\<forall>s'. worker_step mutex pass (before head deadline) s s' \<and> \<not> before head deadline (clock s) \<longrightarrow>
        steps_left s' < steps_left s \<and> clock s' = clock s) \<and>
     (all_done s \<longrightarrow> (\<forall>i<n. head \<or> 0 < made i) \<and> tally s = of_nat ((\<Sum>i<n. made i) * k))"

lemma timed_loop_counts:
  assumes "worker_loop pass ok (\<lambda>_. of_nat k)" and "timed_loop mutex head pass locals now deadline made s"
    and "\<And>i. i < length locals \<Longrightarrow> ok i (locals ! i)"
  shows "counts_passes mutex head pass deadline (length locals) k made s"
proof -
  have inv: "worker_loop.pool_ok ok (\<lambda>_. of_nat k) mutex head made s"
    using worker_loop.reach_pool_ok [OF assms(1) assms(2) [unfolded timed_loop_def] assms(3)] .
  have len: "length (procs s) = length locals"
    using reach_length [OF assms(2) [unfolded timed_loop_def]] by (simp add: start_pool_def)
  have "\<not> crashed s" using inv unfolding worker_loop.pool_ok_def [OF assms(1)] by blast
  moreover have "tally s = of_nat ((\<Sum>i<length locals. made i) * k)" if "all_done s"
    using worker_loop.all_done_total(1) [OF assms(1) inv that] unfolding len sum_share .
  moreover have "head \<or> 0 < made i" if "all_done s" "i < length locals" for i
    using worker_loop.all_done_total(3) [OF assms(1) inv that(1), of i] that(2) len by auto
  moreover have "all_done s \<or> (\<exists>s'. worker_step mutex pass (before head deadline) s s')"
    using worker_loop.worker_step_possible [OF assms(1) inv] by blast
  moreover have "steps_left s' < steps_left s" and "clock s' = clock s"
    if "worker_step mutex pass (before head deadline) s s' \<and> \<not> before head deadline (clock s)" for s'
    using that worker_step_ends by blast+
  ultimately show ?thesis unfolding counts_passes_def by (intro conjI allI impI)
qed

text \<open>
  A run of one worker to its end while nobody holds the lock and the clock is past the deadline: one more
  pass, and its count goes to the total.
\<close>

lemma reach_work:
  assumes "reach_pool mutex pass go_on s0 made s" and "at_pc s i p0" and "procs s2 = procs s"
    and "case p0 of Body _ _ \<Rightarrow> False | _ \<Rightarrow> True" and "worker_step mutex pass go_on s (move s2 i p)"
  shows "reach_pool mutex pass go_on s0 made (move s2 i p)"
  using reach_pool.step [OF assms(1) pool_step.work [OF assms(5)]] after_step_move [OF assms(2-4)] by simp

lemma reach_finish:
  assumes "reach_pool True pass go_on s0 made s" and "at_pc s i (Body l c)" and "pass i l = Inr (l', k)"
    and "\<not> held s" and "\<not> go_on (clock s)"
  shows "reach_pool True pass go_on s0 (made(i := Suc (made i)))
    (s\<lparr>procs := (procs s)[i := Done l'], tally := tally s + (c + k), held := False\<rparr>)"
proof -
  let ?r = "reach_pool True pass go_on s0 (made(i := Suc (made i)))"
  have i: "i < length (procs s)" "\<not> crashed s" using assms(2) by (simp_all add: at_pc_def)
  define a where "a = move s i (Test l' (c + k))"
  have a: "?r a"
    using reach_pool.step [OF assms(1) pool_step.work [OF worker_step.body [where pass = pass, OF assms(2,3)]]]
      after_step_body [OF assms(2)] unfolding a_def by simp
  have at: "at_pc a i (Test l' (c + k))" "clock a = clock s" "held a = held s" "tally a = tally s"
    using i by (simp_all add: a_def at_pc_def move_def)
  define b where "b = move a i (Add l' (c + k))"
  have b: "?r b"
    unfolding b_def
    by (rule reach_work [OF a at(1) refl _ worker_step.leave [OF at(1)]]) (simp_all add: at(2) assms(5))
  have bt: "at_pc b i (Add l' (c + k))" "held b = held s" "tally b = tally s"
    using at i by (simp_all add: b_def at_pc_def move_def)
  define d where "d = move (b\<lparr>held := True\<rparr>) i (Load l' (c + k))"
  have d: "?r d"
    unfolding d_def
    by (rule reach_work [OF b bt(1) _ _ worker_step.lock [OF bt(1)]]) (simp_all add: bt(2) assms(4))
  have dt: "at_pc d i (Load l' (c + k))" "tally d = tally s" using bt by (simp_all add: d_def at_pc_def move_def)
  define e where "e = move d i (Store l' (c + k) (tally d))"
  have e: "?r e" unfolding e_def by (rule reach_work [OF d dt(1) refl _ worker_step.load [OF dt(1)]]) simp
  have et: "at_pc e i (Store l' (c + k) (tally s))" using dt by (simp add: e_def at_pc_def move_def)
  define f where "f = move (e\<lparr>tally := tally s + (c + k)\<rparr>) i (Unlock l')"
  have f: "?r f" unfolding f_def by (rule reach_work [OF e et _ _ worker_step.store [OF et]]) simp_all
  have ft: "at_pc f i (Unlock l')" using et by (simp add: f_def at_pc_def move_def)
  have "?r (move (f\<lparr>held := False\<rparr>) i (Done l'))"
    by (rule reach_work [OF f ft _ _ worker_step.unlock [OF ft]]) simp_all
  moreover have "move (f\<lparr>held := False\<rparr>) i (Done l')
      = s\<lparr>procs := (procs s)[i := Done l'], tally := tally s + (c + k), held := False\<rparr>"
    by (cases s) (simp add: f_def e_def d_def b_def a_def move_def)
  ultimately show ?thesis by simp
qed

text \<open>Two workers that make one pass each, with a deadline at 10.\<close>

lemma two_workers_finish:
  assumes "\<And>i. pass i () = Inr ((), k)"
  obtains made s where "timed_loop True True pass [(), ()] 0 10 made s" and "all_done s"
    and "made 0 = 1" and "made 1 = 1"
proof -
  let ?go = "before True 10"
  define s0 where "s0 = start_pool True [(), ()] 0"
  let ?r = "reach_pool True pass ?go s0"
  have a0: "at_pc s0 0 (Test () 0)" "?go (clock s0)" by (simp_all add: s0_def at_pc_def start_pool_def before_def)
  have r1: "?r (\<lambda>_. 0) (move s0 0 (Body () 0))"
    by (rule reach_work [OF reach_pool.start a0(1) refl _ worker_step.again [where go_on = ?go, OF a0]]) simp
  have a1: "at_pc (move s0 0 (Body () 0)) 1 (Test () 0)" "?go (clock (move s0 0 (Body () 0)))"
    by (simp_all add: s0_def at_pc_def start_pool_def before_def move_def)
  let ?b = "move (move s0 0 (Body () 0)) 1 (Body () 0)"
  have r2: "?r (\<lambda>_. 0) ?b"
    by (rule reach_work [OF r1 a1(1) refl _ worker_step.again [where go_on = ?go, OF a1]]) simp
  have "?r (\<lambda>_. 0) (?b\<lparr>clock := 10\<rparr>)"
    using reach_pool.step [OF r2 pool_step.tick [of ?b 10]] after_step_same [of "?b\<lparr>clock := 10\<rparr>" ?b]
    by (simp add: s0_def start_pool_def move_def)
  then have "?r (\<lambda>_. 0) \<lparr>procs = [Body () 0, Body () 0], tally = 0, held = False, clock = 10, crashed = False\<rparr>"
    by (simp add: s0_def start_pool_def move_def)
  from reach_finish [OF this, where i = 0 and l = "()" and c = 0, OF _ assms]
  have "?r ((\<lambda>_. 0)(0 := 1)) \<lparr>procs = [Done (), Body () 0], tally = k, held = False, clock = 10, crashed = False\<rparr>"
    by (simp add: at_pc_def before_def)
  from reach_finish [OF this, where i = 1 and l = "()" and c = 0, OF _ assms]
  have "?r ((\<lambda>_. 0)(0 := 1, 1 := 1)) \<lparr>procs = [Done (), Done ()], tally = k + k, held = False, clock = 10, crashed = False\<rparr>"
    by (simp add: at_pc_def before_def)
  then have "timed_loop True True pass [(), ()] 0 10 ((\<lambda>_. 0)(0 := 1, 1 := 1))
      \<lparr>procs = [Done (), Done ()], tally = k + k, held = False, clock = 10, crashed = False\<rparr>"
    unfolding timed_loop_def s0_def .
  from that [OF this] show thesis by (simp add: all_done_def)
qed

end
