(* ===== verification/MeasureBench.thy ===== *)
theory MeasureBench
  imports Bench Workers
begin

text \<open>
  The measuring functions of package \<open>bench\<close> as pools of workers: \<open>VerifyThroughput\<close>
  (src/bench/throughput.go), \<open>FabricThroughput\<close>, \<open>MeasureFabric\<close> (src/bench/fabric.go),
  \<open>FabricThroughput16\<close>, \<open>PeakVerifyCeiling\<close> (src/bench/fabric16.go) and \<open>VerifyWholeBlockThroughput\<close> (src/bench/blockverify.go).

  Each is the predicate of the pools that its goroutines can reach from the start at time \<open>now\<close>. A
  pass is one iteration of the timed loop.
\<close>

section \<open>The workers\<close>

primrec throughput_checks :: "nat \<Rightarrow> hash \<Rightarrow> path_elem list \<Rightarrow> hash \<Rightarrow> unit res" where
  "throughput_checks 0 leaf path want = Inr ()"
| "throughput_checks (Suc n) leaf path want =
     (if Fold leaf path \<noteq> want then Inl Panic else throughput_checks n leaf path want)"

definition throughput_pass :: "nat \<Rightarrow> unit pass" where
  "throughput_pass depth i u =
     (let leaf = DoubleSHA256 (ascii ''tp-leaf''); path = bench_path depth; want = Fold leaf path in
      map_res (\<lambda>u. (u, 4096)) (throughput_checks 4096 leaf path want))"

definition VerifyThroughput :: "nat \<Rightarrow> nat \<Rightarrow> nat \<Rightarrow> nat \<Rightarrow> (nat \<Rightarrow> nat) \<Rightarrow> unit pool \<Rightarrow> bool" where
  "VerifyThroughput depth workers =
     timed_loop False False (throughput_pass depth) (replicate (at_least_one workers) ())"

text \<open>The profile at rate \<open>r\<close>; the counts and rates of the two measurements are arguments.\<close>

record edge_profile =
  ep_R :: real
  ep_Depth :: nat
  ep_ProofBytes :: nat
  ep_PerVerifyNanos :: real
  ep_VerifiesPerSec1 :: real
  ep_VerifiesPerSecN :: real
  ep_Workers :: nat

definition ProfileEdge :: "real \<Rightarrow> nat \<Rightarrow> real \<Rightarrow> u64 \<Rightarrow> real \<Rightarrow> real \<Rightarrow> edge_profile" where
  "ProfileEdge r workers secs ops1 ps1 psN =
     (let T = uint64_of r * BlockIntervalSec; depth = ceilLog2 T;
          per = (if 0 < ops1 then secs / real (unat ops1) * 10 ^ 9 else 0)
      in \<lparr>ep_R = r, ep_Depth = depth, ep_ProofBytes = DigestBytes * depth, ep_PerVerifyNanos = per,
          ep_VerifiesPerSec1 = ps1, ep_VerifiesPerSecN = psN, ep_Workers = workers\<rparr>)"

definition fabric_worker :: "backend \<Rightarrow> batch_proof list \<Rightarrow> unit pass" where
  "fabric_worker be proofs i u = Inr (u, of_nat (fabric_pass be proofs 0))"

definition FabricThroughput :: "batch_proof list \<Rightarrow> backend \<Rightarrow> nat \<Rightarrow> nat \<Rightarrow> nat \<Rightarrow> (nat \<Rightarrow> nat) \<Rightarrow> unit pool \<Rightarrow> bool" where
  "FabricThroughput proofs be workers =
     timed_loop False False (fabric_worker be proofs) (replicate (at_least_one workers) ())"

definition fabric16_worker :: "'h lanes \<Rightarrow> batch_proof list \<Rightarrow> 'h pass" where
  "fabric16_worker run proofs i h = map_res (\<lambda>(h, n). (h, of_nat n)) (fabric16_pass run h proofs 0)"

definition FabricThroughput16 ::
  "'h lanes \<Rightarrow> 'h \<Rightarrow> batch_proof list \<Rightarrow> nat \<Rightarrow> nat \<Rightarrow> nat \<Rightarrow> (nat \<Rightarrow> nat) \<Rightarrow> 'h pool \<Rightarrow> bool" where
  "FabricThroughput16 run h proofs workers =
     timed_loop False False (fabric16_worker run proofs) (replicate (at_least_one workers) h)"

text \<open>
  The leaves of the block, and a worker's hasher, scratch arrays, messages and flag: the shared flag
  \<open>allOK\<close> is only ever cleared, so it is set in the end if no worker has cleared its own.
\<close>

definition block_leaves :: "nat \<Rightarrow> hash list" where
  "block_leaves subCap =
     map (\<lambda>i. DoubleSHA256 [word_of_nat i, word_of_nat (i div 256), word_of_nat (i div 65536), 0x9b]) [0..<subCap]"

record 'h block_worker =
  bw_hasher :: 'h
  bw_a :: "hash list"
  bw_b :: "hash list"
  bw_msgs :: "64 barray list"
  bw_ok :: bool

definition new_block_worker :: "'h \<Rightarrow> nat \<Rightarrow> 'h block_worker" where
  "new_block_worker h subCap =
     \<lparr>bw_hasher = h, bw_a = replicate ((subCap + 1) div 2) zero_hash, bw_b = replicate ((subCap + 1) div 2) zero_hash,
      bw_msgs = replicate 16 (barray_of []), bw_ok = True\<rparr>"

definition block_pass :: "'h lanes \<Rightarrow> nat \<Rightarrow> 'h block_worker pass" where
  "block_pass run subCap i w =
     (let leaves = block_leaves subCap;
          wantRoot = (case MerkleRoot leaves of Inl _ \<Rightarrow> zero_hash | Inr r \<Rightarrow> r)
      in map_res (\<lambda>(r, h, s, msgs).
            (w\<lparr>bw_hasher := h, bw_a := a_buf s, bw_b := b_buf s, bw_msgs := msgs,
               bw_ok := (if r \<noteq> wantRoot then False else bw_ok w)\<rparr>, of_nat subCap))
           (buildTree16 run (bw_hasher w) leaves (bw_a w) (bw_b w) (bw_msgs w)))"

definition VerifyWholeBlockThroughput ::
  "'h lanes \<Rightarrow> 'h \<Rightarrow> nat \<Rightarrow> nat \<Rightarrow> nat \<Rightarrow> nat \<Rightarrow> (nat \<Rightarrow> nat) \<Rightarrow> 'h block_worker pool \<Rightarrow> bool" where
  "VerifyWholeBlockThroughput run h subCap cores =
     timed_loop False True (block_pass run subCap) (replicate (at_least_one cores) (new_block_worker h subCap))"

text \<open>The peak rate: 4096 calls of the 16-lane hasher on one group of zero messages.\<close>

primrec peak_calls :: "'h lanes \<Rightarrow> nat \<Rightarrow> 'h \<Rightarrow> 'h" where
  "peak_calls run 0 h = h"
| "peak_calls run (Suc n) h = peak_calls run n (fst (run h (replicate 16 (barray_of []))))"

definition peak_pass :: "'h lanes \<Rightarrow> 'h pass" where
  "peak_pass run i h = Inr (peak_calls run 4096 h, 4096 * 16)"

definition PeakVerifyCeiling :: "'h lanes \<Rightarrow> 'h \<Rightarrow> nat \<Rightarrow> nat \<Rightarrow> nat \<Rightarrow> (nat \<Rightarrow> nat) \<Rightarrow> 'h pool \<Rightarrow> bool" where
  "PeakVerifyCeiling run h cores = timed_loop False True (peak_pass run) (replicate (at_least_one cores) h)"

text \<open>
  The rows of \<open>MeasureFabric\<close>; \<open>throughput\<close> is the rate that \<open>FabricThroughput\<close> has measured for a batch
  and a backend. The conversion of \<open>P / d\<close> to \<open>int\<close> cuts off the fraction.
\<close>

record fabric_row =
  fr_Depth :: nat
  fr_P :: nat
  fr_S :: int
  fr_Density :: real
  fr_Backend :: string
  fr_VerifPerS :: real
  fr_A :: real
  fr_Pass :: bool

definition fabric_row_of ::
  "(batch_proof list \<Rightarrow> backend \<Rightarrow> real) \<Rightarrow> nat \<Rightarrow> backend \<Rightarrow> real \<Rightarrow> fabric_row res" where
  "fabric_row_of throughput depth be d =
     (let P = 4096; S = \<lfloor>real P / d\<rfloor>; S = (if S < 1 then 1 else S) in
      map_res (\<lambda>proofs. let vps = throughput proofs be in
         \<lparr>fr_Depth = depth, fr_P = P, fr_S = S, fr_Density = real P / real_of_int S, fr_Backend = be_name be,
          fr_VerifPerS = vps, fr_A = vps / VerifBar, fr_Pass = VerifBar \<le> vps\<rparr>)
        (BuildBatch (int depth) (int P) S))"

fun fabric_rows ::
  "(batch_proof list \<Rightarrow> backend \<Rightarrow> real) \<Rightarrow> nat \<Rightarrow> (backend \<times> real) list \<Rightarrow> fabric_row list res" where
  "fabric_rows throughput depth [] = Inr []"
| "fabric_rows throughput depth ((be, d) # xs) =
     (case fabric_row_of throughput depth be d of
        Inl e \<Rightarrow> Inl e
      | Inr row \<Rightarrow> map_res ((#) row) (fabric_rows throughput depth xs))"

definition MeasureFabric ::
  "(batch_proof list \<Rightarrow> backend \<Rightarrow> real) \<Rightarrow> real \<Rightarrow> real list \<Rightarrow> backend list \<Rightarrow> fabric_row list res" where
  "MeasureFabric throughput r densities backends =
     (let T = uint64_of r * BlockIntervalSec; depth = ceilLog2 T
      in fabric_rows throughput depth (concat (map (\<lambda>be. map (\<lambda>d. (be, d)) densities) backends)))"

section \<open>Every pass keeps its contract\<close>

lemma throughput_checks_ok: "throughput_checks n leaf path (Fold leaf path) = Inr ()"
  by (induction n) simp_all

interpretation tp: worker_loop "throughput_pass depth" "\<lambda>_ _. True" "\<lambda>_. of_nat 4096" for depth
  by unfold_locales (simp add: throughput_pass_def throughput_checks_ok)

text \<open>The backends compute the same hash, so their passes count the same.\<close>

lemma foldWith_cong: "HashPairFn be = HashPairFn be' \<Longrightarrow> foldWith be leaf path = foldWith be' leaf path"
  by (simp add: foldWith_def cong: if_cong)

lemma fabric_pass_backends:
  assumes "\<And>m. sum256 m = sha256 m" and "be \<in> set (AvailableBackends sum256)"
  shows "fabric_pass be proofs n = fabric_pass SoftwareBackend proofs n"
proof -
  have "HashPairFn be = HashPairFn SoftwareBackend"
    using backends_agree [OF assms] by (simp add: SoftwareBackend_def)
  then have "foldWith be = foldWith SoftwareBackend" by (intro ext) (rule foldWith_cong)
  then show ?thesis by (simp only: fabric_pass_def)
qed

interpretation fabric: worker_loop "fabric_worker be proofs" "\<lambda>_ _. True" "\<lambda>_. of_nat (fabric_pass be proofs 0)" for be proofs
  by unfold_locales (simp add: fabric_worker_def)

context sixteen_lanes
begin

lemma fabric16_loop:
  assumes "\<And>g. g < length ps div 16 \<Longrightarrow> same_levels (go_slice ps (16 * g) (16 * g + 16))"
  shows "worker_loop (fabric16_worker run ps) (\<lambda>_. ok)
    (\<lambda>_. of_nat (length (filter (proof_counts (\<lambda>_. True)) (take (16 * (length ps div 16)) ps))))"
proof
  fix i h assume "ok h"
  then obtain h' where "count_groups run (\<lambda>_. True) ps (length ps div 16) 0 h 0
      = Inr (h', length (filter (proof_counts (\<lambda>_. True)) (take (16 * (length ps div 16)) ps)))" "ok h'"
    using count_groups_ok [of h 0 "length ps div 16" ps "\<lambda>_. True" 0] assms by (auto simp: go_slice_def)
  then show "\<exists>h'. fabric16_worker run ps i h
      = Inr (h', of_nat (length (filter (proof_counts (\<lambda>_. True)) (take (16 * (length ps div 16)) ps)))) \<and> ok h'"
    by (simp add: fabric16_worker_def fabric16_pass_def)
qed

lemma peak_calls_ok: "ok h \<Longrightarrow> ok (peak_calls run n h)"
  by (induction n arbitrary: h) (simp_all add: keeps)

lemma peak_loop: "worker_loop (peak_pass run) (\<lambda>_. ok) (\<lambda>_. of_nat 65536)"
  by unfold_locales (simp add: peak_pass_def peak_calls_ok)

definition block_worker_ok :: "nat \<Rightarrow> 'h block_worker \<Rightarrow> bool" where
  "block_worker_ok subCap w \<longleftrightarrow> ok (bw_hasher w) \<and> length (bw_msgs w) = 16 \<and> bw_ok w \<and>
     length (bw_a w) = (subCap + 1) div 2 \<and> length (bw_b w) = (subCap + 1) div 2"

lemma block_loop:
  assumes "0 < subCap"
  shows "worker_loop (block_pass run subCap) (\<lambda>_. block_worker_ok subCap) (\<lambda>_. of_nat subCap)"
proof
  fix i and w :: "'h block_worker" assume w: "block_worker_ok subCap w"
  let ?ls = "block_leaves subCap"
  have ls: "?ls \<noteq> []" "length ?ls = subCap" using assms by (auto simp: block_leaves_def)
  obtain h' s msgs' where r: "buildTree16 run (bw_hasher w) ?ls (bw_a w) (bw_b w) (bw_msgs w) = Inr (tree_root ?ls, h', s, msgs')"
    "ok h'" "length msgs' = 16" "length (a_buf s) = length (bw_a w)" "length (b_buf s) = length (bw_b w)"
    using buildTree16_ok [OF _ ls(1), of "bw_hasher w" "bw_msgs w" "bw_a w" "bw_b w"] w ls(2)
    by (auto simp: block_worker_ok_def)
  then show "\<exists>w'. block_pass run subCap i w = Inr (w', of_nat subCap) \<and> block_worker_ok subCap w'"
    using w ls(1) by (simp add: block_pass_def block_worker_ok_def MerkleRoot_eq)
qed

end

section \<open>What is counted\<close>

lemma length_at_least_one: "length (replicate (at_least_one n) x) = at_least_one n"
  by simp

lemma VerifyThroughput_counts:
  assumes "VerifyThroughput depth workers now deadline made s"
  shows "counts_passes False False (throughput_pass depth) deadline (at_least_one workers) 4096 made s"
  using timed_loop_counts [OF tp.worker_loop_axioms assms [unfolded VerifyThroughput_def]] by simp

lemma FabricThroughput_counts:
  assumes "FabricThroughput proofs be workers now deadline made s"
  shows "counts_passes False False (fabric_worker be proofs) deadline (at_least_one workers) (fabric_pass be proofs 0) made s"
  using timed_loop_counts [OF fabric.worker_loop_axioms assms [unfolded FabricThroughput_def]] by simp

lemma FabricThroughput16_counts:
  assumes "hasAVX512 cpu \<longrightarrow> kernel_law (sha256X16Avx512 cpu)"
    and "\<And>g. g < length ps div 16 \<Longrightarrow> same_levels (go_slice ps (16 * g) (16 * g + 16))"
    and "FabricThroughput16 (hasher_x16 cpu) NewHasher ps workers now deadline made s"
  shows "counts_passes False False (fabric16_worker (hasher_x16 cpu) ps) deadline (at_least_one workers)
    (length (filter (\<lambda>p. Fold (Leaf p) (L1 p) = SubtreeRoot p) (take (16 * (length ps div 16)) ps))) made s"
proof -
  have lanes: "sixteen_lanes (hasher_x16 cpu) hasher_ok"
    by (rule hasher_lanes) (use assms(1) in \<open>simp add: cpu_ok_def\<close>)
  have "proof_counts (\<lambda>_. True) = (\<lambda>p. Fold (Leaf p) (L1 p) = SubtreeRoot p)"
    by (intro ext) (simp add: proof_counts_def)
  then show ?thesis
    using timed_loop_counts [OF sixteen_lanes.fabric16_loop [OF lanes assms(2)] assms(3) [unfolded FabricThroughput16_def]]
      NewHasher_ok by simp
qed

section \<open>The property\<close>

text \<open>
  The ceiling measurement counts whole blocks and finds every root correct. For a block of at least
  one leaf, in every interleaving of the workers of \<open>VerifyWholeBlockThroughput\<close> none panics, some
  worker can step until all are done, and in the end the total is the number of passes times the leaves,
  and no worker has cleared \<open>allOK\<close>.
\<close>
theorem VerifyWholeBlockThroughput_counts:
  assumes "hasAVX512 cpu \<longrightarrow> kernel_law (sha256X16Avx512 cpu)" and "0 < subCap"
    and "VerifyWholeBlockThroughput (hasher_x16 cpu) NewHasher subCap cores now deadline made s"
  shows "counts_passes False True (block_pass (hasher_x16 cpu) subCap) deadline (at_least_one cores) subCap made s \<and>
    list_all (\<lambda>p. bw_ok (local_of p)) (procs s)"
proof -
  have lanes: "sixteen_lanes (hasher_x16 cpu) hasher_ok"
    by (rule hasher_lanes) (use assms(1) in \<open>simp add: cpu_ok_def\<close>)
  note loop = sixteen_lanes.block_loop [OF lanes assms(2)]
  note run = assms(3) [unfolded VerifyWholeBlockThroughput_def]
  have start: "sixteen_lanes.block_worker_ok hasher_ok subCap (new_block_worker NewHasher subCap)"
    by (simp add: sixteen_lanes.block_worker_ok_def [OF lanes] new_block_worker_def NewHasher_ok)
  have "worker_loop.pool_ok (\<lambda>_. sixteen_lanes.block_worker_ok hasher_ok subCap) (\<lambda>_. of_nat subCap) False True made s"
    using worker_loop.reach_pool_ok [OF loop run [unfolded timed_loop_def]] start by auto
  then have "bw_ok (local_of (procs s ! i))" if "i < length (procs s)" for i
    using that by (auto simp: worker_loop.pool_ok_def [OF loop] worker_loop.worker_ok_def [OF loop]
        sixteen_lanes.block_worker_ok_def [OF lanes])
  then show ?thesis using timed_loop_counts [OF loop run] start by (simp add: list_all_length)
qed

theorem VerifyWholeBlockThroughput_counts_witness:
  "let s = start_pool True (replicate 2 (new_block_worker NewHasher 3)) 0
   in VerifyWholeBlockThroughput (hasher_x16 vector_cpu) NewHasher 3 2 0 10 (\<lambda>_. 0) s \<and>
      (\<exists>s'. worker_step False (block_pass (hasher_x16 vector_cpu) 3) (before True 10) s s')"
proof -
  let ?s = "start_pool True (replicate 2 (new_block_worker NewHasher 3)) 0"
  have cpu: "hasAVX512 vector_cpu \<longrightarrow> kernel_law (sha256X16Avx512 vector_cpu)" by (simp add: vector_cpu_def ref_kernel_law)
  have run: "VerifyWholeBlockThroughput (hasher_x16 vector_cpu) NewHasher 3 2 0 10 (\<lambda>_. 0) ?s"
    by (simp add: VerifyWholeBlockThroughput_def timed_loop_def at_least_one_def reach_pool.start)
  have "\<not> all_done ?s" by (simp add: all_done_def start_pool_def)
  then show ?thesis
    using VerifyWholeBlockThroughput_counts [OF cpu _ run] run unfolding counts_passes_def Let_def by auto
qed

end
