(* ===== verification/Accumulator.thy ===== *)
theory Accumulator
  imports Commitment
begin

text \<open>
  Package \<open>accumulator\<close> (src/accumulator/accumulator.go): the optional level L4, a Merkle
  Mountain Range over sealed block headers, the anchor that binds its root to a
  generation transaction, and the honest report of heights no miner committed.

  Sizes and heights are 64-bit words, as in the source. The scan of \<open>CoverageGaps\<close> is a
  \<open>partial_function\<close>: with the largest tip height its loop condition never fails, and the
  model returns \<open>None\<close> there.
\<close>

section \<open>The mountain range\<close>

type_synonym header = "80 barray"

record mmr =
  mleaves :: "hash list"

definition NewMMR :: mmr where
  "NewMMR = \<lparr>mleaves = []\<rparr>"

definition Size :: "mmr \<Rightarrow> u64" where
  "Size m = word_of_nat (length (mleaves m))"

text \<open>The loop from bit 63 down to bit 0.\<close>

primrec mountain_loop :: "nat \<Rightarrow> u64 \<Rightarrow> u64 list" where
  "mountain_loop 0 n = []"
| "mountain_loop (Suc b) n =
     (if n AND push_bit b 1 \<noteq> 0 then [push_bit b 1] else []) @ mountain_loop b n"

definition mountainSizes :: "u64 \<Rightarrow> u64 list" where
  "mountainSizes n = mountain_loop 64 n"

text \<open>The error of \<open>MerkleRoot\<close> is discarded: its root is then the zero hash.\<close>

definition root_or_zero :: "hash res \<Rightarrow> hash" where
  "root_or_zero r = (case r of Inl _ \<Rightarrow> zero_hash | Inr h \<Rightarrow> h)"

primrec peaks_loop :: "hash list \<Rightarrow> u64 \<Rightarrow> u64 list \<Rightarrow> hash list" where
  "peaks_loop ls start [] = []"
| "peaks_loop ls start (sz # szs) =
     root_or_zero (MerkleRoot (go_slice ls (unat start) (unat (start + sz))))
       # peaks_loop ls (start + sz) szs"

definition peaks :: "mmr \<Rightarrow> hash list" where
  "peaks m = peaks_loop (mleaves m) 0 (mountainSizes (word_of_nat (length (mleaves m))))"

definition bagPeaks :: "hash list \<Rightarrow> hash" where
  "bagPeaks pk = (if length pk = 0 then zero_hash else foldr HashPair (butlast pk) (last pk))"

definition Root :: "mmr \<Rightarrow> hash" where
  "Root m = (if length (mleaves m) = 0 then zero_hash else bagPeaks (peaks m))"

definition Append :: "mmr \<Rightarrow> header \<Rightarrow> mmr \<times> hash" where
  "Append m header80 =
     (let m' = m\<lparr>mleaves := mleaves m @ [DoubleSHA256 (bytes_of header80)]\<rparr> in (m', Root m'))"

text \<open>Locating the mountain of a height: index, first leaf and size; \<open>(-1, 0, 0)\<close> if there is none.\<close>

primrec locate :: "u64 \<Rightarrow> nat \<Rightarrow> u64 \<Rightarrow> u64 list \<Rightarrow> int \<times> u64 \<times> u64" where
  "locate height i start [] = (-1, 0, 0)"
| "locate height i start (sz # szs) =
     (if height < start + sz then (int i, start, sz)
      else locate height (i + 1) (start + sz) szs)"

definition ProveBlock :: "mmr \<Rightarrow> u64 \<Rightarrow> (path_elem list \<times> hash) res" where
  "ProveBlock m height =
     (if word_of_nat (length (mleaves m)) \<le> height then Inl ErrEmpty
      else let sizes = mountainSizes (word_of_nat (length (mleaves m)));
               (mIdx, mStart, mSize) = locate height 0 0 sizes
      in case BuildMerkleTree (go_slice (mleaves m) (unat mStart) (unat (mStart + mSize))) of
        Inl e \<Rightarrow> Inl e
      | Inr (_, layers) \<Rightarrow>
         (case MerklePath layers (int (unat (height - mStart))) of
            Inl e \<Rightarrow> Inl e
          | Inr inPath \<Rightarrow>
             (let pk = peaks m;
                  rightPart = (if mIdx < int (length pk) - 1
                    then [\<lparr>Sibling = bagPeaks (drop (nat (mIdx + 1)) pk), Right = True\<rparr>] else []);
                  leftPart = map (\<lambda>p. \<lparr>Sibling = p, Right = False\<rparr>) (rev (take (nat mIdx) pk))
              in Inr (inPath @ rightPart @ leftPart, Root m))))"

definition VerifyBlockInChain :: "header \<Rightarrow> path_elem list \<Rightarrow> hash \<Rightarrow> bool" where
  "VerifyBlockInChain header80 path accRoot =
     (if MaxDepth < length path then False
      else Fold (DoubleSHA256 (bytes_of header80)) path = accRoot)"

section \<open>The anchor\<close>

text \<open>The first field whose content is the root; its leaf starts the fold.\<close>

primrec anchor_field :: "hash \<Rightarrow> tx_fields \<Rightarrow> hash option" where
  "anchor_field accRoot [] = None"
| "anchor_field accRoot (f # fs) =
     (if Bytes f = bytes_of accRoot then Some (LeafForField f) else anchor_field accRoot fs)"

definition VerifyAnchor ::
  "hash \<Rightarrow> tx_fields \<Rightarrow> path_elem list \<Rightarrow> path_elem list \<Rightarrow> path_elem list \<Rightarrow> hash \<Rightarrow> bool" where
  "VerifyAnchor accRoot genTxFields l0 l1 l2 carryingBlockMerkleRoot =
     (if MaxDepth < length l0 + length l1 + length l2 then False
      else case anchor_field accRoot genTxFields of
        None \<Rightarrow> False
      | Some leaf \<Rightarrow>
          (let mtxid = Fold leaf l0; sub = Fold mtxid l1; root = Fold sub l2
           in root = carryingBlockMerkleRoot))"

section \<open>Absent periods\<close>

record participation_gap =
  FromHeight :: u64
  ToHeight :: u64

partial_function (option) gaps_loop ::
  "u64 list \<Rightarrow> u64 \<Rightarrow> u64 \<Rightarrow> bool \<Rightarrow> u64 \<Rightarrow> participation_gap list
   \<Rightarrow> (bool \<times> u64 \<times> participation_gap list) option" where
  "gaps_loop present tipHeight h inGap from gaps =
     (if h \<le> tipHeight then
        (if h \<in> set present then
           (if inGap then gaps_loop present tipHeight (h + 1) False from
                            (gaps @ [\<lparr>FromHeight = from, ToHeight = h - 1\<rparr>])
            else gaps_loop present tipHeight (h + 1) inGap from gaps)
         else if \<not> inGap then gaps_loop present tipHeight (h + 1) True h gaps
         else gaps_loop present tipHeight (h + 1) inGap from gaps)
      else Some (inGap, from, gaps))"

definition CoverageGaps :: "u64 list \<Rightarrow> u64 \<Rightarrow> participation_gap list option" where
  "CoverageGaps committedHeights tipHeight =
     (case gaps_loop committedHeights tipHeight 0 False 0 [] of
        None \<Rightarrow> None
      | Some (inGap, from, gaps) \<Rightarrow>
          Some (if inGap then gaps @ [\<lparr>FromHeight = from, ToHeight = tipHeight\<rparr>] else gaps))"

text \<open>\<open>best\<close> is an \<open>int64\<close>: the conversion \<open>int64(c)\<close> reads the word as two's complement.\<close>

fun nearest_loop :: "u64 \<Rightarrow> u64 list \<Rightarrow> int \<Rightarrow> bool \<Rightarrow> int \<times> bool" where
  "nearest_loop height [] best exact = (best, exact)"
| "nearest_loop height (c # cs) best exact =
     nearest_loop height cs
       (if c \<le> height \<and> best < sint c then sint c else best)
       (if c = height then True else exact)"

definition NearestCommitted :: "u64 \<Rightarrow> u64 list \<Rightarrow> u64 \<times> bool" where
  "NearestCommitted height committedHeights =
     (case nearest_loop height committedHeights (-1) False of
        (best, exact) \<Rightarrow> if best < 0 then (0, True) else (word_of_int best, \<not> exact))"

section \<open>Mountains partition the leaves\<close>

lemma word_AND_power_2: "n AND 2 ^ b \<noteq> (0 :: u64) \<longleftrightarrow> b < 64 \<and> bit n b"
proof -
  have "n AND push_bit b 1 = (if bit n b then push_bit b 1 else 0)"
    by (rule bit_word_eqI) (auto simp: bit_simps)
  moreover have "(2 ^ b :: u64) = 0 \<longleftrightarrow> 64 \<le> b"
    by (simp add: exp_eq_zero_iff)
  ultimately show ?thesis
    using bit_imp_le_length [of n b] by auto
qed

lemma unat_power_2: "b < 64 \<Longrightarrow> unat (2 ^ b :: u64) = 2 ^ b"
proof -
  assume "b < 64"
  then have "(2::nat) ^ b < 2 ^ 64" by (simp only: power_strict_increasing_iff)
  from unat_word_of_nat_64 [OF this] show ?thesis by simp
qed

lemma mountain_loop_sum:
  "b \<le> 64 \<Longrightarrow> sum_list (map unat (mountain_loop b n)) = take_bit b (unat n)"
proof (induction b)
  case (Suc b)
  then have "take_bit (Suc b) (unat n) = 2 ^ b * of_bool (bit n b) + take_bit b (unat n)"
    by (simp only: take_bit_Suc_from_most) (simp add: bit_unsigned_iff)
  with Suc show ?case
    by (auto simp: word_AND_power_2 unat_power_2)
qed simp

lemma mountainSizes_sum: "sum_list (map unat (mountainSizes n)) = unat n"
proof -
  have "unat n < 2 ^ 64" using unsigned_less [of n] by simp
  then show ?thesis
    using mountain_loop_sum [of 64 n]
    by (simp only: mountainSizes_def order_refl True_implies_equals take_bit_nat_eq_self)
qed

lemma mountain_loop_powers:
  "b \<le> 64 \<Longrightarrow> \<exists>bs. map unat (mountain_loop b n) = map ((^) 2) bs \<and> sorted_wrt (>) bs \<and> (\<forall>k\<in>set bs. k < b)"
proof (induction b)
  case (Suc b)
  then obtain bs where bs: "map unat (mountain_loop b n) = map ((^) 2) bs" "sorted_wrt (>) bs"
    "\<forall>k\<in>set bs. k < b"
    by auto
  show ?case
  proof (cases "n AND push_bit b 1 = 0")
    case True
    then have "mountain_loop (Suc b) n = mountain_loop b n" by simp
    then show ?thesis using bs less_SucI by metis
  next
    case False
    have "map unat (mountain_loop (Suc b) n) = map ((^) 2) (b # bs)"
      using False Suc.prems bs by (simp add: unat_power_2)
    moreover have "sorted_wrt (>) (b # bs)" "\<forall>k\<in>set (b # bs). k < Suc b"
      using bs by auto
    ultimately show ?thesis by blast
  qed
qed simp

lemma length_mountain_loop: "length (mountain_loop b n) \<le> b"
  by (induction b) auto

lemma length_mountainSizes: "length (mountainSizes n) \<le> 64"
  by (simp add: mountainSizes_def length_mountain_loop)

lemma mountainSizes_nth_bound: "j < length (mountainSizes n) \<Longrightarrow> unat (mountainSizes n ! j) \<le> unat n"
  using mountainSizes_sum [of n] member_le_sum_list [of "unat (mountainSizes n ! j)" "map unat (mountainSizes n)"]
  by simp

text \<open>Where the \<open>j\<close>-th mountain starts.\<close>

definition mstart :: "u64 list \<Rightarrow> nat \<Rightarrow> nat" where
  "mstart szs j = sum_list (map unat (take j szs))"

lemma mstart_0 [simp]: "mstart szs 0 = 0"
  by (simp add: mstart_def)

lemma mstart_Cons [simp]: "mstart (sz # szs) (Suc j) = unat sz + mstart szs j"
  by (simp add: mstart_def)

lemma mstart_bound: "j < length szs \<Longrightarrow> mstart szs j + unat (szs ! j) \<le> sum_list (map unat szs)"
proof (induction szs arbitrary: j)
  case (Cons sz szs)
  then show ?case by (cases j) auto
qed simp

lemma unat_add_no_wrap: "unat a + unat b < 2 ^ 64 \<Longrightarrow> unat (a + b :: u64) = unat a + unat b"
  by (simp add: unat_word_ariths)

lemma length_peaks_loop [simp]: "length (peaks_loop ls start szs) = length szs"
  by (induction szs arbitrary: start) auto

lemma peaks_loop_nth:
  assumes "j < length szs" and "unat start + sum_list (map unat szs) < 2 ^ 64"
  shows "peaks_loop ls start szs ! j =
    root_or_zero (MerkleRoot (go_slice ls (unat start + mstart szs j)
                                          (unat start + mstart szs j + unat (szs ! j))))"
  using assms
proof (induction szs arbitrary: j start)
  case (Cons sz szs)
  then have "unat (start + sz) = unat start + unat sz"
    by (intro unat_add_no_wrap) simp
  then show ?case
    using Cons by (cases j) (auto simp: add.assoc)
qed simp

lemma locate_spec:
  assumes "unat start \<le> unat height" and "unat height < unat start + sum_list (map unat szs)"
    and "unat start + sum_list (map unat szs) < 2 ^ 64"
  shows "\<exists>j st. j < length szs \<and> locate height i start szs = (int (i + j), st, szs ! j) \<and>
           unat st = unat start + mstart szs j \<and> unat st \<le> unat height \<and>
           unat height < unat st + unat (szs ! j)"
  using assms
proof (induction szs arbitrary: i start)
  case (Cons sz szs)
  then have s: "unat (start + sz) = unat start + unat sz"
    by (intro unat_add_no_wrap) simp
  show ?case
  proof (cases "height < start + sz")
    case True
    then show ?thesis
      using Cons.prems s by (intro exI [of _ 0] exI [of _ start]) (auto simp: word_less_nat_alt)
  next
    case False
    then have "unat (start + sz) \<le> unat height"
      by (simp add: word_less_nat_alt)
    then obtain j st where "j < length szs" "locate height (i + 1) (start + sz) szs = (int (i + 1 + j), st, szs ! j)"
      "unat st = unat (start + sz) + mstart szs j" "unat st \<le> unat height"
      "unat height < unat st + unat (szs ! j)"
      using Cons.IH [of "start + sz" "i + 1"] Cons.prems s by auto
    then show ?thesis
      using False s by (intro exI [of _ "Suc j"] exI [of _ st]) auto
  qed
qed simp

section \<open>Bagging\<close>

lemma bagPeaks_snoc: "bagPeaks (ls @ [x]) = foldr HashPair ls x"
  by (simp add: bagPeaks_def)

lemma bagPeaks_split:
  "bagPeaks (ls @ x # rs) = foldr HashPair ls (if rs = [] then x else HashPair x (bagPeaks rs))"
proof (cases rs rule: rev_cases)
  case Nil
  then show ?thesis by (simp add: bagPeaks_snoc)
next
  case (snoc rs' r)
  then have "ls @ x # rs = (ls @ x # rs') @ [r]" by simp
  then show ?thesis using snoc by (simp only: bagPeaks_snoc) simp
qed

lemma Fold_left_siblings:
  "Fold y (map (\<lambda>p. \<lparr>Sibling = p, Right = False\<rparr>) (rev ls)) = foldr HashPair ls y"
  by (induction ls) (auto simp: fold_step_def)

lemma Fold_bag:
  assumes "k < length pk"
  shows "Fold (pk ! k)
     ((if int k < int (length pk) - 1
        then [\<lparr>Sibling = bagPeaks (drop (nat (int k + 1)) pk), Right = True\<rparr>] else [])
      @ map (\<lambda>p. \<lparr>Sibling = p, Right = False\<rparr>) (rev (take (nat (int k)) pk))) = bagPeaks pk"
proof -
  have pk: "pk = take k pk @ pk ! k # drop (Suc k) pk"
    using assms by (simp add: id_take_nth_drop)
  have "bagPeaks (take k pk @ pk ! k # drop (Suc k) pk) =
      foldr HashPair (take k pk)
        (if drop (Suc k) pk = [] then pk ! k else HashPair (pk ! k) (bagPeaks (drop (Suc k) pk)))"
    by (rule bagPeaks_split)
  then have bag: "bagPeaks pk = foldr HashPair (take k pk)
        (if drop (Suc k) pk = [] then pk ! k else HashPair (pk ! k) (bagPeaks (drop (Suc k) pk)))"
    by (simp only: pk [symmetric])
  have "nat (int k + 1) = Suc k" by simp
  moreover have "int k < int (length pk) - 1 \<longleftrightarrow> drop (Suc k) pk \<noteq> []"
    using assms by auto
  ultimately show ?thesis
    by (simp add: Fold_left_siblings bag fold_step_def)
qed

section \<open>Proofs of the accumulator\<close>

lemma peaks_nth:
  assumes "length (mleaves m) < 2 ^ 64"
    and "szs = mountainSizes (word_of_nat (length (mleaves m)))" and "j < length szs"
  shows "peaks m ! j = root_or_zero (MerkleRoot
           (go_slice (mleaves m) (mstart szs j) (mstart szs j + unat (szs ! j))))"
proof -
  have "sum_list (map unat szs) < 2 ^ 64"
    using assms(1,2) by (simp add: mountainSizes_sum unat_word_of_nat_64)
  then show ?thesis
    using peaks_loop_nth [of j szs 0 "mleaves m"] assms(2,3) by (simp add: peaks_def)
qed

lemma length_peaks: "length (peaks m) \<le> 64"
  by (simp add: peaks_def length_mountainSizes)

lemma ProveBlock_ok:
  assumes len: "length (mleaves m) < 2 ^ 64" and h: "unat height < length (mleaves m)"
  shows "\<exists>path. ProveBlock m height = Inr (path, Root m) \<and>
           Fold (mleaves m ! unat height) path = Root m \<and> length path \<le> MaxDepth"
proof -
  let ?L = "mleaves m"
  define szs where "szs = mountainSizes (word_of_nat (length ?L))"
  have n: "unat (word_of_nat (length ?L) :: u64) = length ?L"
    using len by (rule unat_word_of_nat_64)
  have sum: "sum_list (map unat szs) = length ?L"
    by (simp add: szs_def mountainSizes_sum n)
  obtain j st where j: "j < length szs" "locate height 0 0 szs = (int j, st, szs ! j)"
    "unat st = mstart szs j" "unat st \<le> unat height" "unat height < unat st + unat (szs ! j)"
    using locate_spec [of 0 height szs 0] sum h len by auto
  have fit: "unat st + unat (szs ! j) \<le> length ?L"
    using mstart_bound [OF j(1)] sum j(3) by simp
  then have wrap: "unat (st + szs ! j) = unat st + unat (szs ! j)"
    using len by (intro unat_add_no_wrap) simp
  define sl where "sl = go_slice ?L (unat st) (unat st + unat (szs ! j))"
  have sl_len: "length sl = unat (szs ! j)"
    using fit by (simp add: sl_def)
  have diff: "unat (height - st) = unat height - unat st"
    using j(4) by (intro unat_sub) (simp add: word_le_nat_alt)
  have i: "unat (height - st) < length sl"
    using diff j(4,5) sl_len by simp
  have leaf: "sl ! unat (height - st) = ?L ! unat height"
    using diff j(4,5) fit by (simp add: sl_def nth_go_slice)
  obtain p where p: "MerklePath (build_layers sl) (int (unat (height - st))) = Inr p"
    "Fold (?L ! unat height) p = tree_root sl" "length p = bit_len (length sl - 1)"
    using MerklePath_ok [OF i] leaf by metis
  have pk: "length (peaks m) = length szs" and pkj: "peaks m ! j = tree_root sl"
    using peaks_nth [OF len szs_def j(1)] j(3) i
    by (auto simp: peaks_def szs_def sl_def MerkleRoot_eq root_or_zero_def)
  have "length p \<le> 64"
    using p(3) sl_len fit len by (simp add: bit_len_le_iff)
  then have "length p + 1 + j \<le> MaxDepth"
    using j(1) length_mountainSizes [of "word_of_nat (length ?L)"]
    by (simp add: szs_def [symmetric] MaxDepth_def)
  moreover have "Root m = bagPeaks (peaks m)"
    using h by (auto simp: Root_def)
  moreover have "sl \<noteq> []" using i by auto
  then have "ProveBlock m height = Inr (p @ (if int j < int (length (peaks m)) - 1
      then [\<lparr>Sibling = bagPeaks (drop (nat (int j + 1)) (peaks m)), Right = True\<rparr>] else [])
      @ map (\<lambda>p. \<lparr>Sibling = p, Right = False\<rparr>) (rev (take (nat (int j)) (peaks m))), Root m)"
    using h n p(1) wrap
    by (simp add: ProveBlock_def szs_def [symmetric] j(2) sl_def [symmetric] BuildMerkleTree_eq
        word_le_nat_alt Let_def)
  ultimately show ?thesis
    using j(1) p(2) pk pkj Fold_bag [of j "peaks m"] by simp
qed

lemma mleaves_Append [simp]:
  "mleaves (fst (Append m h)) = mleaves m @ [DoubleSHA256 (bytes_of h)]"
  by (simp add: Append_def Let_def)

text \<open>A range built by appending headers one after the other.\<close>

definition build_mmr :: "header list \<Rightarrow> mmr" where
  "build_mmr hs = fold (\<lambda>h m. fst (Append m h)) hs NewMMR"

lemma mleaves_fold_Append:
  "mleaves (fold (\<lambda>h m. fst (Append m h)) hs m) = mleaves m @ map (\<lambda>h. DoubleSHA256 (bytes_of h)) hs"
  by (induction hs arbitrary: m) auto

lemma mleaves_build_mmr: "mleaves (build_mmr hs) = map (\<lambda>h. DoubleSHA256 (bytes_of h)) hs"
  by (simp add: build_mmr_def mleaves_fold_Append NewMMR_def)

lemma VerifyBlockInChain_iff:
  "VerifyBlockInChain hdr path root \<longleftrightarrow>
     length path \<le> MaxDepth \<and> Fold (DoubleSHA256 (bytes_of hdr)) path = root"
  by (simp add: VerifyBlockInChain_def)

text \<open>A header that verifies where another was appended exhibits a collision.\<close>

definition header_forgery ::
  "header \<Rightarrow> path_elem list \<Rightarrow> header \<Rightarrow> path_elem list \<Rightarrow> (bytes \<times> bytes) option" where
  "header_forgery h q h' p =
     (case fold_collision (DoubleSHA256 (bytes_of h)) q (DoubleSHA256 (bytes_of h')) p of
        Some c \<Rightarrow> Some c
      | None \<Rightarrow> Some (bytes_of h, bytes_of h'))"

lemma header_binding:
  assumes "map Right q = map Right p"
    and "Fold (DoubleSHA256 (bytes_of h)) q = Fold (DoubleSHA256 (bytes_of h')) p"
  shows "h = h' \<or> exhibits (header_forgery h q h' p)"
proof (cases "fold_collision (DoubleSHA256 (bytes_of h)) q (DoubleSHA256 (bytes_of h')) p")
  case None
  then have "DoubleSHA256 (bytes_of h) = DoubleSHA256 (bytes_of h')"
    using fold_binding_aux [OF assms] by simp
  then show ?thesis
    using None by (simp add: header_forgery_def collision_def bytes_of_eq_iff)
next
  case (Some c)
  then show ?thesis
    using fold_binding_aux [OF assms] by (simp add: header_forgery_def)
qed

section \<open>Absent periods, proved\<close>

definition covered :: "participation_gap list \<Rightarrow> u64 \<Rightarrow> bool" where
  "covered gaps x = (\<exists>g\<in>set gaps. FromHeight g \<le> x \<and> x \<le> ToHeight g)"

definition separated :: "participation_gap list \<Rightarrow> bool" where
  "separated gaps = (sorted_wrt (\<lambda>g g'. unat (ToHeight g) + 1 < unat (FromHeight g')) gaps \<and>
                     (\<forall>g\<in>set gaps. FromHeight g \<le> ToHeight g))"

text \<open>What the scan maintains before it looks at height \<open>h\<close>.\<close>

definition gap_inv ::
  "u64 list \<Rightarrow> nat \<Rightarrow> bool \<Rightarrow> u64 \<Rightarrow> participation_gap list \<Rightarrow> bool" where
  "gap_inv present h inGap from gaps \<longleftrightarrow>
     (\<forall>x. unat x < h \<longrightarrow> (x \<notin> set present \<longleftrightarrow> covered gaps x \<or> (inGap \<and> from \<le> x))) \<and>
     (inGap \<longrightarrow> unat from < h) \<and> separated gaps \<and>
     (\<forall>g\<in>set gaps. unat (ToHeight g) + 1 < (if inGap then unat from else h))"

lemma covered_snoc: "covered (gaps @ [g]) x \<longleftrightarrow> covered gaps x \<or> (FromHeight g \<le> x \<and> x \<le> ToHeight g)"
  by (auto simp: covered_def)

lemma separated_snoc:
  "separated (gaps @ [g]) \<longleftrightarrow> separated gaps \<and> FromHeight g \<le> ToHeight g \<and>
     (\<forall>g'\<in>set gaps. unat (ToHeight g') + 1 < unat (FromHeight g))"
  by (auto simp: separated_def sorted_wrt_append)

lemma unat_plus_1: "h < - 1 \<Longrightarrow> unat (h + 1 :: u64) = unat h + 1"
  by (metis Suc_eq_plus1 add.commute less_irrefl unatSuc word_not_simps(3) add_eq_0_iff)

lemma gap_inv_step:
  assumes inv: "gap_inv present (unat h) inGap from gaps" and h: "h < - 1"
  shows "h \<in> set present \<Longrightarrow> inGap \<Longrightarrow>
           gap_inv present (unat (h + 1)) False from (gaps @ [\<lparr>FromHeight = from, ToHeight = h - 1\<rparr>])"
    and "h \<in> set present \<Longrightarrow> \<not> inGap \<Longrightarrow> gap_inv present (unat (h + 1)) False from gaps"
    and "h \<notin> set present \<Longrightarrow> \<not> inGap \<Longrightarrow> gap_inv present (unat (h + 1)) True h gaps"
    and "h \<notin> set present \<Longrightarrow> inGap \<Longrightarrow> gap_inv present (unat (h + 1)) True from gaps"
proof -
  have h1: "unat (h + 1) = unat h + 1"
    by (rule unat_plus_1 [OF h])
  have lt: "unat x < unat h + 1 \<longleftrightarrow> unat x < unat h \<or> x = h" for x
    by (auto simp: less_Suc_eq word_unat_eq_iff)
  have nc: "\<not> covered gaps h"
    using inv by (fastforce simp: gap_inv_def covered_def word_le_nat_alt split: if_splits)
  {
    assume c: "h \<in> set present" "inGap"
    then have "from < h" using inv by (simp add: gap_inv_def word_less_nat_alt)
    then have pos: "0 < unat h" and "h \<noteq> 0"
      by (auto simp: word_less_nat_alt)
    then have pred: "unat (h - 1) = unat h - 1"
      by (simp add: unat_minus_one)
    then have "x \<le> h - 1 \<longleftrightarrow> unat x < unat h" for x
      using pos by (auto simp: word_le_nat_alt)
    then show "gap_inv present (unat (h + 1)) False from (gaps @ [\<lparr>FromHeight = from, ToHeight = h - 1\<rparr>])"
      using inv c pred pos nc unfolding gap_inv_def h1 lt
      by (auto simp: covered_snoc separated_snoc word_le_nat_alt)
  }
  show "h \<in> set present \<Longrightarrow> \<not> inGap \<Longrightarrow> gap_inv present (unat (h + 1)) False from gaps"
    using inv nc unfolding gap_inv_def h1 lt by (auto simp: covered_def word_le_nat_alt)
  show "h \<notin> set present \<Longrightarrow> \<not> inGap \<Longrightarrow> gap_inv present (unat (h + 1)) True h gaps"
    using inv nc unfolding gap_inv_def h1 lt by (auto simp: covered_def word_le_nat_alt)
  show "h \<notin> set present \<Longrightarrow> inGap \<Longrightarrow> gap_inv present (unat (h + 1)) True from gaps"
    using inv nc unfolding gap_inv_def h1 lt by (auto simp: word_le_nat_alt)
qed

lemma gaps_loop_correct:
  assumes "tip < - 1" and "gap_inv present (unat h) inGap from gaps" and "unat h \<le> unat tip + 1"
  shows "\<exists>inGap' from' gaps'. gaps_loop present tip h inGap from gaps = Some (inGap', from', gaps') \<and>
           gap_inv present (unat tip + 1) inGap' from' gaps'"
  using assms
proof (induction "unat tip + 1 - unat h" arbitrary: h inGap "from" gaps)
  case 0
  then have "\<not> h \<le> tip" "unat h = unat tip + 1"
    by (auto simp: word_le_nat_alt)
  then show ?case
    using 0 by (subst gaps_loop.simps) auto
next
  case (Suc k)
  then have le: "h \<le> tip" by (simp add: word_le_nat_alt)
  with Suc.prems(1) have h: "h < - 1" by auto
  have d: "k = unat tip + 1 - unat (h + 1)" "unat (h + 1) \<le> unat tip + 1"
    using Suc.hyps(2) le unat_plus_1 [OF h] by (auto simp: word_le_nat_alt)
  note step = gap_inv_step [OF Suc.prems(2) h] and IH = Suc.hyps(1) [OF d(1) Suc.prems(1) _ d(2)]
  show ?case
    using le step [THEN IH] by (cases "h \<in> set present"; cases inGap) (simp_all add: gaps_loop.simps [of present tip h])
qed

text \<open>With the largest tip the loop condition always holds: the scan never returns.\<close>

lemma gaps_loop_diverges: "gaps_loop present (- 1) h inGap from gaps = None"
proof -
  have False if ret: "gaps_loop present (- 1) h inGap from gaps = Some r" for r
  proof -
    have "(- 1 :: u64) \<noteq> - 1"
    proof (rule gaps_loop.raw_induct [where P = "\<lambda>_ tip _ _ _ _ _. tip \<noteq> - 1", OF _ ret])
      fix f :: "u64 list \<Rightarrow> u64 \<Rightarrow> u64 \<Rightarrow> bool \<Rightarrow> u64 \<Rightarrow> participation_gap list
          \<Rightarrow> (bool \<times> u64 \<times> participation_gap list) option"
        and present tip h inGap "from" gaps r
      assume IH: "\<And>present tip h inGap from gaps r. f present tip h inGap from gaps = Some r \<Longrightarrow> tip \<noteq> - 1"
        and body: "(if h \<le> tip then
                (if h \<in> set present then
                   (if inGap then f present tip (h + 1) False from
                                    (gaps @ [\<lparr>FromHeight = from, ToHeight = h - 1\<rparr>])
                    else f present tip (h + 1) inGap from gaps)
                 else if \<not> inGap then f present tip (h + 1) True h gaps
                 else f present tip (h + 1) inGap from gaps)
              else Some (inGap, from, gaps)) = Some r"
      show "tip \<noteq> - 1"
        using body by (cases "tip = - 1") (auto split: if_splits dest: IH)
    qed
    then show False by simp
  qed
  then show ?thesis by (cases "gaps_loop present (- 1) h inGap from gaps") auto
qed

lemma gap_inv_start: "gap_inv present 0 False 0 []"
  by (simp add: gap_inv_def separated_def covered_def)

lemma CoverageGaps_correct:
  assumes tip: "tip < - 1"
  shows "\<exists>gaps. CoverageGaps cs tip = Some gaps \<and> separated gaps \<and>
           (\<forall>x. covered gaps x \<longleftrightarrow> x \<le> tip \<and> x \<notin> set cs)"
proof -
  have start: "gap_inv cs (unat (0 :: u64)) False 0 []"
    using gap_inv_start by simp
  obtain i f gs where r: "gaps_loop cs tip 0 False 0 [] = Some (i, f, gs)"
    and inv: "gap_inv cs (unat tip + 1) i f gs"
    using gaps_loop_correct [OF tip start] by auto
  have le: "unat x < unat tip + 1 \<longleftrightarrow> x \<le> tip" for x
    by (auto simp: word_le_nat_alt)
  let ?gaps = "if i then gs @ [\<lparr>FromHeight = f, ToHeight = tip\<rparr>] else gs"
  have inside: "x \<le> tip" if "covered gs x" for x
    using that inv by (fastforce simp: gap_inv_def covered_def word_le_nat_alt split: if_splits)
  have "separated ?gaps"
    using inv le by (auto simp: gap_inv_def separated_snoc)
  moreover have "covered ?gaps x \<longleftrightarrow> x \<le> tip \<and> x \<notin> set cs" for x
    using inv inside [of x] le by (auto simp: gap_inv_def covered_snoc)
  ultimately show ?thesis
    using r by (auto simp: CoverageGaps_def)
qed

section \<open>The nearest committed height\<close>

lemma nearest_loop_exact:
  "snd (nearest_loop height cs best exact) \<longleftrightarrow> exact \<or> height \<in> set cs"
  by (induction cs arbitrary: best exact) auto

lemma nearest_loop_best:
  assumes "nearest_loop height cs best exact = (b, e)"
  shows "best \<le> b \<and> (\<forall>c\<in>set cs. c \<le> height \<longrightarrow> sint c \<le> b) \<and>
         (b = best \<or> (\<exists>c\<in>set cs. c \<le> height \<and> b = sint c))"
  using assms
proof (induction cs arbitrary: best exact)
  case (Cons c cs)
  let ?best = "if c \<le> height \<and> best < sint c then sint c else best"
  have "?best \<le> b \<and> (\<forall>c\<in>set cs. c \<le> height \<longrightarrow> sint c \<le> b) \<and>
        (b = ?best \<or> (\<exists>c\<in>set cs. c \<le> height \<and> b = sint c))"
    using Cons.prems by (intro Cons.IH) simp
  then show ?case by (auto split: if_splits)
qed simp

lemma sint_eq_unat:
  assumes "unat (c :: u64) < 2 ^ 63"
  shows "sint c = int (unat c)"
proof -
  from assms have "int (unat c) < int (2 ^ 63)"
    by (simp only: of_nat_less_iff)
  then have u: "uint c < 2 ^ 63" "0 \<le> uint c"
    by simp_all
  then have "\<not> bit (uint c) 63"
    by (simp add: bit_iff_odd)
  then have "sint c = take_bit 63 (uint c)"
    by (simp add: sint_uint signed_take_bit_eq_if_positive)
  also have "\<dots> = uint c"
    using u by (simp add: take_bit_int_eq_self)
  finally show ?thesis by simp
qed

section \<open>Anchors\<close>

lemma anchor_field_Some:
  "anchor_field accRoot fs = Some leaf \<Longrightarrow>
   \<exists>f\<in>set fs. Bytes f = bytes_of accRoot \<and> leaf = leafHash f"
  by (induction fs) (auto simp: LeafForField_def split: if_splits)

lemma VerifyAnchor_iff:
  "VerifyAnchor accRoot fs l0 l1 l2 root \<longleftrightarrow>
     length l0 + length l1 + length l2 \<le> MaxDepth \<and>
     (\<exists>leaf. anchor_field accRoot fs = Some leaf \<and> Fold leaf (l0 @ l1 @ l2) = root)"
  by (auto simp: VerifyAnchor_def Let_def split: option.split)

section \<open>Properties\<close>

text \<open>
  C4. Append-only (I-A1): a header of the range is provable now and after any number of
  further appends, and the proof verifies against the current root.
\<close>

theorem mmr_stays_provable:
  assumes "i < length hs" and "length hs + length later < 2 ^ 64"
    and "m = fold (\<lambda>h r. fst (Append r h)) later (build_mmr hs)"
  shows "\<exists>path. ProveBlock m (word_of_nat i) = Inr (path, Root m) \<and>
                VerifyBlockInChain (hs ! i) path (Root m)"
proof -
  have leaves: "mleaves m = map (\<lambda>h. DoubleSHA256 (bytes_of h)) (hs @ later)"
    using assms(3) by (simp add: mleaves_fold_Append mleaves_build_mmr)
  have i: "unat (word_of_nat i :: u64) = i"
    using assms by (intro unat_word_of_nat_64) simp
  have nth: "mleaves m ! i = DoubleSHA256 (bytes_of (hs ! i))"
    using assms(1) by (simp add: leaves nth_append)
  have "length (mleaves m) < 2 ^ 64" "unat (word_of_nat i :: u64) < length (mleaves m)"
    using assms(1,2) i by (simp_all add: leaves)
  from ProveBlock_ok [OF this] show ?thesis
    by (auto simp: i nth VerifyBlockInChain_iff)
qed

theorem mmr_stays_provable_witness:
  "\<exists>path. ProveBlock (build_mmr [barray_of [1], barray_of [2], barray_of [3]]) 1
           = Inr (path, Root (build_mmr [barray_of [1], barray_of [2], barray_of [3]])) \<and>
         VerifyBlockInChain (barray_of [2]) path
           (Root (build_mmr [barray_of [1], barray_of [2], barray_of [3]]))"
  using mmr_stays_provable [of 1 "[barray_of [1], barray_of [2]]" "[barray_of [3]]"
      "build_mmr [barray_of [1], barray_of [2], barray_of [3]]"]
  by (simp add: build_mmr_def)

text \<open>
  C5. Binding of the range: whoever verifies a header against the root, with the directions of
  the path that \<open>ProveBlock\<close> gives for a height, has the header appended at that height, or
  exhibits a SHA-256d collision.
\<close>

theorem mmr_root_binds:
  assumes "i < length hs" and "length hs < 2 ^ 64"
    and "ProveBlock (build_mmr hs) (word_of_nat i) = Inr (p, root)"
    and "VerifyBlockInChain h q root" and "map Right q = map Right p"
  shows "h = hs ! i \<or> exhibits (header_forgery h q (hs ! i) p)"
proof (rule header_binding)
  have i: "unat (word_of_nat i :: u64) = i"
    using assms by (intro unat_word_of_nat_64) simp
  have "length (mleaves (build_mmr hs)) < 2 ^ 64" "unat (word_of_nat i :: u64) < length (mleaves (build_mmr hs))"
    using assms(1,2) i by (simp_all add: mleaves_build_mmr)
  from ProveBlock_ok [OF this] show "Fold (DoubleSHA256 (bytes_of h)) q = Fold (DoubleSHA256 (bytes_of (hs ! i))) p"
    using assms by (auto simp: i mleaves_build_mmr VerifyBlockInChain_iff)
qed (rule assms(5))

theorem mmr_root_binds_witness:
  "exhibits (header_forgery (barray_of [7]) [] (barray_of [7]) []) \<or> (barray_of [7] :: header) = barray_of [7]"
  using mmr_root_binds [of 0 "[barray_of [7]]" "[]" "DoubleSHA256 (bytes_of (barray_of [7] :: header))"
      "barray_of [7]" "[]"]
  by blast

text \<open>
  The mountains are perfect trees that partition the leaves: their sizes are distinct
  powers of two in descending order, and add up to the number of leaves.
\<close>

theorem mountainSizes_partition:
  "sum_list (map unat (mountainSizes n)) = unat n \<and>
   (\<exists>bs. map unat (mountainSizes n) = map ((^) 2) bs \<and> sorted_wrt (>) bs)"
  using mountainSizes_sum [of n] mountain_loop_powers [of 64 n]
  by (auto simp: mountainSizes_def)

text \<open>
  C6. Gap honesty (I-A3): below the largest 64-bit height, \<open>CoverageGaps\<close> returns, its gaps are
  separated by committed heights, and a height lies in a gap exactly if it is at most the tip
  and not committed. With the largest height as tip the scan does not return.
\<close>

theorem CoverageGaps_exact:
  "(tipHeight < - 1 \<longrightarrow>
     (\<exists>gaps. CoverageGaps committed tipHeight = Some gaps \<and> separated gaps \<and>
        (\<forall>h. covered gaps h \<longleftrightarrow> h \<le> tipHeight \<and> h \<notin> set committed))) \<and>
   CoverageGaps committed (- 1) = None"
  using CoverageGaps_correct [of tipHeight committed]
  by (simp add: CoverageGaps_def gaps_loop_diverges)

theorem CoverageGaps_exact_witness:
  "\<exists>gaps. CoverageGaps [0, 3, 3] 5 = Some gaps \<and> separated gaps \<and>
      (\<forall>h. covered gaps h \<longleftrightarrow> h \<le> 5 \<and> h \<notin> {0, 3})"
  using CoverageGaps_exact [of 5 "[0, 3, 3]"] by simp

text \<open>
  \<open>NearestCommitted\<close> below height \<open>2^63\<close>: it flags a gap exactly at the heights that were
  not committed, and returns the largest committed height up to the given one (zero if none).
\<close>

theorem NearestCommitted_correct:
  assumes "unat height < 2 ^ 63" and "NearestCommitted height committed = (h, inGap)"
  shows "(inGap \<longleftrightarrow> height \<notin> set committed) \<and>
         (if \<exists>c\<in>set committed. c \<le> height
          then h \<in> set committed \<and> h \<le> height \<and> (\<forall>c\<in>set committed. c \<le> height \<longrightarrow> c \<le> h)
          else h = 0)"
proof -
  obtain b e where r: "nearest_loop height committed (-1) False = (b, e)"
    by (cases "nearest_loop height committed (-1) False")
  have e: "e \<longleftrightarrow> height \<in> set committed"
    using nearest_loop_exact [of height committed "-1" False] r by simp
  have s: "sint c = int (unat c)" if "c \<le> height" for c
    by (rule sint_eq_unat) (use that assms(1) in \<open>simp add: word_le_nat_alt\<close>)
  note best = nearest_loop_best [OF r]
  show ?thesis
  proof (cases "\<exists>c\<in>set committed. c \<le> height")
    case True
    then obtain c0 where c0: "c0 \<in> set committed" "c0 \<le> height" by blast
    then have "int (unat c0) \<le> b" using best s [OF c0(2)] by metis
    then have "0 \<le> b" using of_nat_0_le_iff order_trans by blast
    then obtain c where c: "c \<in> set committed" "c \<le> height" "b = int (unat c)"
      using best s by auto
    then have "h = c" "inGap \<longleftrightarrow> \<not> e"
      using assms(2) r \<open>0 \<le> b\<close> by (auto simp: NearestCommitted_def)
    moreover have "c' \<le> c" if c': "c' \<in> set committed" "c' \<le> height" for c'
    proof -
      have "int (unat c') \<le> int (unat c)"
        using best c' s [OF c'(2)] c(3) by metis
      then show ?thesis by (simp only: of_nat_le_iff word_le_nat_alt)
    qed
    ultimately show ?thesis using c True e by auto
  next
    case False
    then have "b = - 1" "height \<notin> set committed"
      using best by auto
    then show ?thesis
      using False assms(2) r by (auto simp: NearestCommitted_def)
  qed
qed

theorem NearestCommitted_correct_witness:
  "NearestCommitted 6 [2, 9, 5] = (5, True) \<and> (5 :: u64) \<in> set [2, 9, 5] \<and> (5 :: u64) \<le> 6"
proof -
  have n: "NearestCommitted 6 [2, 9, 5] = (5, True)"
    by (simp add: NearestCommitted_def)
  show ?thesis
    using n NearestCommitted_correct [OF _ n] by simp
qed

text \<open>
  From height \<open>2^63\<close> on the conversion to \<open>int64\<close> turns negative, and a height that was
  committed, and nothing else, is reported as a gap.
\<close>

theorem NearestCommitted_high_heights:
  assumes "2 ^ 63 \<le> unat height"
  shows "NearestCommitted height [height] = (0, True)"
proof -
  have "bit height 63"
  proof -
    have "unat height < 2 ^ 64" using unsigned_less [of height] by simp
    then have "unat height div 2 ^ 63 = 1"
      using assms by (simp add: div_nat_eqI)
    then have "bit (unat height) 63" by (simp add: bit_iff_odd)
    then show ?thesis by (simp add: bit_unsigned_iff)
  qed
  then have "sint height < 0"
    by (simp add: sint_uint signed_take_bit_negative_iff bit_uint_iff)
  then have "sint height \<le> - 1" by simp
  then show ?thesis
    by (simp add: NearestCommitted_def)
qed

theorem NearestCommitted_high_heights_witness:
  "NearestCommitted 0x8000000000000000 [0x8000000000000000] = (0, True)"
  using NearestCommitted_high_heights [of "0x8000000000000000"] by simp

text \<open>
  PoW binding of the accumulator root: an anchor that verifies against a block root, along
  the directions of a field's own path into that block, carries the content of that field, or
  the two folds exhibit a SHA-256d collision.
\<close>

theorem VerifyAnchor_binds:
  assumes "MTxIDPath fs k = Inr (leaf, p0, mtxid)" and "Fold mtxid (p1 @ p2) = blockRoot"
    and "VerifyAnchor accRoot gen q0 q1 q2 blockRoot"
    and "map Right (q0 @ q1 @ q2) = map Right (p0 @ p1 @ p2)"
  shows "Bytes (fs ! unat k) = bytes_of accRoot \<or>
         (\<exists>f\<in>set gen. Bytes f = bytes_of accRoot \<and>
            (exhibits (fold_collision (leafHash f) (q0 @ q1 @ q2) leaf (p0 @ p1 @ p2)) \<or>
             collision (leaf_input f, leaf_input (fs ! unat k))))"
proof -
  obtain layers where leaf: "leaf = leafHash (fs ! unat k)"
    and p0: "MerklePath (build_layers (map leafHash fs)) (int (unat k)) = Inr p0"
    and m: "mtxid = tree_root (map leafHash fs)" and k: "unat k < length fs"
    using assms(1)
    by (auto simp: MTxIDPath_def BuildMTxID_def BuildMerkleTree_eq split: if_splits sum.splits)
  have honest: "Fold leaf (p0 @ p1 @ p2) = blockRoot"
    using MerklePath_Fold [OF p0] k assms(2) by (simp add: leaf m)
  obtain f where f: "f \<in> set gen" "Bytes f = bytes_of accRoot"
    and fold: "Fold (leafHash f) (q0 @ q1 @ q2) = Fold leaf (p0 @ p1 @ p2)"
    using assms(3) honest by (auto simp: VerifyAnchor_iff dest!: anchor_field_Some)
  have "leafHash f = leaf \<or> exhibits (fold_collision (leafHash f) (q0 @ q1 @ q2) leaf (p0 @ p1 @ p2))"
    using fold_binding_cases [OF assms(4) fold] by blast
  then show ?thesis
    using f leaf leaf_input_inject [of f "fs ! unat k"]
    by (auto simp: collision_def leafHash_def leaf_input_def)
qed

theorem VerifyAnchor_binds_witness:
  "VerifyAnchor zero_hash [\<lparr>Index = 1, Bytes = bytes_of zero_hash\<rparr>] [] []
     [\<lparr>Sibling = zero_hash, Right = True\<rparr>]
     (HashPair (leafHash \<lparr>Index = 1, Bytes = bytes_of zero_hash\<rparr>) zero_hash) \<and>
   (bytes_of zero_hash = bytes_of zero_hash \<or>
    (\<exists>f\<in>{\<lparr>Index = 1, Bytes = bytes_of zero_hash\<rparr>}.
       exhibits (fold_collision (leafHash f) [\<lparr>Sibling = zero_hash, Right = True\<rparr>]
         (leafHash \<lparr>Index = 1, Bytes = bytes_of zero_hash\<rparr>) [\<lparr>Sibling = zero_hash, Right = True\<rparr>]) \<or>
       collision (leaf_input f, leaf_input \<lparr>Index = 1, Bytes = bytes_of zero_hash\<rparr>)))"
proof -
  let ?f = "\<lparr>Index = 1, Bytes = bytes_of zero_hash\<rparr>"
  have v: "VerifyAnchor zero_hash [?f] [] [] [\<lparr>Sibling = zero_hash, Right = True\<rparr>]
      (HashPair (leafHash ?f) zero_hash)"
    by (simp add: VerifyAnchor_def LeafForField_def fold_step_def MaxDepth_def)
  have t: "MTxIDPath [?f] 0 = Inr (leafHash ?f, [], leafHash ?f)"
    by (simp add: MTxIDPath_def BuildMTxID_def BuildMerkleTree_def build_layers.simps MerklePath_def)
  show ?thesis
    using v VerifyAnchor_binds [OF t, of "[]" "[\<lparr>Sibling = zero_hash, Right = True\<rparr>]"
        "HashPair (leafHash ?f) zero_hash" zero_hash "[?f]" "[]" "[]"
        "[\<lparr>Sibling = zero_hash, Right = True\<rparr>]"]
    by (auto simp: fold_step_def)
qed

end
