(* ===== verification/Teranode.thy ===== *)
theory Teranode
  imports Accumulator
begin

text \<open>
  Package \<open>teranode\<close> (src/teranode/teranode.go): the read-only interfaces the rest of the
  program consumes, and \<open>MockNode\<close>, the in-memory node that seals real blocks.

  An interface is a record of functions; a nil interface value is \<open>None\<close> at the type
  \<open>option\<close>. The node is a record with the fields of the struct; its methods take it and
  return it. The mutex makes every method one step, so it is not modelled; the reads that
  the source runs without the lock are modelled as reads between two steps.
\<close>

section \<open>Interfaces\<close>

text \<open>
  \<open>teranode.Outpoint\<close>, \<open>bundle.OutputRef\<close>, \<open>payment.Outpoint\<close> and \<open>dsalert.Outpoint\<close> are the
  same struct under four names; the code converts between them field by field.
\<close>

record outpoint =
  TXID :: hash
  Vout :: u32

record proof_source =
  SubtreePathFor :: "hash \<Rightarrow> (path_elem list \<times> hash) res"
  BlockPathFor :: "hash \<Rightarrow> hash \<Rightarrow> (path_elem list \<times> hash) res"
  HeaderFor :: "hash \<Rightarrow> header res"
  LocateTx :: "hash \<Rightarrow> hash res"
  GenTxAccumulator :: "hash \<Rightarrow> (hash \<times> tx_fields \<times> path_elem list \<times> path_elem list \<times> path_elem list) res"

record header_chain =
  Contains :: "header \<Rightarrow> bool"
  BestTipHeight :: u64

text \<open>A UTXO client may also be a \<open>ValueOracle\<close>: the type assertion of the till finds it or not.\<close>

record utxo_client =
  IsUnspent :: "outpoint \<Rightarrow> bool res"
  AsValueOracle :: "(outpoint \<Rightarrow> (u64 \<times> bool) res) option"

section \<open>State of the node\<close>

definition accRootFieldIndex :: byte where
  "accRootFieldIndex = 1"

record tx_entry =
  te_blockHash :: hash
  te_subtreeIndex :: nat
  te_leafIndex :: nat

record sealed_block =
  sb_hash :: hash
  sb_height :: u64
  sb_header :: header
  sb_subtreeRoots :: "hash list"
  sb_subtreeTrees :: "hash list list list"
  sb_blockLayers :: "hash list list"
  sb_blockRoot :: hash
  sb_isCarrier :: bool
  sb_accRoot :: hash
  sb_accPrefix :: u64
  sb_genFields :: tx_fields

record mock_node =
  blocks :: "hash \<rightharpoonup> sealed_block"
  txIndex :: "hash \<rightharpoonup> tx_entry"
  chain :: "hash list"
  headers :: "header list"
  onBest :: "hash \<rightharpoonup> bool"
  spent :: "outpoint \<rightharpoonup> bool"
  out_values :: "outpoint \<rightharpoonup> u64"
  subtreeSize :: nat

definition NewMockNode :: "int \<Rightarrow> mock_node" where
  "NewMockNode subtreeCap =
     \<lparr>blocks = Map.empty, txIndex = Map.empty, chain = [], headers = [], onBest = Map.empty,
      spent = Map.empty, out_values = Map.empty,
      subtreeSize = nat (if subtreeCap < 1 then 1 else subtreeCap)\<rparr>"

section \<open>Sealing a block\<close>

text \<open>The first \<open>p\<close> headers (or all, if there are fewer), appended to an empty range.\<close>

definition mmr_of_prefix :: "mock_node \<Rightarrow> u64 \<Rightarrow> mmr" where
  "mmr_of_prefix n p = fold (\<lambda>h m. fst (Append m h)) (take (unat p) (headers n)) NewMMR"

definition mmrRootOfPrefix :: "mock_node \<Rightarrow> u64 \<Rightarrow> hash" where
  "mmrRootOfPrefix n p = Root (mmr_of_prefix n p)"

definition coinbase_marker :: bytes where
  "coinbase_marker = map (\<lambda>c. word_of_nat (of_char c)) ''coinbase-marker''"

definition gen_fields :: "hash \<Rightarrow> tx_fields" where
  "gen_fields accRoot =
     [\<lparr>Index = 0, Bytes = coinbase_marker\<rparr>,
      \<lparr>Index = accRootFieldIndex, Bytes = bytes_of accRoot\<rparr>]"

text \<open>The leaves, cut into runs of at most \<open>cap\<close>; each run is one subtree.\<close>

function seal_subtrees :: "nat \<Rightarrow> hash list \<Rightarrow> (hash \<times> hash list list) list res" where
  "seal_subtrees cap leafSet =
     (if leafSet = [] \<or> cap = 0 then Inr []
      else case BuildMerkleTree (take cap leafSet) of
        Inl e \<Rightarrow> Inl e
      | Inr rl \<Rightarrow> map_res ((#) rl) (seal_subtrees cap (drop cap leafSet)))"
  by pat_completeness auto
termination
  by (relation "measure (\<lambda>(cap, xs). length xs)") auto

declare seal_subtrees.simps [simp del]

text \<open>version(4), prevhash(32), merkleroot(32), time(4), bits(4), nonce(4).\<close>

definition make_header :: "hash option \<Rightarrow> hash \<Rightarrow> u64 \<Rightarrow> header" where
  "make_header prev blockRoot height =
     barray_of ([1, 0, 0, 0]
       @ (case prev of None \<Rightarrow> replicate 32 0 | Some h \<Rightarrow> bytes_of h)
       @ bytes_of blockRoot
       @ [ucast height, ucast (drop_bit 8 height)] @ replicate 10 0)"

text \<open>The two nested loops that enter every leaf of the block into the transaction index.\<close>

primrec index_leaves :: "hash \<Rightarrow> nat \<Rightarrow> nat \<Rightarrow> hash list \<Rightarrow> (hash \<rightharpoonup> tx_entry) \<Rightarrow> (hash \<rightharpoonup> tx_entry)" where
  "index_leaves bh st li [] idx = idx"
| "index_leaves bh st li (txid # rest) idx =
     index_leaves bh st (li + 1) rest
       (idx(txid \<mapsto> \<lparr>te_blockHash = bh, te_subtreeIndex = st, te_leafIndex = li\<rparr>))"

primrec index_trees :: "hash \<Rightarrow> nat \<Rightarrow> hash list list list \<Rightarrow> (hash \<rightharpoonup> tx_entry) \<Rightarrow> (hash \<rightharpoonup> tx_entry)" where
  "index_trees bh st [] idx = idx"
| "index_trees bh st (layers # rest) idx =
     index_trees bh (st + 1) rest (index_leaves bh st 0 (hd layers) idx)"

text \<open>The hash of the last block of the chain; reading it through a missing block panics.\<close>

definition prev_hash :: "mock_node \<Rightarrow> hash option res" where
  "prev_hash n =
     (if chain n = [] then Inr None
      else case blocks n (last (chain n)) of
        None \<Rightarrow> Inl Panic
      | Some prev \<Rightarrow> Inr (Some (sb_hash prev)))"

definition SealBlock :: "mock_node \<Rightarrow> hash list \<Rightarrow> bool \<Rightarrow> (hash \<times> mock_node) res" where
  "SealBlock n txids commitAccumulator =
     (if length txids = 0 then Inl ErrEmptyBlock
      else let height = word_of_nat (length (chain n));
               accRoot = (if commitAccumulator then mmrRootOfPrefix n height else zero_hash);
               genFields = (if commitAccumulator then gen_fields accRoot else []) in
      case (if commitAccumulator then map_res (\<lambda>(genMtxid, _). genMtxid # txids) (BuildMTxID genFields)
            else Inr txids) of
        Inl e \<Rightarrow> Inl e
      | Inr leafSet \<Rightarrow>
      (case seal_subtrees (subtreeSize n) leafSet of
        Inl e \<Rightarrow> Inl e
      | Inr sts \<Rightarrow>
      (case BuildMerkleTree (map fst sts) of
        Inl e \<Rightarrow> Inl e
      | Inr (blockRoot, blockLayers) \<Rightarrow>
      (case prev_hash n of
        Inl e \<Rightarrow> Inl e
      | Inr prev \<Rightarrow>
          (let hdr = make_header prev blockRoot height;
               bh = DoubleSHA256 (bytes_of hdr);
               sb = \<lparr>sb_hash = bh, sb_height = height, sb_header = hdr,
                     sb_subtreeRoots = map fst sts, sb_subtreeTrees = map snd sts,
                     sb_blockLayers = blockLayers, sb_blockRoot = blockRoot,
                     sb_isCarrier = commitAccumulator, sb_accRoot = accRoot,
                     sb_accPrefix = (if commitAccumulator then height else 0),
                     sb_genFields = genFields\<rparr>
           in Inr (bh, n\<lparr>txIndex := index_trees bh 0 (map snd sts) (txIndex n),
                         blocks := (blocks n)(bh \<mapsto> sb),
                         chain := chain n @ [bh],
                         headers := headers n @ [hdr],
                         onBest := (onBest n)(bh \<mapsto> True)\<rparr>))))))"

section \<open>Serving proofs\<close>

definition node_SubtreePathFor :: "mock_node \<Rightarrow> hash \<Rightarrow> (path_elem list \<times> hash) res" where
  "node_SubtreePathFor n txid =
     (case txIndex n txid of
        None \<Rightarrow> Inl ErrUnknownTx
      | Some e \<Rightarrow>
        (case blocks n (te_blockHash e) of
           None \<Rightarrow> Inl Panic
         | Some sb \<Rightarrow>
           (case go_index (sb_subtreeTrees sb) (te_subtreeIndex e) of
              Inl x \<Rightarrow> Inl x
            | Inr layers \<Rightarrow>
              (case MerklePath layers (int (te_leafIndex e)) of
                 Inl x \<Rightarrow> Inl x
               | Inr path \<Rightarrow>
                   map_res (\<lambda>root. (path, root)) (go_index (sb_subtreeRoots sb) (te_subtreeIndex e))))))"

primrec find_root :: "hash \<Rightarrow> nat \<Rightarrow> hash list \<Rightarrow> int" where
  "find_root subtreeRoot i [] = -1"
| "find_root subtreeRoot i (r # rs) =
     (if r = subtreeRoot then int i else find_root subtreeRoot (i + 1) rs)"

definition node_BlockPathFor :: "mock_node \<Rightarrow> hash \<Rightarrow> hash \<Rightarrow> (path_elem list \<times> hash) res" where
  "node_BlockPathFor n subtreeRoot blockHash =
     (case blocks n blockHash of
        None \<Rightarrow> Inl ErrUnknownBlock
      | Some sb \<Rightarrow>
        (let idx = find_root subtreeRoot 0 (sb_subtreeRoots sb) in
         if idx < 0 then Inl ErrSubtreeNotInBlock
         else map_res (\<lambda>path. (path, sb_blockRoot sb)) (MerklePath (sb_blockLayers sb) idx)))"

definition node_HeaderFor :: "mock_node \<Rightarrow> hash \<Rightarrow> header res" where
  "node_HeaderFor n blockHash =
     (case blocks n blockHash of None \<Rightarrow> Inl ErrUnknownBlock | Some sb \<Rightarrow> Inr (sb_header sb))"

definition node_LocateTx :: "mock_node \<Rightarrow> hash \<Rightarrow> hash res" where
  "node_LocateTx n txid =
     (case txIndex n txid of None \<Rightarrow> Inl ErrUnknownTx | Some e \<Rightarrow> Inr (te_blockHash e))"

text \<open>
  \<open>ServeInto\<close> writes into the caller's buffers and drops the errors of \<open>MerklePathInto\<close>, whose
  slice is then nil. \<open>Inr None\<close> is the result \<open>ok = false\<close>.
\<close>

definition nil_on_error :: "'a go_buf res \<Rightarrow> 'a go_buf" where
  "nil_on_error r = (case r of Inl _ \<Rightarrow> \<lparr>backing = [], used = 0, moves = 0\<rparr> | Inr b \<Rightarrow> b)"

definition ServeInto ::
  "(nat \<Rightarrow> path_elem list) \<Rightarrow> mock_node \<Rightarrow> hash \<Rightarrow> path_elem go_buf \<Rightarrow> path_elem go_buf
   \<Rightarrow> (path_elem go_buf \<times> path_elem go_buf \<times> hash \<times> header) option res" where
  "ServeInto grow n txid l1dst l2dst =
     (case txIndex n txid of
        None \<Rightarrow> Inr None
      | Some e \<Rightarrow>
        (case blocks n (te_blockHash e) of
           None \<Rightarrow> Inl Panic
         | Some sb \<Rightarrow>
           (case go_index (sb_subtreeTrees sb) (te_subtreeIndex e) of
              Inl x \<Rightarrow> Inl x
            | Inr layers \<Rightarrow>
              (let l1 = nil_on_error (MerklePathInto grow layers (int (te_leafIndex e)) l1dst);
                   l2 = nil_on_error (MerklePathInto grow (sb_blockLayers sb) (int (te_subtreeIndex e)) l2dst)
               in map_res (\<lambda>root. Some (l1, l2, root, sb_header sb))
                    (go_index (sb_subtreeRoots sb) (te_subtreeIndex e))))))"

definition node_GenTxAccumulator ::
  "mock_node \<Rightarrow> hash \<Rightarrow> (hash \<times> tx_fields \<times> path_elem list \<times> path_elem list \<times> path_elem list) res" where
  "node_GenTxAccumulator n blockHash =
     (case blocks n blockHash of
        None \<Rightarrow> Inl ErrUnknownBlock
      | Some sb \<Rightarrow>
        if \<not> sb_isCarrier sb then Inl ErrNoAccumulator
        else case MTxIDPath (sb_genFields sb) accRootFieldIndex of
          Inl e \<Rightarrow> Inl e
        | Inr (_, l0, _) \<Rightarrow>
          (case go_index (sb_subtreeTrees sb) 0 of
             Inl e \<Rightarrow> Inl e
           | Inr layers \<Rightarrow>
             (case MerklePath layers 0 of
                Inl e \<Rightarrow> Inl e
              | Inr l1 \<Rightarrow>
                map_res (\<lambda>l2. (sb_accRoot sb, sb_genFields sb, l0, l1, l2))
                  (MerklePath (sb_blockLayers sb) 0))))"

text \<open>A carrier prefix beyond the stored headers is the index panic of \<open>n.headers[i]\<close>.\<close>

definition ProveHeaderInAccumulator :: "mock_node \<Rightarrow> hash \<Rightarrow> hash \<Rightarrow> (path_elem list \<times> hash) res" where
  "ProveHeaderInAccumulator n targetHash carrierHash =
     (case blocks n carrierHash of
        None \<Rightarrow> Inl ErrNoAccumulator
      | Some carrier \<Rightarrow>
        if \<not> sb_isCarrier carrier then Inl ErrNoAccumulator
        else case blocks n targetHash of
          None \<Rightarrow> Inl ErrUnknownBlock
        | Some target \<Rightarrow>
          if sb_accPrefix carrier \<le> sb_height target then Inl ErrTargetNotInPrefix
          else if length (headers n) < unat (sb_accPrefix carrier) then Inl Panic
          else ProveBlock (mmr_of_prefix n (sb_accPrefix carrier)) (sb_height target))"

definition node_source :: "mock_node \<Rightarrow> proof_source" where
  "node_source n =
     \<lparr>SubtreePathFor = node_SubtreePathFor n, BlockPathFor = node_BlockPathFor n,
      HeaderFor = node_HeaderFor n, LocateTx = node_LocateTx n,
      GenTxAccumulator = node_GenTxAccumulator n\<rparr>"

section \<open>Header chain, spends and output values\<close>

definition node_Contains :: "mock_node \<Rightarrow> header \<Rightarrow> bool" where
  "node_Contains n h =
     (let bh = DoubleSHA256 (bytes_of h) in
      case blocks n bh of None \<Rightarrow> False | Some sb \<Rightarrow> go_get False (onBest n) (sb_hash sb))"

definition node_BestTipHeight :: "mock_node \<Rightarrow> u64" where
  "node_BestTipHeight n = word_of_nat (length (chain n))"

definition node_chain :: "mock_node \<Rightarrow> header_chain" where
  "node_chain n = \<lparr>Contains = node_Contains n, BestTipHeight = node_BestTipHeight n\<rparr>"

definition node_IsUnspent :: "mock_node \<Rightarrow> outpoint \<Rightarrow> bool res" where
  "node_IsUnspent n ou = Inr (\<not> go_get False (spent n) ou)"

definition MarkSpent :: "mock_node \<Rightarrow> outpoint \<Rightarrow> mock_node" where
  "MarkSpent n ou = n\<lparr>spent := (spent n)(ou \<mapsto> True)\<rparr>"

definition SetOutputValue :: "mock_node \<Rightarrow> outpoint \<Rightarrow> u64 \<Rightarrow> mock_node" where
  "SetOutputValue n ou v = n\<lparr>out_values := (out_values n)(ou \<mapsto> v)\<rparr>"

definition node_OutputValue :: "mock_node \<Rightarrow> outpoint \<Rightarrow> (u64 \<times> bool) res" where
  "node_OutputValue n ou = Inr (go_get 0 (out_values n) ou, \<not> go_get False (spent n) ou)"

definition node_utxo :: "mock_node \<Rightarrow> utxo_client" where
  "node_utxo n = \<lparr>IsUnspent = node_IsUnspent n, AsValueOracle = Some (node_OutputValue n)\<rparr>"

definition Orphan :: "mock_node \<Rightarrow> hash \<Rightarrow> mock_node" where
  "Orphan n blockHash = n\<lparr>onBest := (onBest n)(blockHash \<mapsto> False)\<rparr>"

definition Restore :: "mock_node \<Rightarrow> hash \<Rightarrow> mock_node" where
  "Restore n blockHash = n\<lparr>onBest := (onBest n)(blockHash \<mapsto> True)\<rparr>"

definition BlockRoot :: "mock_node \<Rightarrow> hash \<Rightarrow> hash option" where
  "BlockRoot n blockHash = map_option sb_blockRoot (blocks n blockHash)"

section \<open>The pruned header view\<close>

record static_chain =
  static_headers :: "hash \<rightharpoonup> bool"
  static_tip :: u64

definition NewStaticHeaderChain :: "header list \<Rightarrow> u64 \<Rightarrow> static_chain" where
  "NewStaticHeaderChain hs tip =
     \<lparr>static_headers = fold (\<lambda>h m. m(DoubleSHA256 (bytes_of h) \<mapsto> True)) hs Map.empty,
      static_tip = tip\<rparr>"

definition static_Contains :: "static_chain \<Rightarrow> header \<Rightarrow> bool" where
  "static_Contains s h = go_get False (static_headers s) (DoubleSHA256 (bytes_of h))"

definition static_view :: "static_chain \<Rightarrow> header_chain" where
  "static_view s = \<lparr>Contains = static_Contains s, BestTipHeight = static_tip s\<rparr>"

section \<open>The blocks a node holds\<close>

text \<open>
  The slots of a header: the previous hash in bytes 4 to 35, the Merkle root in 36 to 67.
\<close>

definition header_prev :: "header \<Rightarrow> bytes" where
  "header_prev h = go_slice (bytes_of h) 4 36"

definition header_root :: "header \<Rightarrow> bytes" where
  "header_root h = go_slice (bytes_of h) 36 68"

definition prev_slot :: "hash option \<Rightarrow> bytes" where
  "prev_slot prev = (case prev of None \<Rightarrow> replicate 32 0 | Some h \<Rightarrow> bytes_of h)"

lemma bytes_of_make_header:
  "bytes_of (make_header prev r height) =
     [1, 0, 0, 0] @ prev_slot prev @ bytes_of r @ [ucast height, ucast (drop_bit 8 height)] @ replicate 10 0"
  unfolding make_header_def prev_slot_def [symmetric]
  by (rule bytes_of_barray_of_exact) (simp add: prev_slot_def split: option.split)

lemma length_prev_slot [simp]: "length (prev_slot prev) = 32"
  by (simp add: prev_slot_def split: option.split)

lemma go_slice_middle: "length xs = i \<Longrightarrow> j = i + length ys \<Longrightarrow> go_slice (xs @ ys @ zs) i j = ys"
  by (simp add: go_slice_def)

lemma make_header_slots [simp]:
  "header_prev (make_header prev r height) = prev_slot prev"
  "header_root (make_header prev r height) = bytes_of r"
proof -
  show "header_prev (make_header prev r height) = prev_slot prev"
    unfolding header_prev_def bytes_of_make_header by (rule go_slice_middle) simp_all
  show "header_root (make_header prev r height) = bytes_of r"
    unfolding header_root_def bytes_of_make_header append_assoc [symmetric, of _ "prev_slot prev"]
    by (rule go_slice_middle) simp_all
qed

lemma seal_subtrees_ok:
  assumes "0 < cap"
  shows "\<exists>ls. seal_subtrees cap xs = Inr (map (\<lambda>l. (tree_root l, build_layers l)) ls) \<and>
           concat ls = xs \<and> (\<forall>l\<in>set ls. l \<noteq> [] \<and> length l \<le> cap) \<and>
           (\<forall>l\<in>set (butlast ls). length l = cap)"
  using assms
proof (induction cap xs rule: seal_subtrees.induct)
  case (1 cap xs)
  show ?case
  proof (cases "xs = []")
    case True
    then show ?thesis by (intro exI [of _ "[]"]) (simp add: seal_subtrees.simps)
  next
    case False
    then have t: "take cap xs \<noteq> []" using "1.prems" by simp
    then have "BuildMerkleTree (take cap xs) = Inr (tree_root (take cap xs), build_layers (take cap xs))"
      by (simp add: BuildMerkleTree_eq)
    with "1.IH" "1.prems" False obtain ls where
      "seal_subtrees cap (drop cap xs) = Inr (map (\<lambda>l. (tree_root l, build_layers l)) ls)"
      "concat ls = drop cap xs" "\<forall>l\<in>set ls. l \<noteq> [] \<and> length l \<le> cap"
      "\<forall>l\<in>set (butlast ls). length l = cap" by auto
    moreover from calculation(2) have "ls \<noteq> [] \<Longrightarrow> length (take cap xs) = cap"
      using calculation(3) by (cases "length xs \<le> cap") (auto simp: concat_eq_Nil_conv)
    ultimately show ?thesis
      using t "1.prems" False
      by (intro exI [of _ "take cap xs # ls"])
        (simp add: seal_subtrees.simps [of cap xs] BuildMerkleTree_eq)
  qed
qed

text \<open>A sealed block: its trees, its roots and its header agree.\<close>

definition leaves_of :: "sealed_block \<Rightarrow> hash list list" where
  "leaves_of sb = map hd (sb_subtreeTrees sb)"

definition block_ok :: "nat \<Rightarrow> sealed_block \<Rightarrow> bool" where
  "block_ok cap sb \<longleftrightarrow>
     leaves_of sb \<noteq> [] \<and> (\<forall>l\<in>set (leaves_of sb). l \<noteq> [] \<and> length l \<le> cap) \<and>
     (\<forall>l\<in>set (butlast (leaves_of sb)). length l = cap) \<and>
     length (concat (leaves_of sb)) < 2 ^ 63 \<and>
     sb_subtreeTrees sb = map build_layers (leaves_of sb) \<and>
     sb_subtreeRoots sb = map tree_root (leaves_of sb) \<and>
     sb_blockLayers sb = build_layers (sb_subtreeRoots sb) \<and>
     sb_blockRoot sb = tree_root (sb_subtreeRoots sb) \<and>
     header_root (sb_header sb) = bytes_of (sb_blockRoot sb) \<and>
     sb_hash sb = DoubleSHA256 (bytes_of (sb_header sb))"

text \<open>A carrying block commits the root over the headers before it, in leaf 0 of subtree 0.\<close>

definition carrier_ok :: "header list \<Rightarrow> sealed_block \<Rightarrow> bool" where
  "carrier_ok hs sb \<longleftrightarrow>
     (if sb_isCarrier sb
      then sb_accPrefix sb = sb_height sb \<and> unat (sb_height sb) < length hs \<and>
           sb_accRoot sb = Root (build_mmr (take (unat (sb_height sb)) hs)) \<and>
           sb_genFields sb = gen_fields (sb_accRoot sb) \<and>
           hd (hd (leaves_of sb)) = tree_root (map leafHash (gen_fields (sb_accRoot sb)))
      else sb_genFields sb = [])"

definition entry_ok :: "mock_node \<Rightarrow> hash \<Rightarrow> tx_entry \<Rightarrow> bool" where
  "entry_ok n txid e =
     (case blocks n (te_blockHash e) of
        None \<Rightarrow> False
      | Some sb \<Rightarrow>
          te_subtreeIndex e < length (leaves_of sb) \<and>
          te_leafIndex e < length (leaves_of sb ! te_subtreeIndex e) \<and>
          leaves_of sb ! te_subtreeIndex e ! te_leafIndex e = txid)"

definition prev_of :: "mock_node \<Rightarrow> nat \<Rightarrow> hash option" where
  "prev_of n i = (if i = 0 then None else Some (chain n ! (i - 1)))"

definition position_ok :: "mock_node \<Rightarrow> nat \<Rightarrow> bool" where
  "position_ok n i =
     (case blocks n (chain n ! i) of
        None \<Rightarrow> False
      | Some sb \<Rightarrow>
          sb_hash sb = chain n ! i \<and> sb_height sb = word_of_nat i \<and> sb_header sb = headers n ! i \<and>
          header_prev (sb_header sb) = prev_slot (prev_of n i))"

definition node_inv :: "nat \<Rightarrow> mock_node \<Rightarrow> bool" where
  "node_inv cap n \<longleftrightarrow>
     0 < cap \<and> subtreeSize n = cap \<and>
     length (headers n) = length (chain n) \<and> length (chain n) < 2 ^ 64 \<and> distinct (chain n) \<and>
     dom (blocks n) = set (chain n) \<and> (\<forall>i<length (chain n). position_ok n i) \<and>
     (\<forall>sb\<in>ran (blocks n). block_ok cap sb \<and> carrier_ok (headers n) sb) \<and>
     (\<forall>txid e. txIndex n txid = Some e \<longrightarrow> entry_ok n txid e)"

section \<open>What sealing does\<close>

lemma index_leaves_out: "txid \<notin> set ls \<Longrightarrow> index_leaves bh st li ls idx txid = idx txid"
  by (induction ls arbitrary: li idx) auto

lemma index_leaves_in:
  "txid \<in> set ls \<Longrightarrow>
   \<exists>k<length ls. ls ! k = txid \<and>
     index_leaves bh st li ls idx txid = Some \<lparr>te_blockHash = bh, te_subtreeIndex = st, te_leafIndex = li + k\<rparr>"
proof (induction ls arbitrary: li idx)
  case (Cons t ls)
  show ?case
  proof (cases "txid \<in> set ls")
    case True
    from Cons.IH [OF this, of "li + 1"] obtain k where "k < length ls" "ls ! k = txid"
      "index_leaves bh st li (t # ls) idx txid
         = Some \<lparr>te_blockHash = bh, te_subtreeIndex = st, te_leafIndex = li + 1 + k\<rparr>"
      by (metis index_leaves.simps(2))
    then show ?thesis by (intro exI [of _ "Suc k"]) simp
  next
    case False
    then show ?thesis using Cons.prems by (intro exI [of _ 0]) (simp add: index_leaves_out)
  qed
qed simp

text \<open>After the loops every leaf has an entry of the new block that points to it; the rest is as before.\<close>

lemma index_trees_out:
  "txid \<notin> set (concat (map hd trees)) \<Longrightarrow> index_trees bh st trees idx txid = idx txid"
  by (induction trees arbitrary: st idx) (auto simp: index_leaves_out)

lemma index_trees_in:
  "txid \<in> set (concat (map hd trees)) \<Longrightarrow>
   \<exists>j k. j < length trees \<and> k < length (hd (trees ! j)) \<and> hd (trees ! j) ! k = txid \<and>
     index_trees bh st trees idx txid
       = Some \<lparr>te_blockHash = bh, te_subtreeIndex = st + j, te_leafIndex = k\<rparr>"
proof (induction trees arbitrary: st idx)
  case (Cons t trees)
  show ?case
  proof (cases "txid \<in> set (concat (map hd trees))")
    case True
    from Cons.IH [OF this, of "st + 1"] obtain j k where "j < length trees"
      "k < length (hd (trees ! j))" "hd (trees ! j) ! k = txid"
      "index_trees bh st (t # trees) idx txid
         = Some \<lparr>te_blockHash = bh, te_subtreeIndex = st + 1 + j, te_leafIndex = k\<rparr>"
      by (metis index_trees.simps(2))
    then show ?thesis by (intro exI [of _ "Suc j"] exI [of _ k]) simp
  next
    case False
    then have "txid \<in> set (hd t)" using Cons.prems by simp
    from index_leaves_in [OF this, of bh st 0 idx] obtain k where "k < length (hd t)" "hd t ! k = txid"
      "index_leaves bh st 0 (hd t) idx txid = Some \<lparr>te_blockHash = bh, te_subtreeIndex = st, te_leafIndex = k\<rparr>"
      by auto
    then show ?thesis
      using False by (intro exI [of _ 0] exI [of _ k]) (simp add: index_trees_out)
  qed
qed simp

text \<open>The state after a block is entered.\<close>

definition add_block :: "mock_node \<Rightarrow> sealed_block \<Rightarrow> mock_node" where
  "add_block n sb =
     n\<lparr>txIndex := index_trees (sb_hash sb) 0 (sb_subtreeTrees sb) (txIndex n),
       blocks := (blocks n)(sb_hash sb \<mapsto> sb),
       chain := chain n @ [sb_hash sb],
       headers := headers n @ [sb_header sb],
       onBest := (onBest n)(sb_hash sb \<mapsto> True)\<rparr>"

text \<open>The transactions of the block: the generation transaction comes first.\<close>

definition seal_leaves :: "mock_node \<Rightarrow> hash list \<Rightarrow> bool \<Rightarrow> hash list" where
  "seal_leaves n txids commitAccumulator =
     (if commitAccumulator
      then tree_root (map leafHash (gen_fields (mmrRootOfPrefix n (word_of_nat (length (chain n)))))) # txids
      else txids)"

definition sealed :: "nat \<Rightarrow> mock_node \<Rightarrow> hash list \<Rightarrow> bool \<Rightarrow> sealed_block \<Rightarrow> bool" where
  "sealed cap n txids commitAccumulator sb \<longleftrightarrow>
     block_ok cap sb \<and> concat (leaves_of sb) = seal_leaves n txids commitAccumulator \<and>
     sb_height sb = word_of_nat (length (chain n)) \<and>
     sb_header sb = make_header (prev_of n (length (chain n))) (sb_blockRoot sb) (sb_height sb) \<and>
     sb_isCarrier sb = commitAccumulator \<and>
     (if commitAccumulator
      then sb_accPrefix sb = sb_height sb \<and> sb_accRoot sb = mmrRootOfPrefix n (sb_height sb) \<and>
           sb_genFields sb = gen_fields (sb_accRoot sb)
      else sb_genFields sb = [])"

lemma prev_hash_ok: "node_inv cap n \<Longrightarrow> prev_hash n = Inr (prev_of n (length (chain n)))"
proof -
  assume inv: "node_inv cap n"
  show ?thesis
  proof (cases "chain n = []")
    case False
    then have "position_ok n (length (chain n) - 1)" using inv by (simp add: node_inv_def)
    then show ?thesis
      using False by (auto simp: prev_hash_def prev_of_def position_ok_def last_conv_nth split: option.splits)
  qed (simp add: prev_hash_def prev_of_def)
qed

lemma SealBlock_ok:
  assumes inv: "node_inv cap n" and "txids \<noteq> []" and "length txids + 1 < 2 ^ 63"
  shows "\<exists>sb. SealBlock n txids c = Inr (sb_hash sb, add_block n sb) \<and> sealed cap n txids c sb"
proof -
  let ?leaves = "seal_leaves n txids c"
  have cap: "subtreeSize n = cap" "0 < cap" using inv by (simp_all add: node_inv_def)
  obtain ls where ls: "seal_subtrees cap ?leaves = Inr (map (\<lambda>l. (tree_root l, build_layers l)) ls)"
    "concat ls = ?leaves" "\<forall>l\<in>set ls. l \<noteq> [] \<and> length l \<le> cap"
    "\<forall>l\<in>set (butlast ls). length l = cap"
    using seal_subtrees_ok [OF cap(2), of ?leaves] by blast
  have ne: "ls \<noteq> []" using ls(2) assms(2) by (auto simp: seal_leaves_def split: if_splits)
  let ?h = "word_of_nat (length (chain n)) :: u64"
  let ?acc = "if c then mmrRootOfPrefix n ?h else zero_hash"
  let ?hdr = "make_header (prev_of n (length (chain n))) (tree_root (map tree_root ls)) ?h"
  let ?sb = "\<lparr>sb_hash = DoubleSHA256 (bytes_of ?hdr), sb_height = ?h, sb_header = ?hdr,
      sb_subtreeRoots = map tree_root ls, sb_subtreeTrees = map build_layers ls,
      sb_blockLayers = build_layers (map tree_root ls), sb_blockRoot = tree_root (map tree_root ls),
      sb_isCarrier = c, sb_accRoot = ?acc, sb_accPrefix = (if c then ?h else 0),
      sb_genFields = (if c then gen_fields ?acc else [])\<rparr>"
  have "BuildMTxID (gen_fields r) = Inr (tree_root (map leafHash (gen_fields r)), build_layers (map leafHash (gen_fields r)))" for r
    by (simp add: BuildMTxID_def BuildMerkleTree_eq gen_fields_def)
  then have "SealBlock n txids c = Inr (sb_hash ?sb, add_block n ?sb)"
    using ls(1) ne assms(2)
    by (cases c) (simp_all add: SealBlock_def prev_hash_ok [OF inv] cap Let_def BuildMerkleTree_eq seal_leaves_def
        add_block_def comp_def)
  moreover have "sealed cap n txids c ?sb"
    using ls(2-4) ne assms(3) by (simp add: sealed_def block_ok_def leaves_of_def comp_def seal_leaves_def)
  ultimately show ?thesis by blast
qed

section \<open>Steps of a node and their invariant\<close>

text \<open>
  The operations that change a node. A seal whose header hash is already a key of \<open>blocks\<close>
  would overwrite a block; the property on fresh seals below shows that this needs a
  SHA-256d collision, and the step relation leaves it out. A slice has fewer than \<open>2 ^ 63\<close>
  elements and a block count fits \<open>uint64\<close>.
\<close>

inductive node_step :: "mock_node \<Rightarrow> mock_node \<Rightarrow> bool" where
  seal: "SealBlock n txids c = Inr (bh, n') \<Longrightarrow> length txids + 1 < 2 ^ 63 \<Longrightarrow>
         bh \<notin> dom (blocks n) \<Longrightarrow> length (chain n) + 1 < 2 ^ 64 \<Longrightarrow> node_step n n'"
| spend: "node_step n (MarkSpent n ou)"
| set_value: "node_step n (SetOutputValue n ou v)"
| orphan: "node_step n (Orphan n bh)"
| restore: "node_step n (Restore n bh)"

inductive_cases node_stepE [consumes 1, case_names seal spend set_value orphan restore]: "node_step n n'"

inductive reachable_node :: "nat \<Rightarrow> mock_node \<Rightarrow> bool" for cap :: nat where
  initial: "reachable_node cap (NewMockNode (int cap))"
| next_state: "reachable_node cap n \<Longrightarrow> node_step n n' \<Longrightarrow> reachable_node cap n'"

lemma node_inv_new: "0 < cap \<Longrightarrow> node_inv cap (NewMockNode (int cap))"
  by (simp add: node_inv_def NewMockNode_def)

text \<open>The other operations leave alone every field the invariant reads.\<close>

lemma node_inv_same:
  assumes "blocks n' = blocks n" "txIndex n' = txIndex n" "chain n' = chain n"
    "headers n' = headers n" "subtreeSize n' = subtreeSize n" and "node_inv cap n"
  shows "node_inv cap n'"
proof -
  have "position_ok n' = position_ok n" "entry_ok n' = entry_ok n"
    by (simp_all add: fun_eq_iff position_ok_def entry_ok_def prev_of_def assms(1-4) cong: option.case_cong)
  then show ?thesis using assms by (simp add: node_inv_def)
qed

lemma node_inv_spend: "node_inv cap n \<Longrightarrow> node_inv cap (MarkSpent n ou)"
  by (rule node_inv_same [of _ n]) (simp_all add: MarkSpent_def)

lemma node_inv_set_value: "node_inv cap n \<Longrightarrow> node_inv cap (SetOutputValue n ou v)"
  by (rule node_inv_same [of _ n]) (simp_all add: SetOutputValue_def)

lemma node_inv_orphan: "node_inv cap n \<Longrightarrow> node_inv cap (Orphan n bh)"
  by (rule node_inv_same [of _ n]) (simp_all add: Orphan_def)

lemma node_inv_restore: "node_inv cap n \<Longrightarrow> node_inv cap (Restore n bh)"
  by (rule node_inv_same [of _ n]) (simp_all add: Restore_def)

lemma mmrRootOfPrefix_eq:
  "mmrRootOfPrefix n p = Root (build_mmr (take (unat p) (headers n)))"
  by (simp add: mmrRootOfPrefix_def mmr_of_prefix_def build_mmr_def)

lemma carrier_ok_extend: "carrier_ok hs sb \<Longrightarrow> carrier_ok (hs @ [h]) sb"
  by (simp add: carrier_ok_def split: if_splits)

lemma carrier_ok_sealed:
  assumes inv: "node_inv cap n" and s: "sealed cap n txids c sb"
  shows "carrier_ok (headers n @ [sb_header sb]) sb"
proof -
  have len: "length (headers n) = length (chain n)" "unat (word_of_nat (length (chain n)) :: u64) = length (chain n)"
    using inv by (simp_all add: node_inv_def unat_word_of_nat_64)
  have leaf: "hd (hd (leaves_of sb)) = tree_root (map leafHash (gen_fields (sb_accRoot sb)))" if c
  proof -
    have "leaves_of sb \<noteq> []" "\<forall>l\<in>set (leaves_of sb). l \<noteq> []"
      using s by (auto simp: sealed_def block_ok_def)
    then have "hd (hd (leaves_of sb)) = hd (concat (leaves_of sb))"
      by (cases "leaves_of sb") auto
    then show ?thesis using s that by (simp add: sealed_def seal_leaves_def)
  qed
  then show ?thesis
    using s len by (auto simp: carrier_ok_def sealed_def mmrRootOfPrefix_eq)
qed

lemma entry_ok_add_block:
  assumes "sb_hash sb \<notin> dom (blocks n)" and "block_ok cap sb" and "\<And>t e. txIndex n t = Some e \<Longrightarrow> entry_ok n t e"
    and "txIndex (add_block n sb) txid = Some e"
  shows "entry_ok (add_block n sb) txid e"
proof (cases "txid \<in> set (concat (map hd (sb_subtreeTrees sb)))")
  case True
  from index_trees_in [OF this, of "sb_hash sb" 0 "txIndex n"] assms(2,4) show ?thesis
    by (auto simp: entry_ok_def add_block_def leaves_of_def)
next
  case False
  then have "txIndex n txid = Some e"
    using assms(4) index_trees_out [OF False] by (simp add: add_block_def)
  then have "entry_ok n txid e" by (rule assms(3))
  then show ?thesis
    using assms(1) by (auto simp: entry_ok_def add_block_def dom_def split: option.splits)
qed

lemma node_inv_seal:
  assumes inv: "node_inv cap n" and s: "sealed cap n txids c sb"
    and fresh: "sb_hash sb \<notin> dom (blocks n)" and room: "length (chain n) + 1 < 2 ^ 64"
  shows "node_inv cap (add_block n sb)"
proof -
  let ?n = "add_block n sb"
  have old: "length (headers n) = length (chain n)" "distinct (chain n)" "dom (blocks n) = set (chain n)"
    "0 < cap" "subtreeSize n = cap"
    "\<And>i. i < length (chain n) \<Longrightarrow> position_ok n i"
    "\<And>b. b \<in> ran (blocks n) \<Longrightarrow> block_ok cap b \<and> carrier_ok (headers n) b"
    "\<And>t e. txIndex n t = Some e \<Longrightarrow> entry_ok n t e"
    using inv by (simp_all add: node_inv_def)
  have ok: "block_ok cap sb" using s by (simp add: sealed_def)
  have "position_ok ?n i" if "i < length (chain n) + 1" for i
  proof (cases "i = length (chain n)")
    case True
    then show ?thesis
      using s ok old(1)
      by (auto simp: position_ok_def add_block_def sealed_def prev_of_def nth_append)
  next
    case False
    then have i: "i < length (chain n)" using that by simp
    then have "chain n ! i \<noteq> sb_hash sb" using fresh old(3) by (metis nth_mem)
    then show ?thesis
      using old(6) [OF i] i old(1)
      by (auto simp: position_ok_def add_block_def prev_of_def nth_append split: option.splits)
  qed
  moreover have "block_ok cap b \<and> carrier_ok (headers ?n) b" if "b \<in> ran (blocks ?n)" for b
  proof (cases "b = sb")
    case True
    then show ?thesis using ok carrier_ok_sealed [OF inv s] by (simp add: add_block_def)
  next
    case False
    then have "b \<in> ran (blocks n)" using that by (auto simp: add_block_def ran_def split: if_splits)
    then show ?thesis using old(7) carrier_ok_extend by (simp add: add_block_def)
  qed
  moreover have "entry_ok ?n t e" if "txIndex ?n t = Some e" for t e
    using entry_ok_add_block [OF fresh ok old(8) that] by blast
  moreover have "distinct (chain ?n)" "dom (blocks ?n) = set (chain ?n)"
    using old(2,3) fresh by (auto simp: add_block_def)
  ultimately show ?thesis
    using old(1,4,5) room by (simp add: node_inv_def add_block_def)
qed

lemma node_inv_step: "node_inv cap n \<Longrightarrow> node_step n n' \<Longrightarrow> node_inv cap n'"
proof -
  assume inv: "node_inv cap n" and step: "node_step n n'"
  from step show ?thesis
  proof (cases rule: node_stepE)
    case (seal txids c bh)
    then have "txids \<noteq> []" by (auto simp: SealBlock_def)
    from SealBlock_ok [OF inv this, of c] seal(1,2) obtain sb where
      sb: "bh = sb_hash sb" "n' = add_block n sb" "sealed cap n txids c sb" by auto
    then show ?thesis using node_inv_seal [OF inv sb(3)] seal(3,4) by simp
  qed (auto intro: inv node_inv_spend node_inv_set_value node_inv_orphan node_inv_restore)
qed

lemma node_inv_reachable: "reachable_node cap n \<Longrightarrow> 0 < cap \<Longrightarrow> node_inv cap n"
  by (induction rule: reachable_node.induct) (auto intro: node_inv_new node_inv_step)


section \<open>What the served proofs are\<close>

lemma block_at:
  assumes "node_inv cap n" and "blocks n bh = Some sb"
  shows "block_ok cap sb" and "carrier_ok (headers n) sb" and "sb_hash sb = bh"
    and "\<exists>i<length (chain n). chain n ! i = bh \<and> sb_height sb = word_of_nat i \<and> sb_header sb = headers n ! i"
proof -
  have "bh \<in> set (chain n)" using assms by (auto simp: node_inv_def)
  then obtain i where "i < length (chain n)" "chain n ! i = bh" by (auto simp: in_set_conv_nth)
  then show "sb_hash sb = bh"
    "\<exists>i<length (chain n). chain n ! i = bh \<and> sb_height sb = word_of_nat i \<and> sb_header sb = headers n ! i"
    using assms by (auto simp: node_inv_def position_ok_def intro!: exI [of _ i])
  show "block_ok cap sb" "carrier_ok (headers n) sb"
    using assms by (auto simp: node_inv_def ran_def)
qed

lemma serve_subtree:
  assumes "block_ok cap sb" and "j < length (leaves_of sb)" and "k < length (leaves_of sb ! j)"
  obtains p where "MerklePath (sb_subtreeTrees sb ! j) (int k) = Inr p"
    and "Fold (leaves_of sb ! j ! k) p = sb_subtreeRoots sb ! j"
    and "length p = bit_len (length (leaves_of sb ! j) - 1)"
proof -
  have "sb_subtreeTrees sb ! j = build_layers (leaves_of sb ! j)" "sb_subtreeRoots sb ! j = tree_root (leaves_of sb ! j)"
    using assms(1,2) by (metis block_ok_def nth_map)+
  then show thesis using MerklePath_ok [OF assms(3)] that by metis
qed

lemma serve_block:
  assumes "block_ok cap sb" and "j < length (leaves_of sb)"
  obtains p where "MerklePath (sb_blockLayers sb) (int j) = Inr p"
    and "Fold (sb_subtreeRoots sb ! j) p = sb_blockRoot sb"
    and "length p = bit_len (length (leaves_of sb) - 1)"
proof -
  have len: "length (sb_subtreeRoots sb) = length (leaves_of sb)"
    using assms(1) by (metis block_ok_def length_map)
  moreover have "sb_blockLayers sb = build_layers (sb_subtreeRoots sb)" "sb_blockRoot sb = tree_root (sb_subtreeRoots sb)"
    using assms(1) by (simp_all add: block_ok_def)
  ultimately show thesis
    using MerklePath_ok [of j "sb_subtreeRoots sb"] assms(2) that by metis
qed

lemma block_lengths:
  assumes "block_ok cap sb"
  shows "length (sb_subtreeRoots sb) = length (leaves_of sb)"
    and "length (sb_subtreeTrees sb) = length (leaves_of sb)"
    and "length (leaves_of sb) < 2 ^ 63"
proof -
  show "length (sb_subtreeRoots sb) = length (leaves_of sb)" "length (sb_subtreeTrees sb) = length (leaves_of sb)"
    using assms by (metis block_ok_def length_map)+
  have "length ls \<le> length (concat ls)" if "\<forall>l\<in>set ls. l \<noteq> []" for ls :: "hash list list"
    using that by (induction ls) (auto simp: Suc_le_eq length_greater_0_conv simp flip: length_greater_0_conv)
  from this [of "leaves_of sb"] show "length (leaves_of sb) < 2 ^ 63"
    using assms by (simp add: block_ok_def)
qed

lemma find_root_found:
  "r \<in> set rs \<Longrightarrow> \<exists>j<length rs. find_root r i rs = int (i + j) \<and> rs ! j = r"
proof (induction rs arbitrary: i)
  case (Cons x rs)
  show ?case
  proof (cases "x = r")
    case False
    with Cons obtain j where "j < length rs" "find_root r (i + 1) rs = int (i + 1 + j)" "rs ! j = r"
      by (metis set_ConsD)
    with False show ?thesis by (intro exI [of _ "Suc j"]) simp
  qed (auto intro: exI [of _ 0])
qed simp

lemma find_root_missing: "r \<notin> set rs \<Longrightarrow> find_root r i rs = - 1"
  by (induction rs arbitrary: i) auto

lemma find_root_distinct: "distinct rs \<Longrightarrow> j < length rs \<Longrightarrow> find_root (rs ! j) 0 rs = int j"
  using find_root_found [of "rs ! j" rs 0] by (auto simp: nth_eq_iff_index_eq)

lemma known_tx:
  assumes "node_inv cap n" and "txIndex n txid = Some e"
  obtains sb where "blocks n (te_blockHash e) = Some sb"
    and "te_subtreeIndex e < length (leaves_of sb)"
    and "te_leafIndex e < length (leaves_of sb ! te_subtreeIndex e)"
    and "leaves_of sb ! te_subtreeIndex e ! te_leafIndex e = txid"
  using assms by (fastforce simp: node_inv_def entry_ok_def split: option.splits)

lemma bit_len_cap: "0 < l \<Longrightarrow> l \<le> cap \<Longrightarrow> cap \<le> 2 ^ k \<Longrightarrow> bit_len (l - 1) \<le> k"
  by (simp add: bit_len_le_iff)

text \<open>The proofs served for a known transaction, in one statement.\<close>

lemma served_proofs:
  assumes inv: "node_inv cap n" and cap: "cap \<le> 2 ^ 20" and tx: "node_LocateTx n txid = Inr bh"
  obtains e sb l1 l2 where
    "txIndex n txid = Some e" "te_blockHash e = bh" "blocks n bh = Some sb" "block_ok cap sb" "sb_hash sb = bh"
    "node_SubtreePathFor n txid = Inr (l1, sb_subtreeRoots sb ! te_subtreeIndex e)"
    "node_BlockPathFor n (sb_subtreeRoots sb ! te_subtreeIndex e) bh = Inr (l2, sb_blockRoot sb)"
    "node_HeaderFor n bh = Inr (sb_header sb)"
    "Fold txid l1 = sb_subtreeRoots sb ! te_subtreeIndex e"
    "Fold (sb_subtreeRoots sb ! te_subtreeIndex e) l2 = sb_blockRoot sb"
    "length l1 = bit_len (length (leaves_of sb ! te_subtreeIndex e) - 1)" "length l1 \<le> 20"
    "length l2 = bit_len (length (leaves_of sb) - 1)" "length l2 \<le> 63"
    "header_root (sb_header sb) = bytes_of (sb_blockRoot sb)"
    "te_subtreeIndex e < length (leaves_of sb)"
proof -
  obtain e where e: "txIndex n txid = Some e" "te_blockHash e = bh"
    using tx by (auto simp: node_LocateTx_def split: option.splits)
  from known_tx [OF inv e(1)] obtain sb where sb: "blocks n bh = Some sb"
    "te_subtreeIndex e < length (leaves_of sb)"
    "te_leafIndex e < length (leaves_of sb ! te_subtreeIndex e)"
    "leaves_of sb ! te_subtreeIndex e ! te_leafIndex e = txid" by (auto simp: e(2))
  note ok = block_at [OF inv sb(1)]
  note len = block_lengths [OF ok(1)]
  let ?r = "sb_subtreeRoots sb ! te_subtreeIndex e"
  obtain l1 where l1: "MerklePath (sb_subtreeTrees sb ! te_subtreeIndex e) (int (te_leafIndex e)) = Inr l1"
    "Fold txid l1 = ?r" "length l1 = bit_len (length (leaves_of sb ! te_subtreeIndex e) - 1)"
    using serve_subtree [OF ok(1) sb(2,3)] sb(4) by metis
  have "?r \<in> set (sb_subtreeRoots sb)" using sb(2) len(1) by simp
  from find_root_found [OF this, of 0] obtain j where j: "j < length (leaves_of sb)"
    "find_root ?r 0 (sb_subtreeRoots sb) = int j" "sb_subtreeRoots sb ! j = ?r"
    using len(1) by auto
  obtain l2 where l2: "MerklePath (sb_blockLayers sb) (int j) = Inr l2"
    "Fold ?r l2 = sb_blockRoot sb" "length l2 = bit_len (length (leaves_of sb) - 1)"
    using serve_block [OF ok(1) j(1)] j(3) by metis
  have "leaves_of sb ! te_subtreeIndex e \<in> set (leaves_of sb)" using sb(2) by simp
  then have "0 < length (leaves_of sb ! te_subtreeIndex e)" "length (leaves_of sb ! te_subtreeIndex e) \<le> cap"
    using ok(1) by (auto simp: block_ok_def)
  then have "length l1 \<le> 20" using l1(3) cap bit_len_cap by simp
  moreover have "length l2 \<le> 63" using l2(3) len(3) by (simp add: bit_len_le_iff)
  moreover have "header_root (sb_header sb) = bytes_of (sb_blockRoot sb)"
    using ok(1) by (simp add: block_ok_def)
  moreover have "node_SubtreePathFor n txid = Inr (l1, ?r)"
    using e sb(1,2) l1(1) len by (simp add: node_SubtreePathFor_def)
  moreover have "node_BlockPathFor n ?r bh = Inr (l2, sb_blockRoot sb)"
    using sb(1) j l2(1) by (simp add: node_BlockPathFor_def)
  moreover have "node_HeaderFor n bh = Inr (sb_header sb)"
    using sb(1) by (simp add: node_HeaderFor_def)
  ultimately show thesis using that e sb(1,2) ok(1,3) l1(2,3) l2(2,3) by blast
qed

lemma ServeInto_ok:
  assumes inv: "node_inv cap n" and "txIndex n txid = Some e" and "blocks n (te_blockHash e) = Some sb"
    and "node_SubtreePathFor n txid = Inr (l1, r)"
    and "MerklePath (sb_blockLayers sb) (int (te_subtreeIndex e)) = Inr l2"
  obtains b1 b2 where "ServeInto grow n txid d1 d2 = Inr (Some (b1, b2, r, sb_header sb))"
    and "contents b1 = l1" and "contents b2 = l2"
proof -
  from known_tx [OF inv assms(2)] assms(3) have j: "te_subtreeIndex e < length (leaves_of sb)" by fastforce
  note len = block_lengths [OF block_at(1) [OF inv assms(3)]]
  have p: "MerklePath (sb_subtreeTrees sb ! te_subtreeIndex e) (int (te_leafIndex e)) = Inr l1"
    "r = sb_subtreeRoots sb ! te_subtreeIndex e"
    using assms(2-4) j len by (auto simp: node_SubtreePathFor_def split: sum.splits)
  obtain b1 where "MerklePathInto grow (sb_subtreeTrees sb ! te_subtreeIndex e) (int (te_leafIndex e)) d1 = Inr b1"
    "contents b1 = l1" using MerklePathInto_ok [OF p(1)] .
  moreover obtain b2 where "MerklePathInto grow (sb_blockLayers sb) (int (te_subtreeIndex e)) d2 = Inr b2"
    "contents b2 = l2" using MerklePathInto_ok [OF assms(5)] .
  ultimately show thesis
    using that assms(2,3) j len p by (simp add: ServeInto_def nil_on_error_def Let_def)
qed

lemma coinbase_marker_neq: "coinbase_marker \<noteq> bytes_of (r :: hash)"
proof
  assume eq: "coinbase_marker = bytes_of r"
  have "length coinbase_marker = 32" unfolding eq by simp
  then show False by (simp add: coinbase_marker_def)
qed

lemma anchor_field_gen:
  "anchor_field r (gen_fields r) = Some (leafHash \<lparr>Index = 1, Bytes = bytes_of r\<rparr>)"
  using coinbase_marker_neq [of r] by (simp add: gen_fields_def accRootFieldIndex_def LeafForField_def)

lemma gen_path:
  obtains l0 where "MTxIDPath (gen_fields r) accRootFieldIndex
      = Inr (leafHash \<lparr>Index = 1, Bytes = bytes_of r\<rparr>, l0, tree_root (map leafHash (gen_fields r)))"
    and "Fold (leafHash \<lparr>Index = 1, Bytes = bytes_of r\<rparr>) l0 = tree_root (map leafHash (gen_fields r))"
    and "length l0 \<le> 1"
proof -
  let ?ls = "map leafHash (gen_fields r)"
  have i: "unat (1 :: byte) = 1" and ls: "1 < length ?ls" "?ls ! 1 = leafHash \<lparr>Index = 1, Bytes = bytes_of r\<rparr>"
    "length ?ls = 2"
    by (simp_all add: gen_fields_def accRootFieldIndex_def)
  obtain p where p: "MerklePath (build_layers ?ls) (int 1) = Inr p" "Fold (?ls ! 1) p = tree_root ?ls"
    "length p = bit_len (length ?ls - 1)" using MerklePath_ok [OF ls(1)] .
  have "length p \<le> 1" unfolding p(3) ls(3) by (simp add: bit_len_le_iff)
  moreover have "MTxIDPath (gen_fields r) accRootFieldIndex
      = Inr (leafHash \<lparr>Index = 1, Bytes = bytes_of r\<rparr>, p, tree_root ?ls)"
    using p(1) ls by (simp add: MTxIDPath_def BuildMTxID_def BuildMerkleTree_eq accRootFieldIndex_def gen_fields_def)
  ultimately show thesis using that p(2) ls(2) by simp
qed

text \<open>The anchor material of a carrying block.\<close>

lemma carrier_material:
  assumes inv: "node_inv cap n" and cap: "cap \<le> 2 ^ 20" and sb: "blocks n bh = Some sb" "sb_isCarrier sb"
  obtains l0 l1 l2 where
    "node_GenTxAccumulator n bh = Inr (sb_accRoot sb, sb_genFields sb, l0, l1, l2)"
    and "sb_genFields sb = gen_fields (sb_accRoot sb)"
    and "Fold (leafHash \<lparr>Index = 1, Bytes = bytes_of (sb_accRoot sb)\<rparr>) (l0 @ l1 @ l2) = sb_blockRoot sb"
    and "length l0 + length l1 + length l2 \<le> MaxDepth" and "length l1 \<le> 20"
proof -
  note ok = block_at [OF inv sb(1)]
  note len = block_lengths [OF ok(1)]
  have first: "0 < length (leaves_of sb)" "leaves_of sb ! 0 \<in> set (leaves_of sb)"
    using ok(1) by (auto simp: block_ok_def)
  then have l: "0 < length (leaves_of sb ! 0)" "length (leaves_of sb ! 0) \<le> cap"
    using ok(1) by (auto simp: block_ok_def)
  have gen: "sb_genFields sb = gen_fields (sb_accRoot sb)"
    "leaves_of sb ! 0 ! 0 = tree_root (map leafHash (gen_fields (sb_accRoot sb)))"
    using ok(2) sb(2) first(1) l(1) by (simp_all add: carrier_ok_def hd_conv_nth)
  obtain l0 where l0: "MTxIDPath (gen_fields (sb_accRoot sb)) accRootFieldIndex
      = Inr (leafHash \<lparr>Index = 1, Bytes = bytes_of (sb_accRoot sb)\<rparr>, l0, leaves_of sb ! 0 ! 0)"
    "Fold (leafHash \<lparr>Index = 1, Bytes = bytes_of (sb_accRoot sb)\<rparr>) l0 = leaves_of sb ! 0 ! 0" "length l0 \<le> 1"
    using gen_path [of "sb_accRoot sb"] gen(2) by metis
  obtain l1 where l1: "MerklePath (sb_subtreeTrees sb ! 0) (int 0) = Inr l1"
    "Fold (leaves_of sb ! 0 ! 0) l1 = sb_subtreeRoots sb ! 0" "length l1 = bit_len (length (leaves_of sb ! 0) - 1)"
    using serve_subtree [OF ok(1) first(1) l(1)] .
  obtain l2 where l2: "MerklePath (sb_blockLayers sb) (int 0) = Inr l2"
    "Fold (sb_subtreeRoots sb ! 0) l2 = sb_blockRoot sb" "length l2 = bit_len (length (leaves_of sb) - 1)"
    using serve_block [OF ok(1) first(1)] .
  have "length l1 \<le> 20" using l1(3) l cap bit_len_cap by simp
  moreover have "length l2 \<le> 63" using l2(3) len(3) by (simp add: bit_len_le_iff)
  moreover have "node_GenTxAccumulator n bh = Inr (sb_accRoot sb, sb_genFields sb, l0, l1, l2)"
    using sb gen(1) l0(1) l1(1) l2(1) len(2) first(1) by (simp add: node_GenTxAccumulator_def)
  ultimately show thesis
    using that gen(1) l0(2,3) l1(2) l2(2) by (simp add: MaxDepth_def)
qed

text \<open>The proof that a carried root holds an earlier header.\<close>

lemma target_material:
  assumes inv: "node_inv cap n" and c: "blocks n ch = Some carrier" "sb_isCarrier carrier"
    and t: "blocks n th = Some target" "sb_height target < sb_height carrier"
  obtains p where "ProveHeaderInAccumulator n th ch = Inr (p, sb_accRoot carrier)"
    and "VerifyBlockInChain (sb_header target) p (sb_accRoot carrier)"
proof -
  note oc = block_at [OF inv c(1)] and ot = block_at [OF inv t(1)]
  have acc: "sb_accPrefix carrier = sb_height carrier" "unat (sb_height carrier) < length (headers n)"
    "sb_accRoot carrier = Root (build_mmr (take (unat (sb_height carrier)) (headers n)))"
    using oc(2) c(2) by (simp_all add: carrier_ok_def)
  have lens: "length (headers n) = length (chain n)" "length (chain n) < 2 ^ 64"
    using inv by (simp_all add: node_inv_def)
  have lt: "unat (sb_height target) < unat (sb_height carrier)"
    using t(2) by (simp add: word_less_nat_alt)
  obtain i where i: "i < length (chain n)" "sb_height target = word_of_nat i" "sb_header target = headers n ! i"
    using ot(4) by blast
  then have ti: "unat (sb_height target) = i" using lens by (simp add: unat_word_of_nat_64)
  let ?m = "mmr_of_prefix n (sb_height carrier)"
  have m: "?m = build_mmr (take (unat (sb_height carrier)) (headers n))"
    by (simp add: mmr_of_prefix_def build_mmr_def)
  then have leaves: "mleaves ?m = map (\<lambda>h. DoubleSHA256 (bytes_of h)) (take (unat (sb_height carrier)) (headers n))"
    by (simp add: mleaves_build_mmr)
  have "length (mleaves ?m) < 2 ^ 64" "unat (sb_height target) < length (mleaves ?m)"
    using lens acc(2) lt by (simp_all add: leaves)
  from ProveBlock_ok [OF this] obtain p where p: "ProveBlock ?m (sb_height target) = Inr (p, Root ?m)"
    "Fold (mleaves ?m ! unat (sb_height target)) p = Root ?m" "length p \<le> MaxDepth" by blast
  have "mleaves ?m ! unat (sb_height target) = DoubleSHA256 (bytes_of (sb_header target))"
    using lt acc(2) i(3) ti by (simp add: leaves)
  then have "VerifyBlockInChain (sb_header target) p (sb_accRoot carrier)"
    using p acc(3) m by (simp add: VerifyBlockInChain_iff)
  moreover have "ProveHeaderInAccumulator n th ch = Inr (p, sb_accRoot carrier)"
    using c t acc p(1) m by (simp add: ProveHeaderInAccumulator_def not_le not_less)
  ultimately show thesis by (rule that [rotated])
qed


section \<open>The contracts of the interfaces\<close>

text \<open>
  What a client of \<open>ProofSource\<close> relies on, for the states of a provider: the paths of one
  block fold to the root in its header, within the depth limits of the verifier.
\<close>

locale proof_source_contract =
  fixes source :: "'s \<Rightarrow> proof_source" and good :: "'s \<Rightarrow> bool"
  assumes located: "good s \<Longrightarrow> LocateTx (source s) txid = Inr bh \<Longrightarrow>
      \<exists>l1 sub l2 root h. SubtreePathFor (source s) txid = Inr (l1, sub) \<and>
        BlockPathFor (source s) sub bh = Inr (l2, root) \<and> HeaderFor (source s) bh = Inr h \<and>
        Fold txid l1 = sub \<and> length l1 \<le> 20 \<and> Fold sub l2 = root \<and> length l2 \<le> 63 \<and>
        header_root h = bytes_of root \<and> DoubleSHA256 (bytes_of h) = bh"
    and anchored: "good s \<Longrightarrow> GenTxAccumulator (source s) bh = Inr (accRoot, fs, l0, l1, l2) \<Longrightarrow>
      \<exists>h root. HeaderFor (source s) bh = Inr h \<and> header_root h = bytes_of root \<and>
        VerifyAnchor accRoot fs l0 l1 l2 root \<and> length l1 \<le> 20"
begin

text \<open>The composed check of a served transaction, whatever L0 path of the wallet leads to it.\<close>

lemma served_tx_verifies:
  assumes "good s" and "LocateTx (source s) txid = Inr bh"
    and "Fold leaf l0 = txid" and "length l0 \<le> 8"
  shows "\<exists>l1 sub l2 root h. SubtreePathFor (source s) txid = Inr (l1, sub) \<and>
      BlockPathFor (source s) sub bh = Inr (l2, root) \<and> HeaderFor (source s) bh = Inr h \<and>
      header_root h = bytes_of root \<and>
      VerifyToBlockRoot leaf l0 l1 l2 root = (True, length l0 + length l1 + length l2)"
proof -
  obtain l1 sub l2 root h where p: "SubtreePathFor (source s) txid = Inr (l1, sub)"
    "BlockPathFor (source s) sub bh = Inr (l2, root)" "HeaderFor (source s) bh = Inr h"
    "Fold txid l1 = sub" "length l1 \<le> 20" "Fold sub l2 = root" "length l2 \<le> 63"
    "header_root h = bytes_of root"
    using located [OF assms(1,2)] by blast
  then have "VerifyToBlockRoot leaf l0 l1 l2 root = (True, length l0 + length l1 + length l2)"
    using assms(3,4) by (simp add: VerifyToBlockRoot_def Let_def MaxDepth_def)
  then show ?thesis using p by blast
qed

lemma located_header:
  "good s \<Longrightarrow> LocateTx (source s) txid = Inr bh \<Longrightarrow>
   \<exists>h. HeaderFor (source s) bh = Inr h \<and> DoubleSHA256 (bytes_of h) = bh"
  using located by blast

end

text \<open>
  A view of the header chain sees a header only through its hash: what it says of one header
  it says of every header with that hash.
\<close>

locale header_view =
  fixes view :: "'s \<Rightarrow> header_chain"
  assumes by_hash: "DoubleSHA256 (bytes_of h) = DoubleSHA256 (bytes_of h') \<Longrightarrow>
      Contains (view s) h = Contains (view s) h'"
begin

lemma other_header_collides:
  "Contains (view s) h \<Longrightarrow> \<not> Contains (view s) h' \<Longrightarrow> DoubleSHA256 (bytes_of h) \<noteq> DoubleSHA256 (bytes_of h')"
  using by_hash by blast

end

definition good_node :: "mock_node \<Rightarrow> bool" where
  "good_node n \<longleftrightarrow> (\<exists>cap \<le> 2 ^ 20. node_inv cap n)"

interpretation node_src: proof_source_contract node_source good_node
proof
  fix n txid bh
  assume "good_node n" and "LocateTx (node_source n) txid = Inr bh"
  then obtain cap where inv: "node_inv cap n" "cap \<le> 2 ^ 20" and tx: "node_LocateTx n txid = Inr bh"
    by (auto simp: good_node_def node_source_def)
  show "\<exists>l1 sub l2 root h. SubtreePathFor (node_source n) txid = Inr (l1, sub) \<and>
      BlockPathFor (node_source n) sub bh = Inr (l2, root) \<and> HeaderFor (node_source n) bh = Inr h \<and>
      Fold txid l1 = sub \<and> length l1 \<le> 20 \<and> Fold sub l2 = root \<and> length l2 \<le> 63 \<and>
      header_root h = bytes_of root \<and> DoubleSHA256 (bytes_of h) = bh"
  proof (rule served_proofs [OF inv tx])
    fix sb l1 l2 e
    assume "node_SubtreePathFor n txid = Inr (l1, sb_subtreeRoots sb ! te_subtreeIndex e)"
      "node_BlockPathFor n (sb_subtreeRoots sb ! te_subtreeIndex e) bh = Inr (l2, sb_blockRoot sb)"
      "node_HeaderFor n bh = Inr (sb_header sb)" "block_ok cap sb" "sb_hash sb = bh"
      "Fold txid l1 = sb_subtreeRoots sb ! te_subtreeIndex e"
      "Fold (sb_subtreeRoots sb ! te_subtreeIndex e) l2 = sb_blockRoot sb"
      "length l1 \<le> 20" "length l2 \<le> 63"
    then show ?thesis by (simp add: node_source_def block_ok_def)
  qed
next
  fix n bh accRoot fs l0 l1 l2
  assume "good_node n" and gen: "GenTxAccumulator (node_source n) bh = Inr (accRoot, fs, l0, l1, l2)"
  then obtain cap where inv: "node_inv cap n" "cap \<le> 2 ^ 20" by (auto simp: good_node_def)
  from gen obtain sb where sb: "blocks n bh = Some sb" "sb_isCarrier sb"
    by (auto simp: node_source_def node_GenTxAccumulator_def split: option.splits if_splits)
  from carrier_material [OF inv sb] obtain m0 m1 m2 where
    m: "node_GenTxAccumulator n bh = Inr (sb_accRoot sb, sb_genFields sb, m0, m1, m2)"
    "sb_genFields sb = gen_fields (sb_accRoot sb)"
    "Fold (leafHash \<lparr>Index = 1, Bytes = bytes_of (sb_accRoot sb)\<rparr>) (m0 @ m1 @ m2) = sb_blockRoot sb"
    "length m0 + length m1 + length m2 \<le> MaxDepth" "length m1 \<le> 20" .
  then have "VerifyAnchor accRoot fs l0 l1 l2 (sb_blockRoot sb)" "length l1 \<le> 20"
    using gen by (auto simp: node_source_def VerifyAnchor_iff anchor_field_gen)
  moreover have "header_root (sb_header sb) = bytes_of (sb_blockRoot sb)"
    using block_at(1) [OF inv(1) sb(1)] by (simp add: block_ok_def)
  ultimately show "\<exists>h root. HeaderFor (node_source n) bh = Inr h \<and> header_root h = bytes_of root \<and>
      VerifyAnchor accRoot fs l0 l1 l2 root \<and> length l1 \<le> 20"
    using sb(1) by (auto simp: node_source_def node_HeaderFor_def)
qed

interpretation node_view: header_view node_chain
  by unfold_locales (simp add: node_chain_def node_Contains_def)

interpretation pruned_view: header_view static_view
  by unfold_locales (simp add: static_view_def static_Contains_def)


section \<open>A node with one block, for the instances below\<close>

lemma one_block:
  assumes "0 < cap" and "txids \<noteq> []" and "length txids + 1 < 2 ^ 63"
  shows "\<exists>sb. SealBlock (NewMockNode (int cap)) txids c
           = Inr (sb_hash sb, add_block (NewMockNode (int cap)) sb) \<and>
         sealed cap (NewMockNode (int cap)) txids c sb \<and>
         reachable_node cap (add_block (NewMockNode (int cap)) sb)"
proof -
  let ?m = "NewMockNode (int cap)"
  obtain sb where sb: "SealBlock ?m txids c = Inr (sb_hash sb, add_block ?m sb)" "sealed cap ?m txids c sb"
    using SealBlock_ok [OF node_inv_new [OF assms(1)] assms(2,3)] by blast
  have "node_step ?m (add_block ?m sb)"
    using sb(1) assms(3) by (rule node_step.seal) (simp_all add: NewMockNode_def)
  then show ?thesis using sb reachable_node.intros by blast
qed

lemma sealed_index:
  assumes "sealed cap n txids c sb" and "txid \<in> set txids"
  shows "node_LocateTx (add_block n sb) txid = Inr (sb_hash sb)"
proof -
  have "txid \<in> set (concat (map hd (sb_subtreeTrees sb)))"
    using assms by (auto simp: sealed_def seal_leaves_def leaves_of_def split: if_splits)
  from index_trees_in [OF this, of "sb_hash sb" 0 "txIndex n"] show ?thesis
    by (auto simp: node_LocateTx_def add_block_def)
qed

section \<open>Properties\<close>

text \<open>
  C8. Every state a node can reach is well formed: each sealed block's trees, roots, header and
  hash agree, the chain lists exactly the blocks with their heights and links, each index entry
  points to its transaction, and each carrying block commits the root over the headers before it.
\<close>

theorem node_invariant:
  assumes "reachable_node cap n" and "0 < cap"
  shows "node_inv cap n"
  using assms by (rule node_inv_reachable)

theorem node_invariant_witness:
  "\<exists>n. length (chain n) = 1 \<and> node_inv 2 n"
proof -
  obtain sb where r: "reachable_node 2 (add_block (NewMockNode (int 2)) sb)"
    using one_block [of 2 "[zero_hash, zero_hash, zero_hash]" True] by auto
  have "length (chain (add_block (NewMockNode (int 2)) sb)) = 1" by (simp add: add_block_def NewMockNode_def)
  then show ?thesis using node_invariant [OF r] by auto
qed

text \<open>
  \<open>SealBlock\<close> refuses exactly the empty block. It extends the best chain by one block, every
  transaction given is then located in it, transactions outside it keep their location, and
  the chain view contains its header.
\<close>

theorem SealBlock_confirms:
  assumes "reachable_node cap n" and "0 < cap" and "length txids + 1 < 2 ^ 63"
  shows "(txids = [] \<longrightarrow> SealBlock n txids c = Inl ErrEmptyBlock) \<and>
    (txids \<noteq> [] \<longrightarrow> (\<exists>bh n' hdr. SealBlock n txids c = Inr (bh, n') \<and>
       chain n' = chain n @ [bh] \<and> headers n' = headers n @ [hdr] \<and>
       node_HeaderFor n' bh = Inr hdr \<and> bh = DoubleSHA256 (bytes_of hdr) \<and> node_Contains n' hdr \<and>
       (\<forall>t\<in>set txids. node_LocateTx n' t = Inr bh) \<and>
       (\<forall>t. t \<notin> set (seal_leaves n txids c) \<longrightarrow> node_LocateTx n' t = node_LocateTx n t)))"
proof (cases "txids = []")
  case False
  obtain sb where sb: "SealBlock n txids c = Inr (sb_hash sb, add_block n sb)" "sealed cap n txids c sb"
    using SealBlock_ok [OF node_inv_reachable [OF assms(1,2)] False assms(3)] by blast
  have "node_LocateTx (add_block n sb) t = node_LocateTx n t" if "t \<notin> set (seal_leaves n txids c)" for t
    using that sb(2) index_trees_out [of t "sb_subtreeTrees sb"]
    by (simp add: node_LocateTx_def add_block_def sealed_def leaves_of_def)
  moreover have "sb_hash sb = DoubleSHA256 (bytes_of (sb_header sb))"
    using sb(2) by (simp add: sealed_def block_ok_def)
  moreover from this have "node_Contains (add_block n sb) (sb_header sb)"
    by (simp add: node_Contains_def add_block_def)
  ultimately show ?thesis
    using False sb sealed_index [OF sb(2)]
    by (auto simp: node_HeaderFor_def intro!: exI [of _ "sb_hash sb"] exI [of _ "add_block n sb"])
      (auto simp: add_block_def)
qed (simp add: SealBlock_def)

theorem SealBlock_confirms_witness:
  "\<exists>bh n'. SealBlock (NewMockNode 2) [zero_hash, DoubleSHA256 [], DoubleSHA256 [1]] True = Inr (bh, n') \<and>
     node_LocateTx n' (DoubleSHA256 [1]) = Inr bh"
  using SealBlock_confirms [OF reachable_node.initial [of 2], of "[zero_hash, DoubleSHA256 [], DoubleSHA256 [1]]" True]
  by auto

text \<open>
  C7. The proof-serving contract: for every transaction a reachable node locates, the subtree
  path, the block path and the header are served without error, both paths pass the checks of
  their levels, and they end in the Merkle root of the header whose hash is the block.
\<close>

theorem node_serves_proofs:
  assumes "reachable_node cap n" and "0 < cap" and "cap \<le> 2 ^ 20" and "node_LocateTx n txid = Inr bh"
  shows "\<exists>l1 sub l2 root hdr. node_SubtreePathFor n txid = Inr (l1, sub) \<and>
    node_BlockPathFor n sub bh = Inr (l2, root) \<and> node_HeaderFor n bh = Inr hdr \<and>
    VerifySubtreePath txid l1 sub \<and> VerifyBlockPath sub l2 root \<and>
    header_root hdr = bytes_of root \<and> DoubleSHA256 (bytes_of hdr) = bh"
proof -
  have "good_node n" using assms(1-3) node_inv_reachable good_node_def by blast
  from node_src.located [OF this, of txid bh] assms(4)
  obtain l1 sub l2 root h where "node_SubtreePathFor n txid = Inr (l1, sub)"
    "node_BlockPathFor n sub bh = Inr (l2, root)" "node_HeaderFor n bh = Inr h"
    "Fold txid l1 = sub" "length l1 \<le> 20" "Fold sub l2 = root" "length l2 \<le> 63"
    "header_root h = bytes_of root" "DoubleSHA256 (bytes_of h) = bh"
    by (auto simp: node_source_def)
  then show ?thesis by (simp add: VerifySubtreePath_def VerifyBlockPath_def MaxDepth_def)
qed

theorem node_serves_proofs_witness:
  "\<exists>n bh l1 sub. node_LocateTx n zero_hash = Inr bh \<and> node_SubtreePathFor n zero_hash = Inr (l1, sub) \<and>
     VerifySubtreePath zero_hash l1 sub"
proof -
  obtain sb where n: "reachable_node 2 (add_block (NewMockNode (int 2)) sb)"
    "sealed 2 (NewMockNode (int 2)) [zero_hash, DoubleSHA256 []] False sb"
    using one_block [of 2 "[zero_hash, DoubleSHA256 []]" False] by auto
  have tx: "node_LocateTx (add_block (NewMockNode (int 2)) sb) zero_hash = Inr (sb_hash sb)"
    using sealed_index [OF n(2)] by simp
  have "(0::nat) < 2" "(2::nat) \<le> 2 ^ 20" by simp_all
  from node_serves_proofs [OF n(1) this tx] tx show ?thesis by blast
qed

lemma split_three:
  assumes "concat ls = [a, b, c]" and "\<forall>l\<in>set ls. l \<noteq> [] \<and> length l \<le> 2" and "\<forall>l\<in>set (butlast ls). length l = 2"
  shows "ls = [[a, b], [c]]"
proof -
  obtain x ls' where ls: "ls = x # ls'" using assms(1) by (cases ls) auto
  then have "ls' \<noteq> []" using assms(1,2) by auto
  then have x: "length x = 2" using assms(3) ls by auto
  then have "x = [a, b]" "concat ls' = [c]"
    using assms(1) ls by (auto simp: length_Suc_conv numeral_2_eq_2)
  moreover from this have "ls' = [[c]]"
    using assms(2) ls by (cases ls') (auto simp: append_eq_Cons_conv concat_eq_Nil_conv Cons_eq_append_conv)
  ultimately show ?thesis using ls by simp
qed

lemma sealed_three: "sealed 2 m [a, b, c] False sb \<Longrightarrow> leaves_of sb = [[a, b], [c]]"
  by (rule split_three) (simp_all add: sealed_def block_ok_def seal_leaves_def)

lemma log_three: "CeilLog2 3 = 2"
  using CeilLog2_of_nat [of 3] by (simp add: bit_len_pos)

text \<open>
  C10. The depth law of a node whose subtrees have a capacity of \<open>2 ^ k\<close> transactions, \<open>k\<close> at most 20: the
  two paths that the node serves for a transaction of a block with \<open>T\<close> transactions have together
  at most \<open>CeilLog2 T\<close> elements, and exactly that many when the subtree of the transaction is full or is
  the only one of the block. (In a partial last subtree they can be fewer, below; for capacities
  that are not powers of two they can be more.)
\<close>
theorem depth_law:
  assumes "reachable_node (2 ^ k) n" and "k \<le> 20" and "txIndex n txid = Some e"
    and "blocks n (te_blockHash e) = Some sb" and "node_SubtreePathFor n txid = Inr (l1, sub)"
    and "node_BlockPathFor n sub (te_blockHash e) = Inr (l2, root)"
    and "T = length (concat (leaves_of sb))"
  shows "length l1 + length l2 \<le> CeilLog2 (word_of_nat T) \<and>
    (length (leaves_of sb ! te_subtreeIndex e) = 2 ^ k \<or> length (leaves_of sb) = 1 \<longrightarrow>
       length l1 + length l2 = CeilLog2 (word_of_nat T))"
proof -
  have inv: "node_inv (2 ^ k) n" using assms(1) node_inv_reachable by simp
  note ok = block_at(1) [OF inv assms(4)]
  have tx: "node_LocateTx n txid = Inr (te_blockHash e)" using assms(3) by (simp add: node_LocateTx_def)
  have cap: "(2 :: nat) ^ k \<le> 2 ^ 20" using assms(2) by (rule power_increasing) simp
  let ?s = "length (leaves_of sb ! te_subtreeIndex e)" and ?m = "length (leaves_of sb)"
  have "length l1 = bit_len (?s - 1) \<and> length l2 = bit_len (?m - 1) \<and> te_subtreeIndex e < ?m"
  proof (rule served_proofs [OF inv cap tx])
    fix e' sb' l1' l2'
    assume e: "txIndex n txid = Some e'" "blocks n (te_blockHash e) = Some sb'"
      and p: "node_SubtreePathFor n txid = Inr (l1', sb_subtreeRoots sb' ! te_subtreeIndex e')"
        "node_BlockPathFor n (sb_subtreeRoots sb' ! te_subtreeIndex e') (te_blockHash e) = Inr (l2', sb_blockRoot sb')"
      and l: "length l1' = bit_len (length (leaves_of sb' ! te_subtreeIndex e') - 1)"
        "length l2' = bit_len (length (leaves_of sb') - 1)" "te_subtreeIndex e' < length (leaves_of sb')"
    have "e' = e" "sb' = sb" using e assms(3,4) by simp_all
    then show ?thesis using p l assms(5,6) by simp
  qed
  then have len: "length l1 = bit_len (?s - 1)" "length l2 = bit_len (?m - 1)" "te_subtreeIndex e < ?m"
    by simp_all
  have "leaves_of sb \<noteq> []" using ok by (simp add: block_ok_def)
  then obtain full l where split: "leaves_of sb = full @ [l]" by (metis rev_exhaust)
  have l: "0 < length l" "length l \<le> 2 ^ k" using ok split by (auto simp: block_ok_def)
  have "length (concat full) = length full * 2 ^ k" if "\<forall>x\<in>set full. length x = 2 ^ k"
    using that by (induction full) auto
  then have T: "T = length full * 2 ^ k + length l"
    using ok assms(7) split by (simp add: block_ok_def)
  have "T < 2 ^ 64" using ok assms(7) by (simp add: block_ok_def)
  then have ceil: "CeilLog2 (word_of_nat T) = bit_len (T - 1)"
    using CeilLog2_of_nat [of T] T l by simp
  have s: "0 < ?s" "?s \<le> 2 ^ k" using ok nth_mem [OF len(3)] by (auto simp: block_ok_def)
  then have sk: "bit_len (?s - 1) \<le> k" using bit_len_cap by blast
  show ?thesis
  proof (cases "full = []")
    case True
    then show ?thesis using len T ceil split by simp
  next
    case False
    have "T - 1 = length full * 2 ^ k + (length l - 1)" using T l(1) by linarith
    moreover have "length l - 1 < 2 ^ k" using l by linarith
    ultimately have c: "CeilLog2 (word_of_nat T) = bit_len (length full) + k"
      using ceil bit_len_shift [of "length full" "length l - 1" k] False l by simp
    moreover have "length l2 = bit_len (length full)" "?m \<noteq> 1" using len(2) split False by simp_all
    moreover have "length l1 = k" if "?s = 2 ^ k" using len(1) that bit_len_mask [of k] by simp
    ultimately show ?thesis using len(1) sk by auto
  qed
qed


text \<open>Two subtrees, of two and of one transaction; the first transaction is in the full one.\<close>

theorem depth_law_witness:
  "\<exists>bh n l1 sub l2 root. SealBlock (NewMockNode 2) [barray_of [1], barray_of [2], barray_of [3]] False = Inr (bh, n) \<and>
    node_SubtreePathFor n (barray_of [1]) = Inr (l1, sub) \<and> node_BlockPathFor n sub bh = Inr (l2, root) \<and>
    length l1 + length l2 = CeilLog2 (word_of_nat 3) \<and> CeilLog2 (word_of_nat 3) = 2"
proof -
  let ?n = "add_block (NewMockNode (int 2))" and ?a = "barray_of [1] :: hash"
  let ?txs = "[?a, barray_of [2], barray_of [3]]"
  have ne: "(barray_of [3] :: hash) \<noteq> ?a" by (simp add: bytes_of_eq_iff [symmetric] bytes_of_barray_of)
  obtain sb where s: "SealBlock (NewMockNode (int 2)) ?txs False = Inr (sb_hash sb, ?n sb)"
    "sealed 2 (NewMockNode (int 2)) ?txs False sb" and r: "reachable_node 2 (?n sb)"
    using one_block [of 2 ?txs False] by auto
  have inv: "node_inv 2 (?n sb)" and r': "reachable_node (2 ^ 1) (?n sb)" using node_inv_reachable r by simp_all
  note leaves = sealed_three [OF s(2)]
  have tx: "node_LocateTx (?n sb) ?a = Inr (sb_hash sb)" using sealed_index [OF s(2)] by simp
  have cap: "2 \<le> (2 :: nat) ^ 20" by simp
  have T: "3 = length (concat (leaves_of sb))" by (simp add: leaves)
  show ?thesis
  proof (rule served_proofs [OF inv cap tx])
    fix e sb' l1 l2
    assume e: "txIndex (?n sb) ?a = Some e" "te_blockHash e = sb_hash sb"
      and b: "blocks (?n sb) (sb_hash sb) = Some sb'" and j: "te_subtreeIndex e < length (leaves_of sb')"
      and p: "node_SubtreePathFor (?n sb) ?a = Inr (l1, sb_subtreeRoots sb' ! te_subtreeIndex e)"
        "node_BlockPathFor (?n sb) (sb_subtreeRoots sb' ! te_subtreeIndex e) (sb_hash sb) = Inr (l2, sb_blockRoot sb')"
    have sb': "sb' = sb" using b by (simp add: add_block_def)
    obtain k where "k < length (leaves_of sb ! te_subtreeIndex e)" "leaves_of sb ! te_subtreeIndex e ! k = ?a"
      using known_tx [OF inv e(1)] e(2) b sb' by auto
    then have "te_subtreeIndex e = 0"
      using j ne leaves sb' by (auto simp: less_Suc_eq)
    then have full: "length (leaves_of sb ! te_subtreeIndex e) = 2 ^ 1" using leaves by simp
    have "blocks (?n sb) (te_blockHash e) = Some sb"
      "node_BlockPathFor (?n sb) (sb_subtreeRoots sb' ! te_subtreeIndex e) (te_blockHash e) = Inr (l2, sb_blockRoot sb')"
      using e(2) b sb' p(2) by simp_all
    from depth_law [OF r' _ e(1) this(1) p(1) this(2) T] full
    have "length l1 + length l2 = CeilLog2 (word_of_nat 3)" by simp
    then show ?thesis using s(1) p log_three by auto
  qed
qed

text \<open>
  The depth law of the documents (\<open>depth = ceil(log2 T)\<close>, "the subtree split adds no hashes")
  does not hold for a partial last subtree: with subtrees of two and three transactions, the
  third has a proof of one hash, and the logarithm is two.
\<close>

theorem depth_law_partial_subtree:
  assumes "c \<noteq> a" and "c \<noteq> b"
  shows "\<exists>bh n l1 sub l2 root. SealBlock (NewMockNode 2) [a, b, c] False = Inr (bh, n) \<and>
    node_SubtreePathFor n c = Inr (l1, sub) \<and> node_BlockPathFor n sub bh = Inr (l2, root) \<and>
    length l1 + length l2 = 1 \<and> CeilLog2 3 = 2"
proof -
  let ?n = "add_block (NewMockNode (int 2))"
  obtain sb where s: "SealBlock (NewMockNode (int 2)) [a, b, c] False = Inr (sb_hash sb, ?n sb)"
    "sealed 2 (NewMockNode (int 2)) [a, b, c] False sb" and r: "reachable_node 2 (?n sb)"
    using one_block [of 2 "[a, b, c]" False] by auto
  have inv: "node_inv 2 (?n sb)" using node_inv_reachable r by simp
  have tx: "node_LocateTx (?n sb) c = Inr (sb_hash sb)" using sealed_index [OF s(2)] by simp
  have cap: "2 \<le> (2 :: nat) ^ 20" by simp
  note leaves = sealed_three [OF s(2)]
  show ?thesis
  proof (rule served_proofs [OF inv cap tx])
    fix e sb' l1 l2
    assume e: "txIndex (?n sb) c = Some e" "te_blockHash e = sb_hash sb"
      and b: "blocks (?n sb) (sb_hash sb) = Some sb'" and j: "te_subtreeIndex e < length (leaves_of sb')"
      and p: "node_SubtreePathFor (?n sb) c = Inr (l1, sb_subtreeRoots sb' ! te_subtreeIndex e)"
        "node_BlockPathFor (?n sb) (sb_subtreeRoots sb' ! te_subtreeIndex e) (sb_hash sb) = Inr (l2, sb_blockRoot sb')"
      and l: "length l1 = bit_len (length (leaves_of sb' ! te_subtreeIndex e) - 1)"
        "length l2 = bit_len (length (leaves_of sb') - 1)"
    have sb': "sb' = sb" using b by (simp add: add_block_def)
    obtain k where "k < length (leaves_of sb ! te_subtreeIndex e)" "leaves_of sb ! te_subtreeIndex e ! k = c"
      using known_tx [OF inv e(1)] e(2) b sb' by auto
    then have "te_subtreeIndex e = 1"
      using j assms leaves sb' by (auto simp: less_Suc_eq nth_Cons split: nat.splits)
    then have "length l1 + length l2 = 1" using l leaves sb' by (simp add: bit_len_pos)
    then show ?thesis using s(1) p log_three by auto
  qed
qed

theorem depth_law_partial_subtree_witness:
  "\<exists>bh n l1 sub l2 root. SealBlock (NewMockNode 2) [barray_of [1], barray_of [2], barray_of [3]] False = Inr (bh, n) \<and>
    node_SubtreePathFor n (barray_of [3]) = Inr (l1, sub) \<and> node_BlockPathFor n sub bh = Inr (l2, root) \<and>
    length l1 + length l2 = 1 \<and> CeilLog2 3 = 2"
proof -
  have ne: "(barray_of [3] :: hash) \<noteq> barray_of [1]" "(barray_of [3] :: hash) \<noteq> barray_of [2]"
    by (simp_all add: bytes_of_eq_iff [symmetric] bytes_of_barray_of)
  show ?thesis by (rule depth_law_partial_subtree [OF ne])
qed

text \<open>
  The allocation-free server gives the proofs of \<open>SubtreePathFor\<close>, \<open>BlockPathFor\<close> and
  \<open>HeaderFor\<close>, whatever the caller's buffers hold, when the block's subtree roots are distinct;
  with equal roots the block path of a later subtree differs, and both still fold to the root.
  An unknown transaction is \<open>ok = false\<close>.
\<close>

theorem ServeInto_refines:
  assumes "reachable_node cap n" and "0 < cap" and "cap \<le> 2 ^ 20"
  shows "(txIndex n txid = None \<longrightarrow> ServeInto grow n txid d1 d2 = Inr None) \<and>
    (\<forall>bh. node_LocateTx n txid = Inr bh \<longrightarrow>
      (\<exists>b1 b2 sub hdr l2 root. ServeInto grow n txid d1 d2 = Inr (Some (b1, b2, sub, hdr)) \<and>
        node_SubtreePathFor n txid = Inr (contents b1, sub) \<and> node_HeaderFor n bh = Inr hdr \<and>
        node_BlockPathFor n sub bh = Inr (l2, root) \<and> Fold sub (contents b2) = root \<and>
        (\<forall>sb. blocks n bh = Some sb \<and> distinct (sb_subtreeRoots sb) \<longrightarrow> contents b2 = l2)))"
proof (intro conjI allI impI)
  show "ServeInto grow n txid d1 d2 = Inr None" if "txIndex n txid = None"
    using that by (simp add: ServeInto_def)
next
  fix bh assume tx: "node_LocateTx n txid = Inr bh"
  have inv: "node_inv cap n" using assms(1,2) by (rule node_inv_reachable)
  show "\<exists>b1 b2 sub hdr l2 root. ServeInto grow n txid d1 d2 = Inr (Some (b1, b2, sub, hdr)) \<and>
        node_SubtreePathFor n txid = Inr (contents b1, sub) \<and> node_HeaderFor n bh = Inr hdr \<and>
        node_BlockPathFor n sub bh = Inr (l2, root) \<and> Fold sub (contents b2) = root \<and>
        (\<forall>sb. blocks n bh = Some sb \<and> distinct (sb_subtreeRoots sb) \<longrightarrow> contents b2 = l2)"
  proof (rule served_proofs [OF inv assms(3) tx])
    fix e :: tx_entry and sb :: sealed_block and l1 l2
    let ?r = "sb_subtreeRoots sb ! te_subtreeIndex e"
    assume e: "txIndex n txid = Some e" "te_blockHash e = bh" and sb: "blocks n bh = Some sb" "block_ok cap sb"
      and s: "node_SubtreePathFor n txid = Inr (l1, ?r)" and j: "te_subtreeIndex e < length (leaves_of sb)"
      and b: "node_BlockPathFor n ?r bh = Inr (l2, sb_blockRoot sb)" and h: "node_HeaderFor n bh = Inr (sb_header sb)"
    obtain m2 where m2: "MerklePath (sb_blockLayers sb) (int (te_subtreeIndex e)) = Inr m2"
      "Fold ?r m2 = sb_blockRoot sb" using serve_block [OF sb(2) j] .
    have "blocks n (te_blockHash e) = Some sb" using e(2) sb(1) by simp
    from ServeInto_ok [OF inv e(1) this s m2(1)] obtain b1 b2 where
      v: "ServeInto grow n txid d1 d2 = Inr (Some (b1, b2, ?r, sb_header sb))" "contents b1 = l1" "contents b2 = m2" .
    have "m2 = l2" if "distinct (sb_subtreeRoots sb)"
      using find_root_distinct [OF that, of "te_subtreeIndex e"] j block_lengths(1) [OF sb(2)] sb(1) b m2(1)
      by (simp add: node_BlockPathFor_def)
    then show ?thesis using v s b h m2(2) sb(1) by auto
  qed
qed

theorem ServeInto_refines_witness:
  "ServeInto (\<lambda>_. []) (NewMockNode 4) zero_hash \<lparr>backing = [], used = 0, moves = 0\<rparr>
     \<lparr>backing = [], used = 0, moves = 0\<rparr> = Inr None"
proof -
  have r: "reachable_node 4 (NewMockNode 4)" using reachable_node.initial [of 4] by simp
  have "(0::nat) < 4" "(4::nat) \<le> 2 ^ 20" by simp_all
  from ServeInto_refines [OF r this] show ?thesis by (simp add: NewMockNode_def)
qed


text \<open>
  C9. Header pruning with an anchor: for a carrying block and any earlier block of a reachable
  node, the anchor material verifies against the Merkle root in the carrier's header, and the
  earlier header verifies against the anchored accumulator root; a block at or above the
  carrier is refused.
\<close>

theorem carrier_anchors_prefix:
  assumes "reachable_node cap n" and "0 < cap" and "cap \<le> 2 ^ 20"
    and "blocks n ch = Some carrier" and "sb_isCarrier carrier" and "blocks n th = Some target"
  shows "(\<exists>fs l0 l1 l2 root hdr. node_GenTxAccumulator n ch = Inr (sb_accRoot carrier, fs, l0, l1, l2) \<and>
      node_HeaderFor n ch = Inr hdr \<and> header_root hdr = bytes_of root \<and>
      VerifyAnchor (sb_accRoot carrier) fs l0 l1 l2 root) \<and>
    (if sb_height target < sb_height carrier
     then (\<exists>p. ProveHeaderInAccumulator n th ch = Inr (p, sb_accRoot carrier) \<and>
               VerifyBlockInChain (sb_header target) p (sb_accRoot carrier))
     else ProveHeaderInAccumulator n th ch = Inl ErrTargetNotInPrefix)"
proof -
  have inv: "node_inv cap n" using assms(1,2) by (rule node_inv_reachable)
  then have good: "good_node n" using assms(3) by (auto simp: good_node_def)
  obtain fs l0 l1 l2 where gen: "node_GenTxAccumulator n ch = Inr (sb_accRoot carrier, fs, l0, l1, l2)"
    by (rule carrier_material [OF inv assms(3-5)], rule that)
  then have "GenTxAccumulator (node_source n) ch = Inr (sb_accRoot carrier, fs, l0, l1, l2)"
    by (simp add: node_source_def)
  from node_src.anchored [OF good this] obtain hdr root where "HeaderFor (node_source n) ch = Inr hdr"
    and a: "header_root hdr = bytes_of root" "VerifyAnchor (sb_accRoot carrier) fs l0 l1 l2 root" by blast
  then have "node_HeaderFor n ch = Inr hdr" by (simp add: node_source_def)
  with gen a have "\<exists>fs l0 l1 l2 root hdr. node_GenTxAccumulator n ch = Inr (sb_accRoot carrier, fs, l0, l1, l2) \<and>
      node_HeaderFor n ch = Inr hdr \<and> header_root hdr = bytes_of root \<and>
      VerifyAnchor (sb_accRoot carrier) fs l0 l1 l2 root" by blast
  moreover have "sb_accPrefix carrier = sb_height carrier"
    using block_at(2) [OF inv assms(4)] assms(5) by (simp add: carrier_ok_def)
  then have "ProveHeaderInAccumulator n th ch = Inl ErrTargetNotInPrefix"
    if "\<not> sb_height target < sb_height carrier"
    using assms(4-6) that by (simp add: ProveHeaderInAccumulator_def not_less)
  moreover have "\<exists>p. ProveHeaderInAccumulator n th ch = Inr (p, sb_accRoot carrier) \<and>
      VerifyBlockInChain (sb_header target) p (sb_accRoot carrier)" if "sb_height target < sb_height carrier"
    using target_material [OF inv assms(4-6) that] by blast
  ultimately show ?thesis by simp
qed

theorem carrier_anchors_prefix_witness:
  "\<exists>n ch fs l0 l1 l2 r. node_GenTxAccumulator n ch = Inr (r, fs, l0, l1, l2) \<and>
     ProveHeaderInAccumulator n ch ch = Inl ErrTargetNotInPrefix"
proof -
  let ?n = "add_block (NewMockNode (int 2))"
  obtain sb where r: "reachable_node 2 (?n sb)" "sealed 2 (NewMockNode (int 2)) [zero_hash] True sb"
    using one_block [of 2 "[zero_hash]" True] by auto
  have b: "blocks (?n sb) (sb_hash sb) = Some sb" "sb_isCarrier sb"
    using r(2) by (simp_all add: add_block_def sealed_def)
  have "(0::nat) < 2" "(2::nat) \<le> 2 ^ 20" by simp_all
  from carrier_anchors_prefix [OF r(1) this b b(1)]
  have "\<exists>fs l0 l1 l2. node_GenTxAccumulator (?n sb) (sb_hash sb) = Inr (sb_accRoot sb, fs, l0, l1, l2)"
    "ProveHeaderInAccumulator (?n sb) (sb_hash sb) (sb_hash sb) = Inl ErrTargetNotInPrefix" by auto
  then show ?thesis by blast
qed

text \<open>
  A seal never overwrites a block: a header hash that is already a key exhibits a SHA-256d
  collision with a header of the chain, or the tip's hash is the zero hash.
\<close>

theorem seal_is_fresh:
  assumes "reachable_node cap n" and "0 < cap" and "length txids + 1 < 2 ^ 63"
    and "SealBlock n txids c = Inr (bh, n')"
  shows "bh \<notin> dom (blocks n) \<or>
    (\<exists>h\<in>set (headers n). collision (bytes_of (last (headers n')), bytes_of h)) \<or>
    last (chain n) = zero_hash"
proof (cases "bh \<in> dom (blocks n)")
  case True
  have inv: "node_inv cap n" using assms(1,2) by (rule node_inv_reachable)
  have "txids \<noteq> []" using assms(4) by (auto simp: SealBlock_def)
  from SealBlock_ok [OF inv this assms(3), of c] assms(4) obtain sb where
    sb: "bh = sb_hash sb" "n' = add_block n sb" "sealed cap n txids c sb" by auto
  let ?h = "length (chain n)"
  have len: "length (headers n) = ?h" and d: "distinct (chain n)" using inv by (simp_all add: node_inv_def)
  have "bh \<in> set (chain n)" using True inv by (simp add: node_inv_def)
  then obtain i where i: "i < ?h" "chain n ! i = bh" by (auto simp: in_set_conv_nth)
  then have pos: "position_ok n i" using inv by (simp add: node_inv_def)
  then obtain b where b: "blocks n bh = Some b" by (auto simp: position_ok_def i split: option.splits)
  let ?old = "headers n ! i"
  have old: "sb_hash b = bh" "sb_header b = ?old" "header_prev ?old = prev_slot (prev_of n i)"
    using pos b i(2) by (auto simp: position_ok_def)
  have "DoubleSHA256 (bytes_of ?old) = bh" using block_at(1) [OF inv b] old by (simp add: block_ok_def)
  moreover have new: "last (headers n') = sb_header sb" "DoubleSHA256 (bytes_of (sb_header sb)) = bh"
    "header_prev (sb_header sb) = prev_slot (prev_of n ?h)"
    using sb by (simp_all add: add_block_def sealed_def block_ok_def)
  moreover have "last (chain n) = zero_hash" if "sb_header sb = ?old"
  proof -
    have "prev_slot (prev_of n ?h) = prev_slot (prev_of n i)" using that new(3) old(3) by simp
    moreover have "prev_of n ?h = Some (last (chain n))" using i(1) by (auto simp: prev_of_def last_conv_nth)
    moreover have "chain n ! (i - 1) \<noteq> last (chain n)" if "0 < i"
      using nth_eq_iff_index_eq [OF d, of "i - 1" "?h - 1"] i(1) that last_conv_nth [of "chain n"] by fastforce
    moreover have "replicate 32 (0::byte) = bytes_of zero_hash"
      by (simp add: zero_hash_def bytes_of_barray_of)
    ultimately show ?thesis
      by (cases "i = 0") (auto simp: prev_slot_def prev_of_def bytes_of_eq_iff)
  qed
  ultimately show ?thesis
    using i(1) len by (auto simp: collision_def bytes_of_eq_iff intro!: bexI [of _ ?old])
qed simp

theorem seal_is_fresh_witness:
  "\<exists>bh n'. SealBlock (NewMockNode 1) [zero_hash] False = Inr (bh, n') \<and>
     (bh \<notin> dom (blocks (NewMockNode 1)) \<or> last (chain (NewMockNode 1)) = zero_hash)"
proof -
  obtain sb where s: "SealBlock (NewMockNode (int 1)) [zero_hash] False = Inr (sb_hash sb, add_block (NewMockNode (int 1)) sb)"
    using one_block [of 1 "[zero_hash]" False] by auto
  from seal_is_fresh [OF reachable_node.initial [of 1] _ _ s] show ?thesis
    using s by (auto simp: NewMockNode_def)
qed

text \<open>
  The chain view follows the reorganisations and nothing else: a header is contained when
  its hash is a sealed block that is not orphaned; a contained header is one the node sealed,
  or exhibits a collision with it.
\<close>

theorem Contains_tracks_best:
  assumes "reachable_node cap n" and "0 < cap"
  shows "(node_Contains (Orphan n bh) h \<longleftrightarrow> node_Contains n h \<and> DoubleSHA256 (bytes_of h) \<noteq> bh) \<and>
    (node_Contains (Restore n bh) h \<longleftrightarrow>
       node_Contains n h \<or> DoubleSHA256 (bytes_of h) = bh \<and> bh \<in> dom (blocks n)) \<and>
    node_Contains (MarkSpent n ou) h = node_Contains n h \<and>
    (node_Contains n h \<longrightarrow> h \<in> set (headers n) \<or>
       (\<exists>h'\<in>set (headers n). collision (bytes_of h, bytes_of h')))"
proof -
  have inv: "node_inv cap n" using assms by (rule node_inv_reachable)
  have key: "sb_hash sb = k" if "blocks n k = Some sb" for k sb using block_at(3) [OF inv that] .
  have "h \<in> set (headers n) \<or> (\<exists>h'\<in>set (headers n). collision (bytes_of h, bytes_of h'))"
    if "node_Contains n h"
  proof -
    note contains = that
    obtain sb where sb: "blocks n (DoubleSHA256 (bytes_of h)) = Some sb"
      using contains by (auto simp: node_Contains_def Let_def split: option.splits)
    note ok = block_at [OF inv sb]
    then have "sb_header sb \<in> set (headers n)" using inv by (auto simp: node_inv_def)
    moreover have "DoubleSHA256 (bytes_of (sb_header sb)) = DoubleSHA256 (bytes_of h)"
      using ok(1,3) by (simp add: block_ok_def)
    ultimately show ?thesis by (cases "h = sb_header sb") (auto simp: collision_def bytes_of_eq_iff)
  qed
  moreover have "node_Contains (MarkSpent n ou) h = node_Contains n h"
    by (simp add: node_Contains_def MarkSpent_def cong: option.case_cong)
  ultimately show ?thesis
    by (auto simp: node_Contains_def Orphan_def Restore_def Let_def key split: option.splits if_splits)
qed

theorem Contains_tracks_best_witness:
  "\<not> node_Contains (Orphan (NewMockNode 1) zero_hash) (barray_of []) \<and>
   \<not> node_Contains (Restore (NewMockNode 1) zero_hash) (barray_of [])"
proof -
  have "\<not> node_Contains (NewMockNode 1) (barray_of [])"
    by (simp add: node_Contains_def NewMockNode_def)
  moreover have "dom (blocks (NewMockNode 1)) = {}" by (simp add: NewMockNode_def)
  moreover have r: "reachable_node 1 (NewMockNode 1)" using reachable_node.initial [of 1] by simp
  moreover have "(0::nat) < 1" by simp
  ultimately show ?thesis
    using Contains_tracks_best [of 1 "NewMockNode 1" zero_hash "barray_of []"] by auto
qed

end
