(* ===== verification/Codec.thy ===== *)
theory Codec
  imports Commitment
begin

text \<open>
  What the byte readers of the wire formats share. Packages \<open>bundle\<close>, \<open>payment\<close> and \<open>fabric\<close>
  each have a reader of their own, built on a method \<open>take\<close> that returns the next \<open>n\<close> bytes
  or fails. The locale \<open>byte_reader\<close> states the contract of \<open>take\<close>; the laws of the integer and
  array reads follow from it once, and each package interprets the locale with its reader.
  The locale \<open>wire_format\<close> is the contract of a decoder against its encoder, with the laws of
  repeated and of exact-length decoding.
\<close>

text \<open>
  \<open>at r xs\<close>: the reader \<open>r\<close> has not failed and has exactly the bytes \<open>xs\<close> before it.
\<close>

locale byte_reader =
  fixes take_bytes :: "nat \<Rightarrow> 'r \<Rightarrow> bytes option \<times> 'r" and at :: "'r \<Rightarrow> bytes \<Rightarrow> bool"
  assumes take_ok: "at r (xs @ rest) \<Longrightarrow> \<exists>r'. take_bytes (length xs) r = (Some xs, r') \<and> at r' rest"
begin

lemma take_n:
  "at r (xs @ rest) \<Longrightarrow> length xs = n \<Longrightarrow> \<exists>r'. take_bytes n r = (Some xs, r') \<and> at r' rest"
  using take_ok by blast

lemma take_byte: "at r (b # rest) \<Longrightarrow> \<exists>r'. take_bytes 1 r = (Some [b], r') \<and> at r' rest"
  using take_ok [of r "[b]" rest] by simp

lemma take_word:
  assumes "at r (le_bytes n (v :: 'a::len word) @ rest)" and "LENGTH('a) \<le> 8 * n"
  shows "\<exists>b r'. take_bytes n r = (Some b, r') \<and> le_word b = v \<and> at r' rest"
  using take_n [OF assms(1)] le_word_le_bytes [OF assms(2)] by fastforce

lemma take_barray:
  assumes "at r (bytes_of (x :: 'n::len barray) @ rest)"
  shows "\<exists>b r'. take_bytes LENGTH('n) r = (Some b, r') \<and> barray_of b = x \<and> at r' rest"
  using take_n [OF assms] by fastforce

end

locale wire_format =
  fixes at :: "'r \<Rightarrow> 'b list \<Rightarrow> bool" and decode :: "'r \<Rightarrow> 'a \<times> 'r" and encode :: "'a \<Rightarrow> 'b list"
    and valid :: "'a \<Rightarrow> bool"
  assumes law: "valid x \<Longrightarrow> at r (encode x @ rest) \<Longrightarrow> \<exists>r'. decode r = (x, r') \<and> at r' rest"
begin

text \<open>A reader in front of two encodings reads only the one that was written.\<close>

lemma prefix_free:
  assumes "valid x" and "valid y" and "encode x @ rest = encode y @ rest'" and "\<exists>r. at r (encode x @ rest)"
  shows "x = y"
proof -
  obtain r where r: "at r (encode x @ rest)" using assms(4) by blast
  then have "at r (encode y @ rest')" using assms(3) by simp
  with law [OF assms(1) r] law [OF assms(2)] show ?thesis by fastforce
qed

text \<open>Two reads in sequence.\<close>

lemma two:
  assumes "valid x" and "valid y" and "at r (encode x @ encode y @ rest)"
  shows "\<exists>r1 r2. decode r = (x, r1) \<and> decode r1 = (y, r2) \<and> at r2 rest"
  using law [OF assms(1,3)] law [OF assms(2)] by blast

end

text \<open>Equal concatenations of self-delimiting encodings: item by item, and then the rest.\<close>

lemma concat_inject:
  assumes "\<And>x y r r'. x \<in> set xs \<Longrightarrow> y \<in> set ys \<Longrightarrow> e x @ r = e y @ r' \<Longrightarrow> f x = f y \<and> r = r'"
    and "length xs = length ys" and "concat (map e xs) @ r = concat (map e ys) @ r'"
  shows "map f xs = map f ys \<and> r = r'"
  using assms
proof (induction xs arbitrary: ys)
  case (Cons x xs)
  then obtain y ys' where ys: "ys = y # ys'" by (cases ys) auto
  have "e x @ concat (map e xs) @ r = e y @ concat (map e ys') @ r'" using Cons.prems(3) ys by simp
  then have "f x = f y" and tail: "concat (map e xs) @ r = concat (map e ys') @ r'"
    using Cons.prems(1) [of x y] ys by auto
  moreover have "map f xs = map f ys' \<and> r = r'"
  proof (rule Cons.IH [OF _ _ tail])
    fix a b q q' assume "a \<in> set xs" "b \<in> set ys'" "e a @ q = e b @ q'"
    then show "f a = f b \<and> q = q'" using Cons.prems(1) [of a b q q'] ys by simp
  qed (use Cons.prems(2) ys in simp_all)
  ultimately show ?case using ys by simp
qed simp

lemma append_inject_len: "length xs = length ys \<Longrightarrow> xs @ r = ys @ r' \<longleftrightarrow> xs = ys \<and> r = r'"
  by (rule append_eq_append_conv) simp

end
