(* ===== verification/Bundle.thy ===== *)
theory Bundle
  imports Teranode Codec
begin

text \<open>
  Package \<open>bundle\<close> (src/bundle/bundle.go, src/bundle/serialize.go): the sender-held inclusion
  proof, its local verification, its maintenance across reorganisations, and its wire format.

  A pointer to an anchor, and a \<open>HeaderChain\<close> interface value, are options: \<open>None\<close> is nil.
  A method with a pointer receiver that mutates the bundle returns the new bundle.
\<close>

section \<open>Data\<close>

record anchor_proof =
  AccRoot :: hash
  AccPath :: "path_elem list"
  GenTxFields :: tx_fields
  GenL0 :: "path_elem list"
  GenL1 :: "path_elem list"
  GenL2 :: "path_elem list"
  CarryingBlockMerkleRoot :: hash
  CarryingHeader :: header

record proof_bundle =
  OutputRef :: outpoint
  Fields :: tx_fields
  MTxIDPath' :: "path_elem list"
  SubtreePath :: "path_elem list"
  BlockPath :: "path_elem list"
  Header :: header
  Anchor :: "anchor_proof option"

section \<open>Building and verifying\<close>

definition HeaderMerkleRoot :: "header \<Rightarrow> hash" where
  "HeaderMerkleRoot h = barray_of (go_slice (bytes_of h) 36 68)"

text \<open>The three reads of L1, L2 and the header that \<open>Build\<close> and \<open>Reanchor\<close> both make.\<close>

definition Build :: "outpoint \<Rightarrow> tx_fields \<Rightarrow> byte \<Rightarrow> proof_source \<Rightarrow> proof_bundle res" where
  "Build out fs revealIndex src =
     (case MTxIDPath fs revealIndex of
        Inl e \<Rightarrow> Inl e
      | Inr (leaf, l0, mtxid) \<Rightarrow>
        if mtxid \<noteq> TXID out then Inl ErrTXIDMismatch
        else case SubtreePathFor src (TXID out) of
          Inl e \<Rightarrow> Inl e
        | Inr (l1, subtreeRoot) \<Rightarrow>
        (case LocateTx src (TXID out) of
          Inl e \<Rightarrow> Inl e
        | Inr blockHash \<Rightarrow>
        (case BlockPathFor src subtreeRoot blockHash of
          Inl e \<Rightarrow> Inl e
        | Inr (l2, _) \<Rightarrow>
        (case HeaderFor src blockHash of
          Inl e \<Rightarrow> Inl e
        | Inr hdr \<Rightarrow>
        (case go_index fs (unat revealIndex) of
          Inl e \<Rightarrow> Inl e
        | Inr f \<Rightarrow>
            Inr \<lparr>OutputRef = out, Fields = [f], MTxIDPath' = l0, SubtreePath = l1,
                 BlockPath = l2, Header = hdr, Anchor = None\<rparr>)))))"

definition anchorBindsToChain :: "anchor_proof \<Rightarrow> header_chain option \<Rightarrow> bool" where
  "anchorBindsToChain a headersView =
     (case headersView of
        None \<Rightarrow> False
      | Some view \<Rightarrow>
        if \<not> Contains view (CarryingHeader a) then False
        else if HeaderMerkleRoot (CarryingHeader a) \<noteq> CarryingBlockMerkleRoot a then False
        else VerifyAnchor (AccRoot a) (GenTxFields a) (GenL0 a) (GenL1 a) (GenL2 a)
               (CarryingBlockMerkleRoot a))"

text \<open>The result is \<open>(ok, depth, reason)\<close>. The whole anchor test of step 5b is one guard.\<close>

definition anchored :: "proof_bundle \<Rightarrow> header_chain option \<Rightarrow> bool" where
  "anchored b headersView =
     (case Anchor b of
        None \<Rightarrow> False
      | Some a \<Rightarrow> anchorBindsToChain a headersView \<and> VerifyBlockInChain (Header b) (AccPath a) (AccRoot a))"

definition on_view :: "header_chain option \<Rightarrow> header \<Rightarrow> bool" where
  "on_view headersView h = (case headersView of None \<Rightarrow> False | Some view \<Rightarrow> Contains view h)"

definition Verify :: "proof_bundle \<Rightarrow> header_chain option \<Rightarrow> bool \<times> nat \<times> string" where
  "Verify b headersView =
     (let depth = length (SubtreePath b) + length (BlockPath b) in
      if MaxDepth < length (MTxIDPath' b) + depth \<or> 20 < length (SubtreePath b)
      then (False, depth, ''depth-overflow'')
      else if length (Fields b) = 0 then (False, depth, ''L0'')
      else
        let leaf = LeafForField (Fields b ! 0);
            mtxid = Fold leaf (MTxIDPath' b)
        in
        if mtxid \<noteq> TXID (OutputRef b) then (False, depth, ''L0'')
        else
          let subtreeRoot = Fold (TXID (OutputRef b)) (SubtreePath b);
              blockRoot = Fold subtreeRoot (BlockPath b)
          in
          if blockRoot \<noteq> HeaderMerkleRoot (Header b) then (False, depth, ''L3-bind'')
          else if on_view headersView (Header b) then (True, depth, [])
          else if anchored b headersView then (True, depth, [])
          else (False, depth, ''L3/L4-chain''))"

definition NeedsReanchor :: "proof_bundle \<Rightarrow> header_chain option \<Rightarrow> bool" where
  "NeedsReanchor b headersView =
     (case headersView of
        None \<Rightarrow> False
      | Some view \<Rightarrow>
        if Contains view (Header b) then False
        else if anchored b headersView then False
        else True)"

definition Reanchor :: "proof_bundle \<Rightarrow> proof_source \<Rightarrow> proof_bundle res" where
  "Reanchor b src =
     (case SubtreePathFor src (TXID (OutputRef b)) of
        Inl e \<Rightarrow> Inl e
      | Inr (l1, subtreeRoot) \<Rightarrow>
      (case LocateTx src (TXID (OutputRef b)) of
        Inl e \<Rightarrow> Inl e
      | Inr blockHash \<Rightarrow>
      (case BlockPathFor src subtreeRoot blockHash of
        Inl e \<Rightarrow> Inl e
      | Inr (l2, _) \<Rightarrow>
      (case HeaderFor src blockHash of
        Inl e \<Rightarrow> Inl e
      | Inr hdr \<Rightarrow> Inr (b\<lparr>SubtreePath := l1, BlockPath := l2, Header := hdr\<rparr>)))))"

section \<open>The writer\<close>

text \<open>The writer is its buffer; every method appends to it.\<close>

type_synonym writer = bytes

definition w_u8 :: "byte \<Rightarrow> writer \<Rightarrow> writer" where "w_u8 v w = w @ [v]"

definition w_u16 :: "u16 \<Rightarrow> writer \<Rightarrow> writer" where "w_u16 v w = w @ le_bytes 2 v"

definition w_u32 :: "u32 \<Rightarrow> writer \<Rightarrow> writer" where "w_u32 v w = w @ le_bytes 4 v"

definition w_bytes :: "bytes \<Rightarrow> writer \<Rightarrow> writer" where "w_bytes b w = w @ b"

definition w_path :: "path_elem list \<Rightarrow> writer \<Rightarrow> writer" where
  "w_path p w =
     fold (\<lambda>e w. w_bytes (bytes_of (Sibling e)) (w_u8 (if Right e then 1 else 0) w)) p
       (w_u16 (word_of_nat (length p)) w)"

definition w_fields :: "tx_fields \<Rightarrow> writer \<Rightarrow> writer" where
  "w_fields fs w =
     fold (\<lambda>f w. w_bytes (Bytes f) (w_u16 (word_of_nat (length (Bytes f))) (w_u8 (Index f) w))) fs
       (w_u16 (word_of_nat (length fs)) w)"

definition Serialize :: "proof_bundle \<Rightarrow> bytes" where
  "Serialize b =
     (let w = w_bytes (bytes_of (TXID (OutputRef b))) [];
          w = w_u32 (Vout (OutputRef b)) w;
          w = w_fields (Fields b) w;
          w = w_path (MTxIDPath' b) w;
          w = w_path (SubtreePath b) w;
          w = w_path (BlockPath b) w;
          w = w_bytes (bytes_of (Header b)) w
      in case Anchor b of
           None \<Rightarrow> w_u8 0 w
         | Some a \<Rightarrow>
           (let w = w_u8 1 w;
                w = w_bytes (bytes_of (AccRoot a)) w;
                w = w_path (AccPath a) w;
                w = w_fields (GenTxFields a) w;
                w = w_path (GenL0 a) w;
                w = w_path (GenL1 a) w;
                w = w_path (GenL2 a) w;
                w = w_bytes (bytes_of (CarryingBlockMerkleRoot a)) w
            in w_bytes (bytes_of (CarryingHeader a)) w))"

section \<open>The reader\<close>

text \<open>
  The reader is sticky: after the first failure \<open>err\<close> is set and every read gives nil or zero.
  Offsets and lengths stay far below the range of \<open>int\<close>.
\<close>

record reader =
  rbuf :: bytes
  roff :: nat
  rerr :: "go_error option"

definition r_take :: "nat \<Rightarrow> reader \<Rightarrow> bytes option \<times> reader" where
  "r_take n r =
     (if rerr r \<noteq> None then (None, r)
      else if length (rbuf r) < roff r + n then (None, r\<lparr>rerr := Some ErrTruncated\<rparr>)
      else (Some (go_slice (rbuf r) (roff r) (roff r + n)), r\<lparr>roff := roff r + n\<rparr>))"

definition r_u8 :: "reader \<Rightarrow> byte \<times> reader" where
  "r_u8 r = (case r_take 1 r of (None, r) \<Rightarrow> (0, r) | (Some b, r) \<Rightarrow> (b ! 0, r))"

definition r_u16 :: "reader \<Rightarrow> u16 \<times> reader" where
  "r_u16 r = (case r_take 2 r of (None, r) \<Rightarrow> (0, r) | (Some b, r) \<Rightarrow> (le_word b, r))"

definition r_u32 :: "reader \<Rightarrow> u32 \<times> reader" where
  "r_u32 r = (case r_take 4 r of (None, r) \<Rightarrow> (0, r) | (Some b, r) \<Rightarrow> (le_word b, r))"

text \<open>\<open>read\<close> into an array: the array, or the error.\<close>

definition r_read :: "reader \<Rightarrow> ('n::len) barray res \<times> reader" where
  "r_read r =
     (case r_take LENGTH('n) r of
        (None, r) \<Rightarrow> (Inl (case rerr r of None \<Rightarrow> Panic | Some e \<Rightarrow> e), r)
      | (Some b, r) \<Rightarrow> (Inr (barray_of b), r))"

primrec r_path_loop :: "nat \<Rightarrow> path_elem list \<Rightarrow> reader \<Rightarrow> path_elem list \<times> reader" where
  "r_path_loop 0 p r = (p, r)"
| "r_path_loop (Suc n) p r =
     (let (right, r) = r_u8 r; (sib, r) = r_read r in
      case sib of
        Inl _ \<Rightarrow> ([], r)
      | Inr s \<Rightarrow> r_path_loop n (p @ [\<lparr>Sibling = s, Right = (right = 1)\<rparr>]) r)"

definition r_path :: "reader \<Rightarrow> path_elem list \<times> reader" where
  "r_path r =
     (let (c, r) = r_u16 r; n = unat c in
      if rerr r \<noteq> None \<or> n = 0 then ([], r)
      else if MaxDepth + 1 < n then ([], r\<lparr>rerr := Some ErrTruncated\<rparr>)
      else r_path_loop n [] r)"

primrec r_fields_loop :: "nat \<Rightarrow> tx_fields \<Rightarrow> reader \<Rightarrow> tx_fields \<times> reader" where
  "r_fields_loop 0 fs r = (fs, r)"
| "r_fields_loop (Suc n) fs r =
     (let (idx, r) = r_u8 r; (ln, r) = r_u16 r; (b, r) = r_take (unat ln) r in
      if rerr r \<noteq> None then ([], r)
      else r_fields_loop n (fs @ [\<lparr>Index = idx, Bytes = (case b of None \<Rightarrow> [] | Some bs \<Rightarrow> bs)\<rparr>]) r)"

definition r_fields :: "reader \<Rightarrow> tx_fields \<times> reader" where
  "r_fields r =
     (let (c, r) = r_u16 r; n = unat c in
      if rerr r \<noteq> None \<or> n = 0 then ([], r) else r_fields_loop n [] r)"

text \<open>The optional anchor of \<open>Deserialize\<close>: its three array reads return early on failure.\<close>

definition r_anchor :: "reader \<Rightarrow> anchor_proof res \<times> reader" where
  "r_anchor r =
     (let (accRoot, r) = r_read r in
      case accRoot of
        Inl e \<Rightarrow> (Inl e, r)
      | Inr accRoot \<Rightarrow>
        (let (accPath, r) = r_path r; (gen, r) = r_fields r;
             (l0, r) = r_path r; (l1, r) = r_path r; (l2, r) = r_path r;
             (root, r) = r_read r
         in case root of
              Inl e \<Rightarrow> (Inl e, r)
            | Inr root \<Rightarrow>
              (let (hdr, r) = r_read r in
               (map_res (\<lambda>hdr. \<lparr>AccRoot = accRoot, AccPath = accPath, GenTxFields = gen,
                  GenL0 = l0, GenL1 = l1, GenL2 = l2, CarryingBlockMerkleRoot = root,
                  CarryingHeader = hdr\<rparr>) hdr, r))))"

definition r_finish :: "proof_bundle \<Rightarrow> reader \<Rightarrow> proof_bundle res" where
  "r_finish b r =
     (case rerr r of
        Some e \<Rightarrow> Inl e
      | None \<Rightarrow> if roff r \<noteq> length (rbuf r) then Inl ErrTruncated else Inr b)"

definition Deserialize :: "bytes \<Rightarrow> proof_bundle res" where
  "Deserialize data =
     (let (txid, r) = r_read \<lparr>rbuf = data, roff = 0, rerr = None\<rparr> in
      case txid of
        Inl e \<Rightarrow> Inl e
      | Inr txid \<Rightarrow>
        (let (vout, r) = r_u32 r; (fs, r) = r_fields r;
             (l0, r) = r_path r; (l1, r) = r_path r; (l2, r) = r_path r;
             (hdr, r) = r_read r
         in case hdr of
              Inl e \<Rightarrow> Inl e
            | Inr hdr \<Rightarrow>
              (let (has, r) = r_u8 r;
                   b = \<lparr>OutputRef = \<lparr>TXID = txid, Vout = vout\<rparr>, Fields = fs, MTxIDPath' = l0,
                        SubtreePath = l1, BlockPath = l2, Header = hdr, Anchor = None\<rparr>
               in if has = 1
                  then let (a, r) = r_anchor r in
                       case a of
                         Inl e \<Rightarrow> Inl e
                       | Inr a \<Rightarrow> r_finish (b\<lparr>Anchor := Some a\<rparr>) r
                  else r_finish b r)))"

section \<open>The wire format: what is written\<close>

definition enc_elem :: "path_elem \<Rightarrow> bytes" where
  "enc_elem e = (if Right e then 1 else 0) # bytes_of (Sibling e)"

definition enc_path :: "path_elem list \<Rightarrow> bytes" where
  "enc_path p = le_bytes 2 (word_of_nat (length p) :: u16) @ concat (map enc_elem p)"

definition enc_field :: "field_leaf \<Rightarrow> bytes" where
  "enc_field f = Index f # le_bytes 2 (word_of_nat (length (Bytes f)) :: u16) @ Bytes f"

definition enc_fields :: "tx_fields \<Rightarrow> bytes" where
  "enc_fields fs = le_bytes 2 (word_of_nat (length fs) :: u16) @ concat (map enc_field fs)"

definition enc_anchor :: "anchor_proof \<Rightarrow> bytes" where
  "enc_anchor a =
     bytes_of (AccRoot a) @ enc_path (AccPath a) @ enc_fields (GenTxFields a) @ enc_path (GenL0 a) @
     enc_path (GenL1 a) @ enc_path (GenL2 a) @ bytes_of (CarryingBlockMerkleRoot a) @
     bytes_of (CarryingHeader a)"

lemma w_path_eq: "w_path p w = w @ enc_path p"
proof -
  have "fold (\<lambda>e w. w_bytes (bytes_of (Sibling e)) (w_u8 (if Right e then 1 else 0) w)) p w
      = w @ concat (map enc_elem p)" for w
    by (induction p arbitrary: w) (simp_all add: w_bytes_def w_u8_def enc_elem_def)
  then show ?thesis by (simp add: w_path_def enc_path_def w_u16_def)
qed

lemma w_fields_eq: "w_fields fs w = w @ enc_fields fs"
proof -
  have "fold (\<lambda>f w. w_bytes (Bytes f) (w_u16 (word_of_nat (length (Bytes f))) (w_u8 (Index f) w))) fs w
      = w @ concat (map enc_field fs)" for w
    by (induction fs arbitrary: w) (simp_all add: w_bytes_def w_u8_def w_u16_def enc_field_def)
  then show ?thesis by (simp add: w_fields_def enc_fields_def w_u16_def)
qed

lemma Serialize_eq:
  "Serialize b =
     bytes_of (TXID (OutputRef b)) @ le_bytes 4 (Vout (OutputRef b)) @ enc_fields (Fields b) @
     enc_path (MTxIDPath' b) @ enc_path (SubtreePath b) @ enc_path (BlockPath b) @ bytes_of (Header b) @
     (case Anchor b of None \<Rightarrow> [0] | Some a \<Rightarrow> 1 # enc_anchor a)"
  by (simp add: Serialize_def w_path_eq w_fields_eq w_bytes_def w_u8_def w_u32_def enc_anchor_def
      Let_def split: option.split)

section \<open>The wire format: which bytes are flags\<close>

text \<open>
  The same encodings with a mark on each byte: the first byte of a path element and the byte before the
  anchor are flags. Bytes are a variant of a marked encoding when they are its bytes, except that a flag that
  is 0 may be any byte other than 1, which the reader takes for false too.
\<close>

type_synonym marked = "(bool \<times> byte) list"

definition plain :: "bytes \<Rightarrow> marked" where
  "plain = map (Pair False)"

definition marked_elem :: "path_elem \<Rightarrow> marked" where
  "marked_elem e = (True, if Right e then 1 else 0) # plain (bytes_of (Sibling e))"

definition marked_path :: "path_elem list \<Rightarrow> marked" where
  "marked_path p = plain (le_bytes 2 (word_of_nat (length p) :: u16)) @ concat (map marked_elem p)"

definition marked_anchor :: "anchor_proof \<Rightarrow> marked" where
  "marked_anchor a =
     plain (bytes_of (AccRoot a)) @ marked_path (AccPath a) @ plain (enc_fields (GenTxFields a)) @
     marked_path (GenL0 a) @ marked_path (GenL1 a) @ marked_path (GenL2 a) @
     plain (bytes_of (CarryingBlockMerkleRoot a)) @ plain (bytes_of (CarryingHeader a))"

definition marked_bundle :: "proof_bundle \<Rightarrow> marked" where
  "marked_bundle b =
     plain (bytes_of (TXID (OutputRef b))) @ plain (le_bytes 4 (Vout (OutputRef b))) @ plain (enc_fields (Fields b)) @
     marked_path (MTxIDPath' b) @ marked_path (SubtreePath b) @ marked_path (BlockPath b) @ plain (bytes_of (Header b)) @
     (case Anchor b of None \<Rightarrow> [(True, 0)] | Some a \<Rightarrow> (True, 1) # marked_anchor a)"

definition flag_variant :: "marked \<Rightarrow> bytes \<Rightarrow> bool" where
  "flag_variant = list_all2 (\<lambda>(is_flag, x) y. y = x \<or> is_flag \<and> x = 0 \<and> y \<noteq> 1)"

lemma plain_Nil [simp]: "plain [] = []"
  by (simp add: plain_def)

lemma length_plain [simp]: "length (plain xs) = length xs"
  by (simp add: plain_def)

lemma plain_append [simp]: "plain (xs @ ys) = plain xs @ plain ys"
  by (simp add: plain_def)

lemma plain_Cons: "plain (x # xs) = (False, x) # plain xs"
  by (simp add: plain_def)

lemma plain_concat: "plain (concat (map f xs)) = concat (map (\<lambda>x. plain (f x)) xs)"
  by (simp add: plain_def map_concat comp_def)

lemma map_snd_plain [simp]: "map snd (plain xs) = xs"
  by (simp add: plain_def comp_def)

lemma map_snd_marked_path [simp]: "map snd (marked_path p) = enc_path p"
  by (simp add: marked_path_def enc_path_def map_concat comp_def marked_elem_def enc_elem_def cong: map_cong)

lemma Serialize_marked: "Serialize b = map snd (marked_bundle b)"
  by (simp add: Serialize_eq marked_bundle_def marked_anchor_def enc_anchor_def split: option.split)

lemma flag_variant_same: "flag_variant ms (map snd ms)"
  by (simp add: flag_variant_def list_all2_map2 list_all2_refl split_beta)

lemma flag_variant_plain: "flag_variant (plain xs) ys \<longleftrightarrow> ys = xs"
  by (auto simp: flag_variant_def plain_def list_all2_map1 list_all2_conv_all_nth intro: nth_equalityI)

lemma flag_variant_append:
  "flag_variant (ms @ ms') ys \<longleftrightarrow> (\<exists>zs zs'. ys = zs @ zs' \<and> flag_variant ms zs \<and> flag_variant ms' zs')"
  unfolding flag_variant_def list_all2_append1
  by (intro iffI; elim exE conjE; intro exI conjI; (assumption | erule list_all2_lengthD [symmetric]))

section \<open>The wire format: what is read\<close>

definition reader_at :: "reader \<Rightarrow> bytes \<Rightarrow> bool" where
  "reader_at r xs \<longleftrightarrow> rerr r = None \<and> roff r \<le> length (rbuf r) \<and> drop (roff r) (rbuf r) = xs"

interpretation rd: byte_reader r_take reader_at
proof
  fix r xs rest
  assume a: "reader_at r (xs @ rest)"
  then have len: "length (rbuf r) = roff r + length xs + length rest"
    by (metis (no_types, lifting) add.assoc le_add_diff_inverse length_append length_drop reader_at_def)
  have "take (length xs) (drop (roff r) (rbuf r)) = xs"
    and "drop (length xs) (drop (roff r) (rbuf r)) = rest"
    using a by (simp_all add: reader_at_def)
  then have "go_slice (rbuf r) (roff r) (roff r + length xs) = xs"
    and "drop (roff r + length xs) (rbuf r) = rest"
    by (simp_all add: go_slice_def add.commute)
  then show "\<exists>r'. r_take (length xs) r = (Some xs, r') \<and> reader_at r' rest"
    using a len by (simp add: r_take_def reader_at_def)
qed

text \<open>A reader in front of a variant of a marked encoding.\<close>

definition at_marked :: "reader \<Rightarrow> marked \<Rightarrow> bool" where
  "at_marked r ms \<longleftrightarrow> (\<exists>ys. flag_variant ms ys \<and> reader_at r ys)"

lemma at_marked_err: "at_marked r ms \<Longrightarrow> rerr r = None"
  by (auto simp: at_marked_def reader_at_def)

lemma at_marked_end: "at_marked r [] \<Longrightarrow> roff r = length (rbuf r)"
  by (auto simp: at_marked_def reader_at_def flag_variant_def)

lemma at_plain:
  assumes "at_marked r (plain xs @ ms)"
  obtains ys where "reader_at r (xs @ ys)" and "flag_variant ms ys"
  using assms by (auto simp: at_marked_def flag_variant_append flag_variant_plain)

lemma r_take_ok:
  "at_marked r (plain xs @ ms) \<Longrightarrow> length xs = n \<Longrightarrow> \<exists>r'. r_take n r = (Some xs, r') \<and> at_marked r' ms"
  using rd.take_ok by (elim at_plain) (fastforce simp: at_marked_def)

lemma r_u8_ok: "at_marked r ((False, b) # ms) \<Longrightarrow> \<exists>r'. r_u8 r = (b, r') \<and> at_marked r' ms"
  using r_take_ok [of r "[b]" ms 1] by (auto simp: plain_def r_u8_def)

lemma r_flag_ok:
  assumes "at_marked r ((True, if x then 1 else 0) # ms)"
  shows "\<exists>v r'. r_u8 r = (v, r') \<and> (v = 1) = x \<and> at_marked r' ms"
proof -
  obtain y ys where y: "reader_at r (y # ys)" "flag_variant ms ys" "(y = 1) = x"
    using assms by (auto simp: at_marked_def flag_variant_def list_all2_Cons1 split: if_splits)
  from rd.take_byte [OF y(1)] show ?thesis using y(2,3) by (auto simp: r_u8_def at_marked_def)
qed

lemma r_u16_ok: "at_marked r (plain (le_bytes 2 v) @ ms) \<Longrightarrow> \<exists>r'. r_u16 r = (v, r') \<and> at_marked r' ms"
  using r_take_ok [of r "le_bytes 2 v" ms 2] by (auto simp: r_u16_def le_word_le_bytes)

lemma r_u32_ok: "at_marked r (plain (le_bytes 4 v) @ ms) \<Longrightarrow> \<exists>r'. r_u32 r = (v, r') \<and> at_marked r' ms"
  using r_take_ok [of r "le_bytes 4 v" ms 4] by (auto simp: r_u32_def le_word_le_bytes)

lemma r_read_ok:
  "at_marked r (plain (bytes_of (x :: 'n::len barray)) @ ms) \<Longrightarrow> \<exists>r'. r_read r = (Inr x, r') \<and> at_marked r' ms"
  using r_take_ok [of r "bytes_of x" ms "LENGTH('n)"] by (auto simp: r_read_def)

lemma r_path_loop_ok:
  "at_marked r (concat (map marked_elem p) @ rest) \<Longrightarrow>
   \<exists>r'. r_path_loop (length p) acc r = (acc @ p, r') \<and> at_marked r' rest"
proof (induction p arbitrary: acc r)
  case (Cons e p)
  let ?tl = "concat (map marked_elem p) @ rest"
  have "at_marked r ((True, if Right e then 1 else 0) # plain (bytes_of (Sibling e)) @ ?tl)"
    using Cons.prems by (simp add: marked_elem_def [of e])
  from r_flag_ok [OF this] obtain v r1 where r1: "r_u8 r = (v, r1)" "(v = 1) = Right e"
    "at_marked r1 (plain (bytes_of (Sibling e)) @ ?tl)" by blast
  from r_read_ok [OF r1(3)] obtain r2 where r2: "r_read r1 = (Inr (Sibling e), r2)" "at_marked r2 ?tl"
    by blast
  show ?case
    using Cons.IH [OF r2(2), of "acc @ [e]"] r1(1,2) r2(1) by (cases e) (auto simp: Let_def split: if_splits)
qed simp

definition path_ok :: "path_elem list \<Rightarrow> bool" where
  "path_ok p \<longleftrightarrow> length p \<le> MaxDepth + 1"

definition fields_ok :: "tx_fields \<Rightarrow> bool" where
  "fields_ok fs \<longleftrightarrow> length fs < 2 ^ 16 \<and> (\<forall>f\<in>set fs. length (Bytes f) < 2 ^ 16)"

interpretation path_format: wire_format at_marked r_path marked_path path_ok
proof
  fix p r rest
  assume p: "path_ok p" and "at_marked r (marked_path p @ rest)"
  then have "at_marked r (plain (le_bytes 2 (word_of_nat (length p) :: u16)) @ concat (map marked_elem p) @ rest)"
    by (simp add: marked_path_def)
  from r_u16_ok [OF this] obtain r1 where r1: "r_u16 r = (word_of_nat (length p), r1)"
    "at_marked r1 (concat (map marked_elem p) @ rest)" by blast
  have "unat (word_of_nat (length p) :: u16) = length p"
    using p by (intro unat_word_of_nat_16) (simp add: path_ok_def MaxDepth_def)
  then show "\<exists>r'. r_path r = (p, r') \<and> at_marked r' rest"
    using r1 r_path_loop_ok [OF r1(2), of "[]"] p at_marked_err [OF r1(2)]
    by (auto simp: r_path_def path_ok_def Let_def)
qed

lemma r_fields_loop_ok:
  "at_marked r (concat (map (\<lambda>f. plain (enc_field f)) fs) @ rest) \<Longrightarrow> \<forall>f\<in>set fs. length (Bytes f) < 2 ^ 16 \<Longrightarrow>
   \<exists>r'. r_fields_loop (length fs) acc r = (acc @ fs, r') \<and> at_marked r' rest"
proof (induction fs arbitrary: acc r)
  case (Cons f fs)
  let ?tl = "concat (map (\<lambda>f. plain (enc_field f)) fs) @ rest"
  let ?n = "word_of_nat (length (Bytes f)) :: u16"
  have n: "unat ?n = length (Bytes f)" using Cons.prems(2) by (intro unat_word_of_nat_16) simp
  have "at_marked r ((False, Index f) # plain (le_bytes 2 ?n) @ plain (Bytes f) @ ?tl)"
    using Cons.prems(1) by (simp add: enc_field_def [of f] plain_Cons)
  from r_u8_ok [OF this] obtain r1 where r1: "r_u8 r = (Index f, r1)" "at_marked r1 (plain (le_bytes 2 ?n) @ plain (Bytes f) @ ?tl)"
    by blast
  from r_u16_ok [OF r1(2)] obtain r2 where r2: "r_u16 r1 = (?n, r2)" "at_marked r2 (plain (Bytes f) @ ?tl)" by blast
  from r_take_ok [OF r2(2) n [symmetric]] obtain r3 where r3: "r_take (unat ?n) r2 = (Some (Bytes f), r3)"
    "at_marked r3 ?tl" by blast
  show ?case
    using Cons.IH [OF r3(2), of "acc @ [f]"] Cons.prems(2) r1(1) r2(1) r3 at_marked_err [OF r3(2)]
    by (cases f) (simp add: Let_def)
qed simp

interpretation fields_format: wire_format at_marked r_fields "\<lambda>fs. plain (enc_fields fs)" fields_ok
proof
  fix fs r rest
  assume fs: "fields_ok fs" and "at_marked r (plain (enc_fields fs) @ rest)"
  then have "at_marked r (plain (le_bytes 2 (word_of_nat (length fs) :: u16)) @ concat (map (\<lambda>f. plain (enc_field f)) fs) @ rest)"
    by (simp add: enc_fields_def plain_concat)
  from r_u16_ok [OF this] obtain r1 where r1: "r_u16 r = (word_of_nat (length fs), r1)"
    "at_marked r1 (concat (map (\<lambda>f. plain (enc_field f)) fs) @ rest)" by blast
  have "unat (word_of_nat (length fs) :: u16) = length fs"
    using fs by (intro unat_word_of_nat_16) (simp add: fields_ok_def)
  then show "\<exists>r'. r_fields r = (fs, r') \<and> at_marked r' rest"
    using r1 r_fields_loop_ok [OF r1(2), of "[]"] fs at_marked_err [OF r1(2)]
    by (auto simp: r_fields_def fields_ok_def Let_def)
qed

definition anchor_ok :: "anchor_proof \<Rightarrow> bool" where
  "anchor_ok a \<longleftrightarrow> path_ok (AccPath a) \<and> fields_ok (GenTxFields a) \<and> path_ok (GenL0 a) \<and>
     path_ok (GenL1 a) \<and> path_ok (GenL2 a)"

definition wire_ok :: "proof_bundle \<Rightarrow> bool" where
  "wire_ok b \<longleftrightarrow> fields_ok (Fields b) \<and> path_ok (MTxIDPath' b) \<and> path_ok (SubtreePath b) \<and>
     path_ok (BlockPath b) \<and> (case Anchor b of None \<Rightarrow> True | Some a \<Rightarrow> anchor_ok a)"

lemma r_anchor_ok:
  assumes "anchor_ok a" and "at_marked r (marked_anchor a @ rest)"
  shows "\<exists>r'. r_anchor r = (Inr a, r') \<and> at_marked r' rest"
proof -
  note ok = assms(1) [unfolded anchor_ok_def]
  note at = assms(2) [unfolded marked_anchor_def append_assoc]
  obtain r1 where r1: "r_read r = (Inr (AccRoot a), r1)"
    and "at_marked r1 (marked_path (AccPath a) @ plain (enc_fields (GenTxFields a)) @ marked_path (GenL0 a) @ marked_path (GenL1 a)
      @ marked_path (GenL2 a) @ plain (bytes_of (CarryingBlockMerkleRoot a)) @ plain (bytes_of (CarryingHeader a)) @ rest)"
    using r_read_ok [OF at] by blast
  then obtain r2 where r2: "r_path r1 = (AccPath a, r2)"
    and "at_marked r2 (plain (enc_fields (GenTxFields a)) @ marked_path (GenL0 a) @ marked_path (GenL1 a)
      @ marked_path (GenL2 a) @ plain (bytes_of (CarryingBlockMerkleRoot a)) @ plain (bytes_of (CarryingHeader a)) @ rest)"
    using path_format.law ok by blast
  then obtain r3 where r3: "r_fields r2 = (GenTxFields a, r3)"
    and "at_marked r3 (marked_path (GenL0 a) @ marked_path (GenL1 a)
      @ marked_path (GenL2 a) @ plain (bytes_of (CarryingBlockMerkleRoot a)) @ plain (bytes_of (CarryingHeader a)) @ rest)"
    using fields_format.law ok by blast
  then obtain r4 r5 where r4: "r_path r3 = (GenL0 a, r4)" "r_path r4 = (GenL1 a, r5)"
    and "at_marked r5 (marked_path (GenL2 a) @ plain (bytes_of (CarryingBlockMerkleRoot a)) @ plain (bytes_of (CarryingHeader a)) @ rest)"
    using path_format.two ok by blast
  then obtain r6 where r6: "r_path r5 = (GenL2 a, r6)"
    and "at_marked r6 (plain (bytes_of (CarryingBlockMerkleRoot a)) @ plain (bytes_of (CarryingHeader a)) @ rest)"
    using path_format.law ok by blast
  then obtain r7 where r7: "r_read r6 = (Inr (CarryingBlockMerkleRoot a), r7)"
    and "at_marked r7 (plain (bytes_of (CarryingHeader a)) @ rest)" using r_read_ok by blast
  then obtain r8 where r8: "r_read r7 = (Inr (CarryingHeader a), r8)" and "at_marked r8 rest"
    using r_read_ok by blast
  then show ?thesis using r1 r2 r3 r4 r6 r7 by (simp add: r_anchor_def)
qed

lemma Deserialize_variant:
  assumes "wire_ok b" and "flag_variant (marked_bundle b) data"
  shows "Deserialize data = Inr b"
proof -
  note ok = assms(1) [unfolded wire_ok_def]
  define tl where "tl = (case Anchor b of None \<Rightarrow> [(True, 0)] | Some a \<Rightarrow> (True, 1) # marked_anchor a)"
  define r0 where "r0 = \<lparr>rbuf = data, roff = 0, rerr = None\<rparr>"
  have "at_marked r0 (plain (bytes_of (TXID (OutputRef b))) @ plain (le_bytes 4 (Vout (OutputRef b))) @ plain (enc_fields (Fields b)) @
     marked_path (MTxIDPath' b) @ marked_path (SubtreePath b) @ marked_path (BlockPath b) @ plain (bytes_of (Header b)) @ tl)"
    using assms(2) by (auto simp: at_marked_def reader_at_def r0_def marked_bundle_def tl_def)
  from r_read_ok [OF this] obtain r1 where r1: "r_read r0 = (Inr (TXID (OutputRef b)), r1)"
    and "at_marked r1 (plain (le_bytes 4 (Vout (OutputRef b))) @ plain (enc_fields (Fields b)) @
     marked_path (MTxIDPath' b) @ marked_path (SubtreePath b) @ marked_path (BlockPath b) @ plain (bytes_of (Header b)) @ tl)"
    by blast
  then obtain r2 where r2: "r_u32 r1 = (Vout (OutputRef b), r2)" and "at_marked r2 (plain (enc_fields (Fields b)) @
     marked_path (MTxIDPath' b) @ marked_path (SubtreePath b) @ marked_path (BlockPath b) @ plain (bytes_of (Header b)) @ tl)"
    using r_u32_ok by blast
  then obtain r3 where r3: "r_fields r2 = (Fields b, r3)" and "at_marked r3 (
     marked_path (MTxIDPath' b) @ marked_path (SubtreePath b) @ marked_path (BlockPath b) @ plain (bytes_of (Header b)) @ tl)"
    using fields_format.law ok by blast
  then obtain r4 r5 where r4: "r_path r3 = (MTxIDPath' b, r4)" "r_path r4 = (SubtreePath b, r5)"
    and "at_marked r5 (marked_path (BlockPath b) @ plain (bytes_of (Header b)) @ tl)"
    using path_format.two ok by blast
  then obtain r6 where r6: "r_path r5 = (BlockPath b, r6)" and "at_marked r6 (plain (bytes_of (Header b)) @ tl)"
    using path_format.law ok by blast
  then obtain r7 where r7: "r_read r6 = (Inr (Header b), r7)" and at7: "at_marked r7 tl"
    using r_read_ok by blast
  note front = r1 [unfolded r0_def] r2 r3 r4 r6 r7
  have fin: "r_finish b' r = Inr b'" if "at_marked r []" for b' r
    using that by (simp add: r_finish_def at_marked_err at_marked_end)
  show ?thesis
  proof (cases "Anchor b")
    case None
    with at7 obtain v r8 where "r_u8 r7 = (v, r8)" "v \<noteq> 1" "at_marked r8 []"
      using r_flag_ok [of r7 False "[]"] by (auto simp: tl_def)
    then show ?thesis using None front fin by (simp add: Deserialize_def)
  next
    case (Some a)
    with at7 have "at_marked r7 ((True, if True then 1 else 0) # marked_anchor a)" by (simp add: tl_def)
    from r_flag_ok [OF this] obtain r8 where r8: "r_u8 r7 = (1, r8)" "at_marked r8 (marked_anchor a @ [])" by auto
    moreover have "anchor_ok a" using ok Some by simp
    ultimately obtain r9 where "r_anchor r8 = (Inr a, r9)" "at_marked r9 []" using r_anchor_ok by blast
    then show ?thesis using Some front r8(1) fin by (simp add: Deserialize_def)
  qed
qed

lemma Deserialize_Serialize: "wire_ok b \<Longrightarrow> Deserialize (Serialize b) = Inr b"
  using Deserialize_variant flag_variant_same by (simp add: Serialize_marked)

section \<open>What verification means\<close>

lemma HeaderMerkleRoot_eq: "header_root h = bytes_of r \<Longrightarrow> HeaderMerkleRoot h = r"
  by (simp add: HeaderMerkleRoot_def header_root_def)

lemma header_root_eq: "header_root h = bytes_of (HeaderMerkleRoot h)"
  by (simp add: HeaderMerkleRoot_def header_root_def)

definition inclusion_ok :: "proof_bundle \<Rightarrow> bool" where
  "inclusion_ok b \<longleftrightarrow>
     length (MTxIDPath' b) + length (SubtreePath b) + length (BlockPath b) \<le> MaxDepth \<and>
     length (SubtreePath b) \<le> 20 \<and> Fields b \<noteq> [] \<and>
     Fold (leafHash (Fields b ! 0)) (MTxIDPath' b) = TXID (OutputRef b) \<and>
     Fold (TXID (OutputRef b)) (SubtreePath b @ BlockPath b) = HeaderMerkleRoot (Header b)"

lemma Verify_iff:
  "fst (Verify b view) \<longleftrightarrow> inclusion_ok b \<and> (on_view view (Header b) \<or> anchored b view)"
  by (auto simp: Verify_def inclusion_ok_def Let_def LeafForField_def add.assoc)

lemma Verify_accepts:
  "inclusion_ok b \<Longrightarrow> on_view view (Header b) \<or> anchored b view \<Longrightarrow>
   Verify b view = (True, length (SubtreePath b) + length (BlockPath b), [])"
  by (auto simp: Verify_def inclusion_ok_def Let_def LeafForField_def add.assoc)

lemma Verify_off_chain:
  "inclusion_ok b \<Longrightarrow> \<not> on_view view (Header b) \<Longrightarrow> \<not> anchored b view \<Longrightarrow>
   Verify b view = (False, length (SubtreePath b) + length (BlockPath b), ''L3/L4-chain'')"
  by (auto simp: Verify_def inclusion_ok_def Let_def LeafForField_def add.assoc)

section \<open>Clients of a proof source\<close>

context proof_source_contract
begin

text \<open>What a good source adds to a bundle whose L0 part is right.\<close>

lemma Reanchor_ok:
  assumes "good s" and "LocateTx (source s) (TXID (OutputRef b)) = Inr bh"
    and "Fields b \<noteq> []" and "Fold (leafHash (Fields b ! 0)) (MTxIDPath' b) = TXID (OutputRef b)"
    and "length (MTxIDPath' b) \<le> 64"
  obtains b' where "Reanchor b (source s) = Inr b'" and "inclusion_ok b'"
    and "DoubleSHA256 (bytes_of (Header b')) = bh"
    and "b' = b\<lparr>SubtreePath := SubtreePath b', BlockPath := BlockPath b', Header := Header b'\<rparr>"
proof -
  obtain l1 sub l2 root h where p: "SubtreePathFor (source s) (TXID (OutputRef b)) = Inr (l1, sub)"
    "BlockPathFor (source s) sub bh = Inr (l2, root)" "HeaderFor (source s) bh = Inr h"
    "Fold (TXID (OutputRef b)) l1 = sub" "length l1 \<le> 20" "Fold sub l2 = root" "length l2 \<le> 63"
    "header_root h = bytes_of root" "DoubleSHA256 (bytes_of h) = bh"
    using located [OF assms(1,2)] by blast
  let ?b = "b\<lparr>SubtreePath := l1, BlockPath := l2, Header := h\<rparr>"
  have "Reanchor b (source s) = Inr ?b" using p(1-3) assms(2) by (simp add: Reanchor_def)
  moreover have "inclusion_ok ?b"
    using p assms(3-5) HeaderMerkleRoot_eq [OF p(8)] by (simp add: inclusion_ok_def MaxDepth_def)
  ultimately show thesis using that [of ?b] p(9) by simp
qed

text \<open>\<open>Build\<close> is the L0 part of the wallet, completed by \<open>Reanchor\<close>.\<close>

lemma Build_ok:
  assumes "good s" and "MTxIDPath fs k = Inr (leaf, l0, TXID out)" and "length fs < 2 ^ 64"
    and "LocateTx (source s) (TXID out) = Inr bh"
  obtains b where "Build out fs k (source s) = Inr b" and "inclusion_ok b"
    and "DoubleSHA256 (bytes_of (Header b)) = bh" and "Fields b = [fs ! unat k]"
    and "OutputRef b = out" and "MTxIDPath' b = l0" and "Anchor b = None"
proof -
  have k: "unat k < length fs" and p0: "MerklePath (build_layers (map leafHash fs)) (int (unat k)) = Inr l0"
    and m: "TXID out = tree_root (map leafHash fs)"
    using assms(2) by (auto simp: MTxIDPath_def BuildMTxID_def BuildMerkleTree_eq split: if_splits sum.splits)
  have l0: "Fold (leafHash (fs ! unat k)) l0 = TXID out" "length l0 \<le> 64"
    using MerklePath_Fold [OF p0] k m assms(3) by (auto simp: bit_len_le_iff)
  let ?b0 = "\<lparr>OutputRef = out, Fields = [fs ! unat k], MTxIDPath' = l0, SubtreePath = [],
      BlockPath = [], Header = barray_of [], Anchor = None\<rparr>"
  from Reanchor_ok [OF assms(1), of ?b0 bh] assms(4) l0 obtain b where
    b: "Reanchor ?b0 (source s) = Inr b" "inclusion_ok b" "DoubleSHA256 (bytes_of (Header b)) = bh"
    "b = ?b0\<lparr>SubtreePath := SubtreePath b, BlockPath := BlockPath b, Header := Header b\<rparr>"
    by auto
  have "Build out fs k (source s) = Inr b"
    using b(1) assms(2) k by (auto simp: Build_def Reanchor_def split: sum.splits)
  moreover have "Fields b = [fs ! unat k]" "OutputRef b = out" "MTxIDPath' b = l0" "Anchor b = None"
    by (subst b(4), simp)+
  ultimately show thesis using that b(2,3) by blast
qed

end

lemma good_nodeI: "reachable_node cap n \<Longrightarrow> 0 < cap \<Longrightarrow> cap \<le> 2 ^ 20 \<Longrightarrow> good_node n"
  using node_inv_reachable by (auto simp: good_node_def)

text \<open>The header of a bundle built at a node is on the node's chain as long as the block is.\<close>

lemma on_node_view:
  assumes "good_node n" and "DoubleSHA256 (bytes_of h) = bh" and "bh \<in> dom (blocks n)"
  shows "on_view (Some (node_chain n)) h \<longleftrightarrow> go_get False (onBest n) bh"
proof -
  obtain cap sb where "node_inv cap n" "blocks n bh = Some sb" using assms(1,3) by (auto simp: good_node_def)
  then show ?thesis
    using block_at(3) assms(2) by (auto simp: on_view_def node_chain_def node_Contains_def Let_def)
qed

lemma located_block:
  assumes "good_node n" and "node_LocateTx n txid = Inr bh"
  shows "bh \<in> dom (blocks n)"
proof -
  obtain cap e where "node_inv cap n" "txIndex n txid = Some e" "te_blockHash e = bh"
    using assms by (auto simp: good_node_def node_LocateTx_def split: option.splits)
  then show ?thesis using known_tx by blast
qed

section \<open>Sealed data never changes\<close>

lemma step_keeps_blocks:
  assumes "node_inv cap n" and "node_step n n'"
  shows "blocks n \<subseteq>\<^sub>m blocks n' \<and> (\<forall>t e. txIndex n t = Some e \<longrightarrow>
    (\<exists>e'. txIndex n' t = Some e' \<and> (e' = e \<or> te_blockHash e' \<notin> dom (blocks n))))"
  using assms(2)
proof (cases rule: node_stepE)
  case (seal txids c bh)
  then have "txids \<noteq> []" by (auto simp: SealBlock_def)
  from SealBlock_ok [OF assms(1) this, of c] seal(1,2) obtain sb where
    sb: "bh = sb_hash sb" "n' = add_block n sb" by auto
  have "\<exists>e'. txIndex n' t = Some e' \<and> (e' = e \<or> te_blockHash e' \<notin> dom (blocks n))" if "txIndex n t = Some e" for t e
  proof (cases "t \<in> set (concat (map hd (sb_subtreeTrees sb)))")
    case True
    from index_trees_in [OF this, of "sb_hash sb" 0 "txIndex n"] show ?thesis
      using sb seal(3) by (auto simp: add_block_def)
  next
    case False
    then show ?thesis using index_trees_out [OF False] that sb by (simp add: add_block_def)
  qed
  moreover have "blocks n \<subseteq>\<^sub>m blocks n'"
    using sb seal(3) by (auto simp: add_block_def map_le_def)
  ultimately show ?thesis by blast
qed (auto simp: MarkSpent_def SetOutputValue_def Orphan_def Restore_def)

lemma steps_keep_blocks:
  assumes "node_step\<^sup>*\<^sup>* n n'" and "node_inv cap n"
  shows "node_inv cap n' \<and> blocks n \<subseteq>\<^sub>m blocks n' \<and> (\<forall>t e. txIndex n t = Some e \<longrightarrow>
    (\<exists>e'. txIndex n' t = Some e' \<and> (e' = e \<or> te_blockHash e' \<notin> dom (blocks n))))"
  using assms
proof (induction rule: rtranclp_induct)
  case base
  then show ?case by simp
next
  case (step m n')
  then have m: "node_inv cap m" "blocks n \<subseteq>\<^sub>m blocks m" "dom (blocks n) \<subseteq> dom (blocks m)"
    by (simp_all add: map_le_implies_dom_le)
  note s = step_keeps_blocks [OF m(1) step.hyps(2)]
  have "\<exists>e'. txIndex n' t = Some e' \<and> (e' = e \<or> te_blockHash e' \<notin> dom (blocks n))"
    if e: "txIndex n t = Some e" for t e
  proof -
    obtain e1 where e1: "txIndex m t = Some e1" "e1 = e \<or> te_blockHash e1 \<notin> dom (blocks n)"
      using step.IH [OF step.prems] e by blast
    obtain e2 where "txIndex n' t = Some e2" "e2 = e1 \<or> te_blockHash e2 \<notin> dom (blocks m)"
      using s e1(1) by blast
    then show ?thesis using e1(2) m(3) by blast
  qed
  then show ?case
    using node_inv_step [OF m(1) step.hyps(2)] s m(2) map_le_trans by blast
qed

text \<open>The proofs of a transaction that stays in its block are the same ever after.\<close>

lemma frozen_proofs:
  assumes inv: "node_inv cap n" and steps: "node_step\<^sup>*\<^sup>* n n'"
    and tx: "node_LocateTx n txid = Inr bh" "node_LocateTx n' txid = Inr bh"
  shows "node_SubtreePathFor n' txid = node_SubtreePathFor n txid \<and>
         node_BlockPathFor n' r bh = node_BlockPathFor n r bh \<and> node_HeaderFor n' bh = node_HeaderFor n bh"
proof -
  note keep = steps_keep_blocks [OF steps inv]
  obtain e where e: "txIndex n txid = Some e" "te_blockHash e = bh"
    using tx(1) by (auto simp: node_LocateTx_def split: option.splits)
  then obtain sb where sb: "blocks n bh = Some sb" using known_tx [OF inv e(1)] by auto
  then have "blocks n' bh = Some sb" using keep by (force simp: map_le_def dom_def)
  moreover have "txIndex n' txid = Some e"
  proof -
    obtain e' where "txIndex n' txid = Some e'" "e' = e \<or> te_blockHash e' \<notin> dom (blocks n)"
      using keep e(1) by blast
    then show ?thesis using tx(2) sb by (auto simp: node_LocateTx_def)
  qed
  ultimately show ?thesis
    using e sb by (simp add: node_SubtreePathFor_def node_BlockPathFor_def node_HeaderFor_def)
qed

text \<open>Decoding a directed proof against the block it claims.\<close>

lemma block_leaf_binding:
  assumes ok: "block_ok cap sb" and l2: "length p2 = bit_len (length (leaves_of sb) - 1)"
    and l1: "length p1 = bit_len (length (leaves_of sb ! honest_leaf (sb_subtreeRoots sb) p2) - 1)"
    and fold: "Fold (Fold x p1) p2 = sb_blockRoot sb"
  shows "x \<in> set (concat (leaves_of sb)) \<or> exhibits (forgery (sb_subtreeRoots sb) (Fold x p1) p2) \<or>
    exhibits (forgery (leaves_of sb ! honest_leaf (sb_subtreeRoots sb) p2) x p1)"
proof -
  let ?rs = "sb_subtreeRoots sb"
  let ?j = "honest_leaf ?rs p2"
  have len: "length ?rs = length (leaves_of sb)" using block_lengths [OF ok] by simp
  have ne: "?rs \<noteq> []" using ok by (auto simp: block_ok_def)
  have "length p2 = bit_len (length ?rs - 1)" using l2 len by simp
  note h = honest_proof(1) [OF ne this] and b = tree_binding [OF ne this, of "Fold x p1"]
  have j: "?j < length (leaves_of sb)" using h len by simp
  then have l: "leaves_of sb ! ?j \<in> set (leaves_of sb)" "leaves_of sb ! ?j \<noteq> []"
    using ok by (auto simp: block_ok_def)
  have root: "?rs ! ?j = tree_root (leaves_of sb ! ?j)"
    using ok j by (metis block_ok_def nth_map)
  have "Fold (Fold x p1) p2 = tree_root ?rs" using fold ok by (simp add: block_ok_def)
  with b consider "Fold x p1 = tree_root (leaves_of sb ! ?j)" | "exhibits (forgery ?rs (Fold x p1) p2)"
    using root by auto
  then show ?thesis
  proof cases
    case 1
    have "leaves_of sb ! ?j ! honest_leaf (leaves_of sb ! ?j) p1 \<in> set (concat (leaves_of sb))"
      unfolding set_concat using nth_mem [OF honest_proof(1) [OF l(2) l1]] l(1) by (rule UN_I [rotated])
    then show ?thesis using tree_binding [OF l(2) l1 1] by blast
  qed simp
qed

text \<open>The range over one header: one mountain of one leaf, whose root is the leaf.\<close>

lemma single_mountain: "mountainSizes 1 = [1]"
proof -
  have "mountain_loop 64 1 = [1]" by (simp add: mountain_loop.simps eval_nat_numeral)
  then show ?thesis by (simp add: mountainSizes_def)
qed

lemma Root_single: "Root (build_mmr [h]) = DoubleSHA256 (bytes_of h)"
  by (simp add: Root_def peaks_def mleaves_build_mmr single_mountain MerkleRoot_eq tree_root_single
      go_slice_def bagPeaks_def root_or_zero_def)

section \<open>Properties\<close>

text \<open>
  Round trip of the wire format: a bundle whose field lists and field contents fit 16-bit
  lengths, and whose paths have at most 256 elements, is read back exactly; so two such
  bundles with the same bytes are equal.
\<close>

theorem bundle_roundtrip:
  assumes "wire_ok b"
  shows "Deserialize (Serialize b) = Inr b \<and> (\<forall>b'. wire_ok b' \<longrightarrow> Serialize b' = Serialize b \<longrightarrow> b' = b)"
proof (intro conjI allI impI)
  show "Deserialize (Serialize b) = Inr b" by (rule Deserialize_Serialize [OF assms])
  fix b' assume b': "wire_ok b'" "Serialize b' = Serialize b"
  have "Inr b' = Deserialize (Serialize b')" using Deserialize_Serialize [OF b'(1)] by simp
  then show "b' = b" using Deserialize_Serialize [OF assms] b'(2) by simp
qed

theorem bundle_roundtrip_witness:
  "Deserialize (Serialize \<lparr>OutputRef = \<lparr>TXID = zero_hash, Vout = 7\<rparr>,
      Fields = [\<lparr>Index = 3, Bytes = [1, 2, 3]\<rparr>], MTxIDPath' = [\<lparr>Sibling = zero_hash, Right = True\<rparr>],
      SubtreePath = [], BlockPath = [\<lparr>Sibling = zero_hash, Right = False\<rparr>], Header = barray_of [9],
      Anchor = Some \<lparr>AccRoot = zero_hash, AccPath = [], GenTxFields = [], GenL0 = [], GenL1 = [],
        GenL2 = [], CarryingBlockMerkleRoot = zero_hash, CarryingHeader = barray_of []\<rparr>\<rparr>)
   = Inr \<lparr>OutputRef = \<lparr>TXID = zero_hash, Vout = 7\<rparr>,
      Fields = [\<lparr>Index = 3, Bytes = [1, 2, 3]\<rparr>], MTxIDPath' = [\<lparr>Sibling = zero_hash, Right = True\<rparr>],
      SubtreePath = [], BlockPath = [\<lparr>Sibling = zero_hash, Right = False\<rparr>], Header = barray_of [9],
      Anchor = Some \<lparr>AccRoot = zero_hash, AccPath = [], GenTxFields = [], GenL0 = [], GenL1 = [],
        GenL2 = [], CarryingBlockMerkleRoot = zero_hash, CarryingHeader = barray_of []\<rparr>\<rparr>"
  (is "Deserialize (Serialize ?b) = _")
proof -
  have "wire_ok ?b" by (simp add: wire_ok_def anchor_ok_def path_ok_def fields_ok_def MaxDepth_def)
  from bundle_roundtrip [OF this] show ?thesis by blast
qed

text \<open>
  C11. Build, then verify: for a transaction a reachable node has confirmed, \<open>Build\<close> reveals
  exactly the chosen field, and \<open>Verify\<close> against the node's chain accepts it with depth
  |L1|+|L2| as long as its block is on the best chain, and gives \<open>L3/L4-chain\<close> after it is not.
\<close>

theorem built_bundle_verifies:
  assumes "reachable_node cap n" and "0 < cap" and "cap \<le> 2 ^ 20"
    and "MTxIDPath fs k = Inr (leaf, l0, TXID out)" and "length fs < 2 ^ 64"
    and "node_LocateTx n (TXID out) = Inr bh"
  shows "\<exists>b. Build out fs k (node_source n) = Inr b \<and> Fields b = [fs ! unat k] \<and>
    DoubleSHA256 (bytes_of (Header b)) = bh \<and>
    Verify b (Some (node_chain n)) =
      (if go_get False (onBest n) bh then (True, length (SubtreePath b) + length (BlockPath b), [])
       else (False, length (SubtreePath b) + length (BlockPath b), ''L3/L4-chain''))"
proof -
  note good = good_nodeI [OF assms(1-3)]
  have "LocateTx (node_source n) (TXID out) = Inr bh" using assms(6) by (simp add: node_source_def)
  from node_src.Build_ok [OF good assms(4,5) this] obtain b where
    b: "Build out fs k (node_source n) = Inr b" "inclusion_ok b" "DoubleSHA256 (bytes_of (Header b)) = bh"
    "Fields b = [fs ! unat k]" "Anchor b = None" by metis
  have "on_view (Some (node_chain n)) (Header b) = go_get False (onBest n) bh"
    by (rule on_node_view [OF good b(3) located_block [OF good assms(6)]])
  moreover have "\<not> anchored b (Some (node_chain n))" using b(5) by (simp add: anchored_def)
  ultimately show ?thesis using b Verify_accepts Verify_off_chain by auto
qed

lemma single_field_tx:
  "MTxIDPath [f] 0 = Inr (leafHash f, [], leafHash f)"
  by (simp add: MTxIDPath_def BuildMTxID_def BuildMerkleTree_def build_layers.simps MerklePath_def)

text \<open>A node with one block that holds one transaction, for the instances.\<close>

lemma one_tx_node:
  obtains n bh where "reachable_node 1 n" and "node_LocateTx n t = Inr bh" and "go_get False (onBest n) bh"
proof -
  obtain sb where r: "reachable_node 1 (add_block (NewMockNode (int 1)) sb)"
    "sealed 1 (NewMockNode (int 1)) [t] False sb" using one_block [of 1 "[t]" False] by auto
  have "go_get False (onBest (add_block (NewMockNode (int 1)) sb)) (sb_hash sb)" by (simp add: add_block_def)
  then show thesis using that r(1) sealed_index [OF r(2)] by simp
qed

theorem built_bundle_verifies_witness:
  "\<exists>n b d. Build \<lparr>TXID = leafHash \<lparr>Index = 0, Bytes = [5]\<rparr>, Vout = 0\<rparr> [\<lparr>Index = 0, Bytes = [5]\<rparr>] 0
       (node_source n) = Inr b \<and> Verify b (Some (node_chain n)) = (True, d, [])"
proof -
  let ?f = "\<lparr>Index = 0, Bytes = [5]\<rparr>" and ?o = "\<lparr>TXID = leafHash \<lparr>Index = 0, Bytes = [5]\<rparr>, Vout = 0\<rparr>"
  obtain n bh where n: "reachable_node 1 n" "node_LocateTx n (leafHash ?f) = Inr bh" "go_get False (onBest n) bh"
    using one_tx_node .
  have "MTxIDPath [?f] 0 = Inr (leafHash ?f, [], TXID ?o)" by (simp add: single_field_tx)
  from built_bundle_verifies [OF n(1) _ _ this] n(2,3) show ?thesis by auto
qed

text \<open>
  C13. The frozen core: \<open>Reanchor\<close>, from any source, never touches the output, the revealed fields,
  their path or the anchor; and as long as the transaction stays in its block, whatever else
  the node does (seals, orphanings, restores), it returns the built bundle unchanged.
\<close>

theorem frozen_core:
  assumes "reachable_node cap n" and "0 < cap" and "node_step\<^sup>*\<^sup>* n n'"
    and "Build out fs k (node_source n) = Inr b"
    and "node_LocateTx n' (TXID out) = node_LocateTx n (TXID out)"
  shows "Reanchor b (node_source n') = Inr b \<and>
    (\<forall>src b'. Reanchor b src = Inr b' \<longrightarrow> OutputRef b' = OutputRef b \<and> Fields b' = Fields b \<and>
       MTxIDPath' b' = MTxIDPath' b \<and> Anchor b' = Anchor b)"
proof
  have inv: "node_inv cap n" using assms(1,2) by (rule node_inv_reachable)
  obtain l1 sub bh l2 r h where p: "node_SubtreePathFor n (TXID out) = Inr (l1, sub)"
    "node_LocateTx n (TXID out) = Inr bh" "node_BlockPathFor n sub bh = Inr (l2, r)" "node_HeaderFor n bh = Inr h"
    and b: "OutputRef b = out" "SubtreePath b = l1" "BlockPath b = l2" "Header b = h"
    using assms(4) by (auto simp: Build_def node_source_def split: sum.splits if_splits)
  have "node_LocateTx n' (TXID out) = Inr bh" using assms(5) p(2) by simp
  from frozen_proofs [OF inv assms(3) p(2) this] p b
  show "Reanchor b (node_source n') = Inr b" by (simp add: Reanchor_def node_source_def assms(5))
  show "\<forall>src b'. Reanchor b src = Inr b' \<longrightarrow> OutputRef b' = OutputRef b \<and> Fields b' = Fields b \<and>
       MTxIDPath' b' = MTxIDPath' b \<and> Anchor b' = Anchor b"
    by (auto simp: Reanchor_def split: sum.splits)
qed

theorem frozen_core_witness:
  "\<exists>n b bh. Build \<lparr>TXID = leafHash \<lparr>Index = 0, Bytes = [5]\<rparr>, Vout = 0\<rparr> [\<lparr>Index = 0, Bytes = [5]\<rparr>] 0
       (node_source n) = Inr b \<and> Reanchor b (node_source (Orphan n bh)) = Inr b"
proof -
  let ?f = "\<lparr>Index = 0, Bytes = [5]\<rparr>" and ?o = "\<lparr>TXID = leafHash \<lparr>Index = 0, Bytes = [5]\<rparr>, Vout = 0\<rparr>"
  obtain n bh where n: "reachable_node 1 n" "node_LocateTx n (leafHash ?f) = Inr bh" "go_get False (onBest n) bh"
    using one_tx_node .
  have good: "good_node n" using good_nodeI [OF n(1)] by simp
  have m: "MTxIDPath [?f] 0 = Inr (leafHash ?f, [], TXID ?o)" and len: "length [?f] < 2 ^ 64"
    by (simp_all add: single_field_tx)
  have l: "LocateTx (node_source n) (TXID ?o) = Inr bh" using n(2) by (simp add: node_source_def)
  obtain b where b: "Build ?o [?f] 0 (node_source n) = Inr b"
    by (rule node_src.Build_ok [OF good m len l], rule that)
  have "node_step\<^sup>*\<^sup>* n (Orphan n bh)" by (blast intro: node_step.orphan)
  from frozen_core [OF n(1) _ this b] b show ?thesis by (auto simp: node_LocateTx_def Orphan_def)
qed

text \<open>
  The verdict on a bundle whose own paths are in order and that has no anchor follows its block on and
  off the best chain.
\<close>

lemma node_verdict:
  assumes "good_node n" and "inclusion_ok b" and "Anchor b = None" and "DoubleSHA256 (bytes_of (Header b)) = bh"
    and "bh \<in> dom (blocks n)"
  shows "Verify b (Some (node_chain n)) =
      (if go_get False (onBest n) bh then (True, length (SubtreePath b) + length (BlockPath b), [])
       else (False, length (SubtreePath b) + length (BlockPath b), ''L3/L4-chain''))"
    and "NeedsReanchor b (Some (node_chain n)) \<longleftrightarrow> \<not> go_get False (onBest n) bh"
proof -
  note on = on_node_view [OF assms(1,4,5)]
  have un: "\<not> anchored b (Some (node_chain n))" using assms(3) by (simp add: anchored_def)
  show "Verify b (Some (node_chain n)) =
      (if go_get False (onBest n) bh then (True, length (SubtreePath b) + length (BlockPath b), [])
       else (False, length (SubtreePath b) + length (BlockPath b), ''L3/L4-chain''))"
    using on un Verify_accepts [OF assms(2)] Verify_off_chain [OF assms(2)] by simp
  show "NeedsReanchor b (Some (node_chain n)) \<longleftrightarrow> \<not> go_get False (onBest n) bh"
    using on un by (simp add: NeedsReanchor_def on_view_def)
qed

lemma MTxIDPath_length:
  assumes "MTxIDPath fs k = Inr (leaf, l0, m)" and "length fs < 2 ^ 64"
  shows "length l0 \<le> 64"
proof -
  have k: "unat k < length fs" and p: "MerklePath (build_layers (map leafHash fs)) (int (unat k)) = Inr l0"
    using assms(1) by (auto simp: MTxIDPath_def BuildMTxID_def BuildMerkleTree_eq split: if_splits sum.splits)
  then show ?thesis using MerklePath_Fold [OF p] assms(2) by (auto simp: bit_len_le_iff)
qed

lemma Build_reads: "Build out fs k src = Inr b \<Longrightarrow> \<exists>leaf l0. MTxIDPath fs k = Inr (leaf, l0, TXID out)"
  by (auto simp: Build_def split: sum.splits if_splits)

lemma Build_locates: "Build out fs k (node_source n) = Inr b \<Longrightarrow> \<exists>bh. node_LocateTx n (TXID out) = Inr bh"
  by (auto simp: Build_def node_source_def split: sum.splits if_splits)

text \<open>
  \<open>NeedsReanchor\<close> and \<open>Verify\<close> agree: a bundle whose own proof is in order needs reanchoring
  at a header view exactly when \<open>Verify\<close> rejects it there, and then for the chain step; without
  a header view nothing is accepted and nothing is asked for.
\<close>

theorem NeedsReanchor_agrees:
  assumes "inclusion_ok b"
  shows "NeedsReanchor b (Some view) = (\<not> fst (Verify b (Some view))) \<and>
    (NeedsReanchor b (Some view) \<longrightarrow> snd (snd (Verify b (Some view))) = ''L3/L4-chain'') \<and>
    \<not> fst (Verify b None) \<and> \<not> NeedsReanchor b None"
proof -
  have "\<not> anchored b None"
    by (simp add: anchored_def anchorBindsToChain_def split: option.split)
  then have "\<not> fst (Verify b None)" by (simp add: Verify_iff on_view_def)
  moreover have "NeedsReanchor b (Some view) = (\<not> fst (Verify b (Some view)))"
    using assms by (simp add: NeedsReanchor_def Verify_iff on_view_def)
  moreover have "snd (snd (Verify b (Some view))) = ''L3/L4-chain''" if "NeedsReanchor b (Some view)"
    using Verify_off_chain [OF assms] that by (simp add: NeedsReanchor_def on_view_def split: if_splits)
  ultimately show ?thesis by (simp add: NeedsReanchor_def)
qed

theorem NeedsReanchor_agrees_witness:
  "NeedsReanchor \<lparr>OutputRef = \<lparr>TXID = leafHash \<lparr>Index = 0, Bytes = [5]\<rparr>, Vout = 0\<rparr>,
      Fields = [\<lparr>Index = 0, Bytes = [5]\<rparr>], MTxIDPath' = [], SubtreePath = [], BlockPath = [],
      Header = make_header None (leafHash \<lparr>Index = 0, Bytes = [5]\<rparr>) 0, Anchor = None\<rparr> (Some (node_chain (NewMockNode 1)))
   = (\<not> fst (Verify \<lparr>OutputRef = \<lparr>TXID = leafHash \<lparr>Index = 0, Bytes = [5]\<rparr>, Vout = 0\<rparr>,
      Fields = [\<lparr>Index = 0, Bytes = [5]\<rparr>], MTxIDPath' = [], SubtreePath = [], BlockPath = [],
      Header = make_header None (leafHash \<lparr>Index = 0, Bytes = [5]\<rparr>) 0, Anchor = None\<rparr> (Some (node_chain (NewMockNode 1)))))"
  (is "NeedsReanchor ?b _ = _")
proof -
  have "inclusion_ok ?b"
    using HeaderMerkleRoot_eq [OF make_header_slots(2)] by (simp add: inclusion_ok_def MaxDepth_def)
  from NeedsReanchor_agrees [OF this] show ?thesis by blast
qed

text \<open>
  C12. What acceptance proves, for paths of the right length: if \<open>Verify\<close> accepts a bundle for the header of a block of
  a reachable node, its block path is as long as the paths of that block's root tree, and its subtree path as long
  as the paths of the subtree that the block path leads to, then its transaction id is one of the transactions of
  the block, or the bundle exhibits a SHA-256d collision. The two lengths are hypotheses: \<open>Verify\<close> does not compare
  them with the block, and with shorter paths it accepts an inner node of a tree as a transaction id.
\<close>

theorem accepted_tx_in_block:
  assumes "reachable_node cap n" and "0 < cap" and "blocks n bh = Some sb"
    and "fst (Verify b view)" and "Header b = sb_header sb"
    and "length (BlockPath b) = bit_len (length (leaves_of sb) - 1)"
    and "length (SubtreePath b)
           = bit_len (length (leaves_of sb ! honest_leaf (sb_subtreeRoots sb) (BlockPath b)) - 1)"
  shows "TXID (OutputRef b) \<in> set (concat (leaves_of sb)) \<or>
    exhibits (forgery (sb_subtreeRoots sb) (Fold (TXID (OutputRef b)) (SubtreePath b)) (BlockPath b)) \<or>
    exhibits (forgery (leaves_of sb ! honest_leaf (sb_subtreeRoots sb) (BlockPath b))
                (TXID (OutputRef b)) (SubtreePath b))"
proof -
  have ok: "block_ok cap sb" using block_at(1) node_inv_reachable assms(1-3) by blast
  then have "HeaderMerkleRoot (Header b) = sb_blockRoot sb"
    using HeaderMerkleRoot_eq assms(5) by (simp add: block_ok_def)
  then have "Fold (Fold (TXID (OutputRef b)) (SubtreePath b)) (BlockPath b) = sb_blockRoot sb"
    using assms(4) by (simp add: Verify_iff inclusion_ok_def)
  from block_leaf_binding [OF ok assms(6,7) this] show ?thesis .
qed

theorem accepted_tx_in_block_witness:
  "\<exists>n sb b. blocks n (sb_hash sb) = Some sb \<and> fst (Verify b (Some (node_chain n))) \<and>
   (TXID (OutputRef b) \<in> set (concat (leaves_of sb)) \<or>
    exhibits (forgery (sb_subtreeRoots sb) (Fold (TXID (OutputRef b)) (SubtreePath b)) (BlockPath b)) \<or>
    exhibits (forgery (leaves_of sb ! honest_leaf (sb_subtreeRoots sb) (BlockPath b))
                (TXID (OutputRef b)) (SubtreePath b)))"
proof -
  let ?f = "\<lparr>Index = 0, Bytes = [5]\<rparr>" and ?m = "NewMockNode (int 1)"
  obtain sb where r: "reachable_node 1 (add_block ?m sb)" "sealed 1 ?m [leafHash ?f] False sb"
    using one_block [of 1 "[leafHash ?f]" False] by auto
  have ok: "block_ok 1 sb" and cat: "concat (leaves_of sb) = [leafHash ?f]"
    using r(2) by (simp_all add: sealed_def seal_leaves_def)
  have "ls = [[x]]" if "concat ls = [x]" "\<forall>l\<in>set ls. l \<noteq> []" for ls and x :: hash
    using that by (cases ls) (auto simp: append_eq_Cons_conv concat_eq_Nil_conv)
  then have leaves: "leaves_of sb = [[leafHash ?f]]" using ok cat by (simp add: block_ok_def)
  then have root: "sb_subtreeRoots sb = [leafHash ?f]" "sb_blockRoot sb = leafHash ?f"
    using ok by (simp_all add: block_ok_def tree_root_single)
  let ?b = "\<lparr>OutputRef = \<lparr>TXID = leafHash ?f, Vout = 0\<rparr>, Fields = [?f], MTxIDPath' = [],
      SubtreePath = [], BlockPath = [], Header = sb_header sb, Anchor = None\<rparr>"
  have b: "blocks (add_block ?m sb) (sb_hash sb) = Some sb" by (simp add: add_block_def)
  have "HeaderMerkleRoot (sb_header sb) = leafHash ?f"
    using HeaderMerkleRoot_eq ok root(2) by (simp add: block_ok_def)
  then have "inclusion_ok ?b" by (simp add: inclusion_ok_def MaxDepth_def)
  moreover have "on_view (Some (node_chain (add_block ?m sb))) (sb_header sb)"
    using ok by (simp add: on_view_def node_chain_def node_Contains_def add_block_def block_ok_def)
  ultimately have v: "fst (Verify ?b (Some (node_chain (add_block ?m sb))))" by (simp add: Verify_iff)
  have "honest_leaf [leafHash ?f] [] = 0" by (simp add: honest_leaf_def build_layers_single)
  from accepted_tx_in_block [OF r(1) _ b v] this leaves root
  have "TXID (OutputRef ?b) \<in> set (concat (leaves_of sb)) \<or>
    exhibits (forgery (sb_subtreeRoots sb) (Fold (TXID (OutputRef ?b)) (SubtreePath ?b)) (BlockPath ?b)) \<or>
    exhibits (forgery (leaves_of sb ! honest_leaf (sb_subtreeRoots sb) (BlockPath ?b))
                (TXID (OutputRef ?b)) (SubtreePath ?b))" by simp
  then show ?thesis using b v by blast
qed

text \<open>
  C16. The anchor does not check that the carrying transaction is the generation transaction
  (I-A2 says it is): anyone whose ordinary transaction, confirmed in a block of the best chain,
  has a field with the root over a header of their own making gets a bundle accepted whose
  header, and whose transaction, no block of the chain has.
\<close>

theorem any_tx_can_anchor:
  assumes "reachable_node cap n" and "0 < cap" and "cap \<le> 2 ^ 20"
    and "field = \<lparr>Index = i, Bytes = bytes_of (Root (build_mmr [fake]))\<rparr>"
    and "node_LocateTx n (leafHash field) = Inr bh" and "go_get False (onBest n) bh"
    and "HeaderMerkleRoot fake = leafHash g"
  shows "\<exists>b. Header b = fake \<and> Fields b = [g] \<and> TXID (OutputRef b) = leafHash g \<and>
    Verify b (Some (node_chain n)) = (True, 0, [])"
proof -
  note good = good_nodeI [OF assms(1-3)]
  have loc: "LocateTx (node_source n) (leafHash field) = Inr bh" using assms(5) by (simp add: node_source_def)
  obtain l1 sub l2 root h where p: "Fold (leafHash field) l1 = sub" "length l1 \<le> 20" "Fold sub l2 = root"
    "length l2 \<le> 63" "header_root h = bytes_of root" "DoubleSHA256 (bytes_of h) = bh"
    using node_src.located [OF good loc] by blast
  let ?r = "Root (build_mmr [fake])"
  let ?a = "\<lparr>AccRoot = ?r, AccPath = [], GenTxFields = [field], GenL0 = [], GenL1 = l1, GenL2 = l2,
      CarryingBlockMerkleRoot = root, CarryingHeader = h\<rparr>"
  let ?b = "\<lparr>OutputRef = \<lparr>TXID = leafHash g, Vout = 0\<rparr>, Fields = [g], MTxIDPath' = [],
      SubtreePath = [], BlockPath = [], Header = fake, Anchor = Some ?a\<rparr>"
  have "on_view (Some (node_chain n)) h"
    using on_node_view [OF good p(6) located_block [OF good assms(5)]] assms(6) by simp
  then have "anchorBindsToChain ?a (Some (node_chain n))"
    using p HeaderMerkleRoot_eq [OF p(5)]
    by (simp add: anchorBindsToChain_def on_view_def VerifyAnchor_iff assms(4) LeafForField_def MaxDepth_def)
  moreover have "VerifyBlockInChain fake [] ?r"
    by (simp add: VerifyBlockInChain_iff Root_single)
  ultimately have "anchored ?b (Some (node_chain n))" by (simp add: anchored_def)
  moreover have "inclusion_ok ?b" using assms(7) by (simp add: inclusion_ok_def MaxDepth_def)
  ultimately have "Verify ?b (Some (node_chain n)) = (True, 0, [])" using Verify_accepts by fastforce
  then show ?thesis by (intro exI [of _ ?b]) simp
qed

theorem any_tx_can_anchor_witness:
  "\<exists>n b. Header b = make_header None (leafHash \<lparr>Index = 0, Bytes = [5]\<rparr>) 0 \<and>
     Verify b (Some (node_chain n)) = (True, 0, [])"
proof -
  let ?g = "\<lparr>Index = 0, Bytes = [5]\<rparr>"
  let ?fake = "make_header None (leafHash ?g) 0"
  let ?field = "\<lparr>Index = 0, Bytes = bytes_of (Root (build_mmr [?fake]))\<rparr>"
  obtain n bh where n: "reachable_node 1 n" "node_LocateTx n (leafHash ?field) = Inr bh" "go_get False (onBest n) bh"
    using one_tx_node .
  have "HeaderMerkleRoot ?fake = leafHash ?g" by (rule HeaderMerkleRoot_eq) simp
  from any_tx_can_anchor [OF n(1) _ _ _ n(2,3) this] show ?thesis by auto
qed

end
