(* ===== verification/Fabric.thy ===== *)
theory Fabric
  imports Bundle Complex_Main
begin

text \<open>
  Package \<open>fabric\<close>, verifier side (src/fabric/fabric.go and fetch.go): single and batched inclusion
  proofs with the shared-node memo, the acquisition of a proof from a node, and the capacity
  equations.

  A \<open>Hasher\<close> is an interface value: its pair function and its name. A header view is the
  interface of package \<open>teranode\<close>; \<open>None\<close> stands for nil. The memo and the two sets of a batch are
  local Go maps.
\<close>

section \<open>Backends and proofs\<close>

record hasher =
  hash_pair :: "hash \<Rightarrow> hash \<Rightarrow> hash"
  hash_name :: string

definition Software :: hasher where
  "Software = \<lparr>hash_pair = HashPair, hash_name = ''software(crypto/sha256d)''\<rparr>"

definition DefaultHasher :: hasher where
  "DefaultHasher = Software"

record inclusion_proof =
  Leaf :: hash
  L1 :: "path_elem list"
  SubtreeRoot :: hash
  L2 :: "path_elem list"
  Header :: header

definition HeaderMerkleRoot :: "header \<Rightarrow> hash" where
  "HeaderMerkleRoot h = barray_of (go_slice (bytes_of h) 36 68)"

section \<open>One proof\<close>

definition pair_step :: "hasher \<Rightarrow> hash \<Rightarrow> path_elem \<Rightarrow> hash" where
  "pair_step h node e = (if Right e then hash_pair h node (Sibling e) else hash_pair h (Sibling e) node)"

definition foldCount :: "hasher \<Rightarrow> hash \<Rightarrow> path_elem list \<Rightarrow> hash \<times> nat" where
  "foldCount h leaf path = (fold (\<lambda>e node. pair_step h node e) path leaf, length path)"

definition on_chain :: "header_chain option \<Rightarrow> header \<Rightarrow> bool" where
  "on_chain view h = (case view of None \<Rightarrow> True | Some c \<Rightarrow> Contains c h)"

definition VerifyOne :: "hasher \<Rightarrow> inclusion_proof \<Rightarrow> header_chain option \<Rightarrow> bool \<times> nat" where
  "VerifyOne h p view =
     (let (sub, n1) = foldCount h (Leaf p) (L1 p) in
      if sub \<noteq> SubtreeRoot p then (False, n1)
      else
        let (br, n2) = foldCount h (SubtreeRoot p) (L2 p) in
        if br \<noteq> HeaderMerkleRoot (Header p) then (False, n1 + n2)
        else if \<not> on_chain view (Header p) then (False, n1 + n2)
        else (True, n1 + n2))"

section \<open>Batches\<close>

text \<open>A \<open>nodeKey\<close> is the triple of the subtree, the level and the index.\<close>

type_synonym node_key = "hash \<times> nat \<times> u64"

primrec leaf_index_loop :: "nat \<Rightarrow> path_elem list \<Rightarrow> u64 \<Rightarrow> u64" where
  "leaf_index_loop j [] idx = idx"
| "leaf_index_loop j (e # path) idx =
     leaf_index_loop (j + 1) path (if \<not> Right e then idx OR push_bit j 1 else idx)"

definition leafIndex :: "path_elem list \<Rightarrow> u64" where
  "leafIndex path = leaf_index_loop 0 path 0"

record batch_state =
  memo :: "node_key \<rightharpoonup> hash"
  subtreeOK :: "hash \<rightharpoonup> bool"
  headerOK :: "hash \<rightharpoonup> bool"
  hashes :: nat

text \<open>
  The L1 loop from level \<open>j\<close>: \<open>None\<close> for the \<open>return false\<close> on an inconsistent sibling, otherwise
  whether it merged and the node it reached; with the memo and the hashes so far.
\<close>

primrec batch_l1 ::
  "hasher \<Rightarrow> hash \<Rightarrow> nat \<Rightarrow> path_elem list \<Rightarrow> hash \<Rightarrow> u64 \<Rightarrow> (node_key \<rightharpoonup> hash) \<Rightarrow> nat
    \<Rightarrow> (bool \<times> hash) option \<times> (node_key \<rightharpoonup> hash) \<times> nat" where
  "batch_l1 h sr j [] cur idx mm n = (Some (False, cur), mm, n)"
| "batch_l1 h sr j (e # path) cur idx mm n =
     (let parent = pair_step h cur e; n = n + 1; pidx = drop_bit 1 idx; k = (sr, j + 1, pidx) in
      case mm k of
        Some existing \<Rightarrow> if existing \<noteq> parent then (None, mm, n) else (Some (True, cur), mm, n)
      | None \<Rightarrow> batch_l1 h sr (j + 1) path parent pidx (mm(k \<mapsto> parent)) n)"

text \<open>One iteration: \<open>Inl\<close> is \<open>return false\<close> with the hashes so far.\<close>

definition batch_step ::
  "hasher \<Rightarrow> header_chain option \<Rightarrow> inclusion_proof \<Rightarrow> batch_state \<Rightarrow> nat + batch_state" where
  "batch_step h view p st =
     (case batch_l1 h (SubtreeRoot p) 0 (L1 p) (Leaf p) (leafIndex (L1 p)) (memo st) (hashes st) of
        (None, mm, n) \<Rightarrow> Inl n
      | (Some (merged, cur), mm, n) \<Rightarrow>
        if \<not> merged \<and> cur \<noteq> SubtreeRoot p then Inl n
        else
          let st = st\<lparr>memo := mm, hashes := n\<rparr>;
              checked = go_get False (subtreeOK st) (SubtreeRoot p);
              (br, n2) = foldCount h (SubtreeRoot p) (L2 p);
              st = (if checked then st
                    else st\<lparr>hashes := hashes st + n2, subtreeOK := (subtreeOK st)(SubtreeRoot p \<mapsto> True)\<rparr>)
          in
          if \<not> checked \<and> br \<noteq> HeaderMerkleRoot (Header p) then Inl (hashes st)
          else
            let hk = DoubleSHA256 (bytes_of (Header p)) in
            if go_get False (headerOK st) hk then Inr st
            else if \<not> on_chain view (Header p) then Inl (hashes st)
            else Inr (st\<lparr>headerOK := (headerOK st)(hk \<mapsto> True)\<rparr>))"

primrec batch_loop ::
  "hasher \<Rightarrow> header_chain option \<Rightarrow> inclusion_proof list \<Rightarrow> batch_state \<Rightarrow> nat + batch_state" where
  "batch_loop h view [] st = Inr st"
| "batch_loop h view (p # ps) st =
     (case batch_step h view p st of Inl n \<Rightarrow> Inl n | Inr st \<Rightarrow> batch_loop h view ps st)"

definition empty_batch :: batch_state where
  "empty_batch = \<lparr>memo = Map.empty, subtreeOK = Map.empty, headerOK = Map.empty, hashes = 0\<rparr>"

definition BatchVerify :: "hasher \<Rightarrow> inclusion_proof list \<Rightarrow> header_chain option \<Rightarrow> bool \<times> nat" where
  "BatchVerify h proofs view =
     (case batch_loop h view proofs empty_batch of
        Inl n \<Rightarrow> (False, n)
      | Inr st \<Rightarrow> (True, hashes st))"

section \<open>Acquisition\<close>

definition Fetch :: "hash \<Rightarrow> proof_source \<Rightarrow> inclusion_proof res" where
  "Fetch txid src =
     (case SubtreePathFor src txid of
        Inl e \<Rightarrow> Inl e
      | Inr (l1, subRoot) \<Rightarrow>
        (case LocateTx src txid of
           Inl e \<Rightarrow> Inl e
         | Inr blockHash \<Rightarrow>
           (case BlockPathFor src subRoot blockHash of
              Inl e \<Rightarrow> Inl e
            | Inr (l2, _) \<Rightarrow>
              (case HeaderFor src blockHash of
                 Inl e \<Rightarrow> Inl e
               | Inr hdr \<Rightarrow> Inr \<lparr>Leaf = txid, L1 = l1, SubtreeRoot = subRoot, L2 = l2, Header = hdr\<rparr>))))"

section \<open>Capacity\<close>

text \<open>The two \<open>float64\<close> equations, over the reals (without rounding).\<close>

definition RequiredCores :: "real \<Rightarrow> real \<Rightarrow> real \<Rightarrow> real" where
  "RequiredCores targetVerifPerSec amortizedDepth perCoreHashRate =
     (if perCoreHashRate \<le> 0 then 0 else targetVerifPerSec * amortizedDepth / perCoreHashRate)"

definition VerifPerSec :: "real \<Rightarrow> real \<Rightarrow> real" where
  "VerifPerSec aggregateHashRate amortizedDepth =
     (if amortizedDepth \<le> 0 then 0 else aggregateHashRate / amortizedDepth)"

section \<open>A backend that computes SHA-256d\<close>

text \<open>
  The contract of every backend: it computes the pair hash of package \<open>commitment\<close>. What the
  verifier computes then does not depend on the backend.
\<close>

locale sha_backend =
  fixes h :: hasher
  assumes pair: "hash_pair h = HashPair"
begin

lemma pair_step_eq [simp]: "pair_step h = fold_step"
  by (intro ext) (simp add: pair_step_def fold_step_def pair)

lemma foldCount_eq: "foldCount h leaf path = (Fold leaf path, length path)"
proof -
  have "fold (\<lambda>e node. fold_step node e) path leaf = Fold leaf path"
    by (induction path arbitrary: leaf) simp_all
  then show ?thesis by (simp add: foldCount_def)
qed

lemma VerifyOne_eq:
  "fst (VerifyOne h p view) \<longleftrightarrow> Fold (Leaf p) (L1 p) = SubtreeRoot p \<and>
     Fold (SubtreeRoot p) (L2 p) = HeaderMerkleRoot (Header p) \<and> on_chain view (Header p)"
  by (simp add: VerifyOne_def foldCount_eq)

end

interpretation software: sha_backend Software
  by unfold_locales (simp add: Software_def)

interpretation default_hasher: sha_backend DefaultHasher
  by unfold_locales (simp add: DefaultHasher_def Software_def)

section \<open>What the memo holds\<close>

text \<open>
  \<open>under_root ps sr l v\<close>: the node \<open>v\<close> at level \<open>l\<close> lies under the subtree root \<open>sr\<close>, by a path as
  long as the rest of the path of some proof of the batch for that root.
\<close>

definition under_root :: "inclusion_proof list \<Rightarrow> hash \<Rightarrow> nat \<Rightarrow> hash \<Rightarrow> bool" where
  "under_root ps sr l v \<longleftrightarrow>
     (\<exists>q. Fold v q = sr \<and> (\<exists>p. p \<in> set ps \<and> SubtreeRoot p = sr \<and> length (L1 p) = l + length q))"

lemma under_root_mono: "under_root ps sr l v \<Longrightarrow> under_root (ps @ [p]) sr l v"
  unfolding under_root_def set_append by blast

definition memo_sound :: "inclusion_proof list \<Rightarrow> (node_key \<rightharpoonup> hash) \<Rightarrow> bool" where
  "memo_sound ps mm \<longleftrightarrow> (\<forall>sr l i v. mm (sr, l, i) = Some v \<longrightarrow> under_root ps sr l v)"

context sha_backend
begin

text \<open>
  The L1 loop leaves the entries of other subtrees and of the levels up to \<open>j\<close> alone. When it ends
  well, the node it started from and every entry it has made lie under the root.
\<close>

lemma batch_l1_sound:
  assumes "batch_l1 h sr j path cur idx mm n = (Some (merged, c), mm', n')" and "merged \<or> c = sr"
    and "\<And>l i v. j < l \<Longrightarrow> mm (sr, l, i) = Some v \<Longrightarrow> under_root ps sr l v"
    and "\<exists>p. p \<in> set ps \<and> SubtreeRoot p = sr \<and> length (L1 p) = j + length path"
  shows "under_root ps sr j cur \<and>
    (\<forall>s l i v. mm' (s, l, i) = Some v \<longrightarrow> mm (s, l, i) = Some v \<or> (s = sr \<and> j < l \<and> under_root ps sr l v))"
  using assms
proof (induction path arbitrary: j cur idx mm n)
  case Nil
  then have "Fold cur [] = sr" by auto
  then show ?case using Nil unfolding under_root_def by fastforce
next
  case (Cons e path)
  define parent where "parent = fold_step cur e"
  let ?k = "(sr, j + 1, drop_bit 1 idx)"
  have up: "under_root ps sr j cur" if "under_root ps sr (j + 1) parent"
  proof -
    from that obtain q p where q: "Fold parent q = sr" "p \<in> set ps" "SubtreeRoot p = sr" "length (L1 p) = j + 1 + length q"
      by (auto simp: under_root_def)
    then show ?thesis unfolding under_root_def
      by (intro exI [of _ "e # q"] conjI exI [of _ p]) (simp_all add: parent_def)
  qed
  show ?case
  proof (cases "mm ?k")
    case (Some existing)
    then have same: "existing = parent" "mm' = mm"
      using Cons.prems(1) by (auto simp: parent_def Let_def split: if_splits)
    then have "under_root ps sr (j + 1) parent" using Cons.prems(3) [of "j + 1"] Some by simp
    then show ?thesis using up same by simp
  next
    case None
    have run: "batch_l1 h sr (j + 1) path parent (drop_bit 1 idx) (mm(?k \<mapsto> parent)) (n + 1) = (Some (merged, c), mm', n')"
      using Cons.prems(1) None by (simp add: parent_def Let_def)
    have IH: "under_root ps sr (j + 1) parent \<and>
        (\<forall>s l i v. mm' (s, l, i) = Some v \<longrightarrow>
           (mm(?k \<mapsto> parent)) (s, l, i) = Some v \<or> (s = sr \<and> j + 1 < l \<and> under_root ps sr l v))"
      by (rule Cons.IH [OF run Cons.prems(2)]) (use Cons.prems(3,4) in \<open>auto split: if_splits\<close>)
    then show ?thesis using up
      by (auto split: if_splits) (metis Suc_lessD lessI)+
  qed
qed

lemma batch_l1_sound_top:
  assumes "batch_l1 h (SubtreeRoot p) 0 (L1 p) (Leaf p) idx mm n = (Some (merged, c), mm', n')"
    and "merged \<or> c = SubtreeRoot p" and "memo_sound ps mm"
  shows "under_root (ps @ [p]) (SubtreeRoot p) 0 (Leaf p) \<and> memo_sound (ps @ [p]) mm'"
proof -
  have mono: "memo_sound (ps @ [p]) mm"
    using assms(3) under_root_mono by (fastforce simp: memo_sound_def)
  have "under_root (ps @ [p]) (SubtreeRoot p) 0 (Leaf p) \<and>
    (\<forall>s l i v. mm' (s, l, i) = Some v \<longrightarrow>
       mm (s, l, i) = Some v \<or> (s = SubtreeRoot p \<and> 0 < l \<and> under_root (ps @ [p]) (SubtreeRoot p) l v))"
    by (rule batch_l1_sound [OF assms(1,2)]) (use mono in \<open>auto simp: memo_sound_def\<close>)
  then show ?thesis using mono unfolding memo_sound_def by blast
qed

end

text \<open>The sets of a batch: the roots with their block path, the headers on the view.\<close>

definition root_in_block :: "inclusion_proof list \<Rightarrow> hash \<Rightarrow> bool" where
  "root_in_block ps sr \<longleftrightarrow> (\<exists>p. p \<in> set ps \<and> SubtreeRoot p = sr \<and> Fold sr (L2 p) = HeaderMerkleRoot (Header p))"

definition header_seen :: "header_chain option \<Rightarrow> inclusion_proof list \<Rightarrow> hash \<Rightarrow> bool" where
  "header_seen view ps hk \<longleftrightarrow>
     (\<exists>p. p \<in> set ps \<and> DoubleSHA256 (bytes_of (Header p)) = hk \<and> on_chain view (Header p))"

definition batch_sound :: "header_chain option \<Rightarrow> inclusion_proof list \<Rightarrow> batch_state \<Rightarrow> bool" where
  "batch_sound view ps st \<longleftrightarrow> memo_sound ps (memo st) \<and>
     (\<forall>sr. go_get False (subtreeOK st) sr \<longrightarrow> root_in_block ps sr) \<and>
     (\<forall>hk. go_get False (headerOK st) hk \<longrightarrow> header_seen view ps hk) \<and>
     (\<forall>p. p \<in> set ps \<longrightarrow> under_root ps (SubtreeRoot p) 0 (Leaf p) \<and> root_in_block ps (SubtreeRoot p) \<and>
        header_seen view ps (DoubleSHA256 (bytes_of (Header p))))"

lemma root_in_block_mono: "root_in_block ps sr \<Longrightarrow> root_in_block (ps @ [p]) sr"
  by (auto simp: root_in_block_def)

lemma header_seen_mono: "header_seen view ps hk \<Longrightarrow> header_seen view (ps @ [p]) hk"
  by (auto simp: header_seen_def)

context sha_backend
begin

text \<open>An iteration that does not return, taken apart.\<close>

lemma batch_step_ok:
  assumes "batch_step h view p st = Inr st'"
  obtains merged c n where
    "batch_l1 h (SubtreeRoot p) 0 (L1 p) (Leaf p) (leafIndex (L1 p)) (memo st) (hashes st) = (Some (merged, c), memo st', n)"
    "merged \<or> c = SubtreeRoot p"
    "go_get False (subtreeOK st) (SubtreeRoot p) \<or> Fold (SubtreeRoot p) (L2 p) = HeaderMerkleRoot (Header p)"
    "\<And>sr. go_get False (subtreeOK st') sr \<longleftrightarrow> sr = SubtreeRoot p \<or> go_get False (subtreeOK st) sr"
    "go_get False (headerOK st) (DoubleSHA256 (bytes_of (Header p))) \<or> on_chain view (Header p)"
    "\<And>hk. go_get False (headerOK st') hk \<longleftrightarrow> hk = DoubleSHA256 (bytes_of (Header p)) \<or> go_get False (headerOK st) hk"
    "hashes st' = n + (if go_get False (subtreeOK st) (SubtreeRoot p) then 0 else length (L2 p))"
proof -
  let ?run = "batch_l1 h (SubtreeRoot p) 0 (L1 p) (Leaf p) (leafIndex (L1 p)) (memo st) (hashes st)"
  obtain r mm n where run: "?run = (r, mm, n)" by (cases ?run) auto
  obtain merged c where r: "r = Some (merged, c)" using assms run by (cases r) (auto simp: batch_step_def)
  show thesis
    using assms by (intro that [of merged c n])
      (auto simp: batch_step_def run r foldCount_eq Let_def split: if_splits)
qed

lemma batch_step_sound:
  assumes "batch_step h view p st = Inr st'" and "batch_sound view ps st"
  shows "batch_sound view (ps @ [p]) st'"
proof (rule batch_step_ok [OF assms(1)])
  fix merged c n
  assume run: "batch_l1 h (SubtreeRoot p) 0 (L1 p) (Leaf p) (leafIndex (L1 p)) (memo st) (hashes st) = (Some (merged, c), memo st', n)"
    and mg: "merged \<or> c = SubtreeRoot p"
    and l2: "go_get False (subtreeOK st) (SubtreeRoot p) \<or> Fold (SubtreeRoot p) (L2 p) = HeaderMerkleRoot (Header p)"
    and sub: "\<And>sr. go_get False (subtreeOK st') sr \<longleftrightarrow> sr = SubtreeRoot p \<or> go_get False (subtreeOK st) sr"
    and l3: "go_get False (headerOK st) (DoubleSHA256 (bytes_of (Header p))) \<or> on_chain view (Header p)"
    and hdr: "\<And>hk. go_get False (headerOK st') hk \<longleftrightarrow> hk = DoubleSHA256 (bytes_of (Header p)) \<or> go_get False (headerOK st) hk"
  note l1 = batch_l1_sound_top [OF run mg, of ps]
  have rt: "root_in_block (ps @ [p]) (SubtreeRoot p)"
    using l2 assms(2) root_in_block_mono by (auto simp: batch_sound_def root_in_block_def)
  have hd: "header_seen view (ps @ [p]) (DoubleSHA256 (bytes_of (Header p)))"
    using l3 assms(2) header_seen_mono [of view ps] by (auto simp: batch_sound_def header_seen_def)
  show ?thesis
    using l1 rt hd sub hdr assms(2) root_in_block_mono header_seen_mono under_root_mono
    unfolding batch_sound_def by auto
qed

lemma batch_loop_sound:
  "batch_loop h view qs st = Inr st' \<Longrightarrow> batch_sound view ps st \<Longrightarrow> batch_sound view (ps @ qs) st'"
proof (induction qs arbitrary: ps st)
  case (Cons p qs)
  then obtain st1 where "batch_step h view p st = Inr st1" "batch_loop h view qs st1 = Inr st'"
    by (auto split: sum.splits)
  then show ?case using Cons.IH [of st1 "ps @ [p]"] batch_step_sound Cons.prems(2) by fastforce
qed simp

lemma BatchVerify_sound_aux:
  assumes "BatchVerify h ps view = (True, n)"
  shows "\<exists>st. batch_sound view ps st"
proof -
  obtain st where run: "batch_loop h view ps empty_batch = Inr st"
    using assms by (auto simp: BatchVerify_def split: sum.splits)
  have "batch_sound view [] empty_batch" by (simp add: batch_sound_def memo_sound_def empty_batch_def)
  from batch_loop_sound [OF run this] show ?thesis by auto
qed

end

section \<open>A batch of valid proofs\<close>

lemma bit_leaf_index_loop:
  "bit (leaf_index_loop j path idx) k \<longleftrightarrow>
     bit idx k \<or> (k < 64 \<and> j \<le> k \<and> k < j + length path \<and> \<not> Right (path ! (k - j)))"
proof (induction path arbitrary: j idx)
  case (Cons e path)
  have "bit (if \<not> Right e then idx OR push_bit j 1 else idx) k \<longleftrightarrow> bit idx k \<or> (k < 64 \<and> k = j \<and> \<not> Right e)"
    by (auto simp: bit_simps)
  moreover have "(e # path) ! (k - j) = (if k = j then e else path ! (k - Suc j))" if "j \<le> k"
    using that by (simp add: nth_Cons')
  ultimately show ?case using Cons.IH [of "j + 1"] by (auto simp: nth_Cons')
qed auto

lemma bit_leafIndex: "bit (leafIndex path) k \<longleftrightarrow> k < 64 \<and> k < length path \<and> \<not> Right (path ! k)"
  by (simp add: leafIndex_def bit_leaf_index_loop)

text \<open>The index above a level fixes the directions above it.\<close>

lemma leafIndex_directions:
  assumes "length p = length q" and "length p \<le> 64" and "drop_bit l (leafIndex p) = drop_bit l (leafIndex q)"
  shows "map Right (drop l p) = map Right (drop l q)"
proof (rule nth_equalityI)
  show "length (map Right (drop l p)) = length (map Right (drop l q))" using assms(1) by simp
next
  fix i assume "i < length (map Right (drop l p))"
  then have i: "l + i < length p" by simp
  have "bit (drop_bit l (leafIndex p)) i = bit (drop_bit l (leafIndex q)) i" using assms(3) by simp
  then show "map Right (drop l p) ! i = map Right (drop l q) ! i"
    using i assms(1,2) by (simp add: bit_drop_bit_eq bit_leafIndex)
qed

text \<open>Two proofs of a batch whose folds meet without being equal: the pair of inputs that collides.\<close>

definition batch_collision :: "inclusion_proof list \<Rightarrow> bool" where
  "batch_collision ps \<longleftrightarrow> (\<exists>p p' k. p \<in> set ps \<and> p' \<in> set ps \<and>
     exhibits (fold_collision (Fold (Leaf p) (take k (L1 p))) (drop k (L1 p))
                              (Fold (Leaf p') (take k (L1 p'))) (drop k (L1 p'))))"

definition work :: "inclusion_proof \<Rightarrow> nat" where
  "work p = length (L1 p) + length (L2 p)"

definition memo_from :: "inclusion_proof list \<Rightarrow> (node_key \<rightharpoonup> hash) \<Rightarrow> bool" where
  "memo_from ps mm \<longleftrightarrow> (\<forall>sr l i v. mm (sr, l, i) = Some v \<longrightarrow>
     (\<exists>p. p \<in> set ps \<and> SubtreeRoot p = sr \<and> v = Fold (Leaf p) (take l (L1 p)) \<and>
        i = drop_bit l (leafIndex (L1 p))))"

definition uniform_batch :: "inclusion_proof list \<Rightarrow> bool" where
  "uniform_batch ps \<longleftrightarrow> (\<forall>p p'. p \<in> set ps \<longrightarrow> p' \<in> set ps \<longrightarrow> SubtreeRoot p = SubtreeRoot p' \<longrightarrow>
     length (L1 p) = length (L1 p') \<and> length (L1 p) \<le> 64)"

lemma same_node:
  assumes "p \<in> set ps" and "p' \<in> set ps" and "SubtreeRoot p = SubtreeRoot p'" and "uniform_batch ps"
    and "Fold (Leaf p) (L1 p) = SubtreeRoot p" and "Fold (Leaf p') (L1 p') = SubtreeRoot p'"
    and "drop_bit l (leafIndex (L1 p)) = drop_bit l (leafIndex (L1 p'))" and "\<not> batch_collision ps"
  shows "Fold (Leaf p) (take l (L1 p)) = Fold (Leaf p') (take l (L1 p'))"
proof -
  have "length (L1 p) = length (L1 p') \<and> length (L1 p) \<le> 64"
    using assms(1-4) unfolding uniform_batch_def by blast
  then have "map Right (drop l (L1 p)) = map Right (drop l (L1 p'))"
    using leafIndex_directions assms(7) by blast
  moreover have "Fold (Fold (Leaf p) (take l (L1 p))) (drop l (L1 p))
      = Fold (Fold (Leaf p') (take l (L1 p'))) (drop l (L1 p'))"
    using assms(3,5,6) by (simp only: Fold_append [symmetric] append_take_drop_id)
  ultimately show ?thesis
    using fold_binding_cases assms(1,2,8) unfolding batch_collision_def by blast
qed

lemma drop_bit_step: "drop_bit 1 (drop_bit l (x :: u64)) = drop_bit (Suc l) x"
  by (simp add: drop_bit_drop_bit)

context sha_backend
begin

lemma batch_l1_complete:
  assumes "j + length path = length (L1 p)" and "path = drop j (L1 p)" and "cur = Fold (Leaf p) (take j (L1 p))"
    and "idx = drop_bit j (leafIndex (L1 p))" and "memo_from ps mm" and "p \<in> set ps"
    and "\<forall>p. p \<in> set ps \<longrightarrow> Fold (Leaf p) (L1 p) = SubtreeRoot p" and "uniform_batch ps" and "\<not> batch_collision ps"
  shows "\<exists>merged c mm' n'. batch_l1 h (SubtreeRoot p) j path cur idx mm n = (Some (merged, c), mm', n') \<and>
    (merged \<or> c = SubtreeRoot p) \<and> memo_from ps mm'"
  using assms(1-5)
proof (induction path arbitrary: j cur idx mm n)
  case Nil
  then show ?case using assms(6,7) by auto
next
  case (Cons e path)
  define parent where "parent = fold_step cur e"
  let ?k = "(SubtreeRoot p, j + 1, drop_bit 1 idx)"
  have j: "j < length (L1 p)" using Cons.prems(1) by simp
  then have e: "e = L1 p ! j" and path: "path = drop (j + 1) (L1 p)"
    using Cons.prems(2) Cons_nth_drop_Suc [OF j] by (metis list.inject, metis Suc_eq_plus1 list.inject)
  have parent: "parent = Fold (Leaf p) (take (j + 1) (L1 p))"
    using j e Cons.prems(3) by (simp add: parent_def take_Suc_conv_app_nth)
  have idx: "drop_bit 1 idx = drop_bit (j + 1) (leafIndex (L1 p))"
    using Cons.prems(4) drop_bit_step by simp
  show ?case
  proof (cases "mm ?k")
    case (Some v)
    then obtain p' where p': "p' \<in> set ps" "SubtreeRoot p' = SubtreeRoot p" "v = Fold (Leaf p') (take (j + 1) (L1 p'))"
      "drop_bit 1 idx = drop_bit (j + 1) (leafIndex (L1 p'))"
      using Cons.prems(5) unfolding memo_from_def by blast
    have "parent = v"
      unfolding parent p'(3)
      by (rule same_node [OF assms(6) p'(1) p'(2) [symmetric] assms(8)])
        (use assms(6,7,9) p' idx in auto)
    then show ?thesis using Some Cons.prems(5) by (auto simp: parent_def Let_def)
  next
    case None
    have "memo_from ps (mm(?k \<mapsto> parent))"
      using Cons.prems(5) assms(6) parent idx unfolding memo_from_def by (auto split: if_splits)
    then have "\<exists>merged c mm' n'. batch_l1 h (SubtreeRoot p) (j + 1) path parent (drop_bit 1 idx) (mm(?k \<mapsto> parent)) (n + 1)
        = (Some (merged, c), mm', n') \<and> (merged \<or> c = SubtreeRoot p) \<and> memo_from ps mm'"
      using Cons.IH [OF _ path parent idx] Cons.prems(1) by (simp del: fun_upd_apply)
    then show ?thesis using None by (simp add: parent_def Let_def del: fun_upd_apply)
  qed
qed

lemma batch_step_complete:
  assumes "p \<in> set ps" and "memo_from ps (memo st)" and "\<forall>p. p \<in> set ps \<longrightarrow> fst (VerifyOne h p view)"
    and "uniform_batch ps" and "\<not> batch_collision ps"
  shows "\<exists>st'. batch_step h view p st = Inr st' \<and> memo_from ps (memo st')"
proof -
  have l1: "\<forall>p. p \<in> set ps \<longrightarrow> Fold (Leaf p) (L1 p) = SubtreeRoot p" using assms(3) by (simp add: VerifyOne_eq)
  obtain merged c mm n where run: "batch_l1 h (SubtreeRoot p) 0 (L1 p) (Leaf p) (leafIndex (L1 p)) (memo st) (hashes st)
      = (Some (merged, c), mm, n)" and ok: "merged \<or> c = SubtreeRoot p" "memo_from ps mm"
    using batch_l1_complete [of 0 "L1 p" p "Leaf p" "leafIndex (L1 p)" ps "memo st" "hashes st"]
      assms(1,2,4,5) l1 by auto
  have "Fold (SubtreeRoot p) (L2 p) = HeaderMerkleRoot (Header p)" "on_chain view (Header p)"
    using assms(1,3) by (simp_all add: VerifyOne_eq)
  then show ?thesis using run ok by (auto simp: batch_step_def foldCount_eq Let_def)
qed

lemma batch_loop_complete:
  assumes "set qs \<subseteq> set ps" and "memo_from ps (memo st)" and "\<forall>p. p \<in> set ps \<longrightarrow> fst (VerifyOne h p view)"
    and "uniform_batch ps" and "\<not> batch_collision ps"
  shows "\<exists>st'. batch_loop h view qs st = Inr st'"
  using assms(1,2)
proof (induction qs arbitrary: st)
  case (Cons p qs)
  obtain st' where "batch_step h view p st = Inr st'" "memo_from ps (memo st')"
    using batch_step_complete [of p ps st view] Cons.prems assms(3-5) by auto
  then show ?case using Cons.IH [of st'] Cons.prems(1) by simp
qed simp

lemma BatchVerify_accepts:
  assumes "\<forall>p. p \<in> set ps \<longrightarrow> fst (VerifyOne h p view)" and "uniform_batch ps"
  shows "fst (BatchVerify h ps view) \<or> batch_collision ps"
proof (cases "batch_collision ps")
  case False
  have "memo_from ps (memo empty_batch)" by (simp add: memo_from_def empty_batch_def)
  from batch_loop_complete [OF subset_refl this assms False]
  show ?thesis by (auto simp: BatchVerify_def)
qed simp

text \<open>The work of a batch, whatever its outcome.\<close>

lemma batch_l1_hashes: "batch_l1 h sr j path cur idx mm n = (r, mm', n') \<Longrightarrow> n' \<le> n + length path"
proof (induction path arbitrary: j cur idx mm n)
  case (Cons e path)
  show ?case
  proof (cases "mm (sr, j + 1, drop_bit 1 idx)")
    case None
    then show ?thesis using Cons.IH [of "j + 1" "fold_step cur e" "drop_bit 1 idx" _ "n + 1"] Cons.prems
      by (simp add: Let_def)
  qed (use Cons.prems in \<open>auto simp: Let_def split: if_splits\<close>)
qed simp

lemma batch_step_hashes:
  "case batch_step h view p st of Inl n \<Rightarrow> n \<le> hashes st + work p | Inr st' \<Rightarrow> hashes st' \<le> hashes st + work p"
proof -
  let ?run = "batch_l1 h (SubtreeRoot p) 0 (L1 p) (Leaf p) (leafIndex (L1 p)) (memo st) (hashes st)"
  obtain r mm n where run: "?run = (r, mm, n)" by (cases ?run) auto
  have "n \<le> hashes st + length (L1 p)" using batch_l1_hashes [OF run] .
  then show ?thesis
    by (auto simp: batch_step_def run foldCount_eq work_def Let_def split: option.splits prod.splits)
qed

lemma batch_loop_hashes:
  "case batch_loop h view qs st of
     Inl n \<Rightarrow> n \<le> hashes st + sum_list (map work qs) | Inr st' \<Rightarrow> hashes st' \<le> hashes st + sum_list (map work qs)"
proof (induction qs arbitrary: st)
  case (Cons p qs)
  show ?case
  proof (cases "batch_step h view p st")
    case (Inl n)
    then show ?thesis using batch_step_hashes [where view = view and p = p and st = st] by simp
  next
    case (Inr st1)
    then show ?thesis using batch_step_hashes [where view = view and p = p and st = st] Cons.IH [of st1]
      by (auto split: sum.splits)
  qed
qed simp

lemma BatchVerify_hashes: "snd (BatchVerify h ps view) \<le> sum_list (map work ps)"
  using batch_loop_hashes [where view = view and qs = ps and st = empty_batch] by (auto simp: BatchVerify_def empty_batch_def split: sum.splits)

end

section \<open>Properties\<close>

text \<open>
  C29. A batch proves every leaf. When \<open>BatchVerify\<close> returns true, each proof's leaf folds to its
  subtree root, by a path of the length of some proof of the batch for that root; that root folds
  to the Merkle root of some proof's header; and that header, like the proof's own, has the hash of
  a header of the batch that the chain view contains. This holds although later proofs stop at the
  first node an earlier one has computed.
\<close>
theorem BatchVerify_sound:
  assumes "hash_pair h = HashPair" and "BatchVerify h ps view = (True, n)" and "p \<in> set ps"
  shows "under_root ps (SubtreeRoot p) 0 (Leaf p) \<and>
    (\<exists>p'. p' \<in> set ps \<and> SubtreeRoot p' = SubtreeRoot p \<and>
       Fold (SubtreeRoot p) (L2 p') = HeaderMerkleRoot (Header p') \<and>
       header_seen view ps (DoubleSHA256 (bytes_of (Header p')))) \<and>
    header_seen view ps (DoubleSHA256 (bytes_of (Header p)))"
proof -
  have b: "sha_backend h" by (rule sha_backend.intro [OF assms(1)])
  obtain st where s: "batch_sound view ps st" using sha_backend.BatchVerify_sound_aux [OF b assms(2)] by blast
  then have "under_root ps (SubtreeRoot p) 0 (Leaf p)" "root_in_block ps (SubtreeRoot p)"
    "\<forall>p'. p' \<in> set ps \<longrightarrow> header_seen view ps (DoubleSHA256 (bytes_of (Header p')))"
    using assms(3) unfolding batch_sound_def by blast+
  then show ?thesis using assms(3) unfolding root_in_block_def by blast
qed

text \<open>Two leaves under one parent; the second proof ends at the first one's node.\<close>

definition sibling_proofs :: "hash \<Rightarrow> hash \<Rightarrow> inclusion_proof list" where
  "sibling_proofs a b =
     (let r = HashPair a b; hdr = barray_of (replicate 36 0 @ bytes_of r @ replicate 12 0) in
      [\<lparr>Leaf = a, L1 = [\<lparr>Sibling = b, Right = True\<rparr>], SubtreeRoot = r, L2 = [], Header = hdr\<rparr>,
       \<lparr>Leaf = b, L1 = [\<lparr>Sibling = a, Right = False\<rparr>], SubtreeRoot = r, L2 = [], Header = hdr\<rparr>])"

lemma header_with_root:
  "HeaderMerkleRoot (barray_of (replicate 36 0 @ bytes_of r @ replicate 12 0)) = r"
  by (simp add: HeaderMerkleRoot_def bytes_of_barray_of go_slice_def)

lemma sibling_batch: "BatchVerify Software (sibling_proofs a b) None = (True, 2)"
  by (simp add: sibling_proofs_def BatchVerify_def batch_step_def empty_batch_def foldCount_def header_with_root
      on_chain_def leafIndex_def fold_step_def Let_def)

theorem BatchVerify_sound_witness:
  "\<exists>p'. p' \<in> set (sibling_proofs zero_hash (DoubleSHA256 [])) \<and> SubtreeRoot p' = HashPair zero_hash (DoubleSHA256 []) \<and>
     Fold (HashPair zero_hash (DoubleSHA256 [])) (L2 p') = HeaderMerkleRoot (Header p')"
proof -
  let ?ps = "sibling_proofs zero_hash (DoubleSHA256 [])"
  have "?ps ! 1 \<in> set ?ps" "SubtreeRoot (?ps ! 1) = HashPair zero_hash (DoubleSHA256 [])"
    by (simp_all add: sibling_proofs_def Let_def)
  then show ?thesis
    using BatchVerify_sound [OF software.pair sibling_batch, of "?ps ! 1"] by metis
qed

text \<open>
  C30. A batch agrees with its proofs one by one, and never does more work. If every proof passes
  \<open>VerifyOne\<close>, and the proofs of one subtree root have subtree paths of one and the same length, at most 64
  (\<open>uniform_batch\<close>, a condition on the input that the code does not check), then
  \<open>BatchVerify\<close> accepts, or two of the proofs contain a SHA-256d collision. Without that condition a batch of
  valid proofs can be rejected: the memo keys do not contain the length of the path. Whatever the outcome,
  the hashes it counts are at most the sum of the path lengths.
\<close>
theorem BatchVerify_complete:
  assumes "hash_pair h = HashPair" and "\<forall>p. p \<in> set ps \<longrightarrow> fst (VerifyOne h p view)" and "uniform_batch ps"
  shows "(fst (BatchVerify h ps view) \<or> batch_collision ps) \<and>
    snd (BatchVerify h ps view) \<le> sum_list (map (\<lambda>p. length (L1 p) + length (L2 p)) ps)"
proof
  have b: "sha_backend h" by (rule sha_backend.intro [OF assms(1)])
  show "fst (BatchVerify h ps view) \<or> batch_collision ps"
    by (rule sha_backend.BatchVerify_accepts [OF b assms(2,3)])
  have "work = (\<lambda>p. length (L1 p) + length (L2 p))" by (intro ext) (rule work_def)
  then show "snd (BatchVerify h ps view) \<le> sum_list (map (\<lambda>p. length (L1 p) + length (L2 p)) ps)"
    using sha_backend.BatchVerify_hashes [OF b, of ps view] by simp
qed

theorem BatchVerify_complete_witness:
  "fst (BatchVerify Software (sibling_proofs zero_hash (DoubleSHA256 [])) None) \<or>
   batch_collision (sibling_proofs zero_hash (DoubleSHA256 []))"
proof -
  let ?ps = "sibling_proofs zero_hash (DoubleSHA256 [])"
  have "\<forall>p. p \<in> set ?ps \<longrightarrow> fst (VerifyOne Software p None)"
    by (auto simp: sibling_proofs_def software.VerifyOne_eq header_with_root on_chain_def fold_step_def Let_def)
  moreover have "uniform_batch ?ps" by (auto simp: uniform_batch_def sibling_proofs_def Let_def)
  ultimately show ?thesis using BatchVerify_complete [OF software.pair] by blast
qed

lemma leafIndex_cong: "map Right p = map Right q \<Longrightarrow> leafIndex p = leafIndex q"
proof (rule bit_word_eqI)
  fix k assume "map Right p = map Right q"
  then have "length p = length q" "k < length p \<Longrightarrow> Right (p ! k) = Right (q ! k)"
    by (metis length_map, metis length_map nth_map)
  then show "bit (leafIndex p) k = bit (leafIndex q) k" by (auto simp: bit_leafIndex)
qed

lemma batch_l1_keeps:
  "batch_l1 h sr j path cur idx mm n = (r, mm', n') \<Longrightarrow> mm k = Some v \<Longrightarrow> mm' k = Some v"
proof (induction path arbitrary: j cur idx mm n)
  case (Cons e path)
  show ?case
  proof (cases "mm (sr, j + 1, drop_bit 1 idx)")
    case None
    let ?mm = "mm((sr, j + 1, drop_bit 1 idx) \<mapsto> pair_step h cur e)"
    have "batch_l1 h sr (j + 1) path (pair_step h cur e) (drop_bit 1 idx) ?mm (n + 1) = (r, mm', n')"
      using Cons.prems(1) None by (simp add: Let_def del: fun_upd_apply)
    moreover have "?mm k = Some v" using Cons.prems(2) None by auto
    ultimately show ?thesis by (rule Cons.IH)
  qed (use Cons.prems in \<open>auto simp: Let_def split: if_splits\<close>)
qed simp

context sha_backend
begin

text \<open>On a memo without entries of the subtree the loop folds the whole path.\<close>

lemma batch_l1_fresh:
  assumes "\<And>l i. j < l \<Longrightarrow> mm (sr, l, i) = None"
  shows "\<exists>mm'. batch_l1 h sr j path cur idx mm n = (Some (False, Fold cur path), mm', n + length path)"
  using assms
proof (induction path arbitrary: j cur idx mm n)
  case (Cons e path)
  let ?mm = "mm((sr, j + 1, drop_bit 1 idx) \<mapsto> fold_step cur e)"
  have "\<exists>mm'. batch_l1 h sr (j + 1) path (fold_step cur e) (drop_bit 1 idx) ?mm (n + 1)
      = (Some (False, Fold (fold_step cur e) path), mm', n + 1 + length path)"
    by (rule Cons.IH) (use Cons.prems in auto)
  then show ?case using Cons.prems [of "j + 1"] by (simp add: Let_def del: fun_upd_apply)
qed simp

end

text \<open>
  C31. Only the first proof of a subtree is checked against its header. After a valid proof, a second
  one for the same leaf and root is accepted whatever its block path, its header (as long as the view
  contains it) and its upper siblings are, although \<open>VerifyOne\<close> rejects it. So an accepted batch
  does not show that a transaction is in the block of its own proof's header.
\<close>
theorem BatchVerify_ignores_header:
  assumes "hash_pair h = HashPair" and "fst (VerifyOne h p view)" and "L1 p = e # es"
    and "L1 p' = e # es'" and "map Right es' = map Right es" and "Leaf p' = Leaf p"
    and "SubtreeRoot p' = SubtreeRoot p" and "on_chain view (Header p')"
  shows "fst (BatchVerify h [p, p'] view) \<and>
    (fst (VerifyOne h p' view) \<longleftrightarrow> Fold (fold_step (Leaf p) e) es' = SubtreeRoot p \<and>
       Fold (SubtreeRoot p) (L2 p') = HeaderMerkleRoot (Header p'))"
proof -
  have b: "sha_backend h" by (rule sha_backend.intro [OF assms(1)])
  note [simp] = sha_backend.pair_step_eq [OF b] sha_backend.foldCount_eq [OF b]
  note v = sha_backend.VerifyOne_eq [OF b]
  let ?sr = "SubtreeRoot p" and ?i = "leafIndex (L1 p)"
  let ?k = "(?sr, 1, drop_bit 1 ?i)" and ?parent = "fold_step (Leaf p) e"
  have ok: "Fold ?parent es = ?sr" "Fold ?sr (L2 p) = HeaderMerkleRoot (Header p)" "on_chain view (Header p)"
    using assms(2,3) by (simp_all add: v)
  have i': "leafIndex (L1 p') = ?i" using assms(3-5) by (intro leafIndex_cong) simp
  let ?mm = "[?k \<mapsto> ?parent]"
  obtain mm1 where run: "batch_l1 h ?sr 1 es ?parent (drop_bit 1 ?i) ?mm 1 = (Some (False, ?sr), mm1, 1 + length es)"
    using sha_backend.batch_l1_fresh [OF b, of 1 ?mm ?sr es ?parent "drop_bit 1 ?i" 1] ok(1) by auto
  have m1: "mm1 ?k = Some ?parent" by (rule batch_l1_keeps [OF run]) simp
  have "batch_l1 h ?sr 0 (L1 p) (Leaf p) ?i Map.empty 0 = (Some (False, ?sr), mm1, 1 + length es)"
    using run assms(3) by (simp add: Let_def del: fun_upd_apply)
  then obtain st1 where st1: "batch_step h view p empty_batch = Inr st1" "memo st1 = mm1"
    and s1: "go_get False (subtreeOK st1) ?sr"
    using ok by (auto simp: batch_step_def empty_batch_def)
  have "batch_l1 h ?sr 0 (L1 p') (Leaf p) ?i mm1 (hashes st1) = (Some (True, Leaf p), mm1, hashes st1 + 1)"
    using m1 assms(4) by (simp add: Let_def)
  then have "\<exists>st2. batch_step h view p' st1 = Inr st2"
    using s1 st1(2) i' assms(6-8) by (simp add: batch_step_def Let_def)
  then have "fst (BatchVerify h [p, p'] view)" using st1(1) by (auto simp: BatchVerify_def)
  then show ?thesis using assms(4,6-8) by (simp add: v)
qed

text \<open>The second proof of two siblings, with a header of another block.\<close>

theorem BatchVerify_ignores_header_witness:
  "let p = sibling_proofs zero_hash (DoubleSHA256 []) ! 1;
       p' = p\<lparr>L2 := [\<lparr>Sibling = zero_hash, Right = True\<rparr>], Header := barray_of [7]\<rparr>
   in fst (BatchVerify Software [p, p'] None)"
proof -
  let ?p = "sibling_proofs zero_hash (DoubleSHA256 []) ! 1"
  let ?p' = "?p\<lparr>L2 := [\<lparr>Sibling = zero_hash, Right = True\<rparr>], Header := barray_of [7]\<rparr>"
  have "fst (VerifyOne Software ?p None)"
    by (simp add: sibling_proofs_def software.VerifyOne_eq header_with_root on_chain_def fold_step_def Let_def)
  moreover have "L1 ?p = [\<lparr>Sibling = zero_hash, Right = False\<rparr>]" by (simp add: sibling_proofs_def Let_def)
  ultimately have "fst (BatchVerify Software [?p, ?p'] None)"
    using BatchVerify_ignores_header [OF software.pair, of ?p None _ "[]" ?p' "[]"] by (simp add: on_chain_def)
  then show ?thesis by (simp add: Let_def)
qed

text \<open>
  What is fetched verifies. For a transaction a reachable node has located, \<open>Fetch\<close> assembles a
  proof of exactly that transaction id and of the header of its block, and \<open>VerifyOne\<close> accepts it
  against the node's chain as long as the block is on it; for an unknown one \<open>Fetch\<close> fails.
\<close>
theorem Fetch_verifies:
  assumes "reachable_node cap n" and "0 < cap" and "cap \<le> 2 ^ 20" and "hash_pair h = HashPair"
  shows "case node_LocateTx n txid of
      Inl e \<Rightarrow> Fetch txid (node_source n) = Inl e
    | Inr bh \<Rightarrow> \<exists>p. Fetch txid (node_source n) = Inr p \<and> Leaf p = txid \<and> DoubleSHA256 (bytes_of (Header p)) = bh \<and>
        (fst (VerifyOne h p (Some (node_chain n))) \<longleftrightarrow> go_get False (onBest n) bh)"
proof (cases "node_LocateTx n txid")
  case (Inl e)
  then show ?thesis
    by (auto simp: Fetch_def node_source_def node_LocateTx_def node_SubtreePathFor_def split: option.splits)
next
  case (Inr bh)
  note good = good_nodeI [OF assms(1-3)]
  have loc: "LocateTx (node_source n) txid = Inr bh" using Inr by (simp add: node_source_def)
  obtain l1 sub l2 root hd where p: "SubtreePathFor (node_source n) txid = Inr (l1, sub)"
    "BlockPathFor (node_source n) sub bh = Inr (l2, root)" "HeaderFor (node_source n) bh = Inr hd"
    "Fold txid l1 = sub" "Fold sub l2 = root" "header_root hd = bytes_of root" "DoubleSHA256 (bytes_of hd) = bh"
    using node_src.located [OF good loc] by metis
  let ?p = "\<lparr>Leaf = txid, L1 = l1, SubtreeRoot = sub, L2 = l2, Header = hd\<rparr>"
  have "HeaderMerkleRoot hd = root" using p(6) by (simp add: HeaderMerkleRoot_def header_root_def)
  moreover have "on_chain (Some (node_chain n)) hd = go_get False (onBest n) bh"
    using on_node_view [OF good p(7) located_block [OF good Inr]] by (simp add: on_chain_def on_view_def)
  ultimately have "fst (VerifyOne h ?p (Some (node_chain n))) \<longleftrightarrow> go_get False (onBest n) bh"
    using p(4,5) sha_backend.VerifyOne_eq [OF sha_backend.intro [OF assms(4)]] by simp
  moreover have "Fetch txid (node_source n) = Inr ?p" using p(1-3) loc by (simp add: Fetch_def)
  ultimately show ?thesis using p(7) Inr by auto
qed

theorem Fetch_verifies_witness:
  "\<exists>n p. Fetch zero_hash (node_source n) = Inr p \<and> Leaf p = zero_hash \<and>
     fst (VerifyOne Software p (Some (node_chain n)))"
proof -
  obtain n bh where n: "reachable_node 1 n" "node_LocateTx n zero_hash = Inr bh" "go_get False (onBest n) bh"
    by (rule one_tx_node)
  have "(0::nat) < 1" "(1::nat) \<le> 2 ^ 20" by simp_all
  from Fetch_verifies [OF n(1) this software.pair, of zero_hash] n(2,3) show ?thesis by auto
qed

end
