(* ===== verification/FabricCodec.thy ===== *)
theory FabricCodec
  imports Fabric
begin

text \<open>
  Package \<open>fabric\<close>, the wire codec (src/fabric/codec.go): the bytes of a proof and of a batch, the
  bounds-checked decoder, and the decoding of a batch. The buffer \<open>dst\<close> of \<open>DecodeBatch\<close> is only
  reused storage and has no part in the model.
\<close>

section \<open>Encoding\<close>

text \<open>One path element: the direction byte and the sibling.\<close>

definition put_elem :: "bytes \<Rightarrow> path_elem \<Rightarrow> bytes" where
  "put_elem dst e = (if Right e then dst @ [1] else dst @ [0]) @ bytes_of (Sibling e)"

definition EncodeProof :: "bytes \<Rightarrow> inclusion_proof \<Rightarrow> bytes" where
  "EncodeProof dst p =
     (let dst = dst @ bytes_of (Leaf p);
          dst = dst @ le_bytes 2 (word_of_nat (length (L1 p)) :: u16);
          dst = fold (\<lambda>e dst. put_elem dst e) (L1 p) dst;
          dst = dst @ bytes_of (SubtreeRoot p);
          dst = dst @ le_bytes 2 (word_of_nat (length (L2 p)) :: u16);
          dst = fold (\<lambda>e dst. put_elem dst e) (L2 p) dst
      in dst @ bytes_of (Header p))"

definition EncodeBatch :: "inclusion_proof list \<Rightarrow> bytes" where
  "EncodeBatch proofs =
     fold (\<lambda>p out. let pb = EncodeProof [] p in out @ le_bytes 4 (word_of_nat (length pb) :: u32) @ pb)
       proofs (le_bytes 4 (word_of_nat (length proofs) :: u32))"

section \<open>Decoding\<close>

record decoder =
  db :: bytes
  doff :: nat

text \<open>A failed \<open>take\<close> leaves the decoder as it is.\<close>

definition d_take :: "nat \<Rightarrow> decoder \<Rightarrow> bytes option \<times> decoder" where
  "d_take n d =
     (if length (db d) < doff d + n then (None, d)
      else (Some (go_slice (db d) (doff d) (doff d + n)), d\<lparr>doff := doff d + n\<rparr>))"

text \<open>The loop of \<open>decodePath\<close>: the elements that are still to be read.\<close>

primrec decode_elems :: "nat \<Rightarrow> path_elem list \<Rightarrow> decoder \<Rightarrow> path_elem list option \<times> decoder" where
  "decode_elems 0 p d = (Some p, d)"
| "decode_elems (Suc n) p d =
     (case d_take 1 d of
        (None, d) \<Rightarrow> (None, d)
      | (Some rb, d) \<Rightarrow>
        (case d_take 32 d of
           (None, d) \<Rightarrow> (None, d)
         | (Some sb, d) \<Rightarrow> decode_elems n (p @ [\<lparr>Sibling = barray_of sb, Right = (rb ! 0 = 1)\<rparr>]) d))"

definition max_path :: nat where
  "max_path = 4096"

definition decodePath :: "decoder \<Rightarrow> path_elem list option \<times> decoder" where
  "decodePath d =
     (case d_take 2 d of
        (None, d) \<Rightarrow> (None, d)
      | (Some cb, d) \<Rightarrow>
        (let n = unat (le_word cb :: u16) in
         if n = 0 then (Some [], d)
         else if max_path < n then (None, d)
         else decode_elems n [] d))"

definition decodeProof :: "decoder \<Rightarrow> inclusion_proof option \<times> decoder" where
  "decodeProof d =
     (case d_take 32 d of
        (None, d) \<Rightarrow> (None, d)
      | (Some leaf, d) \<Rightarrow>
     (case decodePath d of
        (None, d) \<Rightarrow> (None, d)
      | (Some l1, d) \<Rightarrow>
     (case d_take 32 d of
        (None, d) \<Rightarrow> (None, d)
      | (Some sr, d) \<Rightarrow>
     (case decodePath d of
        (None, d) \<Rightarrow> (None, d)
      | (Some l2, d) \<Rightarrow>
     (case d_take 80 d of
        (None, d) \<Rightarrow> (None, d)
      | (Some hdr, d) \<Rightarrow>
          (Some \<lparr>Leaf = barray_of leaf, L1 = l1, SubtreeRoot = barray_of sr, L2 = l2, Header = barray_of hdr\<rparr>, d))))))"

primrec decode_batch_loop :: "nat \<Rightarrow> inclusion_proof list \<Rightarrow> decoder \<Rightarrow> inclusion_proof list res" where
  "decode_batch_loop 0 dst d = Inr dst"
| "decode_batch_loop (Suc n) dst d =
     (case d_take 4 d of
        (None, _) \<Rightarrow> Inl ErrTruncated
      | (Some lp, d) \<Rightarrow>
        (case d_take (unat (le_word lp :: u32)) d of
           (None, _) \<Rightarrow> Inl ErrTruncated
         | (Some pb, d) \<Rightarrow>
           (case decodeProof \<lparr>db = pb, doff = 0\<rparr> of
              (None, _) \<Rightarrow> Inl ErrTruncated
            | (Some p, _) \<Rightarrow> decode_batch_loop n (dst @ [p]) d)))"

definition DecodeBatch :: "bytes \<Rightarrow> inclusion_proof list res" where
  "DecodeBatch data =
     (if length data < 4 then Inl ErrTruncated
      else decode_batch_loop (unat (le_word (go_slice data 0 4) :: u32)) [] \<lparr>db = data, doff = 4\<rparr>)"

section \<open>What is written\<close>

definition wire_elem :: "path_elem \<Rightarrow> bytes" where
  "wire_elem e = (if Right e then 1 else 0) # bytes_of (Sibling e)"

definition wire_path :: "path_elem list \<Rightarrow> bytes" where
  "wire_path p = le_bytes 2 (word_of_nat (length p) :: u16) @ concat (map wire_elem p)"

definition wire_proof :: "inclusion_proof \<Rightarrow> bytes" where
  "wire_proof p = bytes_of (Leaf p) @ wire_path (L1 p) @ bytes_of (SubtreeRoot p) @ wire_path (L2 p) @ bytes_of (Header p)"

definition wire_item :: "inclusion_proof \<Rightarrow> bytes" where
  "wire_item p = le_bytes 4 (word_of_nat (length (wire_proof p)) :: u32) @ wire_proof p"

lemma fold_put: "fold (\<lambda>e dst. put_elem dst e) p w = w @ concat (map wire_elem p)"
  by (induction p arbitrary: w) (simp_all add: put_elem_def wire_elem_def)

lemma EncodeProof_eq: "EncodeProof dst p = dst @ wire_proof p"
  by (simp add: EncodeProof_def fold_put wire_proof_def wire_path_def)

lemma EncodeBatch_eq:
  "EncodeBatch ps = le_bytes 4 (word_of_nat (length ps) :: u32) @ concat (map wire_item ps)"
proof -
  have "fold (\<lambda>p out. let pb = EncodeProof [] p in out @ le_bytes 4 (word_of_nat (length pb) :: u32) @ pb) ps w
      = w @ concat (map wire_item ps)" for w
    by (induction ps arbitrary: w) (simp_all add: EncodeProof_eq wire_item_def Let_def)
  then show ?thesis by (simp add: EncodeBatch_def)
qed

lemma length_wire_path: "length (wire_path p) = 2 + 33 * length p"
  by (induction p) (simp_all add: wire_path_def wire_elem_def)

lemma length_wire_proof: "length (wire_proof p) = 148 + 33 * length (L1 p) + 33 * length (L2 p)"
  by (simp add: wire_proof_def length_wire_path)

section \<open>What is read\<close>

definition decoder_at :: "decoder \<Rightarrow> bytes \<Rightarrow> bool" where
  "decoder_at d xs \<longleftrightarrow> doff d \<le> length (db d) \<and> drop (doff d) (db d) = xs"

interpretation dec: byte_reader d_take decoder_at
proof
  fix d xs rest
  assume a: "decoder_at d (xs @ rest)"
  then have len: "length (db d) = doff d + length xs + length rest"
    by (metis (no_types, lifting) add.assoc le_add_diff_inverse length_append length_drop decoder_at_def)
  have "take (length xs) (drop (doff d) (db d)) = xs"
    and "drop (length xs) (drop (doff d) (db d)) = rest"
    using a by (simp_all add: decoder_at_def)
  then have "go_slice (db d) (doff d) (doff d + length xs) = xs"
    and "drop (doff d + length xs) (db d) = rest"
    by (simp_all add: go_slice_def add.commute)
  then show "\<exists>d'. d_take (length xs) d = (Some xs, d') \<and> decoder_at d' rest"
    using len by (simp add: d_take_def decoder_at_def)
qed

lemma decode_elems_ok:
  "decoder_at d (concat (map wire_elem p) @ rest) \<Longrightarrow>
   \<exists>d'. decode_elems (length p) acc d = (Some (acc @ p), d') \<and> decoder_at d' rest"
proof (induction p arbitrary: acc d)
  case (Cons e p)
  let ?tl = "concat (map wire_elem p) @ rest"
  have "decoder_at d ((if Right e then 1 else 0) # bytes_of (Sibling e) @ ?tl)"
    using Cons.prems by (simp add: wire_elem_def [of e])
  from dec.take_byte [OF this] obtain d1 where d1: "d_take 1 d = (Some [if Right e then 1 else 0], d1)"
    and at1: "decoder_at d1 (bytes_of (Sibling e) @ ?tl)" by blast
  from dec.take_barray [OF at1] obtain b d2 where d2: "d_take 32 d1 = (Some b, d2)" "barray_of b = Sibling e"
    and at2: "decoder_at d2 ?tl" by auto
  show ?case
    using Cons.IH [OF at2, of "acc @ [e]"] d1 d2 by (cases e) (auto simp: One_nat_def)
qed simp

lemma decodePath_ok:
  assumes "decoder_at d (wire_path p @ rest)" and "length p \<le> max_path"
  shows "\<exists>d'. decodePath d = (Some p, d') \<and> decoder_at d' rest"
proof -
  let ?n = "word_of_nat (length p) :: u16"
  have n: "unat ?n = length p" using assms(2) by (intro unat_word_of_nat_16) (simp add: max_path_def)
  have "decoder_at d (le_bytes 2 ?n @ concat (map wire_elem p) @ rest)"
    using assms(1) by (simp add: wire_path_def)
  from dec.take_word [OF this] obtain b d1 where d1: "d_take 2 d = (Some b, d1)" "le_word b = ?n"
    and at1: "decoder_at d1 (concat (map wire_elem p) @ rest)" by auto
  show ?thesis
    using decode_elems_ok [OF at1, of "[]"] d1 n assms(2) at1
    by (cases "p = []") (auto simp: decodePath_def Let_def)
qed

definition proof_ok :: "inclusion_proof \<Rightarrow> bool" where
  "proof_ok p \<longleftrightarrow> length (L1 p) \<le> max_path \<and> length (L2 p) \<le> max_path"

lemma decodeProof_ok:
  assumes "proof_ok p"
  shows "\<exists>d'. decodeProof \<lparr>db = wire_proof p, doff = 0\<rparr> = (Some p, d')"
proof -
  let ?d = "\<lparr>db = wire_proof p, doff = 0\<rparr>"
  have "decoder_at ?d (bytes_of (Leaf p) @ wire_path (L1 p) @ bytes_of (SubtreeRoot p) @ wire_path (L2 p) @ bytes_of (Header p) @ [])"
    by (simp add: decoder_at_def wire_proof_def)
  from dec.take_barray [OF this] obtain b1 d1 where d1: "d_take 32 ?d = (Some b1, d1)" "barray_of b1 = Leaf p"
    and at1: "decoder_at d1 (wire_path (L1 p) @ bytes_of (SubtreeRoot p) @ wire_path (L2 p) @ bytes_of (Header p) @ [])" by auto
  from decodePath_ok [OF at1] assms obtain d2 where d2: "decodePath d1 = (Some (L1 p), d2)"
    and at2: "decoder_at d2 (bytes_of (SubtreeRoot p) @ wire_path (L2 p) @ bytes_of (Header p) @ [])" by (auto simp: proof_ok_def)
  from dec.take_barray [OF at2] obtain b3 d3 where d3: "d_take 32 d2 = (Some b3, d3)" "barray_of b3 = SubtreeRoot p"
    and at3: "decoder_at d3 (wire_path (L2 p) @ bytes_of (Header p) @ [])" by auto
  from decodePath_ok [OF at3] assms obtain d4 where d4: "decodePath d3 = (Some (L2 p), d4)"
    and at4: "decoder_at d4 (bytes_of (Header p) @ [])" by (auto simp: proof_ok_def)
  from dec.take_barray [OF at4] obtain b5 d5 where d5: "d_take 80 d4 = (Some b5, d5)" "barray_of b5 = Header p" by auto
  show ?thesis using d1 d2 d3 d4 d5 by (simp add: decodeProof_def)
qed

lemma decode_batch_ok:
  "decoder_at d (concat (map wire_item ps) @ rest) \<Longrightarrow> list_all proof_ok ps \<Longrightarrow>
   decode_batch_loop (length ps) acc d = Inr (acc @ ps)"
proof (induction ps arbitrary: acc d)
  case (Cons p ps)
  let ?tl = "concat (map wire_item ps) @ rest" and ?n = "word_of_nat (length (wire_proof p)) :: u32"
  have n: "unat ?n = length (wire_proof p)"
    using Cons.prems(2) by (intro unat_word_of_nat_32) (simp add: length_wire_proof proof_ok_def max_path_def)
  have "decoder_at d (le_bytes 4 ?n @ wire_proof p @ ?tl)" using Cons.prems(1) by (simp add: wire_item_def [of p])
  from dec.take_word [OF this] obtain b d1 where d1: "d_take 4 d = (Some b, d1)" "le_word b = ?n"
    and at1: "decoder_at d1 (wire_proof p @ ?tl)" by auto
  from dec.take_n [OF at1 n [symmetric]] obtain d2 where d2: "d_take (unat ?n) d1 = (Some (wire_proof p), d2)"
    and at2: "decoder_at d2 ?tl" by blast
  obtain d' where "decodeProof \<lparr>db = wire_proof p, doff = 0\<rparr> = (Some p, d')"
    using decodeProof_ok [of p] Cons.prems(2) by auto
  then show ?case using Cons.IH [OF at2, of "acc @ [p]"] Cons.prems(2) d1 d2 by simp
qed simp

lemma DecodeBatch_Encode:
  assumes "list_all proof_ok ps" and "length ps < 2 ^ 32"
  shows "DecodeBatch (EncodeBatch ps @ junk) = Inr ps"
proof -
  let ?n = "word_of_nat (length ps) :: u32"
  have n: "unat ?n = length ps" using assms(2) by (intro unat_word_of_nat_32) simp
  have "go_slice (EncodeBatch ps @ junk) 0 4 = le_bytes 4 ?n" by (simp add: EncodeBatch_eq go_slice_def)
  moreover have "decoder_at \<lparr>db = EncodeBatch ps @ junk, doff = 4\<rparr> (concat (map wire_item ps) @ junk)"
    by (simp add: decoder_at_def EncodeBatch_eq)
  moreover have "\<not> length (EncodeBatch ps @ junk) < 4" by (simp add: EncodeBatch_eq)
  ultimately show ?thesis
    using decode_batch_ok [of _ ps junk "[]"] assms(1) n by (simp add: DecodeBatch_def le_word_le_bytes)
qed

section \<open>Truncated input\<close>

lemma d_take_short: "decoder_at d xs \<Longrightarrow> length xs < n \<Longrightarrow> fst (d_take n d) = None"
  by (auto simp: d_take_def decoder_at_def)

lemma prefix_of_append:
  assumes "xs @ ys = a @ b" and "length a \<le> length xs"
  obtains xs' where "xs = a @ xs'" and "xs' @ ys = b"
proof -
  have "xs = a @ drop (length a) xs"
    using assms by (metis append_eq_append_conv_if append_take_drop_id)
  then show thesis using that assms(1) by (metis append.assoc same_append_eq)
qed

lemma decode_batch_short:
  "decoder_at d xs \<Longrightarrow> xs @ ys = concat (map wire_item ps) \<Longrightarrow> ys \<noteq> [] \<Longrightarrow> list_all proof_ok ps \<Longrightarrow>
   decode_batch_loop (length ps) acc d = Inl ErrTruncated"
proof (induction ps arbitrary: acc d xs)
  case (Cons p ps)
  let ?tl = "concat (map wire_item ps)" and ?n = "word_of_nat (length (wire_proof p)) :: u32"
  have n: "unat ?n = length (wire_proof p)"
    using Cons.prems(4) by (intro unat_word_of_nat_32) (simp add: length_wire_proof proof_ok_def max_path_def)
  have eq: "xs @ ys = le_bytes 4 ?n @ wire_proof p @ ?tl" using Cons.prems(2) by (simp add: wire_item_def [of p])
  show ?case
  proof (cases "length xs < 4")
    case True
    then show ?thesis using d_take_short [OF Cons.prems(1)] by (auto simp: split_def split: prod.splits option.splits)
  next
    case False
    then obtain xs1 where xs1: "xs = le_bytes 4 ?n @ xs1" "xs1 @ ys = wire_proof p @ ?tl"
      using prefix_of_append [OF eq] by auto
    obtain b d1 where d1: "d_take 4 d = (Some b, d1)" "le_word b = ?n" and at1: "decoder_at d1 xs1"
      using dec.take_word [of d 4 ?n xs1] Cons.prems(1) xs1(1) by auto
    show ?thesis
    proof (cases "length xs1 < length (wire_proof p)")
      case True
      then show ?thesis using d_take_short [OF at1, of "unat ?n"] d1 n by (auto split: prod.splits option.splits)
    next
      case False
      then obtain xs2 where xs2: "xs1 = wire_proof p @ xs2" "xs2 @ ys = ?tl"
        using prefix_of_append [OF xs1(2)] by auto
      obtain d2 where d2: "d_take (unat ?n) d1 = (Some (wire_proof p), d2)" and at2: "decoder_at d2 xs2"
        using dec.take_n [of d1 "wire_proof p" xs2 "unat ?n"] at1 xs2(1) n by auto
      obtain d' where "decodeProof \<lparr>db = wire_proof p, doff = 0\<rparr> = (Some p, d')"
        using decodeProof_ok [of p] Cons.prems(4) by auto
      then show ?thesis using Cons.IH [OF at2 xs2(2) Cons.prems(3), of "acc @ [p]"] Cons.prems(4) d1 d2 by simp
    qed
  qed
qed simp

lemma DecodeBatch_short:
  assumes "list_all proof_ok ps" and "length ps < 2 ^ 32" and "k < length (EncodeBatch ps)"
  shows "DecodeBatch (take k (EncodeBatch ps)) = Inl ErrTruncated"
proof (cases "k < 4")
  case False
  let ?n = "word_of_nat (length ps) :: u32" and ?body = "concat (map wire_item ps)"
  have n: "unat ?n = length ps" using assms(2) by (intro unat_word_of_nat_32) simp
  have t: "take k (EncodeBatch ps) = le_bytes 4 ?n @ take (k - 4) ?body"
    using False by (simp add: EncodeBatch_eq)
  have "decoder_at \<lparr>db = take k (EncodeBatch ps), doff = 4\<rparr> (take (k - 4) ?body)"
    by (simp add: decoder_at_def t)
  moreover have "drop (k - 4) ?body \<noteq> []" using False assms(3) by (simp add: EncodeBatch_eq)
  moreover have "go_slice (take k (EncodeBatch ps)) 0 4 = le_bytes 4 ?n" by (simp add: t go_slice_def)
  moreover have "\<not> length (take k (EncodeBatch ps)) < 4" by (simp add: t)
  ultimately show ?thesis
    using decode_batch_short [of _ "take (k - 4) ?body" "drop (k - 4) ?body" ps "[]"] assms(1) n
    by (simp add: DecodeBatch_def le_word_le_bytes)
qed (simp add: DecodeBatch_def min_less_iff_disj)

section \<open>Properties\<close>

text \<open>
  C32. The batch codec. Proofs with paths of at most 4096 elements survive the round trip; bytes after
  the announced proofs are ignored; and every proper prefix of an encoded batch is refused as
  truncated, so no cut of the stream decodes to fewer proofs.
\<close>
theorem batch_roundtrip:
  assumes "list_all proof_ok ps" and "length ps < 2 ^ 32"
  shows "DecodeBatch (EncodeBatch ps @ junk) = Inr ps \<and>
    (k < length (EncodeBatch ps) \<longrightarrow> DecodeBatch (take k (EncodeBatch ps)) = Inl ErrTruncated)"
  using DecodeBatch_Encode [OF assms] DecodeBatch_short [OF assms] by blast

theorem batch_roundtrip_witness:
  "DecodeBatch (EncodeBatch (sibling_proofs zero_hash (DoubleSHA256 [])) @ [1, 2])
     = Inr (sibling_proofs zero_hash (DoubleSHA256 [])) \<and>
   DecodeBatch (take 100 (EncodeBatch (sibling_proofs zero_hash (DoubleSHA256 [])))) = Inl ErrTruncated"
proof -
  let ?ps = "sibling_proofs zero_hash (DoubleSHA256 [])"
  have ok: "list_all proof_ok ?ps" and len: "length ?ps < 2 ^ 32"
    by (simp_all add: sibling_proofs_def proof_ok_def max_path_def Let_def)
  have "100 < length (EncodeBatch ?ps)"
    by (simp add: EncodeBatch_eq sibling_proofs_def wire_item_def length_wire_proof Let_def)
  then show ?thesis using batch_roundtrip [OF ok len] by blast
qed

end
