(* ===== verification/FabricStream.thy ===== *)
theory FabricStream
  imports FabricCodec
begin

text \<open>
  Package \<open>fabric\<close>, the streaming verifier (src/fabric/stream.go): one pass over the wire bytes that
  decodes and verifies without allocating proofs, with memo keys packed into 64 bits and small ids for
  the subtree roots. Offsets are the code's: \<open>off\<close> into the wire bytes, \<open>ofs\<close> (\<open>o\<close> in the code) into the
  bytes of one proof. The fixed arrays \<open>sibs\<close> and \<open>rights\<close> are a list of at most 64 elements. A
  length of the wire is never negative as a 64-bit \<open>int\<close>.
\<close>

section \<open>State\<close>

record verifier =
  v_memo :: "u64 \<rightharpoonup> hash"
  subID :: "hash \<rightharpoonup> u32"
  subOK :: "u32 \<rightharpoonup> bool"
  hdrOK :: "hash \<rightharpoonup> bool"

definition NewVerifier :: verifier where
  "NewVerifier = \<lparr>v_memo = Map.empty, subID = Map.empty, subOK = Map.empty, hdrOK = Map.empty\<rparr>"

definition reset :: "verifier \<Rightarrow> verifier" where
  "reset v = v\<lparr>v_memo := Map.empty, subID := Map.empty, subOK := Map.empty, hdrOK := Map.empty\<rparr>"

definition max_l1 :: nat where
  "max_l1 = 64"

text \<open>\<open>u32\<close> of stream.go: four bytes, little-endian.\<close>

definition wire_u32 :: "bytes \<Rightarrow> u32" where
  "wire_u32 b = ucast (b ! 0) OR push_bit 8 (ucast (b ! 1)) OR push_bit 16 (ucast (b ! 2)) OR push_bit 24 (ucast (b ! 3))"

text \<open>\<open>int(b[o]) | int(b[o+1])<<8\<close>.\<close>

definition wire_u16 :: "bytes \<Rightarrow> nat \<Rightarrow> nat" where
  "wire_u16 b ofs = unat (b ! ofs) OR push_bit 8 (unat (b ! (ofs + 1)))"

section \<open>The steps of one proof\<close>

text \<open>The L1 elements from index \<open>j\<close>, with the index bits; \<open>None\<close> when the bytes end.\<close>

primrec read_l1 :: "nat \<Rightarrow> nat \<Rightarrow> bytes \<Rightarrow> nat \<Rightarrow> path_elem list \<Rightarrow> u64 \<Rightarrow> (path_elem list \<times> u64 \<times> nat) option" where
  "read_l1 0 j b ofs es idx = Some (es, idx, ofs)"
| "read_l1 (Suc n) j b ofs es idx =
     (if length b < ofs + 33 then None
      else
        let right = (b ! ofs = 1); sib = barray_of (go_slice b (ofs + 1) (ofs + 33)) in
        read_l1 n (j + 1) b (ofs + 33) (es @ [\<lparr>Sibling = sib, Right = right\<rparr>])
          (if \<not> right then idx OR push_bit j 1 else idx))"

definition memo_key :: "u32 \<Rightarrow> nat \<Rightarrow> u64 \<Rightarrow> u64" where
  "memo_key sid level pidx = push_bit 40 (ucast sid) OR push_bit 32 (word_of_nat level) OR pidx"

text \<open>The fold of L1 from level \<open>j\<close>; the result as in \<open>batch_l1\<close>.\<close>

primrec stream_l1 ::
  "hasher \<Rightarrow> u32 \<Rightarrow> nat \<Rightarrow> path_elem list \<Rightarrow> hash \<Rightarrow> u64 \<Rightarrow> (u64 \<rightharpoonup> hash) \<Rightarrow> nat
    \<Rightarrow> (bool \<times> hash) option \<times> (u64 \<rightharpoonup> hash) \<times> nat" where
  "stream_l1 h sid j [] cur idx mm n = (Some (False, cur), mm, n)"
| "stream_l1 h sid j (e # path) cur idx mm n =
     (let parent = pair_step h cur e; n = n + 1; pidx = drop_bit 1 idx; k = memo_key sid (j + 1) pidx in
      case mm k of
        Some existing \<Rightarrow> if existing \<noteq> parent then (None, mm, n) else (Some (True, cur), mm, n)
      | None \<Rightarrow> stream_l1 h sid (j + 1) path parent pidx (mm(k \<mapsto> parent)) n)"

text \<open>The fold of the \<open>n\<close> elements of L2 from position \<open>base\<close> on.\<close>

primrec fold_l2 :: "hasher \<Rightarrow> nat \<Rightarrow> bytes \<Rightarrow> nat \<Rightarrow> hash \<Rightarrow> hash" where
  "fold_l2 h 0 b base node = node"
| "fold_l2 h (Suc n) b base node =
     (let right = (b ! base = 1); sib = barray_of (go_slice b (base + 1) (base + 33)) in
      fold_l2 h n b (base + 33) (if right then hash_pair h node sib else hash_pair h sib node))"

section \<open>The pass\<close>

record stream_state =
  ver :: verifier
  nextID :: u32
  last_sub :: "(hash \<times> u32) option"
  s_hashes :: nat

text \<open>The id of a subtree root, with the fast path for the root of the previous proof.\<close>

definition subtree_id :: "hash \<Rightarrow> stream_state \<Rightarrow> u32 \<times> stream_state" where
  "subtree_id subRoot st =
     (let slow =
        (let (sid, st) = (case subID (ver st) subRoot of
                Some sid \<Rightarrow> (sid, st)
              | None \<Rightarrow> (nextID st,
                  st\<lparr>nextID := nextID st + 1,
                    ver := (ver st)\<lparr>subID := (subID (ver st))(subRoot \<mapsto> nextID st)\<rparr>\<rparr>))
         in (sid, st\<lparr>last_sub := Some (subRoot, sid)\<rparr>))
      in case last_sub st of
           Some (s, sid) \<Rightarrow> if subRoot = s then (sid, st) else slow
         | None \<Rightarrow> slow)"

text \<open>The body of the loop for the bytes \<open>b\<close> of one proof; \<open>Inl\<close> is \<open>return false\<close>.\<close>

definition wire_step ::
  "hasher \<Rightarrow> header_chain option \<Rightarrow> bytes \<Rightarrow> stream_state \<Rightarrow> nat + stream_state" where
  "wire_step h view b st =
     (if length b < 32 then Inl (s_hashes st)
      else
        let leaf = barray_of (go_slice b 0 32) in
        if length b < 34 then Inl (s_hashes st)
        else
          let n1 = wire_u16 b 32 in
          if max_l1 < n1 then Inl (s_hashes st)
          else
            case read_l1 n1 0 b 34 [] 0 of
              None \<Rightarrow> Inl (s_hashes st)
            | Some (path, idx, ofs) \<Rightarrow>
              if length b < ofs + 32 then Inl (s_hashes st)
              else
                let subRoot = barray_of (go_slice b ofs (ofs + 32));
                    ofs = ofs + 32;
                    (sid, st) = subtree_id subRoot st
                in
                case stream_l1 h sid 0 path leaf idx (v_memo (ver st)) (s_hashes st) of
                  (None, mm, n) \<Rightarrow> Inl n
                | (Some (merged, cur), mm, n) \<Rightarrow>
                  if \<not> merged \<and> cur \<noteq> subRoot then Inl n
                  else
                    let st = st\<lparr>ver := (ver st)\<lparr>v_memo := mm\<rparr>, s_hashes := n\<rparr> in
                    if length b < ofs + 2 then Inl n
                    else
                      let n2 = wire_u16 b ofs; l2start = ofs + 2; ofs = l2start + n2 * 33 in
                      if length b < ofs + 80 then Inl n
                      else
                        let hdr = barray_of (go_slice b ofs (ofs + 80));
                            checked = go_get False (subOK (ver st)) sid;
                            node = fold_l2 h n2 b l2start subRoot;
                            st = (if checked then st
                                  else st\<lparr>s_hashes := n + n2,
                                    ver := (ver st)\<lparr>subOK := (subOK (ver st))(sid \<mapsto> True)\<rparr>\<rparr>)
                        in
                        if \<not> checked \<and> node \<noteq> HeaderMerkleRoot hdr then Inl (s_hashes st)
                        else
                          let hk = DoubleSHA256 (bytes_of hdr) in
                          if go_get False (hdrOK (ver st)) hk then Inr st
                          else if \<not> on_chain view hdr then Inl (s_hashes st)
                          else Inr (st\<lparr>ver := (ver st)\<lparr>hdrOK := (hdrOK (ver st))(hk \<mapsto> True)\<rparr>\<rparr>))"

text \<open>The loop over the \<open>n\<close> remaining proofs, at proof \<open>p\<close>: \<open>(ok, hashes, proof count)\<close>.\<close>

primrec wire_loop ::
  "hasher \<Rightarrow> header_chain option \<Rightarrow> bytes \<Rightarrow> nat \<Rightarrow> nat \<Rightarrow> nat \<Rightarrow> stream_state \<Rightarrow> bool \<times> nat \<times> nat" where
  "wire_loop h view wire 0 p off st = (True, s_hashes st, p)"
| "wire_loop h view wire (Suc n) p off st =
     (if length wire < off + 4 then (False, s_hashes st, p)
      else
        let plen = unat (wire_u32 (go_slice wire off (off + 4))); off = off + 4 in
        if length wire < off + plen then (False, s_hashes st, p)
        else case wire_step h view (go_slice wire off (off + plen)) st of
          Inl hs \<Rightarrow> (False, hs, p)
        | Inr st \<Rightarrow> wire_loop h view wire n (p + 1) (off + plen) st)"

text \<open>
  The maps a call leaves in the verifier are cleared by the next call before they are read, so they
  are not part of the result.
\<close>

definition VerifyWire :: "verifier \<Rightarrow> hasher \<Rightarrow> bytes \<Rightarrow> header_chain option \<Rightarrow> bool \<times> nat \<times> nat" where
  "VerifyWire v h wire view =
     (let v = reset v in
      if length wire < 4 then (False, 0, 0)
      else wire_loop h view wire (unat (wire_u32 wire)) 0 4
             \<lparr>ver = v, nextID = 0, last_sub = None, s_hashes = 0\<rparr>)"

section \<open>Reading back one proof\<close>

lemma go_slice_at: "b = xs @ ys @ zs \<Longrightarrow> length xs = i \<Longrightarrow> i + length ys = j \<Longrightarrow> go_slice b i j = ys"
  by (auto simp: go_slice_def)

lemma wire_u16_at:
  assumes "b = xs @ le_bytes 2 (w :: u16) @ zs" and "length xs = i"
  shows "wire_u16 b i = unat w"
proof -
  have "b ! i = ucast w" "b ! (i + 1) = ucast (drop_bit 8 w)"
    using assms by (simp_all add: nth_append le_bytes_def numeral_2_eq_2)
  moreover have "unat (ucast w :: byte) OR push_bit 8 (unat (ucast (drop_bit 8 w) :: byte)) = unat w"
  proof (rule bit_eqI)
    fix k
    show "bit (unat (ucast w :: byte) OR push_bit 8 (unat (ucast (drop_bit 8 w) :: byte))) k = bit (unat w) k"
      using bit_imp_le_length [of w k] by (auto simp: bit_simps)
  qed
  ultimately show ?thesis by (simp add: wire_u16_def)
qed

lemma wire_u32_le_word:
  assumes "4 \<le> length b"
  shows "wire_u32 b = le_word (take 4 b)"
proof -
  have "take 4 b = [b ! 0, b ! 1, b ! 2, b ! 3]"
    using assms by (intro nth_equalityI) (auto simp: less_Suc_eq numeral_eq_Suc)
  then show ?thesis
    by (auto intro!: bit_word_eqI simp: wire_u32_def bit_simps)
qed

lemma wire_u32_at: "wire_u32 (le_bytes 4 (w :: u32) @ zs) = w"
  by (simp add: wire_u32_le_word le_word_le_bytes)

lemma read_l1_ok:
  "b = xs @ concat (map wire_elem es) @ zs \<Longrightarrow> length xs = ofs \<Longrightarrow>
   read_l1 (length es) j b ofs acc idx = Some (acc @ es, leaf_index_loop j es idx, ofs + 33 * length es)"
proof (induction es arbitrary: xs ofs j acc idx)
  case (Cons e es)
  let ?d = "if Right e then 1 else 0 :: byte"
  have b: "b = xs @ [?d] @ bytes_of (Sibling e) @ concat (map wire_elem es) @ zs"
    using Cons.prems(1) by (simp add: wire_elem_def [of e])
  have "b ! ofs = ?d" using b Cons.prems(2) by (simp add: nth_append)
  moreover have "go_slice b (ofs + 1) (ofs + 33) = bytes_of (Sibling e)"
    by (rule go_slice_at [of _ "xs @ [?d]" _ "concat (map wire_elem es) @ zs"]) (use b Cons.prems(2) in simp_all)
  moreover have "\<not> length b < ofs + 33" using b Cons.prems(2) by simp
  moreover have "read_l1 (length es) (j + 1) b (ofs + 33) (acc @ [e]) idx' =
      Some ((acc @ [e]) @ es, leaf_index_loop (j + 1) es idx', ofs + 33 + 33 * length es)" for idx'
    by (rule Cons.IH [of "xs @ wire_elem e"]) (use b Cons.prems(2) in \<open>simp_all add: wire_elem_def [of e]\<close>)
  ultimately show ?case by (cases e; cases "Right e") (simp_all add: Let_def algebra_simps)
qed simp

lemma fold_l2_ok:
  "b = xs @ concat (map wire_elem es) @ zs \<Longrightarrow> length xs = base \<Longrightarrow>
   fold_l2 h (length es) b base node = fst (foldCount h node es)"
proof (induction es arbitrary: xs base node)
  case (Cons e es)
  let ?d = "if Right e then 1 else 0 :: byte"
  have b: "b = xs @ [?d] @ bytes_of (Sibling e) @ concat (map wire_elem es) @ zs"
    using Cons.prems(1) by (simp add: wire_elem_def [of e])
  have "b ! base = ?d" using b Cons.prems(2) by (simp add: nth_append)
  moreover have "go_slice b (base + 1) (base + 33) = bytes_of (Sibling e)"
    by (rule go_slice_at [of _ "xs @ [?d]" _ "concat (map wire_elem es) @ zs"]) (use b Cons.prems(2) in simp_all)
  moreover have "fold_l2 h (length es) b (base + 33) node' = fst (foldCount h node' es)" for node'
    by (rule Cons.IH [of "xs @ wire_elem e"]) (use b Cons.prems(2) in \<open>simp_all add: wire_elem_def [of e]\<close>)
  ultimately show ?case by (simp add: pair_step_def foldCount_def Let_def)
qed (simp add: foldCount_def)

text \<open>One iteration with the fields of the proof in place of the bytes.\<close>

definition checked_step :: "hasher \<Rightarrow> header_chain option \<Rightarrow> inclusion_proof \<Rightarrow> u32 \<Rightarrow> stream_state \<Rightarrow> nat + stream_state" where
  "checked_step h view p sid st =
     (case stream_l1 h sid 0 (L1 p) (Leaf p) (leafIndex (L1 p)) (v_memo (ver st)) (s_hashes st) of
        (None, mm, n) \<Rightarrow> Inl n
      | (Some (merged, cur), mm, n) \<Rightarrow>
        if \<not> merged \<and> cur \<noteq> SubtreeRoot p then Inl n
        else
          let st = st\<lparr>ver := (ver st)\<lparr>v_memo := mm\<rparr>, s_hashes := n\<rparr>;
              checked = go_get False (subOK (ver st)) sid;
              (node, n2) = foldCount h (SubtreeRoot p) (L2 p);
              st = (if checked then st
                    else st\<lparr>s_hashes := n + n2, ver := (ver st)\<lparr>subOK := (subOK (ver st))(sid \<mapsto> True)\<rparr>\<rparr>)
          in
          if \<not> checked \<and> node \<noteq> HeaderMerkleRoot (Header p) then Inl (s_hashes st)
          else
            let hk = DoubleSHA256 (bytes_of (Header p)) in
            if go_get False (hdrOK (ver st)) hk then Inr st
            else if \<not> on_chain view (Header p) then Inl (s_hashes st)
            else Inr (st\<lparr>ver := (ver st)\<lparr>hdrOK := (hdrOK (ver st))(hk \<mapsto> True)\<rparr>\<rparr>))"

lemma wire_step_reads:
  assumes "length (L1 p) \<le> 64" and "length (L2 p) \<le> max_path"
  shows "wire_step h view (wire_proof p) st =
    (case subtree_id (SubtreeRoot p) st of (sid, st') \<Rightarrow> checked_step h view p sid st')"
proof -
  let ?b = "wire_proof p" and ?n1 = "length (L1 p)" and ?n2 = "length (L2 p)"
  let ?e1 = "concat (map wire_elem (L1 p))" and ?e2 = "concat (map wire_elem (L2 p))"
  let ?w1 = "le_bytes 2 (word_of_nat ?n1 :: u16)" and ?w2 = "le_bytes 2 (word_of_nat ?n2 :: u16)"
  let ?a = "bytes_of (Leaf p) @ ?w1" and ?r = "bytes_of (SubtreeRoot p)" and ?hd = "bytes_of (Header p)"
  have len: "length ?b = 148 + 33 * ?n1 + 33 * ?n2" "length ?e1 = 33 * ?n1" "length ?e2 = 33 * ?n2"
    using length_wire_proof length_wire_path [of "L1 p"] length_wire_path [of "L2 p"] by (simp_all add: wire_path_def)
  have b: "?b = ?a @ ?e1 @ ?r @ ?w2 @ ?e2 @ ?hd" by (simp add: wire_proof_def wire_path_def)
  have small: "?n1 < 2 ^ 16" "?n2 < 2 ^ 16" using assms by (simp_all add: max_path_def)
  have leaf: "go_slice ?b 0 32 = bytes_of (Leaf p)"
    by (rule go_slice_at [of _ "[]" _ "?w1 @ ?e1 @ ?r @ ?w2 @ ?e2 @ ?hd"]) (simp_all add: b)
  have n1: "wire_u16 ?b 32 = ?n1"
    using wire_u16_at [of ?b "bytes_of (Leaf p)" "word_of_nat ?n1" "?e1 @ ?r @ ?w2 @ ?e2 @ ?hd" 32] small
    by (simp add: b unat_word_of_nat_16)
  have l1: "read_l1 ?n1 0 ?b 34 [] 0 = Some (L1 p, leafIndex (L1 p), 34 + 33 * ?n1)"
    using read_l1_ok [of ?b ?a "L1 p" "?r @ ?w2 @ ?e2 @ ?hd" 34 0 "[]" 0] by (simp add: b leafIndex_def)
  have root: "go_slice ?b (34 + 33 * ?n1) (34 + 33 * ?n1 + 32) = ?r"
    by (rule go_slice_at [of _ "?a @ ?e1" _ "?w2 @ ?e2 @ ?hd"]) (simp_all add: b len)
  have n2: "wire_u16 ?b (34 + 33 * ?n1 + 32) = ?n2"
    using wire_u16_at [of ?b "?a @ ?e1 @ ?r" "word_of_nat ?n2" "?e2 @ ?hd" "34 + 33 * ?n1 + 32"] small
    by (simp add: b unat_word_of_nat_16 len)
  have l2: "fold_l2 h ?n2 ?b (34 + 33 * ?n1 + 32 + 2) node = fst (foldCount h node (L2 p))" for node
    by (rule fold_l2_ok [of _ "?a @ ?e1 @ ?r @ ?w2" _ ?hd]) (simp_all add: b len)
  have hdr: "go_slice ?b (34 + 33 * ?n1 + 32 + 2 + ?n2 * 33) (34 + 33 * ?n1 + 32 + 2 + ?n2 * 33 + 80) = ?hd"
    by (rule go_slice_at [of _ "?a @ ?e1 @ ?r @ ?w2 @ ?e2" _ "[]"]) (simp_all add: b len)
  have enough: "\<not> length ?b < 32" "\<not> length ?b < 34" "\<not> length ?b < 34 + 33 * ?n1 + 32"
    "\<not> length ?b < 34 + 33 * ?n1 + 32 + 2" "\<not> length ?b < 34 + 33 * ?n1 + 32 + 2 + ?n2 * 33 + 80" "\<not> max_l1 < ?n1"
    using assms by (simp_all add: len max_l1_def)
  show ?thesis
    by (simp only: wire_step_def Let_def leaf n1 l1 root n2 l2 hdr enough if_False option.case prod.case
        barray_of_bytes_of checked_step_def)
      (simp add: foldCount_def split: prod.splits option.splits)
qed

section \<open>Packed keys\<close>

definition key_range :: "nat \<Rightarrow> u64 \<Rightarrow> bool" where
  "key_range l i \<longleftrightarrow> take_bit 8 l = l \<and> take_bit 32 i = i"

lemma take_bit_bound: "take_bit n x = x \<Longrightarrow> n \<le> k \<Longrightarrow> \<not> bit (x :: 'a::semiring_bit_operations) k"
  by (metis bit_take_bit_iff not_le)

lemma bit_memo_key:
  "bit (memo_key sid l i) k \<longleftrightarrow> k < 64 \<and> ((40 \<le> k \<and> bit sid (k - 40)) \<or> (32 \<le> k \<and> bit l (k - 32)) \<or> bit i k)"
  using bit_imp_le_length [of i k] by (auto simp: memo_key_def bit_simps)

text \<open>The fields of a key do not overlap for ids below \<open>2^24\<close>, levels below 256 and indices below \<open>2^32\<close>.\<close>

lemma memo_key_inject:
  assumes "memo_key sid l i = memo_key sid' l' i'" and "key_range l i" and "key_range l' i'"
    and "take_bit 24 sid = sid" and "take_bit 24 sid' = sid'"
  shows "sid = sid' \<and> l = l' \<and> i = i'"
proof -
  have bits: "bit (memo_key sid l i) k = bit (memo_key sid' l' i') k" for k using assms(1) by simp
  note r = assms(2,3) [unfolded key_range_def]
  have "i = i'"
  proof (rule bit_word_eqI)
    fix k :: nat
    show "bit i k = bit i' k"
      using bits [of k] r take_bit_bound [of 32 i k] take_bit_bound [of 32 i' k]
      by (cases "k < 32") (auto simp: bit_memo_key)
  qed
  moreover have "l = l'"
  proof (rule bit_eqI)
    fix k
    show "bit l k = bit l' k"
      using bits [of "32 + k"] r take_bit_bound [of 8 l k] take_bit_bound [of 8 l' k]
        take_bit_bound [of 32 i "32 + k"] take_bit_bound [of 32 i' "32 + k"]
      by (cases "k < 8") (auto simp: bit_memo_key)
  qed
  moreover have "sid = sid'"
  proof (rule bit_word_eqI)
    fix k :: nat
    show "bit sid k = bit sid' k"
      using bits [of "40 + k"] r assms(4,5) take_bit_bound [of 24 sid k] take_bit_bound [of 24 sid' k]
        take_bit_bound [of 8 l "8 + k"] take_bit_bound [of 8 l' "8 + k"]
        take_bit_bound [of 32 i "40 + k"] take_bit_bound [of 32 i' "40 + k"]
      by (cases "k < 24") (auto simp: bit_memo_key)
  qed
  ultimately show ?thesis by simp
qed

lemma key_range_step: "key_range l i \<Longrightarrow> l < 64 \<Longrightarrow> key_range (l + 1) (drop_bit 1 i)"
proof -
  assume a: "key_range l i" "l < 64"
  have "take_bit 32 (drop_bit 1 i) = drop_bit 1 i"
  proof (rule bit_word_eqI)
    fix k :: nat
    show "bit (take_bit 32 (drop_bit 1 i)) k = bit (drop_bit 1 i) k"
      using a(1) take_bit_bound [of 32 i "Suc k"]
      by (cases "k < 32") (auto simp: bit_simps key_range_def)
  qed
  then show ?thesis using a(2) by (simp add: key_range_def take_bit_nat_eq_self)
qed

lemma leafIndex_range: "length es \<le> 32 \<Longrightarrow> take_bit 32 (leafIndex es) = leafIndex es"
  by (rule bit_word_eqI) (auto simp: bit_simps bit_leafIndex)

section \<open>The simulation\<close>

text \<open>
  The memo of the batch is the packed memo read through the ids of the roots. \<open>sid_ok\<close>: an id whose
  32 bits fit above the level in the packed key.
\<close>

definition sid_ok :: "u32 \<Rightarrow> bool" where
  "sid_ok sid \<longleftrightarrow> unat sid < 2 ^ 24"

lemma sid_ok_take_bit: "sid_ok sid \<Longrightarrow> take_bit 24 sid = sid"
  by (simp add: sid_ok_def word_unat_eq_iff unsigned_take_bit_eq take_bit_nat_eq_self)

lemma memo_key_iff:
  "sid_ok a \<Longrightarrow> sid_ok b \<Longrightarrow> key_range l i \<Longrightarrow> key_range l' i' \<Longrightarrow>
   memo_key a l i = memo_key b l' i' \<longleftrightarrow> a = b \<and> l = l' \<and> i = i'"
  using memo_key_inject sid_ok_take_bit by metis

definition same_memo :: "(node_key \<rightharpoonup> hash) \<Rightarrow> hash \<Rightarrow> (u64 \<rightharpoonup> hash) \<Rightarrow> u32 \<Rightarrow> bool" where
  "same_memo mm sr smm sid \<longleftrightarrow> (\<forall>l i. key_range l i \<longrightarrow> mm (sr, l, i) = smm (memo_key sid l i))"

lemma l1_sim:
  assumes "batch_l1 h sr j path cur idx mm n = (r, mm', n')" and "stream_l1 h a j path cur idx smm n = (r', smm', m')"
    and "same_memo mm sr smm a" and "sid_ok a" and "take_bit 32 idx = idx" and "j + length path \<le> 64"
  shows "r' = r \<and> m' = n' \<and> same_memo mm' sr smm' a \<and>
    (\<forall>s l i. s \<noteq> sr \<longrightarrow> mm' (s, l, i) = mm (s, l, i)) \<and>
    (\<forall>b l i. b \<noteq> a \<and> sid_ok b \<and> key_range l i \<longrightarrow> smm' (memo_key b l i) = smm (memo_key b l i))"
  using assms
proof (induction path arbitrary: j cur idx mm smm n)
  case (Cons e path)
  have kr: "key_range (j + 1) (drop_bit 1 idx)"
    using Cons.prems(5,6) key_range_step [of j idx] by (simp add: key_range_def take_bit_nat_eq_self)
  have look: "smm (memo_key a (j + 1) (drop_bit 1 idx)) = mm (sr, j + 1, drop_bit 1 idx)"
    using Cons.prems(3) kr by (simp add: same_memo_def)
  let ?parent = "pair_step h cur e"
  let ?mm = "mm((sr, j + 1, drop_bit 1 idx) \<mapsto> ?parent)" and ?smm = "smm(memo_key a (j + 1) (drop_bit 1 idx) \<mapsto> ?parent)"
  show ?case
  proof (cases "mm (sr, j + 1, drop_bit 1 idx)")
    case None
    have b: "batch_l1 h sr (j + 1) path ?parent (drop_bit 1 idx) ?mm (n + 1) = (r, mm', n')"
      using Cons.prems(1) None by (simp add: Let_def del: fun_upd_apply)
    have s: "stream_l1 h a (j + 1) path ?parent (drop_bit 1 idx) ?smm (n + 1) = (r', smm', m')"
      using Cons.prems(2) None look by (simp add: Let_def del: fun_upd_apply)
    have m: "same_memo ?mm sr ?smm a"
      using Cons.prems(3,4) kr by (auto simp: same_memo_def memo_key_iff)
    have "take_bit 32 (drop_bit 1 idx) = drop_bit 1 idx" using kr by (simp add: key_range_def)
    from Cons.IH [OF b s m Cons.prems(4) this] Cons.prems(4,6) kr
    show ?thesis by (auto simp: memo_key_iff)
  next
    case (Some v)
    then show ?thesis using Cons.prems(1-3) look by (auto simp: Let_def split: if_splits)
  qed
qed simp

definition sim :: "batch_state \<Rightarrow> stream_state \<Rightarrow> bool" where
  "sim bs ss \<longleftrightarrow>
     hashes bs = s_hashes ss \<and> headerOK bs = hdrOK (ver ss) \<and>
     (\<forall>s. subID (ver ss) s = None \<longrightarrow> (\<forall>l i. memo bs (s, l, i) = None) \<and> \<not> go_get False (subtreeOK bs) s) \<and>
     (\<forall>s a. subID (ver ss) s = Some a \<longrightarrow> a < nextID ss \<and> same_memo (memo bs) s (v_memo (ver ss)) a \<and>
        go_get False (subtreeOK bs) s = go_get False (subOK (ver ss)) a) \<and>
     (\<forall>s s' a. subID (ver ss) s = Some a \<longrightarrow> subID (ver ss) s' = Some a \<longrightarrow> s' = s) \<and>
     (\<forall>a. nextID ss \<le> a \<longrightarrow> sid_ok a \<longrightarrow> \<not> go_get False (subOK (ver ss)) a \<and>
        (\<forall>l i. key_range l i \<longrightarrow> v_memo (ver ss) (memo_key a l i) = None)) \<and>
     (\<forall>s a. last_sub ss = Some (s, a) \<longrightarrow> subID (ver ss) s = Some a)"

lemma unat_next: "unat (x :: u32) < 2 ^ 24 \<Longrightarrow> unat (x + 1) = unat x + 1 \<and> x < x + 1 \<and> sid_ok x"
proof -
  assume a: "unat x < 2 ^ 24"
  have "unat (x + 1) = unat x + 1"
    using a by (simp add: unat_word_ariths)
  then show ?thesis using a by (simp add: word_less_nat_alt sid_ok_def)
qed

lemma sim_last: "sim bs ss \<Longrightarrow> last_sub ss = Some (s, a) \<Longrightarrow> subID (ver ss) s = Some a"
  by (simp add: sim_def)

lemma subtree_id_sim:
  assumes "sim bs ss" and "unat (nextID ss) < 2 ^ 24" and "subtree_id sr ss = (a, ss')"
  shows "sim bs ss' \<and> subID (ver ss') sr = Some a \<and> unat (nextID ss') \<le> unat (nextID ss) + 1"
proof (cases "subID (ver ss) sr")
  case (Some b)
  have "b' = b" if "last_sub ss = Some (sr, b')" for b' using sim_last [OF assms(1) that] Some by simp
  then have "a = b" "ss' = ss \<or> ss' = ss\<lparr>last_sub := Some (sr, b)\<rparr>"
    using assms(3) Some by (auto simp: subtree_id_def Let_def split: option.splits if_splits prod.splits)
  moreover have "sim bs (ss\<lparr>last_sub := Some (sr, b)\<rparr>)" using assms(1) Some by (simp add: sim_def)
  ultimately show ?thesis using assms(1) Some by auto
next
  case None
  note nx = unat_next [OF assms(2)]
  have "last_sub ss \<noteq> Some (sr, b)" for b using sim_last [OF assms(1), of sr b] None by auto
  then have new: "a = nextID ss" "ss' = ss\<lparr>nextID := nextID ss + 1, last_sub := Some (sr, nextID ss),
      ver := (ver ss)\<lparr>subID := (subID (ver ss))(sr \<mapsto> nextID ss)\<rparr>\<rparr>"
    using assms(3) None by (auto simp: subtree_id_def Let_def split: option.splits if_splits)
  have old: "b < nextID ss + 1 \<and> b \<noteq> nextID ss" if "b < nextID ss" for b using that nx by auto
  have fresh: "nextID ss \<le> b" if "nextID ss + 1 \<le> b" for b using that nx by auto
  have "sim bs ss'"
    unfolding sim_def
  proof (intro conjI allI impI)
    fix s b assume "subID (ver ss') s = Some b"
    then show "b < nextID ss'" using assms(1) new old nx by (auto simp: sim_def split: if_splits)
  qed (use assms(1) new None nx fresh old in \<open>auto simp: sim_def same_memo_def split: if_splits\<close>)
  then show ?thesis using new nx by simp
qed

lemma checked_step_sim:
  assumes "sim bs ss" and "subID (ver ss) (SubtreeRoot p) = Some a" and "length (L1 p) \<le> 32"
    and "unat (nextID ss) \<le> 2 ^ 24"
  shows "case batch_step h view p bs of
      Inl n \<Rightarrow> checked_step h view p a ss = Inl n
    | Inr bs' \<Rightarrow> \<exists>ss'. checked_step h view p a ss = Inr ss' \<and> sim bs' ss' \<and> nextID ss' = nextID ss"
proof -
  let ?sr = "SubtreeRoot p" and ?i = "leafIndex (L1 p)"
  have id_ok: "sid_ok b" if "b < nextID ss" for b
    using that assms(4) by (simp add: sid_ok_def word_less_nat_alt)
  have a: "a < nextID ss" "same_memo (memo bs) ?sr (v_memo (ver ss)) a" "hashes bs = s_hashes ss"
    using assms(1,2) by (auto simp: sim_def)
  obtain r mm n where b: "batch_l1 h ?sr 0 (L1 p) (Leaf p) ?i (memo bs) (hashes bs) = (r, mm, n)"
    by (metis prod.exhaust)
  obtain r' smm m where s: "stream_l1 h a 0 (L1 p) (Leaf p) ?i (v_memo (ver ss)) (hashes bs) = (r', smm, m)"
    by (metis prod.exhaust)
  from l1_sim [OF b s a(2) id_ok [OF a(1)] leafIndex_range [OF assms(3)]] assms(3)
  have eq: "r' = r" "m = n" and here: "same_memo mm ?sr smm a"
    and roots: "\<And>s l i. s \<noteq> ?sr \<Longrightarrow> mm (s, l, i) = memo bs (s, l, i)"
    and ids: "\<And>b l i. b \<noteq> a \<Longrightarrow> sid_ok b \<Longrightarrow> key_range l i \<Longrightarrow> smm (memo_key b l i) = v_memo (ver ss) (memo_key b l i)"
    by auto
  define bs1 where "bs1 = bs\<lparr>memo := mm, hashes := n\<rparr>"
  define ss1 where "ss1 = ss\<lparr>ver := (ver ss)\<lparr>v_memo := smm\<rparr>, s_hashes := n\<rparr>"
  have memo: "same_memo mm s' smm b" if "subID (ver ss) s' = Some b" for s' b
  proof (cases "s' = ?sr")
    case True
    then show ?thesis using that assms(2) here by simp
  next
    case False
    then have "b \<noteq> a" "b < nextID ss" "same_memo (memo bs) s' (v_memo (ver ss)) b"
      using assms(1,2) that unfolding sim_def by blast+
    then show ?thesis using roots [OF False] ids id_ok by (simp add: same_memo_def)
  qed
  have new: "s \<noteq> ?sr" if "subID (ver ss) s = None" for s using that assms(2) by auto
  have sim1: "sim bs1 ss1"
    unfolding sim_def bs1_def ss1_def
  proof (intro conjI allI impI)
    fix b l i assume "nextID (ss\<lparr>ver := (ver ss)\<lparr>v_memo := smm\<rparr>, s_hashes := n\<rparr>) \<le> b" "sid_ok b" "key_range l i"
    moreover from this have "b \<noteq> a" using a(1) by auto
    ultimately show "v_memo (ver (ss\<lparr>ver := (ver ss)\<lparr>v_memo := smm\<rparr>, s_hashes := n\<rparr>)) (memo_key b l i) = None"
      using assms(1) ids by (simp add: sim_def)
  qed (use assms(1,2) memo roots new in \<open>auto simp: sim_def\<close>)
  have checked: "go_get False (subtreeOK bs1) ?sr = go_get False (subOK (ver ss1)) a"
    using sim1 assms(2) by (simp add: sim_def ss1_def)
  have l2: "sim (bs1\<lparr>hashes := k, subtreeOK := (subtreeOK bs1)(?sr \<mapsto> True)\<rparr>)
     (ss1\<lparr>s_hashes := k, ver := (ver ss1)\<lparr>subOK := (subOK (ver ss1))(a \<mapsto> True)\<rparr>\<rparr>)" for k
    using sim1 assms(2) a(1) not_le [of "nextID ss" a] by (auto simp: sim_def ss1_def)
  have l3: "sim (bs'\<lparr>headerOK := (headerOK bs')(hk \<mapsto> True)\<rparr>)
     (ss'\<lparr>ver := (ver ss')\<lparr>hdrOK := (hdrOK (ver ss'))(hk \<mapsto> True)\<rparr>\<rparr>)" if "sim bs' ss'" for bs' ss' hk
    using that by (simp add: sim_def)
  have hd: "headerOK bs1 = hdrOK (ver ss1)" using sim1 by (simp add: sim_def)
  show ?thesis
    using sim1 l2 l3 [OF sim1] l3 [OF l2] checked hd
    by (auto simp: batch_step_def checked_step_def b s a(3) [symmetric] eq bs1_def ss1_def Let_def
        split: option.splits prod.splits)
qed

lemma wire_loop_sim:
  assumes "wire = xs @ concat (map wire_item ps) @ zs" and "length xs = off" and "sim bs ss"
    and "list_all proof_ok ps" and "list_all (\<lambda>p. length (L1 p) \<le> 32) ps"
    and "unat (nextID ss) + length ps \<le> 2 ^ 24"
  shows "case batch_loop h view ps bs of
      Inl n \<Rightarrow> \<exists>k. wire_loop h view wire (length ps) i off ss = (False, n, k) \<and> k < i + length ps
    | Inr bs' \<Rightarrow> wire_loop h view wire (length ps) i off ss = (True, hashes bs', i + length ps)"
  using assms
proof (induction ps arbitrary: xs off i bs ss)
  case Nil
  then show ?case by (simp add: sim_def)
next
  case (Cons p ps)
  let ?lp = "le_bytes 4 (word_of_nat (length (wire_proof p)) :: u32)" and ?rest = "concat (map wire_item ps) @ zs"
  have ok: "length (L1 p) \<le> 32" "length (L2 p) \<le> max_path" using Cons.prems(4,5) by (simp_all add: proof_ok_def)
  have wire: "wire = xs @ ?lp @ wire_proof p @ ?rest" using Cons.prems(1) by (simp add: wire_item_def [of p])
  have plen: "unat (word_of_nat (length (wire_proof p)) :: u32) = length (wire_proof p)"
    using ok by (intro unat_word_of_nat_32) (simp add: length_wire_proof max_path_def)
  have "go_slice wire off (off + 4) = ?lp @ []"
    by (rule go_slice_at [of _ xs _ "wire_proof p @ ?rest"]) (use wire Cons.prems(2) in simp_all)
  then have n: "unat (wire_u32 (go_slice wire off (off + 4))) = length (wire_proof p)"
    by (simp only: wire_u32_at plen)
  have b: "go_slice wire (off + 4) (off + 4 + length (wire_proof p)) = wire_proof p"
    by (rule go_slice_at [of _ "xs @ ?lp" _ ?rest]) (use wire Cons.prems(2) in simp_all)
  have lens: "\<not> length wire < off + 4" "\<not> length wire < off + 4 + length (wire_proof p)"
    using wire Cons.prems(2) by simp_all
  obtain a ss1 where id: "subtree_id (SubtreeRoot p) ss = (a, ss1)" by (metis prod.exhaust)
  have "unat (nextID ss) < 2 ^ 24" using Cons.prems(6) by simp
  note s1 = subtree_id_sim [OF Cons.prems(3) this id]
  have step: "wire_step h view (wire_proof p) ss = checked_step h view p a ss1"
    using wire_step_reads [of p h view ss] ok id by simp
  have unfold1: "wire_loop h view wire (length (p # ps)) i off ss =
    (case checked_step h view p a ss1 of Inl hs \<Rightarrow> (False, hs, i)
     | Inr st \<Rightarrow> wire_loop h view wire (length ps) (i + 1) (off + 4 + length (wire_proof p)) st)"
    by (simp only: length_Cons wire_loop.simps Let_def n b lens step if_False)
  have room: "unat (nextID ss1) \<le> 2 ^ 24" "unat (nextID ss1) + length ps \<le> 2 ^ 24"
    using s1 Cons.prems(6) by simp_all
  note sim1 = checked_step_sim [where bs = bs and ss = ss1 and p = p and a = a and h = h and view = view]
  show ?case
  proof (cases "batch_step h view p bs")
    case (Inl n)
    then show ?thesis using sim1 s1 ok room unfold1 by simp
  next
    case (Inr bs')
    then obtain ss' where ss': "checked_step h view p a ss1 = Inr ss'" "sim bs' ss'" "nextID ss' = nextID ss1"
      using sim1 s1 ok room by auto
    have "wire = (xs @ wire_item p) @ concat (map wire_item ps) @ zs"
      "length (xs @ wire_item p) = off + 4 + length (wire_proof p)"
      using Cons.prems(1,2) by (simp_all add: wire_item_def [of p])
    from Cons.IH [OF this ss'(2), of "i + 1"] show ?thesis
      using Cons.prems(4,5) room ss' Inr unfold1 by (auto split: sum.splits)
  qed
qed

lemma sim_init: "sim empty_batch \<lparr>ver = reset v, nextID = 0, last_sub = None, s_hashes = 0\<rparr>"
  by (simp add: sim_def empty_batch_def reset_def)

lemma VerifyWire_batch:
  assumes "list_all proof_ok ps" and "list_all (\<lambda>p. length (L1 p) \<le> 32) ps" and "length ps \<le> 2 ^ 24"
  shows "case VerifyWire v h (EncodeBatch ps @ junk) view of (ok, n, k) \<Rightarrow>
    BatchVerify h ps view = (ok, n) \<and> (if ok then k = length ps else k < length ps)"
proof -
  let ?w = "EncodeBatch ps @ junk" and ?lp = "le_bytes 4 (word_of_nat (length ps) :: u32)"
  let ?ss = "\<lparr>ver = reset v, nextID = 0, last_sub = None, s_hashes = 0\<rparr>"
  have w: "?w = ?lp @ concat (map wire_item ps) @ junk" by (simp add: EncodeBatch_eq)
  have "unat (word_of_nat (length ps) :: u32) = length ps"
    by (rule unat_word_of_nat_32) (use assms(3) in simp)
  then have n: "unat (wire_u32 ?w) = length ps" by (simp only: w wire_u32_at)
  have run: "VerifyWire v h ?w view = wire_loop h view ?w (length ps) 0 4 ?ss"
    using n by (simp add: VerifyWire_def w)
  have "case batch_loop h view ps empty_batch of
      Inl n \<Rightarrow> \<exists>k. wire_loop h view ?w (length ps) 0 4 ?ss = (False, n, k) \<and> k < 0 + length ps
    | Inr bs' \<Rightarrow> wire_loop h view ?w (length ps) 0 4 ?ss = (True, hashes bs', 0 + length ps)"
    by (rule wire_loop_sim [OF w]) (use assms sim_init in simp_all)
  then show ?thesis unfolding run BatchVerify_def by (auto split: sum.splits)
qed

section \<open>The property\<close>

text \<open>
  C33. The streaming verifier is the batch verifier, on short paths. On the bytes \<open>EncodeBatch\<close> writes for at most
  \<open>2^24\<close> proofs within the length fields of the codec, with L1 paths of at most 32 elements, and on any bytes after them,
  \<open>VerifyWire\<close>, with its packed memo keys, subtree ids and offsets, gives the verdict and the hash count of
  \<open>BatchVerify\<close> on the proofs themselves, whatever an earlier call has left in the verifier. The number of proofs
  that it returns beside them is the number of proofs of the batch when it accepts, and smaller when it rejects.
  (For longer paths the two verifiers differ.)
\<close>
theorem VerifyWire_refines:
  assumes "list_all proof_ok ps" and "list_all (\<lambda>p. length (L1 p) \<le> 32) ps" and "length ps \<le> 2 ^ 24"
  shows "case VerifyWire v h (EncodeBatch ps @ junk) view of (ok, n, k) \<Rightarrow>
    BatchVerify h ps view = (ok, n) \<and> (if ok then k = length ps else k < length ps)"
  by (rule VerifyWire_batch [OF assms])

theorem VerifyWire_refines_witness:
  "VerifyWire NewVerifier Software (EncodeBatch (sibling_proofs zero_hash (DoubleSHA256 [])) @ []) None = (True, 2, 2)"
proof -
  let ?ps = "sibling_proofs zero_hash (DoubleSHA256 [])"
  have "list_all proof_ok ?ps" "list_all (\<lambda>p. length (L1 p) \<le> 32) ?ps" and len: "length ?ps = 2"
    by (simp_all add: sibling_proofs_def proof_ok_def max_path_def Let_def)
  from VerifyWire_refines [OF this(1,2), where v = NewVerifier and h = Software and junk = "[]" and view = None] len sibling_batch
  show ?thesis by (auto split: prod.splits)
qed

end
