(* ===== verification/FabricBuild.thy ===== *)
theory FabricBuild
  imports FabricStream
begin

text \<open>
  Package \<open>fabric\<close>, the blocks it builds (src/fabric/report.go: \<open>BuildBlock\<close>, \<open>BuildBatchAtDepth\<close>;
  src/fabric/pull.go: \<open>BuildServedBlock\<close>). The pulling worker is in Pull, the loops that measure rates
  are in MeasureFabric, the reports in Reports.

  An error of \<open>MerklePath\<close> that the code drops leaves a nil path.
\<close>

section \<open>Subtrees and paths\<close>

definition build_leaves :: "bytes \<Rightarrow> nat \<Rightarrow> nat \<Rightarrow> hash list" where
  "build_leaves tag subCap s =
     map (\<lambda>i. DoubleSHA256 ([word_of_nat s, word_of_nat (s div 256), word_of_nat i, word_of_nat (i div 256)] @ tag))
       [0..<subCap]"

text \<open>The loop over the subtrees: \<open>subRoots\<close> and \<open>subLayers\<close> as pairs.\<close>

fun build_subtrees :: "bytes \<Rightarrow> nat \<Rightarrow> nat list \<Rightarrow> (hash \<times> hash list list) list res" where
  "build_subtrees tag subCap [] = Inr []"
| "build_subtrees tag subCap (s # ss) =
     (case BuildMerkleTree (build_leaves tag subCap s) of
        Inl e \<Rightarrow> Inl e
      | Inr t \<Rightarrow> map_res ((#) t) (build_subtrees tag subCap ss))"

definition path_or_nil :: "path_elem list res \<Rightarrow> path_elem list" where
  "path_or_nil r = (case r of Inl _ \<Rightarrow> [] | Inr p \<Rightarrow> p)"

definition build_header :: "hash \<Rightarrow> header" where
  "build_header rt = barray_of (1 # replicate 35 0 @ bytes_of rt)"

section \<open>Whole blocks\<close>

text \<open>The proofs of subtree \<open>s\<close>.\<close>

definition subtree_proofs :: "hash list list \<Rightarrow> header \<Rightarrow> nat \<Rightarrow> hash \<times> hash list list \<Rightarrow> inclusion_proof list" where
  "subtree_proofs blockLayers hdr s t =
     (let (rt, layers) = t; l2 = path_or_nil (MerklePath blockLayers (int s)) in
      map (\<lambda>i. \<lparr>Leaf = hd layers ! i, L1 = path_or_nil (MerklePath layers (int i)), SubtreeRoot = rt,
                L2 = l2, Header = hdr\<rparr>) [0..<length (hd layers)])"

text \<open>A negative length of \<open>make\<close> panics.\<close>

definition BuildBlock :: "int \<Rightarrow> int \<Rightarrow> (inclusion_proof list \<times> static_chain) res" where
  "BuildBlock subCap numSub =
     (if numSub < 0 \<or> 0 < numSub \<and> subCap < 0 then Inl Panic
      else case build_subtrees [] (nat subCap) [0..<nat numSub] of
        Inl e \<Rightarrow> Inl e
      | Inr subs \<Rightarrow>
        (case BuildMerkleTree (map fst subs) of
           Inl e \<Rightarrow> Inl e
         | Inr (blockRoot, blockLayers) \<Rightarrow>
           (let hdr = build_header blockRoot;
                proofs = concat (map (\<lambda>s. subtree_proofs blockLayers hdr s (subs ! s)) [0..<nat numSub])
            in Inr (proofs, NewStaticHeaderChain [hdr] 1))))"

definition commitmentDepth :: "nat \<Rightarrow> nat \<Rightarrow> nat" where
  "commitmentDepth subCap numSub = CeilLog2 (word_of_nat subCap * word_of_nat numSub)"

section \<open>Batches at a depth\<close>

definition sub_bits :: nat where
  "sub_bits = 16"

definition pad_elem :: "nat \<Rightarrow> path_elem" where
  "pad_elem i = \<lparr>Sibling = DoubleSHA256 [0xab, word_of_nat i, word_of_nat (i div 256)], Right = (i mod 2 = 0)\<rparr>"

definition depth_proof ::
  "(hash \<times> hash list list) list \<Rightarrow> hash list list \<Rightarrow> path_elem list \<Rightarrow> header \<Rightarrow> nat \<Rightarrow> nat \<Rightarrow> inclusion_proof" where
  "depth_proof subs blockLayers pad hdr numSub i =
     (let subCap = 2 ^ sub_bits;
          s = i div subCap;
          s = (if numSub \<le> s then numSub - 1 else s);
          li = i mod subCap;
          layers = snd (subs ! s)
      in \<lparr>Leaf = hd layers ! li, L1 = path_or_nil (MerklePath layers (int li)), SubtreeRoot = fst (subs ! s),
          L2 = path_or_nil (MerklePath blockLayers (int s)) @ pad, Header = hdr\<rparr>)"

text \<open>
  A number of proofs below 1 still builds one subtree; a negative one panics in \<open>make\<close>, as a pad of
  negative length is cut to none.
\<close>

definition BuildBatchAtDepth :: "int \<Rightarrow> int \<Rightarrow> (bytes \<times> static_chain) res" where
  "BuildBatchAtDepth depth nproofs =
     (let subCap = 2 ^ sub_bits;
          numSub = (if nproofs < 1 then 1 else (nat nproofs + subCap - 1) div subCap)
      in case build_subtrees [0x5a] subCap [0..<numSub] of
        Inl e \<Rightarrow> Inl e
      | Inr subs \<Rightarrow>
        (case BuildMerkleTree (map fst subs) of
           Inl e \<Rightarrow> Inl e
         | Inr (blockRoot, blockLayers) \<Rightarrow>
           (let baseL2 = CeilLog2 (word_of_nat numSub);
                padLen = depth - int sub_bits - int baseL2;
                padLen = (if padLen < 0 then 0 else padLen);
                pad = map pad_elem [0..<nat padLen];
                hdr = build_header (Fold blockRoot pad)
            in if nproofs < 0 then Inl Panic
               else
                 let proofs = map (depth_proof subs blockLayers pad hdr numSub) [0..<nat nproofs]
                 in Inr (EncodeBatch proofs, NewStaticHeaderChain [hdr] 1))))"

section \<open>A block at a node\<close>

definition served_txids :: "nat \<Rightarrow> nat \<Rightarrow> hash list" where
  "served_txids subCap numSub = concat (map (build_leaves [0x7c] subCap) [0..<numSub])"

definition BuildServedBlock :: "nat \<Rightarrow> nat \<Rightarrow> (mock_node \<times> hash list) res" where
  "BuildServedBlock subCap numSub =
     (let n = NewMockNode (int subCap); txids = served_txids subCap numSub in
      map_res (\<lambda>(_, n). (n, txids)) (SealBlock n txids False))"

section \<open>What is built\<close>

lemma length_build_leaves [simp]: "length (build_leaves tag subCap s) = subCap"
  by (simp add: build_leaves_def)

lemma build_leaves_not_Nil: "0 < subCap \<Longrightarrow> build_leaves tag subCap s \<noteq> []"
  by (simp add: build_leaves_def)

lemma build_subtrees_ok:
  "0 < subCap \<Longrightarrow> build_subtrees tag subCap ss
     = Inr (map (\<lambda>s. (tree_root (build_leaves tag subCap s), build_layers (build_leaves tag subCap s))) ss)"
  by (induction ss) (simp_all add: BuildMerkleTree_eq build_leaves_not_Nil)

lemma path_or_nil_ok:
  assumes "i < length xs"
  shows "Fold (xs ! i) (path_or_nil (MerklePath (build_layers xs) (int i))) = tree_root xs"
    and "length (path_or_nil (MerklePath (build_layers xs) (int i))) = bit_len (length xs - 1)"
proof -
  obtain p where "MerklePath (build_layers xs) (int i) = Inr p" "Fold (xs ! i) p = tree_root xs"
    "length p = bit_len (length xs - 1)" by (rule MerklePath_ok [OF assms])
  then show "Fold (xs ! i) (path_or_nil (MerklePath (build_layers xs) (int i))) = tree_root xs"
    and "length (path_or_nil (MerklePath (build_layers xs) (int i))) = bit_len (length xs - 1)"
    by (simp_all add: path_or_nil_def)
qed

lemma build_header_root: "HeaderMerkleRoot (build_header rt) = rt"
  by (simp add: HeaderMerkleRoot_def build_header_def bytes_of_barray_of go_slice_def)

lemma static_one: "on_chain (Some (static_view (NewStaticHeaderChain [hdr] tip))) hdr"
  by (simp add: on_chain_def static_view_def static_Contains_def NewStaticHeaderChain_def)

text \<open>A built block: every proof verifies, and the paths of its subtrees have one length.\<close>

lemma BuildBlock_ok:
  assumes "0 < subCap" and "0 < numSub"
  shows "\<exists>ps view. BuildBlock (int subCap) (int numSub) = Inr (ps, view) \<and> length ps = subCap * numSub \<and>
    (\<forall>p. p \<in> set ps \<longrightarrow> length (L1 p) = bit_len (subCap - 1) \<and> length (L2 p) = bit_len (numSub - 1) \<and>
       (hash_pair h = HashPair \<longrightarrow> fst (VerifyOne h p (Some (static_view view)))))"
proof -
  let ?ls = "build_leaves [] subCap"
  let ?subs = "map (\<lambda>s. (tree_root (?ls s), build_layers (?ls s))) [0..<numSub]"
  let ?roots = "map fst ?subs"
  have roots: "?roots \<noteq> []" "length ?roots = numSub" using assms(2) by simp_all
  define hdr where "hdr = build_header (tree_root ?roots)"
  define ps where "ps = concat (map (\<lambda>s. subtree_proofs (build_layers ?roots) hdr s (?subs ! s)) [0..<numSub])"
  have "BuildBlock (int subCap) (int numSub) = Inr (ps, NewStaticHeaderChain [hdr] 1)"
    using roots(1) assms by (simp add: BuildBlock_def build_subtrees_ok BuildMerkleTree_eq ps_def hdr_def Let_def)
  moreover have "length ps = subCap * numSub"
  proof -
    have "length (subtree_proofs (build_layers ?roots) hdr s (?subs ! s)) = subCap" if "s < numSub" for s
      using that by (simp add: subtree_proofs_def Let_def)
    then have "map (\<lambda>s. length (subtree_proofs (build_layers ?roots) hdr s (?subs ! s))) [0..<numSub] = map (\<lambda>_. subCap) [0..<numSub]"
      by (intro map_cong) simp_all
    then show ?thesis by (simp add: ps_def length_concat comp_def sum_list_triv del: map_eq_conv)
  qed
  moreover have "length (L1 p) = bit_len (subCap - 1) \<and> length (L2 p) = bit_len (numSub - 1) \<and>
      (hash_pair h = HashPair \<longrightarrow> fst (VerifyOne h p (Some (static_view (NewStaticHeaderChain [hdr] 1)))))"
    if "p \<in> set ps" for p
  proof -
    from that obtain s i where s: "s < numSub" "i < subCap"
      and p: "p = \<lparr>Leaf = ?ls s ! i, L1 = path_or_nil (MerklePath (build_layers (?ls s)) (int i)),
        SubtreeRoot = ?roots ! s, L2 = path_or_nil (MerklePath (build_layers ?roots) (int s)), Header = hdr\<rparr>"
      by (auto simp: ps_def subtree_proofs_def Let_def)
    note l1 = path_or_nil_ok [of i "?ls s"] and l2 = path_or_nil_ok [of s ?roots]
    have "fst (VerifyOne h p (Some (static_view (NewStaticHeaderChain [hdr] 1))))" if "hash_pair h = HashPair"
      unfolding sha_backend.VerifyOne_eq [OF sha_backend.intro [OF that]]
      using l1 l2 s static_one by (simp add: p build_header_root hdr_def)
    then show ?thesis using l1(2) l2(2) s by (simp add: p)
  qed
  ultimately show ?thesis by blast
qed

section \<open>Batches at a depth\<close>

definition depth_subs :: "nat \<Rightarrow> (hash \<times> hash list list) list" where
  "depth_subs numSub = map (\<lambda>s. (tree_root (build_leaves [0x5a] (2 ^ sub_bits) s),
                               build_layers (build_leaves [0x5a] (2 ^ sub_bits) s))) [0..<numSub]"

lemma depth_proof_ok:
  fixes numSub i
  assumes "i div 2 ^ sub_bits < numSub" and "pad = map pad_elem [0..<m]"
  defines "roots \<equiv> map fst (depth_subs numSub)"
  defines "hdr \<equiv> build_header (Fold (tree_root roots) pad)"
  defines "p \<equiv> depth_proof (depth_subs numSub) (build_layers roots) pad hdr numSub i"
  shows "length (L1 p) = 16" and "length (L2 p) = bit_len (numSub - 1) + m" and "Header p = hdr"
    and "Fold (Leaf p) (L1 p) = SubtreeRoot p" and "Fold (SubtreeRoot p) (L2 p) = HeaderMerkleRoot hdr"
proof -
  let ?s = "i div 2 ^ sub_bits" and ?li = "i mod 2 ^ sub_bits"
  let ?ls = "build_leaves [0x5a] (2 ^ sub_bits) ?s"
  have sub: "depth_subs numSub ! ?s = (tree_root ?ls, build_layers ?ls)" using assms(1) by (simp add: depth_subs_def)
  have p: "p = \<lparr>Leaf = ?ls ! ?li, L1 = path_or_nil (MerklePath (build_layers ?ls) (int ?li)), SubtreeRoot = tree_root ?ls,
      L2 = path_or_nil (MerklePath (build_layers roots) (int ?s)) @ pad, Header = hdr\<rparr>"
    using assms(1) sub by (simp add: p_def depth_proof_def Let_def)
  have li: "?li < length ?ls" by simp
  have roots: "length roots = numSub" "roots ! ?s = tree_root ?ls"
    using assms(1) sub by (simp_all add: roots_def depth_subs_def)
  have s: "?s < length roots" using assms(1) roots(1) by simp
  have "bit_len (2 ^ sub_bits - 1) = 16" by (simp only: bit_len_mask sub_bits_def)
  then show "length (L1 p) = 16" using path_or_nil_ok(2) [OF li] by (simp add: p)
  show "length (L2 p) = bit_len (numSub - 1) + m" using path_or_nil_ok(2) [OF s] assms(2) by (simp add: p roots(1))
  show "Header p = hdr" by (simp add: p)
  show "Fold (Leaf p) (L1 p) = SubtreeRoot p" using path_or_nil_ok(1) [OF li] by (simp add: p)
  show "Fold (SubtreeRoot p) (L2 p) = HeaderMerkleRoot hdr"
    using path_or_nil_ok(1) [OF s] roots(2) by (simp add: p build_header_root hdr_def)
qed

lemma BuildBatchAtDepth_ok:
  assumes "0 \<le> nproofs" and "nproofs < 2 ^ 63"
  defines "numSub \<equiv> if nproofs < 1 then 1 else (nat nproofs + 2 ^ sub_bits - 1) div 2 ^ sub_bits"
  shows "\<exists>ps view. BuildBatchAtDepth depth nproofs = Inr (EncodeBatch ps, view) \<and> length ps = nat nproofs \<and>
    (\<forall>p. p \<in> set ps \<longrightarrow> length (L1 p) = 16 \<and> length (L1 p) + length (L2 p) = max (nat depth) (16 + bit_len (numSub - 1)) \<and>
       (hash_pair h = HashPair \<longrightarrow> fst (VerifyOne h p (Some (static_view view)))))"
proof -
  let ?N = "2 ^ sub_bits :: nat"
  have N: "0 < ?N" by simp
  have num: "0 < numSub" using assms(1) N by (auto simp: numSub_def div_greater_zero_iff)
  have sub: "i div ?N < numSub" if "i < nat nproofs" for i
  proof -
    have "i \<le> nat nproofs - 1" using that by simp
    then have "i div ?N \<le> (nat nproofs - 1) div ?N" by (rule div_le_mono)
    also have "\<dots> < (nat nproofs - 1 + ?N) div ?N" by simp
    also have "nat nproofs - 1 + ?N = nat nproofs + ?N - 1" using that by simp
    finally show ?thesis using that by (simp add: numSub_def)
  qed
  have "numSub \<le> nat nproofs + ?N" by (simp add: numSub_def div_le_dividend le_trans [OF div_le_dividend])
  moreover have "?N \<le> 2 ^ 16" by (simp add: sub_bits_def)
  moreover have "nat nproofs < 2 ^ 63" using assms(2) by (simp add: nat_less_iff)
  ultimately have "numSub < 2 ^ 64" by simp
  then have base: "CeilLog2 (word_of_nat numSub) = bit_len (numSub - 1)" by (rule CeilLog2_of_nat [OF num])
  define m where "m = nat (if depth - int sub_bits - int (bit_len (numSub - 1)) < 0 then 0
      else depth - int sub_bits - int (bit_len (numSub - 1)))"
  define pad where "pad = map pad_elem [0..<m]"
  let ?roots = "map fst (depth_subs numSub)"
  define hdr where "hdr = build_header (Fold (tree_root ?roots) pad)"
  define ps where "ps = map (depth_proof (depth_subs numSub) (build_layers ?roots) pad hdr numSub) [0..<nat nproofs]"
  have subs: "build_subtrees [0x5a] ?N [0..<numSub] = Inr (depth_subs numSub)"
    using build_subtrees_ok [OF N] by (simp add: depth_subs_def)
  have tree: "BuildMerkleTree ?roots = Inr (tree_root ?roots, build_layers ?roots)"
    using num by (simp add: BuildMerkleTree_eq depth_subs_def)
  have "BuildBatchAtDepth depth nproofs = Inr (EncodeBatch ps, NewStaticHeaderChain [hdr] 1)"
    using assms(1) unfolding BuildBatchAtDepth_def Let_def numSub_def [symmetric] subs
    by (simp add: tree base hdr_def ps_def pad_def m_def)
  moreover have "length ps = nat nproofs" by (simp add: ps_def)
  moreover have "length (L1 p) = 16 \<and> length (L1 p) + length (L2 p) = max (nat depth) (16 + bit_len (numSub - 1)) \<and>
      (hash_pair h = HashPair \<longrightarrow> fst (VerifyOne h p (Some (static_view (NewStaticHeaderChain [hdr] 1)))))"
    if "p \<in> set ps" for p
  proof -
    from that obtain i where i: "i < nat nproofs"
      and p: "p = depth_proof (depth_subs numSub) (build_layers ?roots) pad hdr numSub i" by (auto simp: ps_def)
    note ok = depth_proof_ok [OF sub [OF i] pad_def, folded hdr_def, folded p]
    have "m = nat depth - (16 + bit_len (numSub - 1))" by (simp add: m_def sub_bits_def) linarith
    then have "length (L1 p) + length (L2 p) = max (nat depth) (16 + bit_len (numSub - 1))"
      using ok(1,2) by (simp add: max_def)
    moreover have "fst (VerifyOne h p (Some (static_view (NewStaticHeaderChain [hdr] 1))))" if "hash_pair h = HashPair"
      unfolding sha_backend.VerifyOne_eq [OF sha_backend.intro [OF that]]
      using ok(3-5) static_one by simp
    ultimately show ?thesis using ok(1) by simp
  qed
  ultimately show ?thesis by blast
qed

section \<open>Property\<close>

text \<open>
  The whole pipeline on a built batch. For up to \<open>2^24\<close> proofs and a depth of at most 4096,
  \<open>BuildBatchAtDepth\<close> returns the wire bytes of that many proofs, each a path of exactly the depth asked
  for (or of the least depth of its real trees when that is more), each accepted by \<open>VerifyOne\<close>
  against the returned view; and \<open>VerifyWire\<close> accepts the bytes and counts all the proofs, unless two
  of the proofs exhibit a collision.
\<close>
theorem BuildBatchAtDepth_streams:
  assumes "hash_pair h = HashPair" and "depth \<le> 4096" and "0 \<le> nproofs" and "nproofs \<le> 2 ^ 24"
  shows "\<exists>ps view. BuildBatchAtDepth depth nproofs = Inr (EncodeBatch ps, view) \<and> length ps = nat nproofs \<and>
    (\<forall>p. p \<in> set ps \<longrightarrow> fst (VerifyOne h p (Some (static_view view))) \<and>
       length (L1 p) + length (L2 p)
         = max (nat depth) (16 + CeilLog2 (word_of_nat (if nproofs < 1 then 1 else (nat nproofs + 65535) div 65536)))) \<and>
    ((\<exists>n. VerifyWire v h (EncodeBatch ps) (Some (static_view view)) = (True, n, nat nproofs)) \<or> batch_collision ps)"
proof -
  define numSub where "numSub = (if nproofs < 1 then 1 else (nat nproofs + 2 ^ sub_bits - 1) div 2 ^ sub_bits)"
  have same: "(if nproofs < 1 then 1 else (nat nproofs + 65535) div 65536) = numSub"
    by (simp add: numSub_def sub_bits_def add.commute)
  have n: "nat nproofs \<le> 2 ^ 24" using assms(4) by (simp add: nat_le_iff)
  have "(nat nproofs + 65535) div 65536 \<le> 2 ^ 8" "0 < nproofs \<Longrightarrow> 0 < (nat nproofs + 65535) div 65536"
    using n by (simp_all add: div_greater_zero_iff)
  then have num: "0 < numSub" "numSub \<le> 2 ^ 8" unfolding same [symmetric] by auto
  then have small: "bit_len (numSub - 1) \<le> 8" by (simp add: bit_len_le_iff)
  have base: "CeilLog2 (word_of_nat numSub) = bit_len (numSub - 1)"
    by (rule CeilLog2_of_nat [OF num(1)]) (use num(2) in simp)
  have "nproofs < 2 ^ 63" using assms(4) by simp
  from BuildBatchAtDepth_ok [OF assms(3) this, folded numSub_def, of depth h]
  obtain ps view where built: "BuildBatchAtDepth depth nproofs = Inr (EncodeBatch ps, view)" "length ps = nat nproofs"
    and each: "\<And>p. p \<in> set ps \<Longrightarrow> length (L1 p) = 16 \<and>
        length (L1 p) + length (L2 p) = max (nat depth) (16 + bit_len (numSub - 1)) \<and>
        fst (VerifyOne h p (Some (static_view view)))"
    using assms(1) by blast
  have "max (nat depth) (16 + bit_len (numSub - 1)) \<le> 4096" using assms(2) small by simp
  moreover have "length (L1 p) = 16" "length (L1 p) + length (L2 p) = max (nat depth) (16 + bit_len (numSub - 1))"
    if "p \<in> set ps" for p using each [OF that] by blast+
  ultimately have "length (L1 p) = 16 \<and> length (L2 p) \<le> 4096" if "p \<in> set ps" for p using that by fastforce
  then have len: "list_all proof_ok ps" "list_all (\<lambda>p. length (L1 p) \<le> 32) ps"
    by (simp_all add: list_all_iff proof_ok_def max_path_def)
  have "length ps \<le> 2 ^ 24" using built(2) n by simp
  note wire = VerifyWire_batch [OF len this, where v = v and h = h and junk = "[]" and view = "Some (static_view view)"]
  have "uniform_batch ps" using each by (simp add: uniform_batch_def)
  then have "fst (BatchVerify h ps (Some (static_view view))) \<or> batch_collision ps"
    using sha_backend.BatchVerify_accepts [OF sha_backend.intro [OF assms(1)]] each by blast
  then have "(\<exists>n. VerifyWire v h (EncodeBatch ps) (Some (static_view view)) = (True, n, nat nproofs)) \<or> batch_collision ps"
    using wire built(2) by (auto split: prod.splits)
  then show ?thesis unfolding same base using built each by blast
qed

theorem BuildBatchAtDepth_streams_witness:
  "\<exists>ps view. BuildBatchAtDepth 46 524288 = Inr (EncodeBatch ps, view) \<and> length ps = 524288 \<and>
     ((\<exists>n. VerifyWire NewVerifier Software (EncodeBatch ps) (Some (static_view view)) = (True, n, 524288)) \<or> batch_collision ps)"
  using BuildBatchAtDepth_streams [OF software.pair, of 46 524288, where v = NewVerifier] by auto

end
