(* ===== verification/Pull.thy ===== *)
theory Pull
  imports FabricBuild Lockstep
begin

text \<open>
  Package \<open>fabric\<close>, the pulling worker (src/fabric/pull.go, \<open>MeasurePullThroughput\<close>): the check of the
  block paths once per subtree, the share of a worker, and one pass of a worker over its share, in
  which a group of 16 proofs is served from the node into reused buffers and folded in lockstep. The
  goroutines and the deadline around the pass are in MeasureFabric.
\<close>

type_synonym path_buf = "path_elem go_buf"

definition nil_buf :: path_buf where
  "nil_buf = \<lparr>backing = [], used = 0, moves = 0\<rparr>"

section \<open>Block paths\<close>

text \<open>
  One iteration of the loop that fills \<open>valid\<close>; a transaction the node does not know is skipped, and
  the buffers of the last served proof are used again.
\<close>

definition valid_step ::
  "(nat \<Rightarrow> path_elem list) \<Rightarrow> mock_node \<Rightarrow> hash \<Rightarrow> (hash \<rightharpoonup> bool) \<times> path_buf \<times> path_buf
    \<Rightarrow> ((hash \<rightharpoonup> bool) \<times> path_buf \<times> path_buf) res" where
  "valid_step grow node txid st =
     (case st of (valid, l1tmp, l2tmp) \<Rightarrow>
       (case ServeInto grow node txid (reslice0 l1tmp) (reslice0 l2tmp) of
          Inl e \<Rightarrow> Inl e
        | Inr None \<Rightarrow> Inr (valid, l1tmp, l2tmp)
        | Inr (Some (l1, l2, sub, hdr)) \<Rightarrow>
            (case valid sub of
               Some _ \<Rightarrow> Inr (valid, l1, l2)
             | None \<Rightarrow> Inr (valid(sub \<mapsto> (Fold sub (contents l2) = HeaderMerkleRoot hdr \<and> node_Contains node hdr)), l1, l2))))"

fun valid_loop ::
  "(nat \<Rightarrow> path_elem list) \<Rightarrow> mock_node \<Rightarrow> hash list \<Rightarrow> (hash \<rightharpoonup> bool) \<times> path_buf \<times> path_buf \<Rightarrow> (hash \<rightharpoonup> bool) res" where
  "valid_loop grow node [] st = Inr (fst st)"
| "valid_loop grow node (txid # txids) st =
     (case valid_step grow node txid st of Inl e \<Rightarrow> Inl e | Inr st \<Rightarrow> valid_loop grow node txids st)"

section \<open>Shares\<close>

text \<open>
  The bounds of the slice of worker \<open>w\<close> of \<open>cores\<close>; slicing panics when the start lies past the end.
\<close>

definition worker_slice :: "nat \<Rightarrow> nat \<Rightarrow> nat \<Rightarrow> (nat \<times> nat) res" where
  "worker_slice len cores w =
     (let per = len div cores;
          per = (if per < 16 then len else per);
          start = w * per;
          end1 = start + per;
          end1 = (if len < end1 then len else end1)
      in if end1 < start then Inl Panic else Inr (start, end1))"

section \<open>One pass\<close>

text \<open>The entries \<open>l1[k]\<close>, \<open>node16[k]\<close>, \<open>sub16[k]\<close> of a lane.\<close>

record pull_lane =
  lane_path :: path_buf
  lane_node :: hash
  lane_sub :: hash

definition new_lane :: pull_lane where
  "new_lane = \<lparr>lane_path = \<lparr>backing = replicate 40 \<lparr>Sibling = zero_hash, Right = False\<rparr>, used = 0, moves = 0\<rparr>,
               lane_node = zero_hash, lane_sub = zero_hash\<rparr>"

text \<open>Serving one lane: an unknown transaction clears the root and leaves the path of the group before.\<close>

definition serve_lane :: "(nat \<Rightarrow> path_elem list) \<Rightarrow> mock_node \<Rightarrow> hash \<Rightarrow> pull_lane \<Rightarrow> pull_lane res" where
  "serve_lane grow node txid pl =
     (case ServeInto grow node txid (reslice0 (lane_path pl)) nil_buf of
        Inl e \<Rightarrow> Inl e
      | Inr None \<Rightarrow> Inr (pl\<lparr>lane_sub := zero_hash\<rparr>)
      | Inr (Some (p1, _, sub, _)) \<Rightarrow> Inr (pl\<lparr>lane_path := p1, lane_sub := sub, lane_node := txid\<rparr>))"

fun serve_lanes :: "(nat \<Rightarrow> path_elem list) \<Rightarrow> mock_node \<Rightarrow> hash list \<Rightarrow> pull_lane list \<Rightarrow> pull_lane list res" where
  "serve_lanes grow node (txid # txids) (pl # pls) =
     (case serve_lane grow node txid pl of
        Inl e \<Rightarrow> Inl e
      | Inr pl \<Rightarrow> map_res ((#) pl) (serve_lanes grow node txids pls))"
| "serve_lanes grow node _ _ = Inr []"

text \<open>The groups, \<open>n\<close> of them from index \<open>base\<close> on.\<close>

primrec pull_groups ::
  "'h lanes \<Rightarrow> (nat \<Rightarrow> path_elem list) \<Rightarrow> mock_node \<Rightarrow> (hash \<rightharpoonup> bool) \<Rightarrow> hash list \<Rightarrow> nat \<Rightarrow> nat
    \<Rightarrow> 'h \<Rightarrow> pull_lane list \<Rightarrow> nat \<Rightarrow> ('h \<times> pull_lane list \<times> nat) res" where
  "pull_groups run grow node valid mine 0 base h pls local = Inr (h, pls, local)"
| "pull_groups run grow node valid mine (Suc n) base h pls local =
     (case serve_lanes grow node (go_slice mine base (base + 16)) pls of
        Inl e \<Rightarrow> Inl e
      | Inr pls \<Rightarrow>
        (let paths = map (\<lambda>pl. contents (lane_path pl)) pls; levels = length (hd paths) in
         case lockstep run paths levels 0 h (map lane_node pls) of
           Inl e \<Rightarrow> Inl e
         | Inr (h, node16) \<Rightarrow>
           (let local = fold (\<lambda>k c. if node16 ! k = lane_sub (pls ! k) \<and> go_get False valid (lane_sub (pls ! k))
                                then c + 1 else c) [0..<16] local;
                pls = map2 (\<lambda>pl x. pl\<lparr>lane_node := x\<rparr>) pls node16
            in pull_groups run grow node valid mine n (base + 16) h pls local)))"

definition pull_pass ::
  "'h lanes \<Rightarrow> 'h \<Rightarrow> (nat \<Rightarrow> path_elem list) \<Rightarrow> mock_node \<Rightarrow> hash list \<Rightarrow> nat \<Rightarrow> nat \<Rightarrow> nat res" where
  "pull_pass run h grow node txids cores w =
     (let cores = (if cores < 1 then 1 else cores) in
      case valid_loop grow node txids (Map.empty, nil_buf, nil_buf) of
        Inl e \<Rightarrow> Inl e
      | Inr valid \<Rightarrow>
        (case worker_slice (length txids) cores w of
           Inl e \<Rightarrow> Inl e
         | Inr (start, end1) \<Rightarrow>
           (let mine = go_slice txids start end1; n16 = (length mine div 16) * 16 in
            map_res (\<lambda>(h, pls, local). local)
              (pull_groups run grow node valid mine (n16 div 16) 0 h (replicate 16 new_lane) 0))))"

section \<open>Serving\<close>

text \<open>What \<open>ServeInto\<close> gives for a transaction located on the chain of a well-formed node.\<close>

definition on_chain_tx :: "mock_node \<Rightarrow> hash \<Rightarrow> bool" where
  "on_chain_tx n txid \<longleftrightarrow> (\<exists>bh. node_LocateTx n txid = Inr bh \<and> go_get False (onBest n) bh)"

lemma serve_on_chain:
  assumes "node_inv cap n" and "cap \<le> 2 ^ 20" and "on_chain_tx n txid"
  obtains b1 b2 sub hdr where "ServeInto grow n txid d1 d2 = Inr (Some (b1, b2, sub, hdr))"
    and "Fold txid (contents b1) = sub" and "Fold sub (contents b2) = HeaderMerkleRoot hdr"
    and "node_Contains n hdr" and "node_SubtreePathFor n txid = Inr (contents b1, sub)"
proof -
  obtain bh where tx: "node_LocateTx n txid = Inr bh" and best: "go_get False (onBest n) bh"
    using assms(3) by (auto simp: on_chain_tx_def)
  show thesis
  proof (rule served_proofs [OF assms(1,2) tx])
    fix e :: tx_entry and sb :: sealed_block and l1 l2
    let ?r = "sb_subtreeRoots sb ! te_subtreeIndex e"
    assume e: "txIndex n txid = Some e" "te_blockHash e = bh" and sb: "blocks n bh = Some sb" "block_ok cap sb" "sb_hash sb = bh"
      and s: "node_SubtreePathFor n txid = Inr (l1, ?r)" and j: "te_subtreeIndex e < length (leaves_of sb)"
      and f: "Fold txid l1 = ?r" and rt: "header_root (sb_header sb) = bytes_of (sb_blockRoot sb)"
    obtain m2 where m2: "MerklePath (sb_blockLayers sb) (int (te_subtreeIndex e)) = Inr m2"
      "Fold ?r m2 = sb_blockRoot sb" using serve_block [OF sb(2) j] .
    have "blocks n (te_blockHash e) = Some sb" using e(2) sb(1) by simp
    from ServeInto_ok [OF assms(1) e(1) this s m2(1)] obtain b1 b2 where
      v: "ServeInto grow n txid d1 d2 = Inr (Some (b1, b2, ?r, sb_header sb))" "contents b1 = l1" "contents b2 = m2" .
    have "HeaderMerkleRoot (sb_header sb) = sb_blockRoot sb" using rt by (simp add: HeaderMerkleRoot_def header_root_def)
    moreover have "node_Contains n (sb_header sb)"
      using sb best by (simp add: node_Contains_def block_ok_def Let_def)
    ultimately show thesis by (intro that [OF v(1)]) (use v f s m2(2) in simp_all)
  qed
qed

lemma valid_loop_ok:
  assumes "node_inv cap n" and "cap \<le> 2 ^ 20" and "\<And>t. t \<in> set txids \<Longrightarrow> on_chain_tx n t"
    and "\<And>r. fst st r \<noteq> Some False"
  shows "\<exists>valid. valid_loop grow n txids st = Inr valid \<and> (\<forall>r. fst st r = Some True \<longrightarrow> valid r = Some True) \<and>
    (\<forall>t p s. t \<in> set txids \<longrightarrow> node_SubtreePathFor n t = Inr (p, s) \<longrightarrow> valid s = Some True)"
  using assms(3,4)
proof (induction txids arbitrary: st)
  case (Cons t txids)
  obtain valid l1 l2 where st: "st = (valid, l1, l2)" by (cases st) auto
  have "on_chain_tx n t" using Cons.prems(1) by simp
  then obtain b1 b2 sub hdr where s: "ServeInto grow n t (reslice0 l1) (reslice0 l2) = Inr (Some (b1, b2, sub, hdr))"
    "Fold sub (contents b2) = HeaderMerkleRoot hdr" "node_Contains n hdr" "node_SubtreePathFor n t = Inr (contents b1, sub)"
    using serve_on_chain [OF assms(1,2)] by metis
  define valid' where "valid' = (case valid sub of Some _ \<Rightarrow> valid | None \<Rightarrow> valid(sub \<mapsto> True))"
  have step: "valid_step grow n t st = Inr (valid', b1, b2)"
    using s by (simp add: valid_step_def st valid'_def split: option.split)
  have old: "valid r \<noteq> Some False" for r using Cons.prems(2) [of r] by (simp add: st)
  have new: "valid' r \<noteq> Some False" for r using old [of r] by (simp add: valid'_def split: option.split)
  have sub: "valid' sub = Some True" using old [of sub] by (auto simp: valid'_def split: option.split)
  have keep: "valid' r = Some True" if "valid r = Some True" for r
    using that by (auto simp: valid'_def split: option.split)
  have "\<exists>v. valid_loop grow n txids (valid', b1, b2) = Inr v \<and>
    (\<forall>r. fst (valid', b1, b2) r = Some True \<longrightarrow> v r = Some True) \<and>
    (\<forall>t p s. t \<in> set txids \<longrightarrow> node_SubtreePathFor n t = Inr (p, s) \<longrightarrow> v s = Some True)"
    by (rule Cons.IH) (use Cons.prems(1) new in simp_all)
  then obtain v where v: "valid_loop grow n txids (valid', b1, b2) = Inr v"
    "\<forall>r. valid' r = Some True \<longrightarrow> v r = Some True"
    "\<forall>t p s. t \<in> set txids \<longrightarrow> node_SubtreePathFor n t = Inr (p, s) \<longrightarrow> v s = Some True"
    unfolding fst_conv by blast
  show ?case using v step s(4) sub keep by (intro exI [of _ v]) (auto simp: st)
qed simp

lemma serve_lanes_ok:
  assumes "node_inv cap n" and "cap \<le> 2 ^ 20"
  shows "length pls = length txids \<Longrightarrow> (\<And>t. t \<in> set txids \<Longrightarrow> on_chain_tx n t) \<Longrightarrow>
    \<exists>pls'. serve_lanes grow n txids pls = Inr pls' \<and> map lane_node pls' = txids \<and>
      map (\<lambda>pl. node_SubtreePathFor n (lane_node pl)) pls' = map (\<lambda>pl. Inr (contents (lane_path pl), lane_sub pl)) pls' \<and>
      (\<forall>pl. pl \<in> set pls' \<longrightarrow> Fold (lane_node pl) (contents (lane_path pl)) = lane_sub pl)"
proof (induction txids arbitrary: pls)
  case (Cons t txids)
  then obtain pl rest where pls: "pls = pl # rest" by (cases pls) auto
  have "on_chain_tx n t" using Cons.prems(2) by simp
  then obtain b1 b2 sub hdr where s: "ServeInto grow n t (reslice0 (lane_path pl)) nil_buf = Inr (Some (b1, b2, sub, hdr))"
    "Fold t (contents b1) = sub" "node_SubtreePathFor n t = Inr (contents b1, sub)"
    using serve_on_chain [OF assms] by metis
  obtain pls' where r: "serve_lanes grow n txids rest = Inr pls'" "map lane_node pls' = txids"
    "map (\<lambda>pl. node_SubtreePathFor n (lane_node pl)) pls' = map (\<lambda>pl. Inr (contents (lane_path pl), lane_sub pl)) pls'"
    "\<forall>pl. pl \<in> set pls' \<longrightarrow> Fold (lane_node pl) (contents (lane_path pl)) = lane_sub pl"
    using Cons.IH [of rest] Cons.prems pls by auto
  have "serve_lanes grow n (t # txids) pls = Inr (pl\<lparr>lane_path := b1, lane_sub := sub, lane_node := t\<rparr> # pls')"
    using s(1) r(1) by (simp add: pls serve_lane_def)
  then show ?case using s r by simp
qed simp

text \<open>The transactions of a group have subtree paths of one length.\<close>

definition one_length :: "mock_node \<Rightarrow> hash list \<Rightarrow> bool" where
  "one_length n ts \<longleftrightarrow> (\<exists>d. \<forall>t p s. t \<in> set ts \<longrightarrow> node_SubtreePathFor n t = Inr (p, s) \<longrightarrow> length p = d)"

section \<open>Counting the served proofs\<close>

context sixteen_lanes
begin

lemma pull_groups_ok:
  assumes node: "node_inv cap nd" "cap \<le> 2 ^ 20"
    and mine: "\<And>t. t \<in> set mine \<Longrightarrow> on_chain_tx nd t"
    and valid: "\<And>t p s. t \<in> set mine \<Longrightarrow> node_SubtreePathFor nd t = Inr (p, s) \<Longrightarrow> valid s = Some True"
  shows "ok h \<Longrightarrow> length pls = 16 \<Longrightarrow> base + 16 * n \<le> length mine \<Longrightarrow>
    (\<And>g. g < n \<Longrightarrow> one_length nd (go_slice mine (base + 16 * g) (base + 16 * g + 16))) \<Longrightarrow>
    \<exists>h' pls'. pull_groups run grow nd valid mine n base h pls c = Inr (h', pls', c + 16 * n) \<and> ok h' \<and> length pls' = 16"
proof (induction n arbitrary: base h pls c)
  case (Suc n)
  let ?g = "go_slice mine base (base + 16)"
  have len: "length ?g = 16" using Suc.prems(3) by simp
  have in_mine: "t \<in> set mine" if "t \<in> set ?g" for t
    using that unfolding go_slice_def by (metis in_set_takeD in_set_dropD)
  obtain pls1 where s: "serve_lanes grow nd ?g pls = Inr pls1" "map lane_node pls1 = ?g"
    "map (\<lambda>pl. node_SubtreePathFor nd (lane_node pl)) pls1 = map (\<lambda>pl. Inr (contents (lane_path pl), lane_sub pl)) pls1"
    "\<forall>pl. pl \<in> set pls1 \<longrightarrow> Fold (lane_node pl) (contents (lane_path pl)) = lane_sub pl"
    using serve_lanes_ok [OF node, of pls ?g grow] Suc.prems(2) len mine [OF in_mine] by auto
  have l1: "length pls1 = 16" using s(2) len by (metis length_map)
  have path: "node_SubtreePathFor nd (lane_node pl) = Inr (contents (lane_path pl), lane_sub pl)" if "pl \<in> set pls1" for pl
    using s(3) that by (simp only: map_eq_conv)
  have lane: "lane_node pl \<in> set ?g" if "pl \<in> set pls1" for pl
    using that unfolding s(2) [symmetric] by simp
  let ?paths = "map (\<lambda>pl. contents (lane_path pl)) pls1"
  have "one_length nd ?g" using Suc.prems(4) [of 0] by simp
  then obtain d where "\<forall>t p s. t \<in> set ?g \<longrightarrow> node_SubtreePathFor nd t = Inr (p, s) \<longrightarrow> length p = d"
    unfolding one_length_def by blast
  then have d: "length (contents (lane_path pl)) = d" if "pl \<in> set pls1" for pl
    using path [OF that] lane [OF that] by blast
  have "hd pls1 \<in> set pls1" using l1 by (cases pls1) auto
  then have levels: "length (hd ?paths) = d" using d l1 by (cases pls1) auto
  have "\<exists>h'. lockstep run ?paths d 0 h (map lane_node pls1) = Inr (h', map2 Fold (map lane_node pls1) ?paths) \<and> ok h'"
    by (rule lockstep_ok [OF Suc.prems(1)]) (use l1 d in auto)
  then obtain h1 where f: "lockstep run ?paths d 0 h (map lane_node pls1) = Inr (h1, map2 Fold (map lane_node pls1) ?paths)" "ok h1" by blast
  have out: "map2 Fold (map lane_node pls1) ?paths = map lane_sub pls1"
    by (rule nth_equalityI) (use s(4) in auto)
  have good: "go_get False valid (lane_sub pl)" if "pl \<in> set pls1" for pl
    using valid [OF in_mine [OF lane [OF that]] path [OF that]] by (simp add: go_get_def)
  have "fold (\<lambda>k c. if map lane_sub pls1 ! k = lane_sub (pls1 ! k) \<and> go_get False valid (lane_sub (pls1 ! k))
      then c + 1 else c) [0..<16] c = fold (\<lambda>k c. if True then c + 1 else c) [0..<16] c"
    by (rule List.fold_cong) (use l1 good in auto)
  also have "\<dots> = c + 16" using fold_count [of "\<lambda>_. True" "[0..<16]" c] by simp
  finally have c: "fold (\<lambda>k c. if map lane_sub pls1 ! k = lane_sub (pls1 ! k) \<and> go_get False valid (lane_sub (pls1 ! k))
      then c + 1 else c) [0..<16] c = c + 16" .
  have rest: "one_length nd (go_slice mine (base + 16 + 16 * g) (base + 16 + 16 * g + 16))" if "g < n" for g
    using Suc.prems(4) [of "Suc g"] that by (simp add: algebra_simps)
  have "\<exists>h' pls'. pull_groups run grow nd valid mine n (base + 16) h1
      (map2 (\<lambda>pl x. pl\<lparr>lane_node := x\<rparr>) pls1 (map lane_sub pls1)) (c + 16) = Inr (h', pls', c + 16 + 16 * n) \<and>
      ok h' \<and> length pls' = 16"
    by (rule Suc.IH [OF f(2)]) (use l1 Suc.prems(3) rest in auto)
  moreover have "pull_groups run grow nd valid mine (Suc n) base h pls c = pull_groups run grow nd valid mine n (base + 16) h1
      (map2 (\<lambda>pl x. pl\<lparr>lane_node := x\<rparr>) pls1 (map lane_sub pls1)) (c + 16)"
    using s(1) f(1) levels by (simp only: pull_groups.simps sum.case prod.case Let_def out c)
  ultimately show ?case by (simp only: mult_Suc_right add.assoc)
qed simp

end

text \<open>A node with one transaction on its chain, for the instances.\<close>

lemma one_tx_chain:
  obtains n where "reachable_node 1 n" and "on_chain_tx n zero_hash"
proof -
  obtain sb where r: "reachable_node 1 (add_block (NewMockNode (int 1)) sb)"
    and s: "sealed 1 (NewMockNode (int 1)) [zero_hash] False sb"
    using one_block [of 1 "[zero_hash]" False] by auto
  have "on_chain_tx (add_block (NewMockNode (int 1)) sb) zero_hash"
    using sealed_index [OF s, of zero_hash] by (simp add: on_chain_tx_def add_block_def go_get_def)
  then show thesis using that r by blast
qed

lemma worker_slice_share: "w < cores \<Longrightarrow> 16 \<le> len div cores \<Longrightarrow>
  worker_slice len cores w = Inr (w * (len div cores), w * (len div cores) + len div cores) \<and>
  w * (len div cores) + len div cores \<le> len"
proof -
  assume a: "w < cores" "16 \<le> len div cores"
  have "w * (len div cores) + len div cores = Suc w * (len div cores)" by simp
  also have "\<dots> \<le> cores * (len div cores)" using a(1) by (intro mult_le_mono1) simp
  also have "\<dots> \<le> len" by simp
  finally have "w * (len div cores) + len div cores \<le> len" .
  then show ?thesis using a(2) by (simp add: worker_slice_def Let_def)
qed

lemma worker_slice_small: "len div cores < 16 \<Longrightarrow> 0 < len \<Longrightarrow>
  worker_slice len cores w = (if w = 0 then Inr (0, len) else if w = 1 then Inr (len, len) else Inl Panic)"
proof -
  assume a: "len div cores < 16" "0 < len"
  have "len < w * len" if "1 < w" using that a(2) by simp
  then show ?thesis using a by (auto simp: worker_slice_def Let_def)
qed

section \<open>Properties\<close>

text \<open>
  A pulling worker verifies every full group of its share. When the transactions lie on the chain
  of a node whose subtree paths have one length, one pass of worker \<open>w\<close> of \<open>cores\<close>, whatever the
  buffers grow by, does not fail in the node or the hasher and counts all the whole groups of 16 of
  its share. The share is \<open>len div cores\<close> transactions, so those past \<open>cores * (len div cores)\<close> are
  never pulled; when it would be below 16, worker 0 takes all of them, worker 1 none, and the slice
  expression of every further worker panics.
\<close>
theorem pull_pass_serves:
  assumes "hasAVX512 cpu \<longrightarrow> kernel_law (sha256X16Avx512 cpu)"
    and "reachable_node cap n" and "0 < cap" and "cap \<le> 2 ^ 20"
    and "\<forall>t. t \<in> set txids \<longrightarrow> on_chain_tx n t" and "one_length n txids" and "0 < length txids" and "w < cores"
  shows "pull_pass (hasher_x16 cpu) NewHasher grow n txids cores w =
    (let share = length txids div cores in
     if 16 \<le> share then Inr (16 * (share div 16))
     else if w = 0 then Inr (16 * (length txids div 16)) else if w = 1 then Inr 0 else Inl Panic)"
proof -
  have lanes: "sixteen_lanes (hasher_x16 cpu) hasher_ok"
    by (rule hasher_lanes) (use assms(1) in \<open>simp add: cpu_ok_def\<close>)
  have node: "node_inv cap n" using node_inv_reachable [OF assms(2,3)] .
  obtain valid where v: "valid_loop grow n txids (Map.empty, nil_buf, nil_buf) = Inr valid"
    "\<And>t p s. t \<in> set txids \<Longrightarrow> node_SubtreePathFor n t = Inr (p, s) \<Longrightarrow> valid s = Some True"
    using valid_loop_ok [OF node assms(4), of txids "(Map.empty, nil_buf, nil_buf)" grow] assms(5) by auto
  have run: "map_res (\<lambda>(h, pls, local). local) (pull_groups (hasher_x16 cpu) grow n valid (go_slice txids i j)
      (length (go_slice txids i j) div 16) 0 NewHasher (replicate 16 new_lane) 0)
      = Inr (16 * (length (go_slice txids i j) div 16))" for i j
  proof -
    have mine: "t \<in> set txids" if "t \<in> set (go_slice txids i j)" for t
      using that unfolding go_slice_def by (metis in_set_takeD in_set_dropD)
    have "t \<in> set txids" if "t \<in> set (go_slice (go_slice txids i j) a b)" for t a b
      using that mine [of t] unfolding go_slice_def by (metis in_set_takeD in_set_dropD)
    then have one: "one_length n (go_slice (go_slice txids i j) a b)" for a b
      using assms(6) unfolding one_length_def by meson
    have ok: "valid s = Some True" if "t \<in> set (go_slice txids i j)" "node_SubtreePathFor n t = Inr (p, s)" for t p s
      using v(2) [OF mine [OF that(1)] that(2)] .
    have "\<exists>h' pls'. pull_groups (hasher_x16 cpu) grow n valid (go_slice txids i j) (length (go_slice txids i j) div 16) 0
      NewHasher (replicate 16 new_lane) 0 = Inr (h', pls', 0 + 16 * (length (go_slice txids i j) div 16)) \<and>
      hasher_ok h' \<and> length pls' = 16"
      by (rule sixteen_lanes.pull_groups_ok [OF lanes node assms(4) _ _ NewHasher_ok])
        (use mine assms(5) ok one in auto)
    then show ?thesis by auto
  qed
  have c: "\<not> cores < 1" using assms(8) by simp
  show ?thesis
  proof (cases "16 \<le> length txids div cores")
    case True
    then show ?thesis using worker_slice_share [OF assms(8) True] v(1) c
      run [of "w * (length txids div cores)" "w * (length txids div cores) + length txids div cores"]
    by (simp add: pull_pass_def)
  next
    case False
    then show ?thesis
      using worker_slice_small [of "length txids" cores w] assms(7) v(1) c
      run [of 0 "length txids"] run [of "length txids" "length txids"]
      by (simp add: pull_pass_def not_le)
  qed
qed

theorem pull_pass_serves_witness:
  "\<exists>n. reachable_node 1 n \<and>
    pull_pass (hasher_x16 vector_cpu) NewHasher (\<lambda>_. []) n (replicate 35 zero_hash) 2 1 = Inr 16 \<and>
    pull_pass (hasher_x16 vector_cpu) NewHasher (\<lambda>_. []) n (replicate 35 zero_hash) 3 2 = Inl Panic"
proof -
  obtain n where r: "reachable_node 1 n" and t: "on_chain_tx n zero_hash" using one_tx_chain .
  have cpu: "hasAVX512 vector_cpu \<longrightarrow> kernel_law (sha256X16Avx512 vector_cpu)" by (simp add: vector_cpu_def ref_kernel_law)
  have "one_length n (replicate 35 zero_hash)"
    by (cases "node_SubtreePathFor n zero_hash") (auto simp: one_length_def)
  then show ?thesis
    using pull_pass_serves [OF cpu r, of "replicate 35 zero_hash" 1 2 "\<lambda>_. []"]
      pull_pass_serves [OF cpu r, of "replicate 35 zero_hash" 2 3 "\<lambda>_. []"] r t by auto
qed

end
