(* ===== verification/Field.thy ===== *)
theory Field
  imports Prelude
begin

text \<open>
  Package \<open>crypto\<close>, file src/crypto/ct.go: the constant-time arithmetic of the curve's field
  on four 64-bit limbs, the complete addition formulas, the masked select and the ladder.
  Every limb operation is modelled at its width, with \<open>math/bits.Add64\<close>, \<open>Sub64\<close> and
  \<open>Mul64\<close> as the package documents them. The lemmas give the value of each operation modulo
  the field prime.
\<close>

section \<open>math/bits\<close>

definition Add64 :: "u64 \<Rightarrow> u64 \<Rightarrow> u64 \<Rightarrow> u64 \<times> u64" where
  "Add64 x y carry = (x + y + carry, if uint x + uint y + uint carry < 2 ^ 64 then 0 else 1)"

definition Sub64 :: "u64 \<Rightarrow> u64 \<Rightarrow> u64 \<Rightarrow> u64 \<times> u64" where
  "Sub64 x y borrow = (x - y - borrow, if uint x < uint y + uint borrow then 1 else 0)"

definition Mul64 :: "u64 \<Rightarrow> u64 \<Rightarrow> u64 \<times> u64" where
  "Mul64 x y = (word_of_int (uint x * uint y div 2 ^ 64), x * y)"

section \<open>Field elements\<close>

text \<open>The limbs, least significant first. Elements are fully reduced after every operation.\<close>

datatype fe = FE (limb0: u64) (limb1: u64) (limb2: u64) (limb3: u64)

definition pl :: fe where
  "pl = FE 0xFFFFFFFEFFFFFC2F 0xFFFFFFFFFFFFFFFF 0xFFFFFFFFFFFFFFFF 0xFFFFFFFFFFFFFFFF"

definition feC :: u64 where
  "feC = 0x1000003D1"

text \<open>A carry chain over the four limbs, and a borrow chain.\<close>

definition add_limbs :: "fe \<Rightarrow> fe \<Rightarrow> fe \<times> u64" where
  "add_limbs a b =
     (let (r0, c) = Add64 (limb0 a) (limb0 b) 0;
          (r1, c) = Add64 (limb1 a) (limb1 b) c;
          (r2, c) = Add64 (limb2 a) (limb2 b) c;
          (r3, c) = Add64 (limb3 a) (limb3 b) c
      in (FE r0 r1 r2 r3, c))"

definition sub_limbs :: "fe \<Rightarrow> fe \<Rightarrow> fe \<times> u64" where
  "sub_limbs a b =
     (let (r0, c) = Sub64 (limb0 a) (limb0 b) 0;
          (r1, c) = Sub64 (limb1 a) (limb1 b) c;
          (r2, c) = Sub64 (limb2 a) (limb2 b) c;
          (r3, c) = Sub64 (limb3 a) (limb3 b) c
      in (FE r0 r1 r2 r3, c))"

text \<open>\<open>(x \& mask) | (y \&^ mask)\<close> limb by limb.\<close>

definition mask_limbs :: "u64 \<Rightarrow> fe \<Rightarrow> fe \<Rightarrow> fe" where
  "mask_limbs msk x y =
     FE ((limb0 x AND msk) OR (limb0 y AND NOT msk)) ((limb1 x AND msk) OR (limb1 y AND NOT msk))
        ((limb2 x AND msk) OR (limb2 y AND NOT msk)) ((limb3 x AND msk) OR (limb3 y AND NOT msk))"

definition feCondSubP :: "fe \<Rightarrow> fe" where
  "feCondSubP a = (let (r, b) = sub_limbs a pl; msk = b - 1 in mask_limbs msk r a)"

definition feAdd :: "fe \<Rightarrow> fe \<Rightarrow> fe" where
  "feAdd a b =
     (let (r, c) = add_limbs a b;
          (r, c) = add_limbs r (FE (c * feC) 0 0 0);
          (r, c) = add_limbs r (FE (c * feC) 0 0 0)
      in feCondSubP r)"

definition feSub :: "fe \<Rightarrow> fe \<Rightarrow> fe" where
  "feSub a b =
     (let (r, br) = sub_limbs a b;
          msk = 0 - br;
          (r, c) = add_limbs r (FE (limb0 pl AND msk) (limb1 pl AND msk) (limb2 pl AND msk) (limb3 pl AND msk))
      in r)"

text \<open>One step of the loop of \<open>mul256by64\<close>.\<close>

definition mul_step :: "u64 \<Rightarrow> u64 \<Rightarrow> u64 \<Rightarrow> u64 \<times> u64" where
  "mul_step a b carry =
     (let (hi, lo) = Mul64 a b; (s, c) = Add64 lo carry 0 in (s, hi + c))"

definition mul256by64 :: "fe \<Rightarrow> u64 \<Rightarrow> fe \<times> u64" where
  "mul256by64 a b =
     (let (m0, carry) = mul_step (limb0 a) b 0;
          (m1, carry) = mul_step (limb1 a) b carry;
          (m2, carry) = mul_step (limb2 a) b carry;
          (m3, carry) = mul_step (limb3 a) b carry
      in (FE m0 m1 m2 m3, carry))"

text \<open>
  The inner step of the schoolbook loop: \<open>t[i+j]\<close>, the product and the carry give the new
  \<open>t[i+j]\<close> and carry. A row is the inner loop over \<open>j\<close>; its last carry is added to
  \<open>t[i+4]\<close>, which is zero until then.
\<close>

definition mac_step :: "u64 \<Rightarrow> u64 \<Rightarrow> u64 \<Rightarrow> u64 \<Rightarrow> u64 \<times> u64" where
  "mac_step a b t carry =
     (let (hi, lo) = Mul64 a b; (s, c1) = Add64 t lo 0; (s, c2) = Add64 s carry 0
      in (s, hi + c1 + c2))"

definition mul_row :: "u64 \<Rightarrow> fe \<Rightarrow> fe \<Rightarrow> fe \<times> u64" where
  "mul_row a b t =
     (let (s0, carry) = mac_step a (limb0 b) (limb0 t) 0;
          (s1, carry) = mac_step a (limb1 b) (limb1 t) carry;
          (s2, carry) = mac_step a (limb2 b) (limb2 t) carry;
          (s3, carry) = mac_step a (limb3 b) (limb3 t) carry
      in (FE s0 s1 s2 s3, carry))"

text \<open>
  The eight limbs of the product: row \<open>i\<close> works on \<open>t[i..i+3]\<close>, and its lowest limb is final.
\<close>

definition mul_wide :: "fe \<Rightarrow> fe \<Rightarrow> fe \<times> fe" where
  "mul_wide a b =
     (let (t, c) = mul_row (limb0 a) b (FE 0 0 0 0); t0 = limb0 t; t4 = 0 + c;
          (t, c) = mul_row (limb1 a) b (FE (limb1 t) (limb2 t) (limb3 t) t4); t1 = limb0 t; t5 = 0 + c;
          (t, c) = mul_row (limb2 a) b (FE (limb1 t) (limb2 t) (limb3 t) t5); t2 = limb0 t; t6 = 0 + c;
          (t, c) = mul_row (limb3 a) b (FE (limb1 t) (limb2 t) (limb3 t) t6); t3 = limb0 t; t7 = 0 + c
      in (FE t0 t1 t2 t3, FE (limb1 t) (limb2 t) (limb3 t) t7))"

definition feMul :: "fe \<Rightarrow> fe \<Rightarrow> fe" where
  "feMul a b =
     (let (lo, hi) = mul_wide a b;
          (m, m4) = mul256by64 hi feC;
          (r, c) = add_limbs lo m;
          r4 = m4 + c;
          (h4, l4) = Mul64 r4 feC;
          (r, c) = add_limbs r (FE l4 h4 0 0);
          (r, c) = add_limbs r (FE (c * feC) 0 0 0)
      in feCondSubP r)"

definition feSqr :: "fe \<Rightarrow> fe" where
  "feSqr a = feMul a a"

text \<open>The bits of four words, most significant first, as the two nested loops visit them.\<close>

definition word_bits :: "u64 \<Rightarrow> bool list" where
  "word_bits w = map (\<lambda>i. drop_bit i w AND 1 = 1) (rev [0..<64])"

definition limb_bits :: "fe \<Rightarrow> bool list" where
  "limb_bits e = word_bits (limb3 e) @ word_bits (limb2 e) @ word_bits (limb1 e) @ word_bits (limb0 e)"

definition exp_p_minus_2 :: fe where
  "exp_p_minus_2 = FE 0xFFFFFFFEFFFFFC2D 0xFFFFFFFFFFFFFFFF 0xFFFFFFFFFFFFFFFF 0xFFFFFFFFFFFFFFFF"

definition inv_step :: "fe \<Rightarrow> bool \<Rightarrow> fe \<Rightarrow> fe" where
  "inv_step a b res = (let res = feSqr res in if b then feMul res a else res)"

definition feInv :: "fe \<Rightarrow> fe" where
  "feInv a = fold (inv_step a) (limb_bits exp_p_minus_2) (FE 1 0 0 0)"

definition feIsZero :: "fe \<Rightarrow> bool" where
  "feIsZero a \<longleftrightarrow> limb0 a OR limb1 a OR limb2 a OR limb3 a = 0"

definition feCSelect :: "u64 \<Rightarrow> fe \<Rightarrow> fe \<Rightarrow> fe" where
  "feCSelect sel a b = (let msk = 0 - sel in mask_limbs msk a b)"

section \<open>Projective points\<close>

record jac =
  JX :: fe
  JY :: fe
  JZ :: fe

definition feB3 :: fe where
  "feB3 = FE 21 0 0 0"

definition completeAdd :: "jac \<Rightarrow> jac \<Rightarrow> jac" where
  "completeAdd p q =
     (let X1 = JX p; Y1 = JY p; Z1 = JZ p; X2 = JX q; Y2 = JY q; Z2 = JZ q;
          t0 = feMul X1 X2;
          t1 = feMul Y1 Y2;
          t2 = feMul Z1 Z2;
          t3 = feAdd X1 Y1;
          t4 = feAdd X2 Y2;
          t3 = feMul t3 t4;
          t4 = feAdd t0 t1;
          t3 = feSub t3 t4;
          t4 = feAdd Y1 Z1;
          X3 = feAdd Y2 Z2;
          t4 = feMul t4 X3;
          X3 = feAdd t1 t2;
          t4 = feSub t4 X3;
          X3 = feAdd X1 Z1;
          Y3 = feAdd X2 Z2;
          X3 = feMul X3 Y3;
          Y3 = feAdd t0 t2;
          Y3 = feSub X3 Y3;
          X3 = feAdd t0 t0;
          t0 = feAdd X3 t0;
          t2 = feMul feB3 t2;
          Z3 = feAdd t1 t2;
          t1 = feSub t1 t2;
          Y3 = feMul feB3 Y3;
          X3 = feMul t4 Y3;
          t2 = feMul t3 t1;
          X3 = feSub t2 X3;
          Y3 = feMul Y3 t0;
          t1 = feMul t1 Z3;
          Y3 = feAdd t1 Y3;
          t0 = feMul t0 t3;
          Z3 = feMul Z3 t4;
          Z3 = feAdd Z3 t0
      in \<lparr>JX = X3, JY = Y3, JZ = Z3\<rparr>)"

definition jacCSelect :: "u64 \<Rightarrow> jac \<Rightarrow> jac \<Rightarrow> jac" where
  "jacCSelect sel a b =
     \<lparr>JX = feCSelect sel (JX a) (JX b), JY = feCSelect sel (JY a) (JY b),
      JZ = feCSelect sel (JZ a) (JZ b)\<rparr>"

definition identity :: jac where
  "identity = \<lparr>JX = FE 0 0 0 0, JY = FE 1 0 0 0, JZ = FE 0 0 0 0\<rparr>"

text \<open>One round of the ladder: double, add, and keep the sum when the bit is set.\<close>

definition ladder_step :: "jac \<Rightarrow> bool \<Rightarrow> jac \<Rightarrow> jac" where
  "ladder_step P b R =
     (let R = completeAdd R R; T = completeAdd R P in jacCSelect (if b then 1 else 0) T R)"

definition scalarMultCT :: "fe \<Rightarrow> jac \<Rightarrow> jac" where
  "scalarMultCT kBits P = fold (ladder_step P) (limb_bits kBits) identity"

definition affineX :: "jac \<Rightarrow> fe" where
  "affineX P = (let zi = feInv (JZ P) in feMul (JX P) zi)"

definition affineXY :: "jac \<Rightarrow> fe \<times> fe" where
  "affineXY P = (let zi = feInv (JZ P) in (feMul (JX P) zi, feMul (JY P) zi))"

section \<open>Values\<close>

definition B64 :: int where "B64 = 2 ^ 64"

lemma B64_pos [simp]: "0 < B64"
  by (simp add: B64_def)

definition fe_val :: "fe \<Rightarrow> int" where
  "fe_val e = uint (limb0 e) + B64 * uint (limb1 e) + B64 ^ 2 * uint (limb2 e) + B64 ^ 3 * uint (limb3 e)"

definition p_field :: int where
  "p_field = 2 ^ 256 - 2 ^ 32 - 977"

definition fe_ok :: "fe \<Rightarrow> bool" where
  "fe_ok e \<longleftrightarrow> fe_val e < p_field"

lemma uint_range: "0 \<le> uint (w :: u64) \<and> uint w < B64"
  using uint_lt2p [of w] by (simp add: B64_def)

lemma fe_val_range: "0 \<le> fe_val e \<and> fe_val e < 2 ^ 256"
  using uint_range [of "limb0 e"] uint_range [of "limb1 e"] uint_range [of "limb2 e"] uint_range [of "limb3 e"]
  by (simp add: fe_val_def B64_def)

lemma mod_carry:
  fixes v m :: int
  assumes "0 \<le> v" and "v < 2 * m"
  shows "v mod m + m * (if v < m then 0 else 1) = v"
proof (cases "v < m")
  case False
  have "v mod m = (v - m) mod m" by simp
  also have "\<dots> = v - m" using False assms by (intro mod_pos_pos_trivial) auto
  finally show ?thesis using False by simp
qed (use assms in simp)

lemma mod_borrow:
  fixes v m :: int
  assumes "- m \<le> v" and "v < m"
  shows "v mod m - m * (if v < 0 then 1 else 0) = v"
proof (cases "v < 0")
  case True
  have "v mod m = (v + m) mod m" by simp
  also have "\<dots> = v + m" using True assms by (intro mod_pos_pos_trivial) auto
  finally show ?thesis using True by simp
qed (use assms in simp)

lemma Add64_value:
  assumes "Add64 x y c = (s, d)" and "uint c \<le> 1"
  shows "uint s + B64 * uint d = uint x + uint y + uint c" and "uint d \<le> 1"
proof -
  let ?v = "uint x + uint y + uint c"
  have "s = x + y + c" and d: "uint d = (if ?v < B64 then 0 else 1)"
    using assms(1) by (auto simp: Add64_def B64_def)
  then have s: "uint s = ?v mod B64" by (simp add: uint_word_ariths mod_simps B64_def)
  show "uint d \<le> 1" by (simp add: d)
  have "0 \<le> ?v" "?v < 2 * B64"
    using uint_range [of x] uint_range [of y] uint_range [of c] assms(2) by linarith+
  from mod_carry [OF this] show "uint s + B64 * uint d = ?v" by (simp only: s d)
qed

lemma Sub64_value:
  assumes "Sub64 x y c = (s, d)" and "uint c \<le> 1"
  shows "uint s - B64 * uint d = uint x - uint y - uint c" and "uint d \<le> 1"
proof -
  let ?v = "uint x - uint y - uint c"
  have "s = x - y - c" and d: "uint d = (if ?v < 0 then 1 else 0)"
    using assms(1) by (auto simp: Sub64_def)
  then have s: "uint s = ?v mod B64" by (simp add: uint_word_ariths mod_simps B64_def)
  show "uint d \<le> 1" by (simp add: d)
  have "- B64 \<le> ?v" "?v < B64"
    using uint_range [of x] uint_range [of y] uint_range [of c] assms(2) by linarith+
  from mod_borrow [OF this] show "uint s - B64 * uint d = ?v" by (simp only: s d)
qed

lemma Mul64_value:
  assumes "Mul64 x y = (hi, lo)"
  shows "B64 * uint hi + uint lo = uint x * uint y" and "uint hi \<le> B64 - 2"
proof -
  let ?v = "uint x * uint y"
  have lo: "uint lo = ?v mod B64" using assms by (auto simp: Mul64_def uint_word_ariths B64_def)
  have r: "0 \<le> uint x" "uint x \<le> B64 - 1" "0 \<le> uint y" "uint y \<le> B64 - 1"
    using uint_range [of x] uint_range [of y] by auto
  then have "?v \<le> (B64 - 1) * (B64 - 1)" by (intro mult_mono) auto
  also have "\<dots> < B64 * (B64 - 1)" by (simp add: B64_def)
  finally have top: "?v div B64 < B64 - 1"
    by (simp add: B64_def div_less_iff_less_mult mult.commute)
  moreover have "0 \<le> ?v" using r by simp
  then have "0 \<le> ?v div B64" by (simp only: pos_imp_zdiv_nonneg_iff [OF B64_pos])
  ultimately have hi: "uint hi = ?v div B64"
    using assms by (auto simp: Mul64_def uint_word_of_int B64_def)
  show "B64 * uint hi + uint lo = ?v" by (simp add: lo hi)
  show "uint hi \<le> B64 - 2" using top hi by linarith
qed

lemma add_limbs_value:
  assumes "add_limbs a b = (r, c)"
  shows "fe_val r + 2 ^ 256 * uint c = fe_val a + fe_val b" and "uint c \<le> 1"
proof -
  obtain r0 c0 r1 c1 r2 c2 r3 where
    s: "Add64 (limb0 a) (limb0 b) 0 = (r0, c0)" "Add64 (limb1 a) (limb1 b) c0 = (r1, c1)"
      "Add64 (limb2 a) (limb2 b) c1 = (r2, c2)" "Add64 (limb3 a) (limb3 b) c2 = (r3, c)" "r = FE r0 r1 r2 r3"
    using assms by (auto simp: add_limbs_def Let_def split: prod.splits)
  have "uint (0 :: u64) \<le> 1" by simp
  note e0 = Add64_value [OF s(1) this]
  note e1 = Add64_value [OF s(2) e0(2)]
  note e2 = Add64_value [OF s(3) e1(2)]
  note e3 = Add64_value [OF s(4) e2(2)]
  show "uint c \<le> 1" by (rule e3(2))
  show "fe_val r + 2 ^ 256 * uint c = fe_val a + fe_val b"
    using e0(1) e1(1) e2(1) e3(1) by (simp add: fe_val_def s(5) B64_def)
qed

lemma sub_limbs_value:
  assumes "sub_limbs a b = (r, c)"
  shows "fe_val r - 2 ^ 256 * uint c = fe_val a - fe_val b" and "uint c \<le> 1"
proof -
  obtain r0 c0 r1 c1 r2 c2 r3 where
    s: "Sub64 (limb0 a) (limb0 b) 0 = (r0, c0)" "Sub64 (limb1 a) (limb1 b) c0 = (r1, c1)"
      "Sub64 (limb2 a) (limb2 b) c1 = (r2, c2)" "Sub64 (limb3 a) (limb3 b) c2 = (r3, c)" "r = FE r0 r1 r2 r3"
    using assms by (auto simp: sub_limbs_def Let_def split: prod.splits)
  have "uint (0 :: u64) \<le> 1" by simp
  note e0 = Sub64_value [OF s(1) this]
  note e1 = Sub64_value [OF s(2) e0(2)]
  note e2 = Sub64_value [OF s(3) e1(2)]
  note e3 = Sub64_value [OF s(4) e2(2)]
  show "uint c \<le> 1" by (rule e3(2))
  show "fe_val r - 2 ^ 256 * uint c = fe_val a - fe_val b"
    using e0(1) e1(1) e2(1) e3(1) by (simp add: fe_val_def s(5) B64_def)
qed

lemma flag_cases: "uint (c :: u64) \<le> 1 \<Longrightarrow> c = 0 \<or> c = 1"
proof -
  assume "uint c \<le> 1"
  then have "uint c = 0 \<or> uint c = 1" using uint_range [of c] by linarith
  then show ?thesis by (auto simp: word_uint_eq_iff)
qed

lemma mask_all: "mask_limbs (- 1) x y = x"
  by (cases x) (simp add: mask_limbs_def)

lemma mask_none: "mask_limbs 0 x y = y"
  by (cases y) (simp add: mask_limbs_def)

lemma pl_val: "fe_val pl = p_field"
  by (simp add: fe_val_def pl_def p_field_def B64_def)

lemma feCondSubP_value: "fe_val (feCondSubP a) = fe_val a mod p_field" 
proof -
  obtain r b where rb: "sub_limbs a pl = (r, b)" by fastforce
  note v = sub_limbs_value [OF rb]
  from flag_cases [OF v(2)] consider "b = 0" | "b = 1" by blast
  then show ?thesis
  proof cases
    case 1
    then have "feCondSubP a = r" by (simp add: feCondSubP_def rb mask_all Let_def)
    moreover have "fe_val r = fe_val a - p_field" using v(1) 1 by (simp add: pl_val)
    moreover have "0 \<le> fe_val r" "fe_val r < p_field"
      using fe_val_range [of r] fe_val_range [of a] calculation(2) by (simp_all add: p_field_def)
    ultimately show ?thesis by (metis diff_add_cancel mod_add_self2 mod_pos_pos_trivial)
  next
    case 2
    then have "feCondSubP a = a" by (simp add: feCondSubP_def rb mask_none Let_def)
    moreover have "fe_val a < p_field" using v(1) 2 fe_val_range [of r] by (simp add: pl_val)
    ultimately show ?thesis using fe_val_range [of a] by simp
  qed
qed

lemma p_field_pos: "0 < p_field"
  by (simp add: p_field_def)

text \<open>Folding a carry of weight \<open>2 ^ 256\<close> back as a multiple of \<open>feC\<close>.\<close>

lemma uint_feC: "uint feC = 4294968273"
  by (simp add: feC_def)

lemma fold_256: "(2 ^ 256 * k) mod p_field = (uint feC * k) mod p_field"
proof -
  have "2 ^ 256 * k = uint feC * k + p_field * k" by (simp add: uint_feC p_field_def algebra_simps)
  then show ?thesis by (metis mod_mult_self2)
qed

lemma fold_carry:
  assumes "add_limbs a (FE (c * feC) 0 0 0) = (r, d)" and "uint c \<le> 1"
  shows "fe_val r + 2 ^ 256 * uint d = fe_val a + uint feC * uint c" and "uint d \<le> 1"
proof -
  have "uint (c * feC) = uint feC * uint c" using flag_cases [OF assms(2)] by auto
  then show "fe_val r + 2 ^ 256 * uint d = fe_val a + uint feC * uint c" "uint d \<le> 1"
    using add_limbs_value [OF assms(1)] by (simp_all add: fe_val_def)
qed

lemma fold_mod: "x + 2 ^ 256 * c = y \<Longrightarrow> (x + uint feC * c) mod p_field = y mod p_field"
  using fold_256 [of c] by (metis mod_add_right_eq)

lemma feAdd_value: "fe_val (feAdd a b) = (fe_val a + fe_val b) mod p_field"
proof -
  obtain r c where s1: "add_limbs a b = (r, c)" by fastforce
  obtain r' c' where s2: "add_limbs r (FE (c * feC) 0 0 0) = (r', c')" by fastforce
  obtain r'' c'' where s3: "add_limbs r' (FE (c' * feC) 0 0 0) = (r'', c'')" by fastforce
  note v1 = add_limbs_value [OF s1]
  note v2 = fold_carry [OF s2 v1(2)]
  note v3 = fold_carry [OF s3 v2(2)]
  have "c'' = 0"
  proof (rule ccontr)
    assume "c'' \<noteq> 0"
    then have c'': "uint c'' = 1" using flag_cases [OF v3(2)] by auto
    then have "c' = 1"
      using v3(1) flag_cases [OF v2(2)] fe_val_range [of r'] fe_val_range [of r''] by (auto simp: uint_feC)
    moreover have "c = 1"
      using v2(1) calculation flag_cases [OF v1(2)] fe_val_range [of r] fe_val_range [of r'] by (auto simp: uint_feC)
    ultimately show False
      using v1(1) v2(1) v3(1) c'' fe_val_range [of a] fe_val_range [of b] fe_val_range [of r''] fe_val_range [of r]
      by (simp add: uint_feC)
  qed
  then have "fe_val r'' = fe_val r' + uint feC * uint c'" using v3(1) by simp
  then have "fe_val r'' mod p_field = (fe_val r + uint feC * uint c) mod p_field" using fold_mod [OF v2(1)] by simp
  also have "\<dots> = (fe_val a + fe_val b) mod p_field" by (rule fold_mod [OF v1(1)])
  finally show ?thesis by (simp add: feAdd_def s1 s2 s3 Let_def feCondSubP_value)
qed

lemma feSub_value:
  assumes "fe_ok a" and "fe_ok b"
  shows "fe_val (feSub a b) = (fe_val a - fe_val b) mod p_field"
proof -
  obtain r br where s1: "sub_limbs a b = (r, br)" by fastforce
  note v1 = sub_limbs_value [OF s1]
  define m where "m = FE (limb0 pl AND - br) (limb1 pl AND - br) (limb2 pl AND - br) (limb3 pl AND - br)"
  obtain r' c where s2: "add_limbs r m = (r', c)" by fastforce
  note v2 = add_limbs_value [OF s2]
  have out: "feSub a b = r'" by (simp add: feSub_def s1 m_def [symmetric] s2 Let_def)
  have rng: "0 \<le> fe_val a" "fe_val a < p_field" "0 \<le> fe_val b" "fe_val b < p_field"
    using assms fe_val_range by (simp_all add: fe_ok_def)
  from flag_cases [OF v1(2)] consider "br = 0" | "br = 1" by blast
  then show ?thesis
  proof cases
    case 1
    then have "fe_val m = 0" by (simp add: m_def fe_val_def)
    then have "fe_val r' + 2 ^ 256 * uint c = fe_val a - fe_val b" using v1(1) v2(1) 1 by simp
    moreover have "c = 0"
      using calculation flag_cases [OF v2(2)] fe_val_range [of r'] rng by (auto simp: p_field_def)
    ultimately have "fe_val r' = fe_val a - fe_val b" by simp
    then show ?thesis using out rng fe_val_range [of r'] by simp
  next
    case 2
    then have "m = pl" by (simp add: m_def pl_def)
    then have "fe_val r' + 2 ^ 256 * uint c = fe_val a - fe_val b + 2 ^ 256 + p_field"
      using v1(1) v2(1) 2 pl_val by simp
    moreover have "fe_val a - fe_val b < 0" using v1(1) 2 fe_val_range [of r] by simp
    moreover have "c = 1"
      using calculation(1) flag_cases [OF v2(2)] fe_val_range [of r'] rng by (auto simp: p_field_def)
    ultimately have "fe_val r' = fe_val a - fe_val b + p_field" "0 \<le> fe_val r'" "fe_val r' < p_field"
      using fe_val_range [of r'] by simp_all
    then show ?thesis using out by (metis mod_add_self2 mod_pos_pos_trivial)
  qed
qed

lemma fe_ok_mod: "fe_val r = x mod p_field \<Longrightarrow> fe_ok r"
  by (simp add: fe_ok_def p_field_pos)

lemma uint_add_no_wrap: "uint a + uint b < B64 \<Longrightarrow> uint (a + b :: u64) = uint a + uint b"
  using uint_range [of a] uint_range [of b] by (simp add: uint_word_ariths B64_def)

lemma mul_step_value:
  assumes "mul_step a b carry = (s, carry')"
  shows "uint s + B64 * uint carry' = uint a * uint b + uint carry"
proof -
  obtain hi lo c where p: "Mul64 a b = (hi, lo)" "Add64 lo carry 0 = (s, c)" "carry' = hi + c"
    using assms by (auto simp: mul_step_def Let_def split: prod.splits)
  note m = Mul64_value [OF p(1)]
  have "uint (0 :: u64) \<le> 1" by simp
  note e = Add64_value [OF p(2) this]
  have "uint carry' = uint hi + uint c" unfolding p(3) using m(2) e(2) by (intro uint_add_no_wrap) simp
  then show ?thesis using m(1) e(1) by (simp add: algebra_simps)
qed

lemma mul256by64_value:
  assumes "mul256by64 a b = (m, c)"
  shows "fe_val m + 2 ^ 256 * uint c = fe_val a * uint b"
proof -
  obtain m0 c0 m1 c1 m2 c2 m3 where
    s: "mul_step (limb0 a) b 0 = (m0, c0)" "mul_step (limb1 a) b c0 = (m1, c1)"
      "mul_step (limb2 a) b c1 = (m2, c2)" "mul_step (limb3 a) b c2 = (m3, c)" "m = FE m0 m1 m2 m3"
    using assms by (auto simp: mul256by64_def Let_def split: prod.splits)
  note e = mul_step_value [OF s(1)] mul_step_value [OF s(2)] mul_step_value [OF s(3)] mul_step_value [OF s(4)]
  show ?thesis using e by (simp add: fe_val_def s(5) B64_def algebra_simps)
qed

lemma mac_step_value:
  assumes "mac_step a b t carry = (s, carry')"
  shows "uint s + B64 * uint carry' = uint t + uint a * uint b + uint carry"
proof -
  obtain hi lo s1 c1 c2 where p: "Mul64 a b = (hi, lo)" "Add64 t lo 0 = (s1, c1)" "Add64 s1 carry 0 = (s, c2)"
    "carry' = hi + c1 + c2"
    using assms by (auto simp: mac_step_def Let_def split: prod.splits)
  note m = Mul64_value [OF p(1)]
  have z: "uint (0 :: u64) \<le> 1" by simp
  note e1 = Add64_value [OF p(2) z] and e2 = Add64_value [OF p(3) z]
  let ?h = "uint hi + uint c1 + uint c2"
  have total: "uint s + B64 * ?h = uint t + uint a * uint b + uint carry"
    using m(1) e1(1) e2(1) by (simp add: algebra_simps)
  have "uint a * uint b \<le> (B64 - 1) * (B64 - 1)"
    using uint_range [of a] uint_range [of b] by (intro mult_mono) auto
  then have "uint t + uint a * uint b + uint carry \<le> (B64 - 1) + (B64 - 1) * (B64 - 1) + (B64 - 1)"
    using uint_range [of t] uint_range [of carry] by (intro add_mono) auto
  also have "\<dots> < B64 * B64" by (simp add: B64_def)
  finally have "B64 * ?h < B64 * B64" using total uint_range [of s] by linarith
  then have h: "?h < B64" by simp
  then have "uint (hi + c1) = uint hi + uint c1" using uint_range [of c2] by (intro uint_add_no_wrap) linarith
  then have "uint carry' = ?h" unfolding p(4) using h by (subst uint_add_no_wrap) auto
  then show ?thesis using total by simp
qed

lemma mul_row_value:
  assumes "mul_row a b t = (t', c)"
  shows "fe_val t' + 2 ^ 256 * uint c = fe_val t + uint a * fe_val b"
proof -
  obtain s0 c0 s1 c1 s2 c2 s3 where
    s: "mac_step a (limb0 b) (limb0 t) 0 = (s0, c0)" "mac_step a (limb1 b) (limb1 t) c0 = (s1, c1)"
      "mac_step a (limb2 b) (limb2 t) c1 = (s2, c2)" "mac_step a (limb3 b) (limb3 t) c2 = (s3, c)" "t' = FE s0 s1 s2 s3"
    using assms by (auto simp: mul_row_def Let_def split: prod.splits)
  note e = mac_step_value [OF s(1)] mac_step_value [OF s(2)] mac_step_value [OF s(3)] mac_step_value [OF s(4)]
  show ?thesis using e by (simp add: fe_val_def s(5) B64_def algebra_simps)
qed

lemma mul_wide_value:
  assumes "mul_wide a b = (lo, hi)"
  shows "fe_val lo + 2 ^ 256 * fe_val hi = fe_val a * fe_val b"
proof -
  obtain t0 c0 t1 c1 t2 c2 t3 c3 where
    s: "mul_row (limb0 a) b (FE 0 0 0 0) = (t0, c0)"
      "mul_row (limb1 a) b (FE (limb1 t0) (limb2 t0) (limb3 t0) c0) = (t1, c1)"
      "mul_row (limb2 a) b (FE (limb1 t1) (limb2 t1) (limb3 t1) c1) = (t2, c2)"
      "mul_row (limb3 a) b (FE (limb1 t2) (limb2 t2) (limb3 t2) c2) = (t3, c3)"
    and out: "lo = FE (limb0 t0) (limb0 t1) (limb0 t2) (limb0 t3)" "hi = FE (limb1 t3) (limb2 t3) (limb3 t3) c3"
    using assms by (auto simp: mul_wide_def Let_def split: prod.splits)
  note e = mul_row_value [OF s(1)] mul_row_value [OF s(2)] mul_row_value [OF s(3)] mul_row_value [OF s(4)]
  have "fe_val a * fe_val b = uint (limb0 a) * fe_val b + B64 * (uint (limb1 a) * fe_val b)
      + B64 ^ 2 * (uint (limb2 a) * fe_val b) + B64 ^ 3 * (uint (limb3 a) * fe_val b)"
    by (simp add: fe_val_def [of a] algebra_simps)
  then show ?thesis
    using e by (simp add: fe_val_def [of t0] fe_val_def [of t1] fe_val_def [of t2] fe_val_def [of t3]
        fe_val_def [of "FE _ _ _ _"] out B64_def)
qed

lemma feMul_value: "fe_val (feMul a b) = (fe_val a * fe_val b) mod p_field"
proof -
  obtain lo hi where w: "mul_wide a b = (lo, hi)" by fastforce
  obtain m m4 where s1: "mul256by64 hi feC = (m, m4)" by fastforce
  obtain r c where s2: "add_limbs lo m = (r, c)" by fastforce
  obtain h4 l4 where s3: "Mul64 (m4 + c) feC = (h4, l4)" by fastforce
  obtain r' c' where s4: "add_limbs r (FE l4 h4 0 0) = (r', c')" by fastforce
  obtain r'' c'' where s5: "add_limbs r' (FE (c' * feC) 0 0 0) = (r'', c'')" by fastforce
  note vw = mul_wide_value [OF w] and v1 = mul256by64_value [OF s1] and v2 = add_limbs_value [OF s2]
    and v3 = Mul64_value(1) [OF s3] and v4 = add_limbs_value [OF s4]
  note v5 = fold_carry [OF s5 v4(2)]
  let ?C = "4294968273 :: int"
  have "fe_val hi * ?C < 2 ^ 256 * ?C" using fe_val_range [of hi] by simp
  then have m4: "uint m4 < ?C" using v1 fe_val_range [of m] by (simp add: uint_feC)
  then have r4: "uint (m4 + c) = uint m4 + uint c" using v2(2) by (intro uint_add_no_wrap) (simp add: B64_def)
  have tail: "fe_val (FE l4 h4 0 0) = (uint m4 + uint c) * ?C"
    using v3 r4 by (simp add: fe_val_def uint_feC)
  have "(uint m4 + uint c) * ?C \<le> ?C * ?C" using m4 v2(2) by (intro mult_right_mono) auto
  moreover have "c'' = 0" if "c' = 0" using v5(1) that flag_cases [OF v5(2)] fe_val_range [of r''] fe_val_range [of r'] by auto
  ultimately have "c'' = 0"
    using v4 v5 tail flag_cases [OF v4(2)] flag_cases [OF v5(2)] fe_val_range [of r] fe_val_range [of r'']
    by (auto simp: uint_feC)
  then have v5': "fe_val r'' = fe_val r' + uint feC * uint c'" using v5(1) by simp
  have "fe_val r'' mod p_field = (fe_val r + (uint m4 + uint c) * ?C) mod p_field"
    using fold_mod [OF v4(1)] by (simp add: v5' tail)
  also have "\<dots> = ((fe_val r + uint feC * uint c) + uint feC * uint m4) mod p_field"
    by (simp add: uint_feC algebra_simps)
  also have "\<dots> = ((fe_val lo + fe_val m) + uint feC * uint m4) mod p_field"
    using fold_mod [OF v2(1)] by (metis mod_add_left_eq)
  also have "\<dots> = (fe_val lo + (fe_val m + uint feC * uint m4)) mod p_field"
    by (simp add: algebra_simps)
  also have "\<dots> = (fe_val lo + fe_val hi * uint feC) mod p_field"
    using fold_mod [OF v1] by (metis mod_add_right_eq)
  also have "\<dots> = (fe_val a * fe_val b) mod p_field"
    using fold_mod [OF vw] by (simp add: mult.commute)
  finally show ?thesis
    by (simp add: feMul_def w s1 s2 s3 s4 s5 Let_def feCondSubP_value)
qed

section \<open>Selects, exponents and ladders\<close>

lemma feCSelect_if: "feCSelect (if c then 1 else 0) x y = (if c then x else y)"
  by (simp add: feCSelect_def mask_all mask_none)

lemma jacCSelect_if: "jacCSelect (if c then 1 else 0) x y = (if c then x else y)"
  by (cases x; cases y) (simp add: jacCSelect_def feCSelect_if)

text \<open>The number whose bits a list has, most significant first.\<close>

definition bits_val :: "bool list \<Rightarrow> nat" where
  "bits_val bs = foldl (\<lambda>n b. 2 * n + of_bool b) 0 bs"

lemma bits_val_snoc [simp]: "bits_val (bs @ [b]) = 2 * bits_val bs + of_bool b"
  by (simp add: bits_val_def)

lemma bits_val_Nil [simp]: "bits_val [] = 0"
  by (simp add: bits_val_def)

lemma bits_val_append: "bits_val (xs @ ys) = bits_val xs * 2 ^ length ys + bits_val ys"
proof (induction ys rule: rev_induct)
  case (snoc y ys)
  then show ?case by (simp add: algebra_simps flip: append_assoc)
qed simp

lemma bits_val_rev: "bits_val (rev bs) = horner_sum of_bool 2 bs"
  by (induction bs) (simp_all add: algebra_simps)

lemma word_bits_val: "bits_val (word_bits w) = unat w"
proof -
  have "word_bits w = rev (map (bit w) [0..<64])"
    by (simp add: word_bits_def rev_map bit_iff_odd_drop_bit and_one_eq odd_iff_mod_2_eq_one)
  then have "bits_val (word_bits w) = horner_sum of_bool 2 (map (bit w) [0..<64])"
    by (simp only: bits_val_rev)
  also have "\<dots> = horner_sum of_bool 2 (map (bit (unat w)) [0..<64])"
    by (intro arg_cong [of _ _ "horner_sum of_bool 2"] map_cong) (simp_all add: bit_simps)
  also have "\<dots> = take_bit 64 (unat w)" by (rule horner_sum_bit_eq_take_bit)
  also have "unat w < 2 ^ LENGTH(64)" by (rule unsigned_less)
  then have "take_bit 64 (unat w) = unat w" by (simp add: take_bit_nat_eq_self)
  finally show ?thesis .
qed

lemma length_word_bits [simp]: "length (word_bits w) = 64"
  by (simp add: word_bits_def)

lemma limb_bits_val: "int (bits_val (limb_bits e)) = fe_val e"
  by (simp add: limb_bits_def bits_val_append word_bits_val fe_val_def B64_def algebra_simps)

lemma length_limb_bits [simp]: "length (limb_bits e) = 256"
  by (simp add: limb_bits_def)

lemma inv_fold:
  "fe_val (fold (inv_step a) bs (FE 1 0 0 0)) = fe_val a ^ bits_val bs mod p_field"
proof (induction bs rule: rev_induct)
  case Nil
  then show ?case by (simp add: fe_val_def p_field_def)
next
  case (snoc b bs)
  let ?r = "fold (inv_step a) bs (FE 1 0 0 0)"
  have "fe_val (feSqr ?r) = (fe_val a ^ bits_val bs * fe_val a ^ bits_val bs) mod p_field"
    by (simp add: feSqr_def feMul_value snoc.IH mod_simps)
  then show ?case
    by (simp add: inv_step_def [of a b ?r] Let_def feMul_value mod_simps power_add mult_2_right mult.commute)
qed

lemma feInv_value: "fe_val (feInv a) = fe_val a ^ nat (p_field - 2) mod p_field"
proof -
  have "fe_val exp_p_minus_2 = p_field - 2"
    by (simp add: fe_val_def exp_p_minus_2_def p_field_def B64_def)
  then have "bits_val (limb_bits exp_p_minus_2) = nat (p_field - 2)"
    using limb_bits_val [of exp_p_minus_2] by simp
  then show ?thesis by (simp add: feInv_def inv_fold)
qed

lemma fe_ok_ops [simp]:
  "fe_ok (feAdd a b)" "fe_ok (feMul a b)" "fe_ok (feSqr a)" "fe_ok (feInv a)"
  "fe_ok a \<Longrightarrow> fe_ok b \<Longrightarrow> fe_ok (feSub a b)"
  using fe_ok_mod [OF feAdd_value] fe_ok_mod [OF feMul_value] fe_ok_mod [OF feInv_value]
    fe_ok_mod [OF feSub_value] by (simp_all add: feSqr_def)

lemmas fe_values = feAdd_value feMul_value feSub_value

lemma mod_eq_same: "x = y \<Longrightarrow> x mod m = y mod (m :: int)"
  by simp

section \<open>The curve\<close>

text \<open>
  A projective point on the curve \<open>Y^2 Z = X^3 + 7 Z^3\<close>. The sum that the complete formulas give is on it
  when the two points are: its equation is a combination of theirs.
\<close>

definition jac_on_curve :: "jac \<Rightarrow> bool" where
  "jac_on_curve p \<longleftrightarrow>
     (fe_val (JY p) ^ 2 * fe_val (JZ p)) mod p_field = (fe_val (JX p) ^ 3 + 7 * fe_val (JZ p) ^ 3) mod p_field"

lemma complete_addition_identity:
  fixes X1 Y1 Z1 X2 Y2 Z2 :: int
  assumes "X3 = (X1 * Y2 + X2 * Y1) * (Y1 * Y2 - 21 * Z1 * Z2) - 21 * (Y1 * Z2 + Y2 * Z1) * (X1 * Z2 + X2 * Z1)"
    and "Y3 = (Y1 * Y2 + 21 * Z1 * Z2) * (Y1 * Y2 - 21 * Z1 * Z2) + 63 * X1 * X2 * (X1 * Z2 + X2 * Z1)"
    and "Z3 = (Y1 * Z2 + Y2 * Z1) * (Y1 * Y2 + 21 * Z1 * Z2) + 3 * X1 * X2 * (X1 * Y2 + X2 * Y1)"
  shows "Y3 ^ 2 * Z3 - (X3 ^ 3 + 7 * Z3 ^ 3) =
    (189 * X1^3 * X2^3 * Y2^3 - 11907 * X1^3 * X2^3 * Y2 * Z2^2 + 567 * X1^2 * Y1 * X2^4 * Y2^2 - 11907 * X1^2 * Y1
      * X2^4 * Z2^2 - 23814 * X1^2 * Z1 * X2^4 * Y2 * Z2 + 567 * X1 * Y1^2 * X2^5 * Y2 - 189 * X1 * Y1^2 * X2^2 *
      Y2^3 * Z2 - 3969 * X1 * Y1^2 * X2^2 * Y2 * Z2^3 - 23814 * X1 * Y1 * Z1 * X2^5 * Z2 + 189 * X1 * Y1 * Z1 * X2^2
      * Y2^4 - 83349 * X1 * Y1 * Z1 * X2^2 * Z2^4 - 11907 * X1 * Z1^2 * X2^5 * Y2 + 3969 * X1 * Z1^2 * X2^2 * Y2^3 *
      Z2 + 83349 * X1 * Z1^2 * X2^2 * Y2 * Z2^3 + 189 * Y1^3 * X2^6 + Y1^3 * Y2^6 - 63 * Y1^3 * Y2^4 * Z2^2 + 1323 *
      Y1^3 * Y2^2 * Z2^4 - 9261 * Y1^3 * Z2^6 + 189 * Y1^2 * Z1 * X2^3 * Y2^3 - 11907 * Y1^2 * Z1 * X2^3 * Y2 * Z2^2
      - 126 * Y1^2 * Z1 * Y2^5 * Z2 + 5292 * Y1^2 * Z1 * Y2^3 * Z2^3 - 55566 * Y1^2 * Z1 * Y2 * Z2^5 - 11907 * Y1 *
      Z1^2 * X2^6 + 5292 * Y1 * Z1^2 * Y2^4 * Z2^2 - 111132 * Y1 * Z1^2 * Y2^2 * Z2^4 - 1323 * Z1^3 * X2^3 * Y2^3 +
      83349 * Z1^3 * X2^3 * Y2 * Z2^2 - 74088 * Z1^3 * Y2^3 * Z2^3) * (Y1 ^ 2 * Z1 - (X1 ^ 3 + 7 * Z1 ^ 3)) +
    (189 * X1^2 * Y1^4 * X2 * Y2 * Z2 + 378 * X1^2 * Y1^3 * Z1 * X2 * Y2^2 - 7938 * X1^2 * Y1^3 * Z1 * X2 * Z2^2 -
      23814 * X1^2 * Y1^2 * Z1^2 * X2 * Y2 * Z2 - 7938 * X1^2 * Y1 * Z1^3 * X2 * Y2^2 + 166698 * X1^2 * Y1 * Z1^3 *
      X2 * Z2^2 + 83349 * X1^2 * Z1^4 * X2 * Y2 * Z2 + 567 * X1 * Y1^4 * Z1 * X2^2 * Y2 - 23814 * X1 * Y1^3 * Z1^2 *
      X2^2 * Z2 - 15876 * X1 * Y1^2 * Z1^3 * X2^2 * Y2 + 166698 * X1 * Y1 * Z1^4 * X2^2 * Z2 + 83349 * X1 * Z1^5 *
      X2^2 * Y2 + Y1^6 * Y2^3 + 189 * Y1^5 * Z1 * X2^3 + 63 * Y1^5 * Z1 * Y2^2 * Z2 - 1323 * Y1^5 * Z1 * Z2^3 + 126
      * Y1^4 * Z1^2 * Y2^3 - 6615 * Y1^4 * Z1^2 * Y2 * Z2^2 - 13230 * Y1^3 * Z1^3 * X2^3 - 7938 * Y1^3 * Z1^3 * Y2^2
      * Z2 + 18522 * Y1^3 * Z1^3 * Z2^3 - 1323 * Y1^2 * Z1^4 * Y2^3 + 55566 * Y1^2 * Z1^4 * Y2 * Z2^2 + 83349 * Y1 *
      Z1^5 * X2^3 + 27783 * Y1 * Z1^5 * Y2^2 * Z2 - 583443 * Y1 * Z1^5 * Z2^3 - 583443 * Z1^6 * Y2 * Z2^2) * (Y2 ^ 2 * Z2 - (X2 ^ 3 + 7 * Z2 ^ 3))"
  unfolding assms by algebra

lemma completeAdd_values:
  assumes "X1 = fe_val (JX p)" "Y1 = fe_val (JY p)" "Z1 = fe_val (JZ p)"
    and "X2 = fe_val (JX q)" "Y2 = fe_val (JY q)" "Z2 = fe_val (JZ q)"
  shows "fe_val (JX (completeAdd p q)) =
      ((X1 * Y2 + X2 * Y1) * (Y1 * Y2 - 21 * Z1 * Z2) - 21 * (Y1 * Z2 + Y2 * Z1) * (X1 * Z2 + X2 * Z1)) mod p_field \<and>
    fe_val (JY (completeAdd p q)) =
      ((Y1 * Y2 + 21 * Z1 * Z2) * (Y1 * Y2 - 21 * Z1 * Z2) + 63 * X1 * X2 * (X1 * Z2 + X2 * Z1)) mod p_field \<and>
    fe_val (JZ (completeAdd p q)) =
      ((Y1 * Z2 + Y2 * Z1) * (Y1 * Y2 + 21 * Z1 * Z2) + 3 * X1 * X2 * (X1 * Y2 + X2 * Y1)) mod p_field"
proof -
  note c = mod_eq_same [of _ _ p_field]
  have b3: "fe_val feB3 = 21" by (simp add: fe_val_def feB3_def)
  define xy where "xy = feSub (feMul (feAdd (JX p) (JY p)) (feAdd (JX q) (JY q))) (feAdd (feMul (JX p) (JX q)) (feMul (JY p) (JY q)))"
  define yz where "yz = feSub (feMul (feAdd (JY p) (JZ p)) (feAdd (JY q) (JZ q))) (feAdd (feMul (JY p) (JY q)) (feMul (JZ p) (JZ q)))"
  define xz where "xz = feSub (feMul (feAdd (JX p) (JZ p)) (feAdd (JX q) (JZ q))) (feAdd (feMul (JX p) (JX q)) (feMul (JZ p) (JZ q)))"
  define xx where "xx = feAdd (feAdd (feMul (JX p) (JX q)) (feMul (JX p) (JX q))) (feMul (JX p) (JX q))"
  define zz where "zz = feMul feB3 (feMul (JZ p) (JZ q))"
  define add where "add = feAdd (feMul (JY p) (JY q)) zz"
  define sub where "sub = feSub (feMul (JY p) (JY q)) zz"
  define bxz where "bxz = feMul feB3 xz"
  have out: "completeAdd p q = \<lparr>JX = feSub (feMul xy sub) (feMul yz bxz),
      JY = feAdd (feMul sub add) (feMul bxz xx), JZ = feAdd (feMul add yz) (feMul xx xy)\<rparr>"
    by (simp only: completeAdd_def Let_def xy_def yz_def xz_def xx_def zz_def add_def sub_def bxz_def)
  have xy: "fe_val xy = (X1 * Y2 + X2 * Y1) mod p_field"
    unfolding xy_def by (simp only: fe_values fe_ok_ops assms [symmetric] mod_simps, rule c, simp add: algebra_simps)
  have yz: "fe_val yz = (Y1 * Z2 + Y2 * Z1) mod p_field"
    unfolding yz_def by (simp only: fe_values fe_ok_ops assms [symmetric] mod_simps, rule c, simp add: algebra_simps)
  have xz: "fe_val xz = (X1 * Z2 + X2 * Z1) mod p_field"
    unfolding xz_def by (simp only: fe_values fe_ok_ops assms [symmetric] mod_simps, rule c, simp add: algebra_simps)
  have xx: "fe_val xx = (3 * X1 * X2) mod p_field"
    unfolding xx_def by (simp only: fe_values assms [symmetric] mod_simps, rule c, simp add: algebra_simps)
  have zz: "fe_val zz = (21 * Z1 * Z2) mod p_field"
    unfolding zz_def by (simp only: fe_values b3 assms [symmetric] mod_simps, rule c, simp add: algebra_simps)
  have add: "fe_val add = (Y1 * Y2 + 21 * Z1 * Z2) mod p_field"
    unfolding add_def by (simp only: fe_values zz assms [symmetric] mod_simps)
  have "fe_ok zz" by (simp add: zz_def)
  then have sub: "fe_val sub = (Y1 * Y2 - 21 * Z1 * Z2) mod p_field"
    unfolding sub_def by (simp only: fe_values fe_ok_ops zz assms [symmetric] mod_simps)
  have bxz: "fe_val bxz = (21 * (X1 * Z2 + X2 * Z1)) mod p_field"
    unfolding bxz_def by (simp only: fe_values b3 xz mod_simps)
  show ?thesis
    unfolding out
    by (intro conjI; simp only: jac.simps fe_values fe_ok_ops xy yz xx add sub bxz mod_simps, rule c; simp add: algebra_simps)
qed

lemma scalarMultCT_fold:
  "scalarMultCT k p =
     fold (\<lambda>b R. if b then completeAdd (completeAdd R R) p else completeAdd R R) (limb_bits k) identity"
proof -
  have "ladder_step p = (\<lambda>b R. if b then completeAdd (completeAdd R R) p else completeAdd R R)"
    by (intro ext) (simp add: ladder_step_def jacCSelect_if Let_def)
  then show ?thesis by (simp add: scalarMultCT_def)
qed

lemma completeAdd_on_curve:
  assumes "jac_on_curve p" and "jac_on_curve q"
  shows "jac_on_curve (completeAdd p q)"
proof -
  define X1 Y1 Z1 X2 Y2 Z2 where
    v: "X1 = fe_val (JX p)" "Y1 = fe_val (JY p)" "Z1 = fe_val (JZ p)"
       "X2 = fe_val (JX q)" "Y2 = fe_val (JY q)" "Z2 = fe_val (JZ q)"
  define X3 Y3 Z3 where
    w: "X3 = (X1 * Y2 + X2 * Y1) * (Y1 * Y2 - 21 * Z1 * Z2) - 21 * (Y1 * Z2 + Y2 * Z1) * (X1 * Z2 + X2 * Z1)"
       "Y3 = (Y1 * Y2 + 21 * Z1 * Z2) * (Y1 * Y2 - 21 * Z1 * Z2) + 63 * X1 * X2 * (X1 * Z2 + X2 * Z1)"
       "Z3 = (Y1 * Z2 + Y2 * Z1) * (Y1 * Y2 + 21 * Z1 * Z2) + 3 * X1 * X2 * (X1 * Y2 + X2 * Y1)"
  have sum: "fe_val (JX (completeAdd p q)) = X3 mod p_field" "fe_val (JY (completeAdd p q)) = Y3 mod p_field"
    "fe_val (JZ (completeAdd p q)) = Z3 mod p_field"
    using completeAdd_values [OF v] unfolding w by blast+
  have "p_field dvd Y1 ^ 2 * Z1 - (X1 ^ 3 + 7 * Z1 ^ 3)" "p_field dvd Y2 ^ 2 * Z2 - (X2 ^ 3 + 7 * Z2 ^ 3)"
    using assms unfolding jac_on_curve_def v [symmetric] mod_eq_dvd_iff .
  then have "p_field dvd Y3 ^ 2 * Z3 - (X3 ^ 3 + 7 * Z3 ^ 3)"
    unfolding complete_addition_identity [OF w] by (intro dvd_add dvd_mult)
  then have "(Y3 ^ 2 * Z3) mod p_field = (X3 ^ 3 + 7 * Z3 ^ 3) mod p_field" by (simp only: mod_eq_dvd_iff)
  moreover have "((Y3 mod p_field) ^ 2 * (Z3 mod p_field)) mod p_field = (Y3 ^ 2 * Z3) mod p_field"
    by (intro mod_mult_cong power_mod mod_mod_trivial)
  moreover have "((X3 mod p_field) ^ 3 + 7 * (Z3 mod p_field) ^ 3) mod p_field = (X3 ^ 3 + 7 * Z3 ^ 3) mod p_field"
    by (intro mod_add_cong mod_mult_cong power_mod refl)
  ultimately show ?thesis unfolding jac_on_curve_def sum by (simp only:)
qed

lemma identity_on_curve: "jac_on_curve identity"
  by (simp add: jac_on_curve_def identity_def fe_val_def)

lemma scalarMultCT_on_curve:
  assumes "jac_on_curve p"
  shows "jac_on_curve (scalarMultCT k p)"
proof -
  have "jac_on_curve R \<Longrightarrow>
      jac_on_curve (fold (\<lambda>b R. if b then completeAdd (completeAdd R R) p else completeAdd R R) bs R)" for bs R
    by (induction bs arbitrary: R) (simp_all add: completeAdd_on_curve assms)
  then show ?thesis unfolding scalarMultCT_fold using identity_on_curve by blast
qed

section \<open>Properties\<close>

text \<open>
  C17. The limb arithmetic is the field: for all limbs, addition, multiplication, squaring and
  inversion give the fully reduced sum, product, square and \<open>(p-2)\<close>-th power modulo the
  prime, and subtraction does on reduced operands; the masked select is a choice.
\<close>

theorem field_ops_correct:
  "fe_val (feAdd a b) = (fe_val a + fe_val b) mod p_field \<and>
   fe_val (feMul a b) = (fe_val a * fe_val b) mod p_field \<and>
   fe_val (feSqr a) = (fe_val a)\<^sup>2 mod p_field \<and>
   fe_val (feInv a) = fe_val a ^ nat (p_field - 2) mod p_field \<and>
   (fe_ok a \<and> fe_ok b \<longrightarrow> fe_val (feSub a b) = (fe_val a - fe_val b) mod p_field) \<and>
   feCSelect 1 a b = a \<and> feCSelect 0 a b = b"
  using feCSelect_if [of True a b] feCSelect_if [of False a b]
  by (simp add: feAdd_value feMul_value feSqr_def feInv_value feSub_value power2_eq_square)

theorem field_ops_correct_witness:
  "fe_val (feSub (FE 3 0 0 0) (FE 5 0 0 0)) = p_field - 2"
proof -
  have "fe_ok (FE 3 0 0 0) \<and> fe_ok (FE 5 0 0 0)" by (simp add: fe_ok_def fe_val_def p_field_def)
  then have "fe_val (feSub (FE 3 0 0 0) (FE 5 0 0 0)) = (fe_val (FE 3 0 0 0) - fe_val (FE 5 0 0 0)) mod p_field"
    using field_ops_correct [of "FE 3 0 0 0" "FE 5 0 0 0"] by blast
  then show ?thesis by (simp add: fe_val_def p_field_def)
qed

text \<open>
  The straight-line code of \<open>completeAdd\<close> computes the complete addition formulas for
  \<open>a = 0\<close>, \<open>3b = 21\<close> in the field, for any two projective points with reduced coordinates. The sum
  of two points of the curve is on the curve. The ladder is double-and-add over the 256 bits of the
  scalar, most significant first, and stays on the curve for every scalar.
\<close>

theorem completeAdd_formulas:
  assumes "X1 = fe_val (JX p)" "Y1 = fe_val (JY p)" "Z1 = fe_val (JZ p)"
    and "X2 = fe_val (JX q)" "Y2 = fe_val (JY q)" "Z2 = fe_val (JZ q)"
  shows "fe_val (JX (completeAdd p q)) =
      ((X1 * Y2 + X2 * Y1) * (Y1 * Y2 - 21 * Z1 * Z2) - 21 * (Y1 * Z2 + Y2 * Z1) * (X1 * Z2 + X2 * Z1)) mod p_field \<and>
    fe_val (JY (completeAdd p q)) =
      ((Y1 * Y2 + 21 * Z1 * Z2) * (Y1 * Y2 - 21 * Z1 * Z2) + 63 * X1 * X2 * (X1 * Z2 + X2 * Z1)) mod p_field \<and>
    fe_val (JZ (completeAdd p q)) =
      ((Y1 * Z2 + Y2 * Z1) * (Y1 * Y2 + 21 * Z1 * Z2) + 3 * X1 * X2 * (X1 * Y2 + X2 * Y1)) mod p_field \<and>
    (jac_on_curve p \<and> jac_on_curve q \<longrightarrow> jac_on_curve (completeAdd p q)) \<and>
    scalarMultCT k p =
      fold (\<lambda>b R. if b then completeAdd (completeAdd R R) p else completeAdd R R) (limb_bits k) identity \<and>
    length (limb_bits k) = 256 \<and> int (bits_val (limb_bits k)) = fe_val k \<and>
    (jac_on_curve p \<longrightarrow> jac_on_curve (scalarMultCT k p))"
  using completeAdd_values [OF assms] completeAdd_on_curve scalarMultCT_on_curve scalarMultCT_fold [of k p]
    limb_bits_val [of k] length_limb_bits [of k] by blast

theorem completeAdd_formulas_witness:
  "fe_val (JX (completeAdd \<lparr>JX = FE 1 0 0 0, JY = FE 2 0 0 0, JZ = FE 1 0 0 0\<rparr>
                           \<lparr>JX = FE 3 0 0 0, JY = FE 4 0 0 0, JZ = FE 1 0 0 0\<rparr>)) = p_field - 634 \<and>
   jac_on_curve (scalarMultCT (FE 5 0 0 0) (completeAdd identity identity))"
proof -
  let ?p = "\<lparr>JX = FE 1 0 0 0, JY = FE 2 0 0 0, JZ = FE 1 0 0 0\<rparr>"
  let ?q = "\<lparr>JX = FE 3 0 0 0, JY = FE 4 0 0 0, JZ = FE 1 0 0 0\<rparr>"
  have v: "1 = fe_val (JX ?p)" "2 = fe_val (JY ?p)" "1 = fe_val (JZ ?p)"
    "3 = fe_val (JX ?q)" "4 = fe_val (JY ?q)" "1 = fe_val (JZ ?q)"
    by (simp_all add: fe_val_def)
  have "fe_val (JX (completeAdd ?p ?q)) = p_field - 634"
    using completeAdd_formulas [OF v, THEN conjunct1] by (simp add: p_field_def)
  moreover have "jac_on_curve (scalarMultCT (FE 5 0 0 0) (completeAdd identity identity))"
    using completeAdd_formulas [OF refl refl refl refl refl refl, of identity identity]
      completeAdd_formulas [OF refl refl refl refl refl refl, of "completeAdd identity identity" identity "FE 5 0 0 0"]
      identity_on_curve by blast
  ultimately show ?thesis by blast
qed

end
