(* ===== verification/Crypto.thy ===== *)
theory Crypto
  imports Field Commitment
begin

text \<open>
  Package \<open>crypto\<close>, file src/crypto/secp256k1.go: keys, deterministic nonces, signing and
  verification. \<open>math/big\<close> integers are \<open>int\<close>; a point is an option of its coordinates, \<open>None\<close>
  for the pair of nil pointers at infinity. \<open>ModInverse\<close> leaves its receiver alone when there
  is no inverse, and a nil result used as an operand panics. SHA-256 and HMAC are the standard
  library functions written out in \<open>Sha256\<close>. The nonce loop need not end in the model, so it
  is a partial function.
\<close>

section \<open>math/big\<close>

definition int_of_bytes :: "bytes \<Rightarrow> int" where
  "int_of_bytes bs = foldl (\<lambda>n b. 256 * n + uint b) 0 bs"

text \<open>\<open>Bytes\<close>: the absolute value, big-endian, without leading zeros.\<close>

function nat_bytes :: "nat \<Rightarrow> bytes" where
  "nat_bytes n = (if n = 0 then [] else nat_bytes (n div 256) @ [word_of_nat (n mod 256)])"
  by pat_completeness auto
termination by (relation "measure id") auto

declare nat_bytes.simps [simp del]

definition bytes_of_int :: "int \<Rightarrow> bytes" where
  "bytes_of_int v = nat_bytes (nat \<bar>v\<bar>)"

text \<open>The extended Euclidean algorithm: \<open>(d, x)\<close> with \<open>d = gcd a b\<close> and \<open>a * x = d\<close> modulo \<open>b\<close>.\<close>

function egcd :: "int \<Rightarrow> int \<Rightarrow> int \<Rightarrow> int \<Rightarrow> int \<times> int" where
  "egcd r0 r1 x0 x1 = (if r1 \<le> 0 then (r0, x0) else egcd r1 (r0 mod r1) x1 (x0 - r0 div r1 * x1))"
  by pat_completeness auto
termination by (relation "measure (\<lambda>(r0, r1, x0, x1). nat r1)") auto

declare egcd.simps [simp del]

definition ModInverse :: "int \<Rightarrow> int \<Rightarrow> int option" where
  "ModInverse g n = (let (d, x) = egcd (g mod n) n 1 0 in if d = 1 then Some (x mod n) else None)"

text \<open>\<open>z.ModInverse(z, n)\<close> for its effect on \<open>z\<close>.\<close>

definition mod_inverse_in_place :: "int \<Rightarrow> int \<Rightarrow> int" where
  "mod_inverse_in_place g n = (case ModInverse g n of None \<Rightarrow> g | Some x \<Rightarrow> x)"

section \<open>Domain parameters\<close>

definition curveP :: int where
  "curveP = 115792089237316195423570985008687907853269984665640564039457584007908834671663"

definition curveN :: int where
  "curveN = 115792089237316195423570985008687907852837564279074904382605163141518161494337"

definition curveGx :: int where
  "curveGx = 55066263022277343669578718895168534326250603453777594175500187360389116729240"

definition curveGy :: int where
  "curveGy = 32670510020758816978083085130507043184471273380659243275938904335757337482424"

definition nHalf :: int where
  "nHalf = curveN div 2"

text \<open>
  \<open>SetString\<close> with base 16: an optional sign and at least one digit. The source writes the parameters in this
  form, with a panic for a bad constant.
\<close>

definition hex_val :: "char \<Rightarrow> int option" where
  "hex_val c =
     (let n = of_char c :: int in
      if 48 \<le> n \<and> n \<le> 57 then Some (n - 48)
      else if 65 \<le> n \<and> n \<le> 70 then Some (n - 55)
      else if 97 \<le> n \<and> n \<le> 102 then Some (n - 87)
      else None)"

fun hex_digits :: "string \<Rightarrow> int \<Rightarrow> int option" where
  "hex_digits [] v = Some v"
| "hex_digits (c # s) v = (case hex_val c of None \<Rightarrow> None | Some d \<Rightarrow> hex_digits s (16 * v + d))"

definition SetString16 :: "string \<Rightarrow> int option" where
  "SetString16 s =
     (let neg = (s \<noteq> [] \<and> hd s = CHR ''-''); digits = (if s \<noteq> [] \<and> hd s \<in> {CHR ''-'', CHR ''+''} then tl s else s) in
      if digits = [] then None else map_option (\<lambda>v. if neg then - v else v) (hex_digits digits 0))"

definition mustHex :: "string \<Rightarrow> int res" where
  "mustHex s = (case SetString16 s of None \<Rightarrow> Inl Panic | Some n \<Rightarrow> Inr n)"

lemma domain_parameters:
  "mustHex ''FFFFFFFFFFFFFFFFFFFFFFFFFFFFFFFFFFFFFFFFFFFFFFFFFFFFFFFEFFFFFC2F'' = Inr curveP"
  "mustHex ''FFFFFFFFFFFFFFFFFFFFFFFFFFFFFFFEBAAEDCE6AF48A03BBFD25E8CD0364141'' = Inr curveN"
  "mustHex ''79BE667EF9DCBBAC55A06295CE870B07029BFCDB2DCE28D959F2815B16F81798'' = Inr curveGx"
  "mustHex ''483ADA7726A3C4655DA4FBFC0E1108A8FD17B448A68554199C47D08FFB10D4B8'' = Inr curveGy"
  by (simp_all add: mustHex_def SetString16_def hex_val_def curveP_def curveN_def curveGx_def curveGy_def)

section \<open>Point arithmetic\<close>

type_synonym point = "(int \<times> int) option"

definition pointDouble :: "point \<Rightarrow> point" where
  "pointDouble p =
     (case p of
        None \<Rightarrow> None
      | Some (x1, y1) \<Rightarrow>
        if y1 = 0 then None
        else
          let num = x1 * x1 * 3;
              den = mod_inverse_in_place (2 * y1) curveP;
              lam = (num * den) mod curveP;
              x3 = (lam * lam - 2 * x1) mod curveP;
              y3 = ((x1 - x3) * lam - y1) mod curveP
          in Some (x3, y3))"

definition pointAdd :: "point \<Rightarrow> point \<Rightarrow> point" where
  "pointAdd p q =
     (case p of
        None \<Rightarrow> q
      | Some (x1, y1) \<Rightarrow>
        (case q of
           None \<Rightarrow> p
         | Some (x2, y2) \<Rightarrow>
           if x1 = x2 then (if y1 = y2 then pointDouble p else None)
           else
             let num = y2 - y1;
                 den = mod_inverse_in_place (x2 - x1) curveP;
                 lam = (num * den) mod curveP;
                 x3 = (lam * lam - x1 - x2) mod curveP;
                 y3 = ((x1 - x3) * lam - y1) mod curveP
             in Some (x3, y3)))"

text \<open>
  \<open>scalarMult\<close> visits the bits of \<open>k\<close> from the highest down. The second component says
  whether the returned pointers are the arguments \<open>x\<close>, \<open>y\<close> themselves, which
  \<open>pointAdd\<close> returns when it adds to infinity; \<open>Verify\<close> writes through them.
\<close>

definition int_bits :: "int \<Rightarrow> bool list" where
  "int_bits k = map (\<lambda>i. nat k div 2 ^ i mod 2 = 1) (rev [0..<bit_len (nat k)])"

definition mult_step :: "int \<Rightarrow> int \<Rightarrow> bool \<Rightarrow> point \<times> bool \<Rightarrow> point \<times> bool" where
  "mult_step x y b r =
     (let d = pointDouble (fst r) in
      if b then (pointAdd d (Some (x, y)), d = None) else (d, False))"

definition scalarMult :: "int \<Rightarrow> int \<Rightarrow> int \<Rightarrow> point \<times> bool" where
  "scalarMult k x y = fold (mult_step x y) (int_bits k) (None, False)"

definition scalarBaseMult :: "int \<Rightarrow> point" where
  "scalarBaseMult k = fst (scalarMult k curveGx curveGy)"

text \<open>Coordinates are never nil on their own, so the nil test is the match on the option.\<close>

definition onCurve :: "int \<Rightarrow> int \<Rightarrow> bool" where
  "onCurve x y =
     (if x < 0 \<or> y < 0 \<or> curveP \<le> x \<or> curveP \<le> y then False
      else (y * y) mod curveP = (x * x * x + 7) mod curveP)"

section \<open>Keys\<close>

record private_key =
  D :: int

record public_key =
  X :: int
  Y :: int

record signature =
  R :: int
  S :: int

definition NewPrivateKey :: "bytes \<Rightarrow> private_key" where
  "NewPrivateKey seed = \<lparr>D = int_of_bytes seed mod (curveN - 1) + 1\<rparr>"

text \<open>At infinity the key has nil coordinates: \<open>None\<close>.\<close>

definition Public :: "private_key \<Rightarrow> public_key option" where
  "Public k = map_option (\<lambda>(x, y). \<lparr>X = x, Y = y\<rparr>) (scalarBaseMult (D k))"

text \<open>\<open>copy(out[n-len(b):], b)\<close>: the slice panics when \<open>b\<close> is longer than \<open>out\<close>.\<close>

definition copy_at_end :: "bytes \<Rightarrow> bytes \<Rightarrow> bytes res" where
  "copy_at_end out b =
     (if length out < length b then Inl Panic else Inr (take (length out - length b) out @ b))"

definition SerializeCompressed :: "public_key \<Rightarrow> bytes res" where
  "SerializeCompressed p =
     copy_at_end ((if even (Y p) then 2 else 3) # replicate 32 0) (bytes_of_int (X p))"

function mod_exp :: "int \<Rightarrow> nat \<Rightarrow> int \<Rightarrow> int" where
  "mod_exp b e m =
     (if e = 0 then 1 mod m
      else if even e then mod_exp (b * b mod m) (e div 2) m
      else b * mod_exp (b * b mod m) (e div 2) m mod m)"
  by pat_completeness auto
termination by (relation "measure (\<lambda>(b, e, m). e)") auto

declare mod_exp.simps [simp del]

definition ParseCompressed :: "bytes \<Rightarrow> public_key res" where
  "ParseCompressed b =
     (if length b \<noteq> 33 \<or> (b ! 0 \<noteq> 2 \<and> b ! 0 \<noteq> 3) then Inl (ErrOther ''crypto: bad compressed public key'')
      else
        let x = int_of_bytes (drop 1 b) in
        if curveP \<le> x then Inl (ErrOther ''crypto: x out of field range'')
        else
          let rhs = (x * x * x + 7) mod curveP;
              y = mod_exp rhs (nat ((curveP + 1) div 4)) curveP
          in
          if (y * y) mod curveP \<noteq> rhs then Inl (ErrOther ''crypto: point not on curve'')
          else
            let wantOdd = (b ! 0 = 3);
                y = (if odd y \<noteq> wantOdd then curveP - y else y)
            in
            if \<not> onCurve x y then Inl (ErrOther ''crypto: decompressed point not on curve'')
            else Inr \<lparr>X = x, Y = y\<rparr>)"

text \<open>Key equality on the serialised form; \<open>None\<close> is a nil key.\<close>

definition Equal :: "public_key option \<Rightarrow> public_key option \<Rightarrow> bool res" where
  "Equal p q =
     (case (p, q) of
        (Some p, Some q) \<Rightarrow>
          (case SerializeCompressed p of
             Inl e \<Rightarrow> Inl e
           | Inr a \<Rightarrow> map_res (\<lambda>b. a = b) (SerializeCompressed q))
      | _ \<Rightarrow> Inr False)"

section \<open>The deterministic nonce\<close>

definition hmacSHA :: "bytes \<Rightarrow> bytes \<Rightarrow> bytes" where
  "hmacSHA key msg = bytes_of (hmac_sha256 key msg)"

definition int2octets :: "int \<Rightarrow> nat \<Rightarrow> bytes" where
  "int2octets v rolen =
     (let b = bytes_of_int v in
      if length b < rolen then replicate (rolen - length b) 0 @ b
      else if rolen < length b then drop (length b - rolen) b
      else b)"

definition bits2int :: "bytes \<Rightarrow> nat \<Rightarrow> int" where
  "bits2int b qlen =
     (let v = int_of_bytes b in
      if qlen < length b * 8 then v div 2 ^ (length b * 8 - qlen) else v)"

definition bits2octets :: "bytes \<Rightarrow> nat \<Rightarrow> bytes" where
  "bits2octets b rolen =
     (let z1 = bits2int b 256; z2 = z1 - curveN in
      if z2 < 0 then int2octets z1 rolen else int2octets z2 rolen)"

text \<open>
  The candidate loop: the inner loop appends one HMAC block, which already has the 32 bytes
  asked for.
\<close>

partial_function (option) nonce_loop :: "bytes \<Rightarrow> bytes \<Rightarrow> int option" where
  "nonce_loop kk v =
     (let v = hmacSHA kk v; t = v; k = bits2int t 256 in
      if 0 < k \<and> k < curveN then Some k
      else let kk = hmacSHA kk (v @ [0]); v = hmacSHA kk v in nonce_loop kk v)"

definition rfc6979Nonce :: "int \<Rightarrow> bytes \<Rightarrow> int option" where
  "rfc6979Nonce d hash =
     (let bx = int2octets d 32 @ bits2octets hash 32;
          v = replicate 32 1;
          kk = replicate 32 0;
          kk = hmacSHA kk (v @ [0] @ bx);
          v = hmacSHA kk v;
          kk = hmacSHA kk (v @ [1] @ bx);
          v = hmacSHA kk v
      in nonce_loop kk v)"

section \<open>Signing\<close>

text \<open>Limbs and integers: the 32-byte big-endian form, read in four words.\<close>

definition feFromBig :: "int \<Rightarrow> fe" where
  "feFromBig x =
     FE (word_of_int x) (word_of_int (x div 2 ^ 64)) (word_of_int (x div 2 ^ 128)) (word_of_int (x div 2 ^ 192))"

definition fe_big :: "fe \<Rightarrow> int" where
  "fe_big f = uint (limb0 f) + 2 ^ 64 * uint (limb1 f) + 2 ^ 128 * uint (limb2 f) + 2 ^ 192 * uint (limb3 f)"

definition scalarBits :: "int \<Rightarrow> fe" where
  "scalarBits k = feFromBig k"

definition ctBaseG :: jac where
  "ctBaseG = \<lparr>JX = feFromBig curveGx, JY = feFromBig curveGy, JZ = FE 1 0 0 0\<rparr>"

text \<open>
  One attempt: \<open>None\<close> is the \<open>continue\<close> of the loop. A nonce without inverse is a nil
  operand of \<open>Mul\<close>.
\<close>

definition sign_attempt :: "int \<Rightarrow> int \<Rightarrow> int \<Rightarrow> signature option res" where
  "sign_attempt d z kNonce =
     (let rx = affineX (scalarMultCT (scalarBits kNonce) ctBaseG);
          r = fe_big rx mod curveN
      in
      if r = 0 then Inr None
      else case ModInverse kNonce curveN of
        None \<Rightarrow> Inl Panic
      | Some kInv \<Rightarrow>
          (let s = ((r * d + z) * kInv) mod curveN in
           if s = 0 then Inr None
           else Inr (Some \<lparr>R = r, S = (if nHalf < s then curveN - s else s)\<rparr>)))"

text \<open>The outer \<open>None\<close> is a nonce loop that does not end; \<open>n\<close> is the attempts left of 1000.\<close>

primrec sign_loop :: "int \<Rightarrow> int \<Rightarrow> bytes \<Rightarrow> nat \<Rightarrow> nat \<Rightarrow> signature res option" where
  "sign_loop d z hash 0 i = Some (Inl (ErrOther ''crypto: signing failed''))"
| "sign_loop d z hash (Suc n) i =
     (case rfc6979Nonce d hash of
        None \<Rightarrow> None
      | Some k0 \<Rightarrow>
        (case (if 0 < i then rfc6979Nonce d (bytes_of (sha256 (hash @ [word_of_nat i]))) else Some k0) of
           None \<Rightarrow> None
         | Some kNonce \<Rightarrow>
           (case sign_attempt d z kNonce of
              Inl e \<Rightarrow> Some (Inl e)
            | Inr (Some sig) \<Rightarrow> Some (Inr sig)
            | Inr None \<Rightarrow> sign_loop d z hash n (i + 1))))"

definition Sign :: "private_key option \<Rightarrow> bytes \<Rightarrow> signature res option" where
  "Sign k hash =
     (case k of
        None \<Rightarrow> Some (Inl (ErrOther ''crypto: invalid private key''))
      | Some k \<Rightarrow>
        if D k = 0 \<or> curveN \<le> D k then Some (Inl (ErrOther ''crypto: invalid private key''))
        else sign_loop (D k) (bits2int hash 256) hash 1000 0)"

section \<open>Verification and the wire form of a signature\<close>

text \<open>
  The result and the public key afterwards: \<open>x.Mod(x, curveN)\<close> writes to the sum's x-coordinate,
  which is the key's own when the sum is the key itself.
\<close>

definition Verify_run :: "public_key \<Rightarrow> bytes \<Rightarrow> signature \<Rightarrow> (bool \<times> public_key) res" where
  "Verify_run pub hash sig =
     (if \<not> onCurve (X pub) (Y pub) then Inr (False, pub)
      else if R sig \<le> 0 \<or> curveN \<le> R sig \<or> S sig \<le> 0 \<or> curveN \<le> S sig then Inr (False, pub)
      else
        let z = bits2int hash 256 in
        case ModInverse (S sig) curveN of
          None \<Rightarrow> Inl Panic
        | Some w \<Rightarrow>
          (let u1 = (z * w) mod curveN;
               u2 = (R sig * w) mod curveN;
               p1 = scalarBaseMult u1;
               (p2, own) = scalarMult u2 (X pub) (Y pub)
           in case pointAdd p1 p2 of
                None \<Rightarrow> Inr (False, pub)
              | Some (x, _) \<Rightarrow>
                  Inr (x mod curveN = R sig, if p1 = None \<and> own then pub\<lparr>X := x mod curveN\<rparr> else pub)))"

definition VerifySig :: "public_key \<Rightarrow> bytes \<Rightarrow> signature \<Rightarrow> bool res" where
  "VerifySig pub hash sig = map_res fst (Verify_run pub hash sig)"

definition IsLowS :: "signature \<Rightarrow> bool" where
  "IsLowS s \<longleftrightarrow> S s \<le> nHalf"

text \<open>The second copy runs over the first when \<open>S\<close> has more than 32 bytes.\<close>

definition SerializeSig :: "signature \<Rightarrow> bytes res" where
  "SerializeSig s =
     (case copy_at_end (replicate 32 0) (bytes_of_int (R s)) of
        Inl e \<Rightarrow> Inl e
      | Inr r \<Rightarrow> copy_at_end (r @ replicate 32 0) (bytes_of_int (S s)))"

definition ParseSignature :: "bytes \<Rightarrow> signature res" where
  "ParseSignature b =
     (if length b \<noteq> 64 then Inl (ErrOther ''crypto: signature must be 64 bytes'')
      else Inr \<lparr>R = int_of_bytes (take 32 b), S = int_of_bytes (drop 32 b)\<rparr>)"

definition Malleate :: "bytes \<Rightarrow> bytes res" where
  "Malleate sig64 =
     (case ParseSignature sig64 of
        Inl e \<Rightarrow> Inl e
      | Inr s \<Rightarrow> SerializeSig \<lparr>R = R s, S = curveN - S s\<rparr>)"

section \<open>Bytes of integers\<close>

lemma int_of_bytes_Nil [simp]: "int_of_bytes [] = 0"
  by (simp add: int_of_bytes_def)

lemma int_of_bytes_snoc [simp]: "int_of_bytes (bs @ [b]) = 256 * int_of_bytes bs + uint b"
  by (simp add: int_of_bytes_def)

lemma int_of_bytes_append: "int_of_bytes (xs @ ys) = int_of_bytes xs * 256 ^ length ys + int_of_bytes ys"
proof (induction ys rule: rev_induct)
  case (snoc y ys)
  have "int_of_bytes ((xs @ ys) @ [y]) = 256 * (int_of_bytes xs * 256 ^ length ys + int_of_bytes ys) + uint y"
    by (simp only: int_of_bytes_snoc snoc.IH)
  then show ?case by (simp add: algebra_simps)
qed simp

lemma uint_byte: "0 \<le> uint (b :: byte) \<and> uint b < 256"
  using uint_lt2p [of b] by simp

lemma int_of_bytes_range: "0 \<le> int_of_bytes bs \<and> int_of_bytes bs < 256 ^ length bs"
proof (induction bs rule: rev_induct)
  case (snoc b bs)
  then show ?case using uint_byte [of b] by simp
qed simp

lemma replicate_snoc: "replicate (Suc k) x = replicate k x @ [x]"
  by (simp add: replicate_append_same)

lemma int_of_bytes_zeros [simp]: "int_of_bytes (replicate k 0 @ bs) = int_of_bytes bs"
proof -
  have "int_of_bytes (replicate k 0) = 0"
    by (induction k) (simp_all del: replicate.simps(2) add: replicate_snoc)
  then show ?thesis by (simp add: int_of_bytes_append)
qed

lemma int_of_nat_bytes [simp]: "int_of_bytes (nat_bytes n) = int n"
proof (induction n rule: nat_bytes.induct)
  case (1 n)
  show ?case
  proof (cases "n = 0")
    case False
    have "uint (word_of_nat (n mod 256) :: byte) = int (n mod 256)"
      by (simp add: unsigned_of_nat take_bit_eq_mod)
    moreover have "256 * int (n div 256) + int (n mod 256) = int n"
      by (metis mult_div_mod_eq of_nat_add of_nat_mult of_nat_numeral)
    ultimately show ?thesis using 1 False by (subst nat_bytes.simps) simp
  qed (simp add: nat_bytes.simps)
qed

lemma length_nat_bytes: "n < 256 ^ k \<Longrightarrow> length (nat_bytes n) \<le> k"
proof (induction n arbitrary: k rule: nat_bytes.induct)
  case (1 n)
  show ?case
  proof (cases "n = 0")
    case False
    then obtain m where m: "k = Suc m" using 1 by (cases k) auto
    then have "length (nat_bytes (n div 256)) \<le> m" using 1 False by (simp add: div_less_iff_less_mult)
    then show ?thesis using False m by (subst nat_bytes.simps) simp
  qed (simp add: nat_bytes.simps)
qed

lemma int_of_bytes_inj: "length xs = length ys \<Longrightarrow> int_of_bytes xs = int_of_bytes ys \<Longrightarrow> xs = ys"
proof (induction xs arbitrary: ys rule: rev_induct)
  case (snoc x xs)
  then obtain y zs where y: "ys = zs @ [y]" by (cases ys rule: rev_cases) auto
  have eq: "256 * int_of_bytes xs + uint x = 256 * int_of_bytes zs + uint y" using snoc.prems y by simp
  have part: "(256 * a + b) div 256 = a" if "0 \<le> b" "b < 256" for a b :: int
    using that by simp
  have "int_of_bytes xs = (256 * int_of_bytes xs + uint x) div 256"
    by (rule part [symmetric]) (use uint_byte in auto)
  also have "\<dots> = int_of_bytes zs" unfolding eq by (rule part) (use uint_byte in auto)
  finally have "int_of_bytes xs = int_of_bytes zs" .
  then have "int_of_bytes xs = int_of_bytes zs" "uint x = uint y" using eq by simp_all
  then show ?case using snoc y by (simp add: word_uint_eq_iff)
qed simp

lemma copy_at_end_ok:
  assumes "0 \<le> v" and "v < 256 ^ k" and "length pre + k = length out" and "take (length pre) out = pre"
    and "drop (length pre) out = replicate k 0"
  obtains bs where "copy_at_end out (bytes_of_int v) = Inr (pre @ bs)" and "length bs = k" and "int_of_bytes bs = v"
proof -
  let ?b = "nat_bytes (nat v)"
  have len: "length ?b \<le> k" using assms(1,2) by (intro length_nat_bytes) (simp add: nat_less_iff)
  have out: "out = pre @ replicate k 0" using assms(4,5) by (metis append_take_drop_id)
  have "take (length out - length ?b) out = pre @ replicate (k - length ?b) 0"
    using len assms(3) by (simp add: out)
  then have "copy_at_end out (bytes_of_int v) = Inr (pre @ (replicate (k - length ?b) 0 @ ?b))"
    using len assms(1,3) by (simp add: copy_at_end_def bytes_of_int_def)
  then show thesis using that len assms(1) by simp
qed

section \<open>Inverses\<close>

lemma egcd_value:
  "0 \<le> r1 \<Longrightarrow> (g * x0) mod n = r0 mod n \<Longrightarrow> (g * x1) mod n = r1 mod n \<Longrightarrow> egcd r0 r1 x0 x1 = (d, x) \<Longrightarrow>
   (g * x) mod n = d mod n"
proof (induction r0 r1 x0 x1 rule: egcd.induct)
  case (1 r0 r1 x0 x1)
  show ?case
  proof (cases "r1 \<le> 0")
    case True
    then show ?thesis using 1 by (subst (asm) egcd.simps) auto
  next
    case False
    have "(g * (x0 - r0 div r1 * x1)) mod n = (g * x0 - (r0 div r1) * (g * x1)) mod n" by (simp add: algebra_simps)
    also have "\<dots> = (r0 - (r0 div r1) * r1) mod n"
      using 1(3,4) by (metis mod_diff_cong mod_mult_cong)
    also have "\<dots> = (r0 mod r1) mod n" by (simp add: minus_div_mult_eq_mod)
    finally show ?thesis using 1 False by (simp add: egcd.simps [of r0 r1])
  qed
qed

lemma ModInverse_value:
  assumes "ModInverse g n = Some x" and "1 < n"
  shows "(g * x) mod n = 1" and "0 \<le> x" and "x < n"
proof -
  obtain d y where y: "egcd (g mod n) n 1 0 = (d, y)" "d = 1" "x = y mod n"
    using assms(1) by (auto simp: ModInverse_def split: prod.splits if_splits)
  have "(g * y) mod n = d mod n" by (rule egcd_value [OF _ _ _ y(1)]) (use assms(2) in auto)
  then show "(g * x) mod n = 1" using y(2,3) assms(2) by (simp add: mod_mult_right_eq)
  show "0 \<le> x" "x < n" using y(3) assms(2) by simp_all
qed

section \<open>Signatures\<close>

lemma curveN_odd: "odd curveN" and curveP_odd: "odd curveP" and curve_bounds:
  "1 < curveN" "1 < curveP" "curveN < 256 ^ 32" "curveP < 256 ^ 32"
  by (simp_all add: curveN_def curveP_def)

lemma SerializeSig_ok:
  assumes "0 \<le> R s" "R s < 256 ^ 32" "0 \<le> S s" "S s < 256 ^ 32"
  obtains b where "SerializeSig s = Inr b" and "ParseSignature b = Inr s"
proof -
  obtain r where r: "copy_at_end (replicate 32 0) (bytes_of_int (R s)) = Inr r" "length r = 32" "int_of_bytes r = R s"
    using copy_at_end_ok [OF assms(1,2), of "[]" "replicate 32 0"] by auto
  obtain t where t: "copy_at_end (r @ replicate 32 0) (bytes_of_int (S s)) = Inr (r @ t)" "length t = 32" "int_of_bytes t = S s"
    using copy_at_end_ok [OF assms(3,4), of r "r @ replicate 32 0"] r(2) by auto
  show thesis using that [of "r @ t"] r t by (simp add: SerializeSig_def ParseSignature_def)
qed

lemma SerializeSig_Parse:
  assumes "ParseSignature b = Inr s"
  shows "SerializeSig s = Inr b"
proof -
  have s: "length b = 64" "R s = int_of_bytes (take 32 b)" "S s = int_of_bytes (drop 32 b)"
    using assms by (auto simp: ParseSignature_def split: if_splits)
  have "0 \<le> R s" "R s < 256 ^ 32" "0 \<le> S s" "S s < 256 ^ 32"
    using int_of_bytes_range [of "take 32 b"] int_of_bytes_range [of "drop 32 b"] s by simp_all
  then obtain b' where b': "SerializeSig s = Inr b'" "ParseSignature b' = Inr s" by (rule SerializeSig_ok)
  then have "length b' = 64" "int_of_bytes (take 32 b') = int_of_bytes (take 32 b)"
    "int_of_bytes (drop 32 b') = int_of_bytes (drop 32 b)"
    using s by (auto simp: ParseSignature_def split: if_splits)
  then have "take 32 b' = take 32 b" "drop 32 b' = drop 32 b"
    using s(1) by (auto intro: int_of_bytes_inj)
  then have "b' = b" by (metis append_take_drop_id)
  then show ?thesis using b'(1) by simp
qed

lemma sign_attempt_range:
  "sign_attempt d z k = Inr (Some sig) \<Longrightarrow> 0 < R sig \<and> R sig < curveN \<and> 0 < S sig \<and> S sig \<le> nHalf"
proof -
  assume a: "sign_attempt d z k = Inr (Some sig)"
  define r where "r = fe_big (affineX (scalarMultCT (scalarBits k) ctBaseG)) mod curveN"
  have nz: "r \<noteq> 0" using a by (auto simp: sign_attempt_def r_def)
  obtain kInv where inv: "ModInverse k curveN = Some kInv"
    using a nz by (auto simp: sign_attempt_def r_def Let_def split: option.splits)
  define s where "s = ((r * d + z) * kInv) mod curveN"
  have "s \<noteq> 0" and sig: "sig = \<lparr>R = r, S = (if nHalf < s then curveN - s else s)\<rparr>"
    using a nz inv by (auto simp: sign_attempt_def r_def s_def Let_def split: if_splits)
  moreover have "0 \<le> s" "s < curveN" using curve_bounds(1) by (simp_all add: s_def)
  ultimately have s: "0 < s" "s < curveN" by simp_all
  have "0 \<le> r" "r < curveN" using curve_bounds(1) by (simp_all add: r_def)
  moreover have "curveN - s \<le> nHalf" if "nHalf < s"
    using that by (simp add: nHalf_def curveN_def)
  ultimately show ?thesis using s nz sig by auto
qed

lemma sign_loop_range:
  "sign_loop d z hash n i = Some (Inr sig) \<Longrightarrow> 0 < R sig \<and> R sig < curveN \<and> 0 < S sig \<and> S sig \<le> nHalf"
  by (induction n arbitrary: i)
    (auto split: option.splits sum.splits if_splits dest: sign_attempt_range)

lemma Sign_form:
  assumes "Sign k hash = Some (Inr sig)"
  shows "0 < R sig" and "R sig < curveN" and "0 < S sig" and "S sig < curveN" and "IsLowS sig"
    and "\<exists>b. SerializeSig sig = Inr b \<and> length b = 64 \<and> ParseSignature b = Inr sig"
proof -
  obtain z n i d where "sign_loop d z hash n i = Some (Inr sig)"
    using assms by (auto simp: Sign_def split: option.splits if_splits)
  then have r: "0 < R sig" "R sig < curveN" "0 < S sig" "S sig \<le> nHalf" using sign_loop_range by blast+
  then have s: "S sig < curveN" by (simp add: nHalf_def curveN_def)
  show "0 < R sig" "R sig < curveN" "0 < S sig" "S sig < curveN" "IsLowS sig" using r s by (simp_all add: IsLowS_def)
  obtain b where b: "SerializeSig sig = Inr b" "ParseSignature b = Inr sig"
    by (rule SerializeSig_ok [of sig]) (use r s curve_bounds in auto)
  then have "length b = 64" by (simp add: ParseSignature_def split: if_splits)
  then show "\<exists>b. SerializeSig sig = Inr b \<and> length b = 64 \<and> ParseSignature b = Inr sig" using b by blast
qed

section \<open>Points\<close>

lemma ParseCompressed_ok:
  assumes "ParseCompressed b = Inr pub"
  shows "length b = 33" and "b ! 0 = (if even (Y pub) then 2 else 3)" and "X pub = int_of_bytes (drop 1 b)"
    and "onCurve (X pub) (Y pub)"
proof -
  define x where "x = int_of_bytes (drop 1 b)"
  define y0 where "y0 = mod_exp ((x * x * x + 7) mod curveP) (nat ((curveP + 1) div 4)) curveP"
  define y where "y = (if odd y0 \<noteq> (b ! 0 = 3) then curveP - y0 else y0)"
  have "ParseCompressed b =
      (if length b \<noteq> 33 \<or> (b ! 0 \<noteq> 2 \<and> b ! 0 \<noteq> 3) then Inl (ErrOther ''crypto: bad compressed public key'')
       else if curveP \<le> x then Inl (ErrOther ''crypto: x out of field range'')
       else if (y0 * y0) mod curveP \<noteq> (x * x * x + 7) mod curveP then Inl (ErrOther ''crypto: point not on curve'')
       else if \<not> onCurve x y then Inl (ErrOther ''crypto: decompressed point not on curve'')
       else Inr \<lparr>X = x, Y = y\<rparr>)"
    unfolding ParseCompressed_def Let_def x_def y0_def y_def by (rule refl)
  then have len: "length b = 33" and b0: "b ! 0 = 2 \<or> b ! 0 = 3" and pub: "pub = \<lparr>X = x, Y = y\<rparr>" and on: "onCurve x y"
    using assms by (simp_all only: split: if_splits) auto
  have "even y \<longleftrightarrow> b ! 0 \<noteq> 3" using curveP_odd by (auto simp: y_def)
  then show "b ! 0 = (if even (Y pub) then 2 else 3)" using b0 pub by auto
  show "length b = 33" "X pub = int_of_bytes (drop 1 b)" "onCurve (X pub) (Y pub)"
    using len pub on by (simp_all add: x_def)
qed

lemma SerializeCompressed_ok:
  assumes "0 \<le> X pub" and "X pub < 256 ^ 32"
  obtains bs where "SerializeCompressed pub = Inr ((if even (Y pub) then 2 else 3) # bs)"
    and "length bs = 32" and "int_of_bytes bs = X pub"
proof -
  let ?p = "if even (Y pub) then 2 else 3 :: byte"
  obtain bs where "copy_at_end (?p # replicate 32 0) (bytes_of_int (X pub)) = Inr ([?p] @ bs)" "length bs = 32"
    "int_of_bytes bs = X pub"
    by (rule copy_at_end_ok [OF assms, of "[?p]" "?p # replicate 32 0"]) auto
  then show thesis using that by (simp add: SerializeCompressed_def)
qed

lemma onCurve_range: "onCurve x y \<Longrightarrow> 0 \<le> x \<and> x < 256 ^ 32"
  using curve_bounds by (auto simp: onCurve_def split: if_splits)

lemma mod_exp_1: "1 < m \<Longrightarrow> mod_exp 1 e m = 1"
proof (induction e rule: less_induct)
  case (less e)
  show ?case
  proof (cases "e = 0")
    case True
    then show ?thesis using less by (simp add: mod_exp.simps)
  next
    case False
    then have "mod_exp 1 (e div 2) m = 1" using less by simp
    then show ?thesis using less(2) False by (subst mod_exp.simps) simp
  qed
qed

lemma ParseCompressed_one:
  assumes "length b = 33" and "b ! 0 = 3" and "int_of_bytes (drop 1 b) = x" and "\<not> curveP \<le> x"
    and "(x * x * x + 7) mod curveP = 1" and "onCurve x 1"
  shows "ParseCompressed b = Inr \<lparr>X = x, Y = 1\<rparr>"
  using assms mod_exp_1 [OF curve_bounds(2)] curve_bounds(2) by (simp add: ParseCompressed_def Let_def)

text \<open>What \<open>Verify\<close> can do to the key.\<close>

lemma scalarMult_own: "snd (scalarMult u x y) \<Longrightarrow> fst (scalarMult u x y) = Some (x, y)"
  by (cases "int_bits u" rule: rev_cases)
    (auto simp: scalarMult_def mult_step_def pointAdd_def Let_def split: if_splits)

lemma Verify_run_key:
  assumes "Verify_run pub hash sig = Inr (ok, pub')"
  shows "pub' = pub \<or> pub' = pub\<lparr>X := X pub mod curveN\<rparr>"
proof (cases "ModInverse (S sig) curveN")
  case None
  then show ?thesis using assms by (simp add: Verify_run_def split: if_splits)
next
  case (Some w)
  define p1 where "p1 = scalarBaseMult ((bits2int hash 256 * w) mod curveN)"
  define m where "m = scalarMult ((R sig * w) mod curveN) (X pub) (Y pub)"
  have run: "pub' = pub \<or> (case pointAdd p1 (fst m) of None \<Rightarrow> False
      | Some (x, _) \<Rightarrow> p1 = None \<and> snd m \<and> pub' = pub\<lparr>X := x mod curveN\<rparr>)"
    using assms
    by (cases m; cases "pointAdd p1 (fst m)"; cases "p1 = None \<and> snd m")
      (auto simp: Verify_run_def Some p1_def [symmetric] m_def [symmetric] Let_def simp del: split_paired_Ex split: if_splits)
  show ?thesis
  proof (cases "p1 = None \<and> snd m")
    case True
    then have "pointAdd p1 (fst m) = Some (X pub, Y pub)"
      using scalarMult_own by (simp add: m_def pointAdd_def)
    then show ?thesis using run by auto
  next
    case False
    then show ?thesis using run by (auto split: option.splits)
  qed
qed

section \<open>Properties\<close>

text \<open>
  A parsed public key is a point of the curve, and serialising it gives back the bytes it was
  parsed from: no two encodings parse to the same key.
\<close>

theorem ParseCompressed_sound:
  assumes "ParseCompressed b = Inr pub"
  shows "onCurve (X pub) (Y pub) \<and> SerializeCompressed pub = Inr b"
proof
  note p = ParseCompressed_ok [OF assms]
  show on: "onCurve (X pub) (Y pub)" by (rule p(4))
  obtain bs where bs: "SerializeCompressed pub = Inr ((if even (Y pub) then 2 else 3) # bs)"
    "length bs = 32" "int_of_bytes bs = X pub"
    using SerializeCompressed_ok onCurve_range [OF on] by blast
  have "bs = drop 1 b" using bs(2,3) p(1,3) by (intro int_of_bytes_inj) simp_all
  moreover have "b = b ! 0 # drop 1 b" using p(1) by (cases b) auto
  ultimately have "(if even (Y pub) then 2 else 3) # bs = b" using p(2) by simp
  then show "SerializeCompressed pub = Inr b" using bs(1) by simp
qed

theorem ParseCompressed_sound_witness:
  "onCurve 14420825845716772930243294451304383010336953996540286189290595400563546912007 1 \<and>
   SerializeCompressed \<lparr>X = 14420825845716772930243294451304383010336953996540286189290595400563546912007, Y = 1\<rparr>
     = Inr (3 # [31, 225, 229, 239, 63, 206, 181, 193, 53, 171, 119, 65, 51, 60, 229, 166, 232, 13, 104, 22, 118, 83, 246, 178, 178, 75, 203, 207, 170, 175, 245, 7])"
  (is "onCurve ?x 1 \<and> _ = Inr (3 # ?bs)")
proof -
  have x: "int_of_bytes ?bs = ?x" by (simp add: int_of_bytes_def)
  have "?x * ?x * ?x + 7 = 1 + curveP * 25899507534701520581795134778160311015495504093523267263232233975490419224647606583316828070306725531077228335006842549734466553100443339289797036604723"
    by (simp add: curveP_def)
  then have rhs: "(?x * ?x * ?x + 7) mod curveP = 1"
    using curve_bounds(2) by (simp only: mod_mult_self2) simp
  have on: "onCurve ?x 1" by (simp only: onCurve_def rhs) (simp add: curveP_def)
  have "\<not> curveP \<le> ?x" by (simp add: curveP_def)
  from ParseCompressed_one [OF _ _ _ this rhs on, of "3 # ?bs"] x
  have "ParseCompressed (3 # ?bs) = Inr \<lparr>X = ?x, Y = 1\<rparr>" by simp
  from ParseCompressed_sound [OF this] show ?thesis by simp
qed

text \<open>
  C21. \<open>Sign\<close> refuses, as invalid, exactly a missing key, the scalar zero and scalars not below the order; it does
  not refuse a negative scalar, which the comment on \<open>PrivateKey\<close> excludes as well. A signature that it returns has
  both components in \<open>[1, n-1]\<close> and a low \<open>S\<close>, and its 64-byte form parses back to it.
\<close>

theorem Sign_canonical:
  "(Sign k hash = Some (Inl (ErrOther ''crypto: invalid private key'')))
     = (case k of None \<Rightarrow> True | Some d \<Rightarrow> D d = 0 \<or> curveN \<le> D d) \<and>
   (case Sign k hash of
      Some (Inr sig) \<Rightarrow> 0 < R sig \<and> R sig < curveN \<and> 0 < S sig \<and> S sig < curveN \<and> IsLowS sig \<and>
        (\<exists>b. SerializeSig sig = Inr b \<and> length b = 64 \<and> ParseSignature b = Inr sig)
    | _ \<Rightarrow> True)"
proof (intro conjI)
  have att: "sign_attempt d z n \<noteq> Inl (ErrOther e)" for d z n e
    by (simp add: sign_attempt_def Let_def split: option.split)
  have "sign_loop d z hash n i \<noteq> Some (Inl (ErrOther ''crypto: invalid private key''))" for d z n i
    by (induction n arbitrary: i) (auto split: option.splits sum.splits if_splits simp: att)
  then show "(Sign k hash = Some (Inl (ErrOther ''crypto: invalid private key'')))
     = (case k of None \<Rightarrow> True | Some d \<Rightarrow> D d = 0 \<or> curveN \<le> D d)"
    by (auto simp: Sign_def split: option.split)
next
  show "case Sign k hash of
      Some (Inr sig) \<Rightarrow> 0 < R sig \<and> R sig < curveN \<and> 0 < S sig \<and> S sig < curveN \<and> IsLowS sig \<and>
        (\<exists>b. SerializeSig sig = Inr b \<and> length b = 64 \<and> ParseSignature b = Inr sig)
    | _ \<Rightarrow> True"
    by (auto split: option.split sum.split dest: Sign_form)
qed

text \<open>
  The malleability transform: for a parsed signature with \<open>S\<close> in \<open>[1, n-1]\<close> it keeps \<open>R\<close> and
  replaces \<open>S\<close> by \<open>n - S\<close>; exactly one of the two forms is low, and doing it twice gives the
  signature back.
\<close>

theorem Malleate_flips:
  assumes "ParseSignature b = Inr s" and "0 < S s" and "S s < curveN"
  shows "\<exists>b'. Malleate b = Inr b' \<and> ParseSignature b' = Inr \<lparr>R = R s, S = curveN - S s\<rparr> \<and>
    (IsLowS \<lparr>R = R s, S = curveN - S s\<rparr> \<longleftrightarrow> \<not> IsLowS s) \<and> Malleate b' = Inr b"
proof -
  let ?t = "\<lparr>R = R s, S = curveN - S s\<rparr>"
  have "0 \<le> R s" "R s < 256 ^ 32"
    using assms(1) int_of_bytes_range [of "take 32 b"] by (auto simp: ParseSignature_def split: if_splits)
  moreover have "0 \<le> curveN - S s" "curveN - S s < 256 ^ 32" using assms(2,3) curve_bounds(3) by linarith+
  ultimately obtain b' where b': "SerializeSig ?t = Inr b'" "ParseSignature b' = Inr ?t"
    using SerializeSig_ok [of ?t] by auto
  have "Malleate b' = Inr b"
    using b'(2) SerializeSig_Parse [OF assms(1)] by (cases s) (simp add: Malleate_def)
  moreover have "IsLowS ?t \<longleftrightarrow> \<not> IsLowS s"
    using assms(2,3) by (auto simp: IsLowS_def nHalf_def curveN_def)
  ultimately show ?thesis using assms(1) b' by (auto simp: Malleate_def)
qed

theorem Malleate_flips_witness:
  "\<exists>b'. Malleate (replicate 31 0 @ [1] @ replicate 31 0 @ [1]) = Inr b' \<and>
     Malleate b' = Inr (replicate 31 0 @ [1] @ replicate 31 0 @ [1])"
proof -
  have "ParseSignature (replicate 31 0 @ [1] @ replicate 31 0 @ [1]) = Inr \<lparr>R = 1, S = 1\<rparr>"
    using int_of_bytes_zeros [of 31 "[]"] by (simp add: ParseSignature_def)
  from Malleate_flips [OF this] show ?thesis using curve_bounds(1) by auto
qed

text \<open>
  \<open>Verify\<close> may write to the caller's key: for the zero hash and the signature \<open>(1, 1)\<close> the sum
  of the two products is the key's own pair of integers, and reducing its x-coordinate modulo
  the order overwrites the key. A key whose x-coordinate is below the order is never changed.
\<close>

theorem Verify_writes_key:
  assumes "onCurve (X pub) (Y pub)"
  shows "Verify_run pub (replicate 32 0) \<lparr>R = 1, S = 1\<rparr>
      = Inr (X pub mod curveN = 1, pub\<lparr>X := X pub mod curveN\<rparr>) \<and>
    (X pub < curveN \<longrightarrow> (\<forall>hash sig ok pub'. Verify_run pub hash sig = Inr (ok, pub') \<longrightarrow> pub' = pub))"
proof (intro conjI impI allI)
  have z: "bits2int (replicate 32 0) 256 = 0"
    using int_of_bytes_zeros [of 32 "[]"] by (simp add: bits2int_def)
  have inv: "ModInverse 1 curveN = Some 1"
    using curve_bounds(1) by (simp add: ModInverse_def egcd.simps)
  have base: "scalarBaseMult 0 = None"
    by (simp add: scalarBaseMult_def scalarMult_def int_bits_def)
  have own: "scalarMult 1 x y = (Some (x, y), True)" for x y
    by (simp add: scalarMult_def int_bits_def bit_len_pos mult_step_def pointDouble_def pointAdd_def)
  show "Verify_run pub (replicate 32 0) \<lparr>R = 1, S = 1\<rparr>
      = Inr (X pub mod curveN = 1, pub\<lparr>X := X pub mod curveN\<rparr>)"
    using assms curve_bounds(1) by (simp add: Verify_run_def z inv base own pointAdd_def Let_def)
next
  fix hash sig ok pub'
  assume small: "X pub < curveN" and v: "Verify_run pub hash sig = Inr (ok, pub')"
  have "X pub mod curveN = X pub" using small onCurve_range [OF assms] by simp
  then show "pub' = pub" using Verify_run_key [OF v] by auto
qed

theorem Verify_writes_key_witness:
  "Verify_run \<lparr>X = curveN, Y = 69186903114498750860896505739646488798970448350379198433587849548453839594014\<rparr>
     (replicate 32 0) \<lparr>R = 1, S = 1\<rparr>
   = Inr (False, \<lparr>X = 0, Y = 69186903114498750860896505739646488798970448350379198433587849548453839594014\<rparr>)"
  (is "Verify_run \<lparr>X = _, Y = ?y\<rparr> _ _ = _")
proof -
  let ?r = "108151030074228567027080063205947167212138114504359820420295568593193614914444 :: int"
  have y: "?y * ?y = ?r + curveP * 41339849674569919088571825607835588337083452977538407435842419534053479309704"
    by (simp add: curveP_def)
  have x: "curveN * curveN * curveN + 7 = ?r + curveP *
      13407807929942597099574024998205846127329153240624656492843609923727042812266882646129218613356621389749368258978380026461188652515302899532143761815193732"
    by (simp add: curveP_def curveN_def)
  have "(?y * ?y) mod curveP = (curveN * curveN * curveN + 7) mod curveP"
    unfolding x y by (simp only: mod_mult_self2)
  moreover have "\<not> (curveN < 0 \<or> ?y < 0 \<or> curveP \<le> curveN \<or> curveP \<le> ?y)"
    by (simp add: curveP_def curveN_def)
  ultimately have "onCurve curveN ?y" unfolding onCurve_def by (simp only: if_False simp_thms)
  then have "onCurve (X \<lparr>X = curveN, Y = ?y\<rparr>) (Y \<lparr>X = curveN, Y = ?y\<rparr>)" by simp
  from Verify_writes_key [OF this] show ?thesis by simp
qed

end
