(* ===== verification/MeasureFabric.thy ===== *)
theory MeasureFabric
  imports Pull Workers Crypto
begin

text \<open>
  The measuring functions of package \<open>fabric\<close> as pools of workers: \<open>MeasurePullThroughput\<close>
  (src/fabric/pull.go), and \<open>MeasureBatchThroughputReal\<close>, \<open>MeasureSparseThroughputReal\<close>,
  \<open>MeasureStreamThroughput\<close>, \<open>MeasureSignatureCeiling\<close> (src/fabric/report.go).

  Each is the predicate of the pools that its goroutines can reach from the start at time \<open>now\<close>. A
  pass is one iteration of the timed loop.
\<close>

section \<open>The workers\<close>

text \<open>A worker that has not started slices its share first.\<close>

definition pull_worker ::
  "'h lanes \<Rightarrow> 'h \<Rightarrow> (nat \<Rightarrow> path_elem list) \<Rightarrow> mock_node \<Rightarrow> (hash \<rightharpoonup> bool) \<Rightarrow> hash list \<Rightarrow> nat
    \<Rightarrow> (hash list \<times> 'h \<times> pull_lane list) option pass" where
  "pull_worker run h0 grow node valid txids cores w st =
     (let st = (case st of
            Some x \<Rightarrow> Inr x
          | None \<Rightarrow> map_res (\<lambda>(start, end1). (go_slice txids start end1, h0, replicate 16 new_lane))
              (worker_slice (length txids) cores w))
      in case st of
           Inl e \<Rightarrow> Inl e
         | Inr (mine, h, pls) \<Rightarrow>
             map_res (\<lambda>(h, pls, local). (Some (mine, h, pls), of_nat local))
               (let n16 = (length mine div 16) * 16 in pull_groups run grow node valid mine (n16 div 16) 0 h pls 0))"

definition MeasurePullThroughput ::
  "'h lanes \<Rightarrow> 'h \<Rightarrow> (nat \<Rightarrow> path_elem list) \<Rightarrow> mock_node \<Rightarrow> hash list \<Rightarrow> nat \<Rightarrow> nat \<Rightarrow> nat
    \<Rightarrow> (nat \<Rightarrow> nat) \<Rightarrow> (hash list \<times> 'h \<times> pull_lane list) option pool \<Rightarrow> bool" where
  "MeasurePullThroughput run h grow node txids cores now deadline made s =
     (let cores = at_least_one cores in
      case valid_loop grow node txids (Map.empty, nil_buf, nil_buf) of
        Inl e \<Rightarrow> False
      | Inr valid \<Rightarrow>
          timed_loop False False (pull_worker run h grow node valid txids cores) (replicate cores None) now deadline made s)"

definition batch_pass :: "hasher \<Rightarrow> bytes \<Rightarrow> header_chain option \<Rightarrow> unit pass" where
  "batch_pass h wire view i u =
     (case DecodeBatch wire of
        Inl e \<Rightarrow> Inl Panic
      | Inr dec \<Rightarrow>
          if \<not> fst (BatchVerify h dec view) then Inl Panic else Inr (u, of_nat (length dec)))"

definition MeasureBatchThroughputReal ::
  "hasher \<Rightarrow> bytes \<Rightarrow> header_chain option \<Rightarrow> nat \<Rightarrow> nat \<Rightarrow> nat \<Rightarrow> (nat \<Rightarrow> nat) \<Rightarrow> unit pool \<Rightarrow> bool" where
  "MeasureBatchThroughputReal h wire view cores = timed_loop True True (batch_pass h wire view) (replicate cores ())"

primrec sparse_checks :: "nat \<Rightarrow> hasher \<Rightarrow> bytes \<Rightarrow> header_chain option \<Rightarrow> nat \<Rightarrow> nat res" where
  "sparse_checks 0 h wire view count = Inr count"
| "sparse_checks (Suc n) h wire view count =
     (case DecodeBatch wire of
        Inl e \<Rightarrow> Inl Panic
      | Inr dec \<Rightarrow>
          if length dec \<noteq> 1 then Inl Panic
          else if \<not> fst (VerifyOne h (dec ! 0) view) then Inl Panic
          else sparse_checks n h wire view (count + 1))"

definition sparse_pass :: "hasher \<Rightarrow> bytes \<Rightarrow> header_chain option \<Rightarrow> unit pass" where
  "sparse_pass h wire view i u = map_res (\<lambda>n. (u, of_nat n)) (sparse_checks 1024 h wire view 0)"

definition MeasureSparseThroughputReal ::
  "hasher \<Rightarrow> bytes \<Rightarrow> header_chain option \<Rightarrow> nat \<Rightarrow> nat \<Rightarrow> nat \<Rightarrow> (nat \<Rightarrow> nat) \<Rightarrow> unit pool \<Rightarrow> bool" where
  "MeasureSparseThroughputReal h wire view cores = timed_loop True True (sparse_pass h wire view) (replicate cores ())"

text \<open>\<open>VerifyWire\<close> empties the maps of the worker's verifier first, so a new one gives the same result.\<close>

definition stream_pass :: "hasher \<Rightarrow> bytes \<Rightarrow> header_chain option \<Rightarrow> unit pass" where
  "stream_pass h wire view i u =
     (case VerifyWire NewVerifier h wire view of
        (ok, _, np) \<Rightarrow> if \<not> ok then Inl Panic else Inr (u, of_nat np))"

definition MeasureStreamThroughput ::
  "hasher \<Rightarrow> bytes \<Rightarrow> header_chain option \<Rightarrow> nat \<Rightarrow> nat \<Rightarrow> nat \<Rightarrow> (nat \<Rightarrow> nat) \<Rightarrow> unit pool \<Rightarrow> bool" where
  "MeasureStreamThroughput h wire view cores = timed_loop True True (stream_pass h wire view) (replicate cores ())"

text \<open>
  The key, the digest and the signature that every worker verifies. The code drops the error of
  \<open>Sign\<close>; here it is the failure of the definition. The outer \<open>None\<close> is a nonce search that does not end.
\<close>

definition signature_inputs :: "(public_key \<times> bytes \<times> signature) res option" where
  "signature_inputs =
     (let seed = sha256 (map of_char ''fabric-sig'');
          key = NewPrivateKey (bytes_of seed);
          msg = bytes_of (sha256 (map of_char ''payment''))
      in case Public key of
           None \<Rightarrow> Some (Inl Panic)
         | Some pub \<Rightarrow> map_option (map_res (\<lambda>sig. (pub, msg, sig))) (Sign (Some key) msg))"

definition signature_pass :: "public_key \<Rightarrow> bytes \<Rightarrow> signature \<Rightarrow> unit pass" where
  "signature_pass pub msg sig i u = map_res (\<lambda>ok. (u, if ok then 1 else 0)) (VerifySig pub msg sig)"

definition MeasureSignatureCeiling :: "nat \<Rightarrow> nat \<Rightarrow> nat \<Rightarrow> (nat \<Rightarrow> nat) \<Rightarrow> unit pool \<Rightarrow> bool" where
  "MeasureSignatureCeiling cores now deadline made s \<longleftrightarrow>
     (case signature_inputs of
        Some (Inr (pub, msg, sig)) \<Rightarrow>
          timed_loop True True (signature_pass pub msg sig) (replicate cores ()) now deadline made s
      | _ \<Rightarrow> False)"

text \<open>
  \<open>MeasureAggregateHashRate\<close> has no deadline: every goroutine hashes a fixed number of messages, of which the
  digests are discarded, and the caller divides by the \<open>secs\<close> that passed.
\<close>

definition aggregate_per :: nat where
  "aggregate_per = 1500000"

definition aggregate_digests :: "byte \<Rightarrow> hash list" where
  "aggregate_digests seed =
     map (\<lambda>i. DoubleSHA256 ([seed, word_of_nat i, word_of_nat (i div 256)] @ replicate 61 0)) [0..<aggregate_per]"

definition MeasureAggregateHashRate :: "nat \<Rightarrow> real \<Rightarrow> real" where
  "MeasureAggregateHashRate cores secs = real (cores * aggregate_per) / secs"

definition passFail :: "bool \<Rightarrow> string" where
  "passFail ok = (if ok then ''PASS'' else ''FAIL'')"

lemma VerifyWire_any: "VerifyWire v h wire view = VerifyWire NewVerifier h wire view"
proof -
  have "reset v = reset NewVerifier" by (cases v) (simp add: reset_def NewVerifier_def)
  then show ?thesis by (simp add: VerifyWire_def)
qed

section \<open>Every pass keeps its contract\<close>

lemma stream_loop:
  assumes "list_all proof_ok ps" and "list_all (\<lambda>p. length (L1 p) \<le> 32) ps" and "length ps \<le> 2 ^ 24"
    and "fst (BatchVerify h ps view)"
  shows "worker_loop (stream_pass h (EncodeBatch ps @ junk) view) (\<lambda>_ _. True) (\<lambda>_. of_nat (length ps))"
proof
  obtain n where "VerifyWire NewVerifier h (EncodeBatch ps @ junk) view = (True, n, length ps)"
    using VerifyWire_batch [OF assms(1-3), where v = NewVerifier and h = h and junk = junk and view = view] assms(4)
    by (auto split: prod.splits if_splits)
  then show "\<exists>l'. stream_pass h (EncodeBatch ps @ junk) view i l = Inr (l', of_nat (length ps)) \<and> True" for i l
    by (simp add: stream_pass_def)
qed

lemma batch_loop_ok:
  assumes "list_all proof_ok ps" and "length ps < 2 ^ 32" and "fst (BatchVerify h ps view)"
  shows "worker_loop (batch_pass h (EncodeBatch ps @ junk) view) (\<lambda>_ _. True) (\<lambda>_. of_nat (length ps))"
  by unfold_locales (simp add: batch_pass_def DecodeBatch_Encode [OF assms(1,2)] assms(3))

lemma sparse_checks_ok:
  assumes "proof_ok p" and "fst (VerifyOne h p view)"
  shows "sparse_checks n h (EncodeBatch [p] @ junk) view c = Inr (c + n)"
proof (induction n arbitrary: c)
  case (Suc n)
  have "DecodeBatch (EncodeBatch [p] @ junk) = Inr [p]" using DecodeBatch_Encode [of "[p]"] assms(1) by simp
  then show ?case using Suc assms(2) by simp
qed simp

lemma sparse_loop:
  assumes "proof_ok p" and "fst (VerifyOne h p view)"
  shows "worker_loop (sparse_pass h (EncodeBatch [p] @ junk) view) (\<lambda>_ _. True) (\<lambda>_. of_nat 1024)"
  by unfold_locales (simp add: sparse_pass_def sparse_checks_ok [OF assms])

context sixteen_lanes
begin

definition pull_ok :: "hash list \<Rightarrow> nat \<Rightarrow> nat \<Rightarrow> (hash list \<times> 'h \<times> pull_lane list) option \<Rightarrow> bool" where
  "pull_ok txids cores i st \<longleftrightarrow> i < cores \<and>
     (case st of
        None \<Rightarrow> True
      | Some (mine, h, pls) \<Rightarrow>
          mine = go_slice txids (i * (length txids div cores)) (i * (length txids div cores) + length txids div cores) \<and>
          ok h \<and> length pls = 16)"

lemma pull_loop:
  assumes "node_inv cap n" and "cap \<le> 2 ^ 20" and "\<And>t. t \<in> set txids \<Longrightarrow> on_chain_tx n t" and "one_length n txids"
    and "\<And>t p s. t \<in> set txids \<Longrightarrow> node_SubtreePathFor n t = Inr (p, s) \<Longrightarrow> valid s = Some True"
    and "16 \<le> length txids div cores" and "ok h0"
  shows "worker_loop (pull_worker run h0 grow n valid txids cores) (pull_ok txids cores)
    (\<lambda>_. of_nat (16 * (length txids div cores div 16)))"
proof
  fix i st assume st: "pull_ok txids cores i st"
  let ?k = "length txids div cores"
  let ?mine = "go_slice txids (i * ?k) (i * ?k + ?k)"
  have i: "i < cores" using st by (simp add: pull_ok_def)
  note share = worker_slice_share [OF i assms(6)]
  have len: "length ?mine = ?k" using share by simp
  have mine: "t \<in> set txids" if "t \<in> set ?mine" for t
    using that unfolding go_slice_def by (metis in_set_takeD in_set_dropD)
  have "t \<in> set txids" if "t \<in> set (go_slice ?mine a b)" for t a b
    using that mine [of t] unfolding go_slice_def by (metis in_set_takeD in_set_dropD)
  then have one: "one_length n (go_slice ?mine a b)" for a b using assms(4) unfolding one_length_def by meson
  obtain h pls where hp: "ok h" "length pls = 16" and
    start: "(case st of Some x \<Rightarrow> Inr x
          | None \<Rightarrow> map_res (\<lambda>(start, end1). (go_slice txids start end1, h0, replicate 16 new_lane))
              (worker_slice (length txids) cores i)) = Inr (?mine, h, pls)"
    using st share assms(7) by (cases st) (auto simp: pull_ok_def)
  have ok: "valid s = Some True" if "t \<in> set ?mine" "node_SubtreePathFor n t = Inr (p, s)" for t p s
    using assms(5) [OF mine [OF that(1)] that(2)] .
  have "\<exists>h' pls'. pull_groups run grow n valid ?mine (length ?mine div 16) 0 h pls 0
      = Inr (h', pls', 0 + 16 * (length ?mine div 16)) \<and> ok h' \<and> length pls' = 16"
    by (rule pull_groups_ok [OF assms(1,2) _ _ hp]) (use mine assms(3) ok one in auto)
  then obtain h' pls' where g: "pull_groups run grow n valid ?mine (?k div 16) 0 h pls 0 = Inr (h', pls', 16 * (?k div 16))"
    "ok h'" "length pls' = 16" unfolding len by auto
  have "pull_worker run h0 grow n valid txids cores i st = Inr (Some (?mine, h', pls'), of_nat (16 * (?k div 16)))"
    using g(1) len unfolding pull_worker_def start by simp
  then show "\<exists>l'. pull_worker run h0 grow n valid txids cores i st = Inr (l', of_nat (16 * (?k div 16))) \<and> pull_ok txids cores i l'"
    using g(2,3) i by (simp add: pull_ok_def)
qed

end

lemma signature_loop_ok:
  assumes "VerifySig pub msg sig = Inr ok"
  shows "worker_loop (signature_pass pub msg sig) (\<lambda>_ _. True) (\<lambda>_. of_nat (if ok then 1 else 0))"
  by unfold_locales (simp add: signature_pass_def assms)

section \<open>Properties\<close>

lemma MeasureSignatureCeiling_counts:
  assumes "signature_inputs = Some (Inr (pub, msg, sig))" and "VerifySig pub msg sig = Inr ok"
    and "MeasureSignatureCeiling cores now deadline made s"
  shows "counts_passes True True (signature_pass pub msg sig) deadline cores (if ok then 1 else 0) made s"
proof -
  have "timed_loop True True (signature_pass pub msg sig) (replicate cores ()) now deadline made s"
    using assms(3) unfolding MeasureSignatureCeiling_def assms(1) by simp
  from timed_loop_counts [OF signature_loop_ok [OF assms(2)] this] show ?thesis by simp
qed

lemma MeasureBatchThroughputReal_counts:
  assumes "list_all proof_ok ps" and "length ps < 2 ^ 32" and "fst (BatchVerify h ps view)"
    and "MeasureBatchThroughputReal h (EncodeBatch ps @ junk) view cores now deadline made s"
  shows "counts_passes True True (batch_pass h (EncodeBatch ps @ junk) view) deadline cores (length ps) made s"
  using timed_loop_counts [OF batch_loop_ok [OF assms(1-3)] assms(4) [unfolded MeasureBatchThroughputReal_def]] by simp

lemma MeasureSparseThroughputReal_counts:
  assumes "proof_ok p" and "fst (VerifyOne h p view)"
    and "MeasureSparseThroughputReal h (EncodeBatch [p] @ junk) view cores now deadline made s"
  shows "counts_passes True True (sparse_pass h (EncodeBatch [p] @ junk) view) deadline cores 1024 made s"
  using timed_loop_counts [OF sparse_loop [OF assms(1,2)] assms(3) [unfolded MeasureSparseThroughputReal_def]] by simp

text \<open>
  C39. The measurement of the streaming pipeline counts what it verifies, in every interleaving. Take a
  batch of at most \<open>2^24\<close> proofs within the length fields of the format, subtree paths of at most 32
  elements, that the batch verifier accepts. After any run of the workers of \<open>MeasureStreamThroughput\<close> no worker
  has panicked; as long as one is not done some worker can step, also while another holds the mutex; once
  the clock is past the deadline every step of a worker brings the end nearer; and when all are done the
  shared total, although it is read and written in separate steps, is the number of proofs times the
  number of passes that the workers completed in that run, modulo \<open>2^64\<close>: no update is lost.
\<close>
theorem MeasureStreamThroughput_counts:
  assumes "list_all proof_ok ps" and "list_all (\<lambda>p. length (L1 p) \<le> 32) ps" and "length ps \<le> 2 ^ 24"
    and "fst (BatchVerify h ps view)"
    and "MeasureStreamThroughput h (EncodeBatch ps @ junk) view cores now deadline made s"
  shows "counts_passes True True (stream_pass h (EncodeBatch ps @ junk) view) deadline cores (length ps) made s"
  using timed_loop_counts [OF stream_loop [OF assms(1-4)] assms(5) [unfolded MeasureStreamThroughput_def]] by simp

text \<open>Two workers that start with the clock before the deadline, make one pass each and finish.\<close>

theorem MeasureStreamThroughput_counts_witness:
  "let ps = sibling_proofs zero_hash (DoubleSHA256 []) in
     0 < length ps \<and> (\<exists>made s. MeasureStreamThroughput Software (EncodeBatch ps @ []) None 2 0 10 made s \<and>
       all_done s \<and> made 0 = 1 \<and> made 1 = 1 \<and> tally s = of_nat (2 * length ps))"
proof -
  let ?ps = "sibling_proofs zero_hash (DoubleSHA256 [])"
  let ?pass = "stream_pass Software (EncodeBatch ?ps @ []) None"
  have ok: "list_all proof_ok ?ps" "list_all (\<lambda>p. length (L1 p) \<le> 32) ?ps" and len: "length ?ps \<le> 2 ^ 24" "0 < length ?ps"
    by (simp_all add: sibling_proofs_def proof_ok_def max_path_def Let_def)
  have acc: "fst (BatchVerify Software ?ps None)" by (simp add: sibling_batch)
  have two: "replicate 2 () = [(), ()]" by (simp add: numeral_eq_Suc)
  have "?pass i () = Inr ((), of_nat (length ?ps))" for i
    using worker_loop.pass_ok [OF stream_loop [OF ok len(1) acc, where junk = "[]"], of i "()"] by simp
  then obtain made s where run: "timed_loop True True ?pass [(), ()] 0 10 made s" "all_done s"
    and made: "made 0 = 1" "made 1 = 1" by (rule two_workers_finish)
  have m: "MeasureStreamThroughput Software (EncodeBatch ?ps @ []) None 2 0 10 made s"
    using run(1) by (simp only: MeasureStreamThroughput_def two)
  have "tally s = of_nat ((\<Sum>i<2. made i) * length ?ps)"
    using MeasureStreamThroughput_counts [OF ok len(1) acc m] run(2) unfolding counts_passes_def by blast
  also have "(\<Sum>i<2. made i) = 2" using made by (simp add: numeral_eq_Suc)
  finally show ?thesis using m run(2) made len(2) unfolding Let_def by blast
qed

text \<open>
  The measurement of the pulling workers. On a node as above, with at least 16 transactions per
  worker, no worker of \<open>MeasurePullThroughput\<close> panics in any interleaving, some worker can always step
  until all are done, and the total is in the end the number of passes, at least one for each worker,
  times the whole groups of 16 of a share.
\<close>
theorem MeasurePullThroughput_counts:
  assumes "hasAVX512 cpu \<longrightarrow> kernel_law (sha256X16Avx512 cpu)"
    and "reachable_node cap n" and "0 < cap" and "cap \<le> 2 ^ 20"
    and "\<forall>t. t \<in> set txids \<longrightarrow> on_chain_tx n t" and "one_length n txids"
    and "16 \<le> length txids div at_least_one cores"
    and "MeasurePullThroughput (hasher_x16 cpu) NewHasher grow n txids cores now deadline made s"
  shows "\<exists>valid. counts_passes False False (pull_worker (hasher_x16 cpu) NewHasher grow n valid txids (at_least_one cores))
    deadline (at_least_one cores) (16 * (length txids div at_least_one cores div 16)) made s"
proof -
  have lanes: "sixteen_lanes (hasher_x16 cpu) hasher_ok"
    by (rule hasher_lanes) (use assms(1) in \<open>simp add: cpu_ok_def\<close>)
  have node: "node_inv cap n" using node_inv_reachable [OF assms(2,3)] .
  obtain valid where v: "valid_loop grow n txids (Map.empty, nil_buf, nil_buf) = Inr valid"
    "\<And>t p s. t \<in> set txids \<Longrightarrow> node_SubtreePathFor n t = Inr (p, s) \<Longrightarrow> valid s = Some True"
    using valid_loop_ok [OF node assms(4), of txids "(Map.empty, nil_buf, nil_buf)" grow] assms(5) by auto
  have run: "timed_loop False False (pull_worker (hasher_x16 cpu) NewHasher grow n valid txids (at_least_one cores))
      (replicate (at_least_one cores) None) now deadline made s"
    using assms(8) v(1) by (simp add: MeasurePullThroughput_def Let_def)
  have "worker_loop (pull_worker (hasher_x16 cpu) NewHasher grow n valid txids (at_least_one cores))
      (sixteen_lanes.pull_ok hasher_ok txids (at_least_one cores))
      (\<lambda>_. of_nat (16 * (length txids div at_least_one cores div 16)))"
    by (rule sixteen_lanes.pull_loop [OF lanes node assms(4) _ assms(6) _ assms(7) NewHasher_ok])
      (use assms(5) v(2) in auto)
  from timed_loop_counts [OF this run] show ?thesis
    by (simp add: sixteen_lanes.pull_ok_def [OF lanes]) blast
qed

theorem MeasurePullThroughput_counts_witness:
  "\<exists>n s valid. MeasurePullThroughput (hasher_x16 vector_cpu) NewHasher (\<lambda>_. []) n (replicate 35 zero_hash) 2 0 10 (\<lambda>_. 0) s \<and>
    (\<exists>s'. worker_step False (pull_worker (hasher_x16 vector_cpu) NewHasher (\<lambda>_. []) n valid (replicate 35 zero_hash) 2)
      (before False 10) s s')"
proof -
  let ?ts = "replicate 35 zero_hash" and ?h = "hasher_x16 vector_cpu" and ?s = "start_pool False [None, None] 0"
  obtain n where r: "reachable_node 1 n" and t: "on_chain_tx n zero_hash"
    using one_tx_chain .
  have cpu: "hasAVX512 vector_cpu \<longrightarrow> kernel_law (sha256X16Avx512 vector_cpu)" by (simp add: vector_cpu_def ref_kernel_law)
  have one: "one_length n ?ts"
    by (cases "node_SubtreePathFor n zero_hash") (auto simp: one_length_def)
  obtain valid where v: "valid_loop (\<lambda>_. []) n ?ts (Map.empty, nil_buf, nil_buf) = Inr valid"
    using valid_loop_ok [OF node_inv_reachable [OF r], of ?ts "(Map.empty, nil_buf, nil_buf)" "\<lambda>_. []"] t by auto
  have two: "at_least_one 2 = 2" "replicate 2 None = [None, None]" by (simp_all add: at_least_one_def numeral_eq_Suc)
  have run: "MeasurePullThroughput ?h NewHasher (\<lambda>_. []) n ?ts 2 0 10 (\<lambda>_. 0) ?s"
    by (simp only: MeasurePullThroughput_def Let_def v sum.case timed_loop_def two reach_pool.start)
  have "\<not> all_done ?s" by (simp add: all_done_def start_pool_def)
  moreover have "\<exists>valid. counts_passes False False (pull_worker ?h NewHasher (\<lambda>_. []) n valid ?ts (at_least_one 2)) 10
      (at_least_one 2) (16 * (length ?ts div at_least_one 2 div 16)) (\<lambda>_. 0) ?s"
    by (rule MeasurePullThroughput_counts [OF cpu r _ _ _ one _ run]) (use t in \<open>simp_all add: two\<close>)
  ultimately show ?thesis using run unfolding counts_passes_def two by blast
qed

end
