(* ===== verification/Reports.thy ===== *)
theory Reports
  imports MeasureFabric
begin

text \<open>
  The reports of package \<open>fabric\<close> (src/fabric/report.go: \<open>RunOneDepth\<close>, \<open>RunDepthSweep\<close>, \<open>RunReport\<close>) and
  the command \<open>scalebench\<close> (src/scalebench/main.go), as the lines they print. A line carries its numbers
  unformatted; texts without a number are left out.

  The measured rates are arguments: \<open>rate wire view\<close> is what \<open>MeasureStreamThroughput\<close> returns for a batch
  and its view, \<open>sig\<close> what \<open>MeasureSignatureCeiling\<close> returns.
\<close>

section \<open>Lines\<close>

definition Bar :: real where
  "Bar = 15000000"

datatype report_line =
    BuildError go_error
  | BlockLine nat int nat nat real real string
    \<comment> \<open>proofs, subtrees, depth, bytes, rate, A, verdict\<close>
  | DepthLine string int int nat real real string
    \<comment> \<open>label, depth, proofs, bytes, rate, A, verdict\<close>
  | SignatureLine real real

text \<open>A build error is printed; a panic ends the report.\<close>

definition line_or_error :: "('a \<Rightarrow> report_line) \<Rightarrow> 'a res \<Rightarrow> report_line res" where
  "line_or_error f r =
     (case r of
        Inl e \<Rightarrow> if e = Panic then Inl Panic else Inr (BuildError e)
      | Inr x \<Rightarrow> Inr (f x))"

text \<open>A loop that collects its results and ends at a panic.\<close>

fun all_lines :: "('a \<Rightarrow> 'b res) \<Rightarrow> 'a list \<Rightarrow> 'b list res" where
  "all_lines f [] = Inr []"
| "all_lines f (x # xs) =
     (case f x of
        Inl e \<Rightarrow> Inl e
      | Inr l \<Rightarrow> map_res ((#) l) (all_lines f xs))"

section \<open>Reports\<close>

definition RunOneDepth ::
  "(bytes \<Rightarrow> static_chain \<Rightarrow> real) \<Rightarrow> string \<Rightarrow> int \<Rightarrow> int \<Rightarrow> report_line res" where
  "RunOneDepth rate label depth nproofs =
     line_or_error
       (\<lambda>(wire, view). let v = rate wire view in
          DepthLine label depth nproofs (length wire) v (v / 10 ^ 7) (passFail (Bar \<le> v)))
       (BuildBatchAtDepth depth nproofs)"

definition sweep_levels :: "(string \<times> int) list" where
  "sweep_levels = [(''1e6'', 30), (''1e9'', 40), (''1e10'', 43), (''1e11'', 46)]"

definition RunDepthSweep :: "(bytes \<Rightarrow> static_chain \<Rightarrow> real) \<Rightarrow> int \<Rightarrow> report_line list res" where
  "RunDepthSweep rate nproofs = all_lines (\<lambda>(r, depth). RunOneDepth rate r depth nproofs) sweep_levels"

definition report_blocks :: "(int \<times> int) list" where
  "report_blocks = [(2 ^ 16, 4), (2 ^ 18, 4), (2 ^ 20, 1)]"

definition block_line :: "(bytes \<Rightarrow> static_chain \<Rightarrow> real) \<Rightarrow> int \<times> int \<Rightarrow> report_line res" where
  "block_line rate cfg =
     (let (subCap, numSub) = cfg in
      line_or_error
        (\<lambda>(proofs, view).
           let wire = EncodeBatch proofs; v = rate wire view; depth = commitmentDepth (nat subCap) (nat numSub) in
           BlockLine (length proofs) numSub depth (length wire) v (v / 10 ^ 7) (passFail (Bar \<le> v)))
        (BuildBlock subCap numSub))"

definition RunReport :: "(bytes \<Rightarrow> static_chain \<Rightarrow> real) \<Rightarrow> real \<Rightarrow> report_line list res" where
  "RunReport rate sig =
     (case all_lines (block_line rate) report_blocks of
        Inl e \<Rightarrow> Inl e
      | Inr built \<Rightarrow>
        (case RunDepthSweep rate 524288 of
           Inl e \<Rightarrow> Inl e
         | Inr levels \<Rightarrow>
           (case RunOneDepth rate ''10x-depth'' 460 (2 ^ 16) of
              Inl e \<Rightarrow> Inl e
            | Inr stress \<Rightarrow> Inr (built @ levels @ [stress, SignatureLine sig (sig / 10 ^ 7)]))))"

text \<open>\<open>scalebench\<close>: the headline ends the command when its batch cannot be built.\<close>

definition scalebench :: "(bytes \<Rightarrow> static_chain \<Rightarrow> real) \<Rightarrow> report_line list res" where
  "scalebench rate =
     (case BuildBatchAtDepth 43 (2 ^ 20) of
        Inl e \<Rightarrow> Inl e
      | Inr (wire, view) \<Rightarrow>
          let v = rate wire view;
              headline = DepthLine ''headline'' 43 (2 ^ 20) (length wire) v (v / 10 ^ 7) (passFail (Bar \<le> v))
          in map_res ((#) headline) (RunDepthSweep rate (2 ^ 20)))"

section \<open>What is reported\<close>

text \<open>A line says PASS exactly when its A is at least 1.5.\<close>

definition line_honest :: "report_line \<Rightarrow> bool" where
  "line_honest l \<longleftrightarrow>
     (case l of
        BlockLine _ _ _ _ v a r \<Rightarrow> a = v / 10 ^ 7 \<and> (r = ''PASS'' \<longleftrightarrow> 3 / 2 \<le> a)
      | DepthLine _ _ _ _ v a r \<Rightarrow> a = v / 10 ^ 7 \<and> (r = ''PASS'' \<longleftrightarrow> 3 / 2 \<le> a)
      | _ \<Rightarrow> True)"

lemma passFail_A: "passFail (Bar \<le> v) = ''PASS'' \<longleftrightarrow> 3 / 2 \<le> v / 10 ^ 7"
  by (auto simp: passFail_def Bar_def)

text \<open>The depth of a level is the one of the rate that it is labelled with.\<close>

lemma CeilLog2_between:
  assumes "2 ^ k < n" and "n \<le> 2 ^ Suc k" and "n < 2 ^ 64"
  shows "CeilLog2 (word_of_nat n) = Suc k"
proof -
  have "bit_len (n - 1) \<le> Suc k" "\<not> bit_len (n - 1) \<le> k" using assms by (simp_all add: bit_len_le_iff)
  then show ?thesis using CeilLog2_of_nat [of n] assms by simp
qed

lemma sweep_levels_depth:
  "list_all2 (\<lambda>(_, depth) r. depth = int (CeilLog2 (word_of_nat (600 * r)))) sweep_levels
     [1000000, 1000000000, 10000000000, 100000000000]"
proof -
  have "CeilLog2 (word_of_nat (600 * 1000000)) = Suc 29" "CeilLog2 (word_of_nat (600 * 1000000000)) = Suc 39"
    "CeilLog2 (word_of_nat (600 * 10000000000)) = Suc 42" "CeilLog2 (word_of_nat (600 * 100000000000)) = Suc 45"
    by (rule CeilLog2_between; simp)+
  then show ?thesis unfolding sweep_levels_def list_all2_Cons list_all2_Nil prod.case by simp
qed

lemma all_lines_ok: "(\<And>x. x \<in> set xs \<Longrightarrow> f x = Inr (g x)) \<Longrightarrow> all_lines f xs = Inr (map g xs)"
  by (induction xs) simp_all

text \<open>The batch of a level that is deep enough has exactly the depth of the level.\<close>

lemma level_batch:
  assumes "24 \<le> depth" and "0 \<le> nproofs" and "nproofs \<le> 2 ^ 24"
  shows "\<exists>ps view. BuildBatchAtDepth depth nproofs = Inr (EncodeBatch ps, view) \<and> length ps = nat nproofs \<and>
    list_all (\<lambda>p. int (length (L1 p) + length (L2 p)) = depth) ps"
proof -
  let ?n = "if nproofs < 1 then 1 else (nat nproofs + 2 ^ sub_bits - 1) div 2 ^ sub_bits"
  have "?n \<le> 2 ^ 8" using assms(2,3) by (auto simp: sub_bits_def)
  then have "?n - 1 \<le> 2 ^ 8 - 1" by simp
  then have "bit_len (?n - 1) \<le> bit_len (2 ^ 8 - 1)" by (rule bit_len_mono)
  then have n: "bit_len (?n - 1) \<le> 8" by (simp only: bit_len_mask)
  obtain ps view where b: "BuildBatchAtDepth depth nproofs = Inr (EncodeBatch ps, view)" "length ps = nat nproofs"
    "\<forall>p. p \<in> set ps \<longrightarrow> length (L1 p) = 16 \<and> length (L1 p) + length (L2 p) = max (nat depth) (16 + bit_len (?n - 1)) \<and>
       (hash_pair Software = HashPair \<longrightarrow> fst (VerifyOne Software p (Some (static_view view))))"
    using BuildBatchAtDepth_ok [of nproofs depth Software] assms(2,3) by fastforce
  have "int (length (L1 p) + length (L2 p)) = depth" if "p \<in> set ps" for p
  proof -
    have "length (L1 p) + length (L2 p) = max (nat depth) (16 + bit_len (?n - 1))" using b(3) that by blast
    then show ?thesis using n assms(1) by linarith
  qed
  then show ?thesis using b(1,2) by (auto simp: list_all_iff)
qed

lemma RunOneDepth_line:
  assumes "24 \<le> depth" and "0 \<le> nproofs" and "nproofs \<le> 2 ^ 24"
  shows "\<exists>n v r. RunOneDepth rate label depth nproofs = Inr (DepthLine label depth nproofs n v (v / 10 ^ 7) (passFail (Bar \<le> v)))"
  using level_batch [OF assms] by (auto simp: RunOneDepth_def line_or_error_def Let_def)

lemma block_line_ok:
  assumes "0 < subCap" and "0 < numSub"
  shows "\<exists>n v. block_line rate (int subCap, int numSub) =
    Inr (BlockLine (subCap * numSub) (int numSub) (commitmentDepth subCap numSub) n v (v / 10 ^ 7) (passFail (Bar \<le> v)))"
proof -
  obtain ps view where "BuildBlock (int subCap) (int numSub) = Inr (ps, view)" "length ps = subCap * numSub"
    using BuildBlock_ok [OF assms, of Software] by blast
  then show ?thesis by (simp add: block_line_def line_or_error_def Let_def)
qed

lemma commitmentDepth_ok:
  assumes "0 < subCap * numSub" and "subCap * numSub < 2 ^ 64"
  shows "commitmentDepth subCap numSub = bit_len (subCap * numSub - 1)"
  using CeilLog2_of_nat [OF assms] by (simp add: commitmentDepth_def)

text \<open>The depth and the number of proofs of a line.\<close>

definition line_depth :: "report_line \<Rightarrow> int" where
  "line_depth l = (case l of BlockLine _ _ depth _ _ _ _ \<Rightarrow> int depth | DepthLine _ depth _ _ _ _ _ \<Rightarrow> depth | _ \<Rightarrow> 0)"

definition line_proofs :: "report_line \<Rightarrow> int" where
  "line_proofs l = (case l of BlockLine n _ _ _ _ _ _ \<Rightarrow> int n | DepthLine _ _ n _ _ _ _ \<Rightarrow> n | _ \<Rightarrow> 0)"

lemma RunDepthSweep_lines:
  assumes "0 \<le> nproofs" and "nproofs \<le> 2 ^ 24"
  shows "\<exists>ls. RunDepthSweep rate nproofs = Inr ls \<and> map line_depth ls = [30, 40, 43, 46] \<and>
    list_all (\<lambda>l. line_honest l \<and> line_proofs l = nproofs) ls"
proof -
  note line = RunOneDepth_line [OF _ assms]
  obtain n1 v1 n2 v2 n3 v3 n4 v4 where
    "RunOneDepth rate ''1e6'' 30 nproofs = Inr (DepthLine ''1e6'' 30 nproofs n1 v1 (v1 / 10 ^ 7) (passFail (Bar \<le> v1)))"
    "RunOneDepth rate ''1e9'' 40 nproofs = Inr (DepthLine ''1e9'' 40 nproofs n2 v2 (v2 / 10 ^ 7) (passFail (Bar \<le> v2)))"
    "RunOneDepth rate ''1e10'' 43 nproofs = Inr (DepthLine ''1e10'' 43 nproofs n3 v3 (v3 / 10 ^ 7) (passFail (Bar \<le> v3)))"
    "RunOneDepth rate ''1e11'' 46 nproofs = Inr (DepthLine ''1e11'' 46 nproofs n4 v4 (v4 / 10 ^ 7) (passFail (Bar \<le> v4)))"
    using line [of 30 rate "''1e6''"] line [of 40 rate "''1e9''"] line [of 43 rate "''1e10''"] line [of 46 rate "''1e11''"] by auto
  then show ?thesis
    by (simp add: RunDepthSweep_def sweep_levels_def line_depth_def line_honest_def line_proofs_def passFail_A
        del: power_numeral)
qed

text \<open>The report is complete: no batch fails to build, and every verdict is that of its A.\<close>

theorem RunReport_lines:
  "\<exists>ls. RunReport rate sig = Inr ls \<and> map line_depth ls = [18, 20, 20, 30, 40, 43, 46, 460, 0] \<and>
    map line_proofs ls = [262144, 1048576, 1048576, 524288, 524288, 524288, 524288, 65536, 0] \<and> list_all line_honest ls"
proof -
  have depth: "commitmentDepth 65536 4 = 18" "commitmentDepth 262144 4 = 20" "commitmentDepth 1048576 1 = 20"
    using commitmentDepth_ok [of 65536 4] commitmentDepth_ok [of 262144 4] commitmentDepth_ok [of 1048576 1]
      bit_len_mask [of 18] bit_len_mask [of 20] by simp_all
  obtain n1 v1 n2 v2 n3 v3 where
    "block_line rate (65536, 4) = Inr (BlockLine 262144 4 18 n1 v1 (v1 / 10 ^ 7) (passFail (Bar \<le> v1)))"
    "block_line rate (262144, 4) = Inr (BlockLine 1048576 4 20 n2 v2 (v2 / 10 ^ 7) (passFail (Bar \<le> v2)))"
    "block_line rate (1048576, 1) = Inr (BlockLine 1048576 1 20 n3 v3 (v3 / 10 ^ 7) (passFail (Bar \<le> v3)))"
    using block_line_ok [of 65536 4 rate] block_line_ok [of 262144 4 rate] block_line_ok [of 1048576 1 rate] depth by auto
  then have "\<exists>bs. all_lines (block_line rate) report_blocks = Inr bs \<and> map line_depth bs = [18, 20, 20] \<and>
      map line_proofs bs = [262144, 1048576, 1048576] \<and> list_all line_honest bs"
    by (simp add: report_blocks_def line_depth_def line_proofs_def line_honest_def passFail_A)
  then obtain bs where b: "all_lines (block_line rate) report_blocks = Inr bs" "map line_depth bs = [18, 20, 20]"
      "map line_proofs bs = [262144, 1048576, 1048576]" "list_all line_honest bs"
    by (elim exE conjE) (rule that; assumption)
  obtain ls where l: "RunDepthSweep rate 524288 = Inr ls" "map line_depth ls = [30, 40, 43, 46]"
    "list_all (\<lambda>l. line_honest l \<and> line_proofs l = 524288) ls"
    using RunDepthSweep_lines [of 524288 rate] by auto
  then obtain l1 l2 l3 l4 where ls: "ls = [l1, l2, l3, l4]" by (auto simp: map_eq_Cons_conv)
  have p: "map line_proofs ls = [524288, 524288, 524288, 524288]" "list_all line_honest ls"
    using l(3) by (simp_all add: ls)
  obtain n v where "RunOneDepth rate ''10x-depth'' 460 65536 =
      Inr (DepthLine ''10x-depth'' 460 65536 n v (v / 10 ^ 7) (passFail (Bar \<le> v)))"
    using RunOneDepth_line [of 460 65536 rate "''10x-depth''"] by auto
  then show ?thesis using b l p
    by (simp add: RunReport_def line_depth_def line_proofs_def line_honest_def passFail_A)
qed

end
