(* ===== verification/Dsalert.thy ===== *)
theory Dsalert
  imports Teranode Crypto
begin

text \<open>
  Package \<open>dsalert\<close> (src/dsalert/dsalert.go): double-spend evidence and its signatures, the
  proof-of-work attestation of an alert, the admission check \<open>VerifyAlert\<close>, and the bus that
  records admitted alerts and answers the quiet-window queries of the merchant.

  Times and durations are integers (nanoseconds); the clock of the bus is the argument \<open>now\<close> of
  the operations that read it. \<open>dsalert.Outpoint\<close> has the fields of \<open>teranode.Outpoint\<close> and
  shares its record. A body under the mutex is one step.
\<close>

section \<open>Evidence and alerts\<close>

record conflict_evidence =
  OwnerPubKey :: bytes
  SpendA :: hash
  SigA :: bytes
  SpendB :: hash
  SigB :: bytes

record alert =
  Outpoint :: outpoint
  Evidence :: conflict_evidence
  AttesterPoW :: bytes

definition spendMessage :: "outpoint \<Rightarrow> hash \<Rightarrow> hash" where
  "spendMessage out spendTx =
     DoubleSHA256 (bytes_of (TXID out) @ le_bytes 4 (Vout out) @ bytes_of spendTx)"

text \<open>The outer \<open>None\<close> is the nonce search of \<open>Sign\<close> that does not end.\<close>

definition SignSpend :: "private_key option \<Rightarrow> outpoint \<Rightarrow> hash \<Rightarrow> bytes res option" where
  "SignSpend key out spendTx =
     (case Sign key (bytes_of (spendMessage out spendTx)) of
        None \<Rightarrow> None
      | Some (Inl e) \<Rightarrow> Some (Inl e)
      | Some (Inr sig) \<Rightarrow> Some (SerializeSig sig))"

definition PoWBits :: int where
  "PoWBits = 12"

definition alertDigest :: "alert \<Rightarrow> hash" where
  "alertDigest a =
     DoubleSHA256 (bytes_of (TXID (Outpoint a)) @ le_bytes 4 (Vout (Outpoint a)) @
       OwnerPubKey (Evidence a) @ bytes_of (SpendA (Evidence a)) @ SigA (Evidence a) @
       bytes_of (SpendB (Evidence a)) @ SigB (Evidence a) @ AttesterPoW a)"

text \<open>The inner loop from \<open>bit = k - 1\<close> down: the count, and whether it returned.\<close>

primrec zero_bits :: "byte \<Rightarrow> nat \<Rightarrow> int \<Rightarrow> int \<times> bool" where
  "zero_bits b 0 n = (n, False)"
| "zero_bits b (Suc k) n = (if \<not> bit b k then zero_bits b k (n + 1) else (n, True))"

primrec zero_loop :: "bytes \<Rightarrow> int \<Rightarrow> int" where
  "zero_loop [] n = n"
| "zero_loop (b # bs) n =
     (if b = 0 then zero_loop bs (n + 8)
      else case zero_bits b 8 n of (n, True) \<Rightarrow> n | (n, False) \<Rightarrow> zero_loop bs n)"

definition leadingZeroBits :: "hash \<Rightarrow> int" where
  "leadingZeroBits h = zero_loop (bytes_of h) 0"

text \<open>\<open>key.Public()\<close> of a nil key is a panic.\<close>

definition BuildEvidence ::
  "private_key option \<Rightarrow> outpoint \<Rightarrow> hash \<Rightarrow> hash \<Rightarrow> conflict_evidence res option" where
  "BuildEvidence key out spendA spendB =
     (case SignSpend key out spendA of
        None \<Rightarrow> None
      | Some (Inl e) \<Rightarrow> Some (Inl e)
      | Some (Inr sigA) \<Rightarrow>
        (case SignSpend key out spendB of
           None \<Rightarrow> None
         | Some (Inl e) \<Rightarrow> Some (Inl e)
         | Some (Inr sigB) \<Rightarrow>
           (case key of
              None \<Rightarrow> Some (Inl Panic)
            | Some k \<Rightarrow>
              (case Public k of
                 None \<Rightarrow> Some (Inl Panic)
               | Some pk \<Rightarrow>
                 Some (map_res (\<lambda>pk. \<lparr>OwnerPubKey = pk, SpendA = spendA, SigA = sigA, SpendB = spendB, SigB = sigB\<rparr>)
                   (SerializeCompressed pk))))))"

partial_function (option) attest_loop :: "alert \<Rightarrow> u64 \<Rightarrow> alert option" where
  "attest_loop a nonce =
     (let a = a\<lparr>AttesterPoW := le_bytes 8 nonce\<rparr> in
      if PoWBits \<le> leadingZeroBits (alertDigest a) then Some a
      else attest_loop a (nonce + 1))"

definition Attest :: "outpoint \<Rightarrow> conflict_evidence \<Rightarrow> alert option" where
  "Attest out ev = attest_loop \<lparr>Outpoint = out, Evidence = ev, AttesterPoW = []\<rparr> 0"

section \<open>Admission\<close>

text \<open>
  The two calls of \<open>crypto.Verify\<close> share the parsed key, which the first may overwrite. The
  second call is made only when the first succeeds. \<open>Inl Panic\<close> stands for the nil inverse
  inside \<open>crypto.Verify\<close>.
\<close>

definition VerifyAlert :: "alert \<Rightarrow> bool res" where
  "VerifyAlert a =
     (let ev = Evidence a in
      if SpendA ev = SpendB ev then Inr False
      else if SpendA ev = zero_hash \<or> SpendB ev = zero_hash then Inr False
      else
        case ParseCompressed (OwnerPubKey ev) of
          Inl _ \<Rightarrow> Inr False
        | Inr pub \<Rightarrow>
        (case ParseSignature (SigA ev) of
           Inl _ \<Rightarrow> Inr False
         | Inr sigA \<Rightarrow>
           if \<not> IsLowS sigA then Inr False
           else
           (case ParseSignature (SigB ev) of
              Inl _ \<Rightarrow> Inr False
            | Inr sigB \<Rightarrow>
              if \<not> IsLowS sigB then Inr False
              else
              (case Verify_run pub (bytes_of (spendMessage (Outpoint a) (SpendA ev))) sigA of
                 Inl e \<Rightarrow> Inl e
               | Inr (False, _) \<Rightarrow> Inr False
               | Inr (True, pub) \<Rightarrow>
                 (case VerifySig pub (bytes_of (spendMessage (Outpoint a) (SpendB ev))) sigB of
                    Inl e \<Rightarrow> Inl e
                  | Inr False \<Rightarrow> Inr False
                  | Inr True \<Rightarrow> Inr (\<not> leadingZeroBits (alertDigest a) < PoWBits))))))"

section \<open>The bus\<close>

record alert_rec =
  ts :: int
  ownerPub :: bytes

text \<open>A subscriber is its channel: the buffered alerts, at most 64 of them.\<close>

record bus =
  subs :: "alert list list"
  seen :: "outpoint \<rightharpoonup> alert_rec list"

definition NewBus :: bus where
  "NewBus = \<lparr>subs = [], seen = Map.empty\<rparr>"

definition chan_cap :: nat where
  "chan_cap = 64"

text \<open>The new channel is the last of \<open>subs\<close>.\<close>

definition Subscribe :: "bus \<Rightarrow> bus" where
  "Subscribe b = b\<lparr>subs := subs b @ [[]]\<rparr>"

text \<open>A send that never blocks: a full channel drops the alert.\<close>

definition chan_send :: "alert \<Rightarrow> alert list \<Rightarrow> alert list" where
  "chan_send a ch = (if length ch < chan_cap then ch @ [a] else ch)"

definition Publish :: "int \<Rightarrow> alert \<Rightarrow> bus \<Rightarrow> (bool \<times> bus) res" where
  "Publish now a b =
     (case VerifyAlert a of
        Inl e \<Rightarrow> Inl e
      | Inr False \<Rightarrow> Inr (False, b)
      | Inr True \<Rightarrow>
        (let b = b\<lparr>seen := (seen b)(Outpoint a \<mapsto>
               go_get [] (seen b) (Outpoint a) @ [\<lparr>ts = now, ownerPub = OwnerPubKey (Evidence a)\<rparr>])\<rparr>
         in Inr (True, b\<lparr>subs := map (chan_send a) (subs b)\<rparr>)))"

definition QuietFor :: "int \<Rightarrow> outpoint list \<Rightarrow> int \<Rightarrow> bus \<Rightarrow> bool" where
  "QuietFor now outpoints window b =
     (let cutoff = now - window in
      \<not> list_ex (\<lambda>op. list_ex (\<lambda>rec. cutoff < ts rec) (go_get [] (seen b) op)) outpoints)"

text \<open>The Go map \<open>owners\<close> as its entries, in the order of the iteration, which Go leaves open.\<close>

primrec owner_loop :: "int \<Rightarrow> bytes \<Rightarrow> alert_rec list \<Rightarrow> bool" where
  "owner_loop cutoff want [] = True"
| "owner_loop cutoff want (rec # rs) =
     (if \<not> cutoff < ts rec then owner_loop cutoff want rs
      else if want = [] \<or> ownerPub rec = want then False
      else owner_loop cutoff want rs)"

primrec owners_loop :: "int \<Rightarrow> (outpoint \<rightharpoonup> alert_rec list) \<Rightarrow> (outpoint \<times> bytes) list \<Rightarrow> bool" where
  "owners_loop cutoff sn [] = True"
| "owners_loop cutoff sn (e # es) =
     (if owner_loop cutoff (snd e) (go_get [] sn (fst e)) then owners_loop cutoff sn es else False)"

definition QuietForOwners :: "int \<Rightarrow> (outpoint \<times> bytes) list \<Rightarrow> int \<Rightarrow> bus \<Rightarrow> bool" where
  "QuietForOwners now owners window b = owners_loop (now - window) (seen b) owners"

section \<open>Runs of the bus\<close>

text \<open>
  What the environment does to a bus: subscriptions, publications at a time of the clock, and
  receives of a subscriber (a receive from an empty channel waits, which leaves the bus as it is).
\<close>

datatype bus_event = Sub | Pub int alert | Recv nat

definition Receive :: "nat \<Rightarrow> bus \<Rightarrow> bus" where
  "Receive i b = (if i < length (subs b) then b\<lparr>subs := (subs b)[i := drop 1 (subs b ! i)]\<rparr> else b)"

definition bus_event_step :: "bus_event \<Rightarrow> bus \<Rightarrow> bus res" where
  "bus_event_step e b =
     (case e of
        Sub \<Rightarrow> Inr (Subscribe b)
      | Pub now a \<Rightarrow> map_res snd (Publish now a b)
      | Recv i \<Rightarrow> Inr (Receive i b))"

primrec run_bus :: "bus_event list \<Rightarrow> bus \<Rightarrow> bus res" where
  "run_bus [] b = Inr b"
| "run_bus (e # es) b = (case bus_event_step e b of Inl x \<Rightarrow> Inl x | Inr b \<Rightarrow> run_bus es b)"

text \<open>The abstract bus: the log of the admissible alerts with their times, and nothing else.\<close>

definition admits :: "bus_event \<Rightarrow> (int \<times> alert) list" where
  "admits e = (case e of Pub now a \<Rightarrow> (if VerifyAlert a = Inr True then [(now, a)] else []) | _ \<Rightarrow> [])"

definition admitted :: "bus_event list \<Rightarrow> (int \<times> alert) list" where
  "admitted es = concat (map admits es)"

definition rec_of :: "int \<times> alert \<Rightarrow> alert_rec" where
  "rec_of e = \<lparr>ts = fst e, ownerPub = OwnerPubKey (Evidence (snd e))\<rparr>"

text \<open>
  An alert of the log speaks against a payment that spends \<open>op\<close> with the key \<open>pub\<close>: it is of that
  outpoint, later than the cutoff, and signed by that key (by any key, when the payer's is absent).
\<close>

definition speaks_against :: "int \<Rightarrow> int \<times> alert \<Rightarrow> outpoint \<times> bytes \<Rightarrow> bool" where
  "speaks_against cutoff e ow \<longleftrightarrow>
     Outpoint (snd e) = fst ow \<and> cutoff < fst e \<and> (snd ow = [] \<or> OwnerPubKey (Evidence (snd e)) = snd ow)"

lemma Publish_cases:
  assumes "Publish now a b = Inr (ok, b')"
  obtains (drop) "VerifyAlert a = Inr False" "\<not> ok" "b' = b"
    | (admit) "VerifyAlert a = Inr True" "ok"
        "seen b' = (seen b)(Outpoint a \<mapsto> go_get [] (seen b) (Outpoint a) @ [rec_of (now, a)])"
        "subs b' = map (chan_send a) (subs b)"
  using assms by (auto simp: Publish_def rec_of_def Let_def split: sum.splits bool.splits)

lemma owner_loop_iff:
  "owner_loop cutoff want rs \<longleftrightarrow> (\<forall>r\<in>set rs. cutoff < ts r \<longrightarrow> want \<noteq> [] \<and> ownerPub r \<noteq> want)"
  by (induction rs) auto

lemma owners_loop_iff:
  "owners_loop cutoff sn es \<longleftrightarrow>
     (\<forall>e\<in>set es. \<forall>r\<in>set (go_get [] sn (fst e)). cutoff < ts r \<longrightarrow> snd e \<noteq> [] \<and> ownerPub r \<noteq> snd e)"
  by (induction es) (auto simp: owner_loop_iff)

lemma step_seen:
  assumes "bus_event_step e b = Inr b'"
  shows "go_get [] (seen b') op = go_get [] (seen b) op @ map rec_of (filter (\<lambda>x. Outpoint (snd x) = op) (admits e))"
proof (cases e)
  case (Pub now a)
  then obtain ok where "Publish now a b = Inr (ok, b')" using assms by (auto simp: bus_event_step_def)
  then show ?thesis by (cases rule: Publish_cases) (auto simp: Pub admits_def)
qed (use assms in \<open>auto simp: bus_event_step_def Subscribe_def Receive_def admits_def\<close>)

lemma run_seen:
  "run_bus es b = Inr b' \<Longrightarrow>
   go_get [] (seen b') op = go_get [] (seen b) op @ map rec_of (filter (\<lambda>x. Outpoint (snd x) = op) (admitted es))"
proof (induction es arbitrary: b)
  case (Cons e es)
  then obtain b1 where "bus_event_step e b = Inr b1" "run_bus es b1 = Inr b'" by (auto split: sum.splits)
  then show ?case using Cons.IH [of b1] step_seen [of e b b1 op] by (simp add: admitted_def)
qed (simp add: admitted_def)

lemma run_new_seen:
  assumes "run_bus es NewBus = Inr b"
  shows "go_get [] (seen b) op = map rec_of (filter (\<lambda>x. Outpoint (snd x) = op) (admitted es))"
  using run_seen [OF assms, of op] by (simp add: NewBus_def)

text \<open>
  The contract between an alert log and the merchant: publishing appends exactly the admissible
  alerts, and the query is decided by the log.
\<close>

locale alert_log =
  fixes publish :: "int \<Rightarrow> alert \<Rightarrow> 'b \<Rightarrow> (bool \<times> 'b) res"
    and quiet :: "int \<Rightarrow> (outpoint \<times> bytes) list \<Rightarrow> int \<Rightarrow> 'b \<Rightarrow> bool"
    and rel :: "'b \<Rightarrow> (int \<times> alert) list \<Rightarrow> bool"
  assumes publish_log: "rel b l \<Longrightarrow> publish now a b = Inr (ok, b') \<Longrightarrow>
      ok = (VerifyAlert a = Inr True) \<and> rel b' (if ok then l @ [(now, a)] else l)"
    and quiet_log: "rel b l \<Longrightarrow>
      quiet now owners w b = (\<not> (\<exists>e\<in>set l. \<exists>ow\<in>set owners. speaks_against (now - w) e ow))"
begin

text \<open>An alert stays in force for the window, whatever is published after it.\<close>

lemma alert_sticks:
  assumes "rel b l" and "e \<in> set l" and "ow \<in> set owners" and "speaks_against (now - w) e ow"
  shows "\<not> quiet now owners w b"
  using quiet_log [OF assms(1)] assms(2-) by blast

text \<open>An alert signed with another key than the payer's changes no answer.\<close>

lemma third_party:
  assumes "rel b l" and "publish t a b = Inr (ok, b')"
    and "\<And>pub. (Outpoint a, pub) \<in> set owners \<Longrightarrow> pub \<noteq> [] \<and> pub \<noteq> OwnerPubKey (Evidence a)"
  shows "quiet now owners w b' = quiet now owners w b"
proof -
  have "\<not> (\<exists>ow\<in>set owners. speaks_against (now - w) (t, a) ow)"
    using assms(3) by (fastforce simp: speaks_against_def)
  then show ?thesis
    using publish_log [OF assms(1,2)] quiet_log [OF assms(1)] quiet_log [of b' "l @ [(t, a)]"] quiet_log [of b' l]
    by (cases ok) auto
qed

end

definition bus_log :: "bus \<Rightarrow> (int \<times> alert) list \<Rightarrow> bool" where
  "bus_log b l \<longleftrightarrow> (\<forall>op. go_get [] (seen b) op = map rec_of (filter (\<lambda>x. Outpoint (snd x) = op) l))"

lemma bus_quiet:
  assumes "bus_log b l"
  shows "QuietForOwners now owners w b = (\<not> (\<exists>e\<in>set l. \<exists>ow\<in>set owners. speaks_against (now - w) e ow))"
  using assms
  by (fastforce simp: QuietForOwners_def owners_loop_iff bus_log_def speaks_against_def rec_of_def)

interpretation bus_alerts: alert_log Publish QuietForOwners bus_log
proof
  fix b l now a ok and b' :: bus
  assume "bus_log b l" and "Publish now a b = Inr (ok, b')"
  then show "ok = (VerifyAlert a = Inr True) \<and> bus_log b' (if ok then l @ [(now, a)] else l)"
    by (cases rule: Publish_cases [OF \<open>Publish now a b = Inr (ok, b')\<close>]) (auto simp: bus_log_def)
qed (rule bus_quiet)

section \<open>The attestation\<close>

lemma zero_bits_value:
  "zero_bits b k n = (n + int k - int (bit_len (unat (take_bit k b))), take_bit k b \<noteq> 0)"
proof (induction k arbitrary: n)
  case (Suc k)
  show ?case
  proof (cases "bit b k")
    case False
    then have "take_bit (Suc k) b = take_bit k b"
      by (intro bit_word_eqI) (auto simp: bit_simps less_Suc_eq)
    then show ?thesis using False Suc.IH [of "n + 1"] by simp
  next
    case True
    then have k: "k < 8" using bit_imp_le_length [of b k] by simp
    have "bit (unat b) k" using True k by (simp add: bit_unsigned_iff)
    then have "unat (take_bit (Suc k) b) = 2 ^ k + unat (take_bit k b)"
      by (simp add: unsigned_take_bit_eq take_bit_Suc_from_most)
    moreover have "unat (take_bit k b) < 2 ^ k" by (simp add: unsigned_take_bit_eq)
    ultimately have u: "2 ^ k \<le> unat (take_bit (Suc k) b)" "unat (take_bit (Suc k) b) < 2 ^ Suc k" by simp_all
    have "bit_len (unat (take_bit (Suc k) b)) = Suc k"
    proof (rule antisym)
      show "bit_len (unat (take_bit (Suc k) b)) \<le> Suc k" using u(2) by (simp only: bit_len_le_iff)
      show "Suc k \<le> bit_len (unat (take_bit (Suc k) b))"
        using u(1) bit_len_le_iff [of "unat (take_bit (Suc k) b)" k] by linarith
    qed
    moreover have "take_bit (Suc k) b \<noteq> 0" using u(1) by (metis not_one_le_zero one_le_numeral one_le_power order_trans unat_0)
    ultimately show ?thesis using True by simp
  qed
qed simp

lemma int_of_bytes_Cons: "int_of_bytes (b # bs) = uint b * 256 ^ length bs + int_of_bytes bs"
  using int_of_bytes_append [of "[b]" bs] int_of_bytes_snoc [of "[]" b] by simp

lemma nat_int_of_bytes_Cons:
  "nat (int_of_bytes (b # bs)) = unat b * 2 ^ (8 * length bs) + nat (int_of_bytes bs)"
proof -
  have "(256::int) ^ length bs = 2 ^ (8 * length bs)" by (simp add: power_mult)
  then show ?thesis
    using int_of_bytes_range [of bs] by (simp add: int_of_bytes_Cons nat_add_distrib nat_mult_distrib nat_power_eq)
qed

lemma nat_int_of_bytes_less: "nat (int_of_bytes bs) < 2 ^ (8 * length bs)"
proof -
  have "(256::int) ^ length bs = 2 ^ (8 * length bs)" by (simp add: power_mult)
  then show ?thesis using int_of_bytes_range [of bs] by (simp add: nat_less_iff)
qed

lemma zero_loop_value:
  "zero_loop bs n = n + 8 * int (length bs) - int (bit_len (nat (int_of_bytes bs)))"
proof (induction bs arbitrary: n)
  case (Cons b bs)
  show ?case
  proof (cases "b = 0")
    case True
    then show ?thesis using Cons.IH [of "n + 8"] by (simp add: int_of_bytes_Cons)
  next
    case False
    then have "0 < unat b" by (simp add: unat_gt_0)
    then have "bit_len (nat (int_of_bytes (b # bs))) = bit_len (unat b) + 8 * length bs"
      using bit_len_shift [OF _ nat_int_of_bytes_less, of "unat b" bs] by (simp only: nat_int_of_bytes_Cons)
    moreover have "take_bit 8 b = b" by (rule take_bit_length_eq [where 'a = 8, simplified])
    ultimately show ?thesis using False by (simp add: zero_bits_value del: zero_bits.simps)
  qed
qed simp

text \<open>The attestation bound, as a bound on the digest read as a 256-bit number.\<close>

lemma pow_bound:
  "PoWBits \<le> leadingZeroBits h \<longleftrightarrow> int_of_bytes (bytes_of h) < 2 ^ 244"
proof -
  have "PoWBits \<le> leadingZeroBits h \<longleftrightarrow> bit_len (nat (int_of_bytes (bytes_of h))) \<le> 244"
    by (auto simp: leadingZeroBits_def zero_loop_value PoWBits_def)
  also have "\<dots> \<longleftrightarrow> int_of_bytes (bytes_of h) < 2 ^ 244"
    using int_of_bytes_range [of "bytes_of h"] by (simp only: bit_len_le_iff) (simp add: nat_less_iff)
  finally show ?thesis .
qed

definition with_nonce :: "alert \<Rightarrow> u64 \<Rightarrow> alert" where
  "with_nonce a n = a\<lparr>AttesterPoW := le_bytes 8 n\<rparr>"

definition attested :: "alert \<Rightarrow> bool" where
  "attested a \<longleftrightarrow> int_of_bytes (bytes_of (alertDigest a)) < 2 ^ 244"

lemma with_nonce_twice [simp]: "with_nonce (with_nonce a m) n = with_nonce a n"
  by (simp add: with_nonce_def)

lemma attest_loop_unfold:
  "attest_loop a n = (if attested (with_nonce a n) then Some (with_nonce a n) else attest_loop (with_nonce a n) (n + 1))"
  by (subst attest_loop.simps) (simp add: Let_def with_nonce_def attested_def pow_bound)

lemma attest_loop_sound:
  assumes "attest_loop a n = Some r"
  shows "\<exists>m. r = with_nonce a m \<and> attested r"
proof (rule attest_loop.raw_induct [OF _ assms, where P = "\<lambda>a n r. \<exists>m. r = with_nonce a m \<and> attested r"])
  fix loop :: "alert \<Rightarrow> u64 \<Rightarrow> alert option" and a n r
  assume IH: "\<And>a n r. loop a n = Some r \<Longrightarrow> \<exists>m. r = with_nonce a m \<and> attested r"
    and run: "(let a = a\<lparr>AttesterPoW := le_bytes 8 n\<rparr> in
       if PoWBits \<le> leadingZeroBits (alertDigest a) then Some a else loop a (n + 1)) = Some r"
  show "\<exists>m. r = with_nonce a m \<and> attested r"
  proof (cases "attested (with_nonce a n)")
    case True
    then show ?thesis using run by (auto simp: Let_def with_nonce_def attested_def pow_bound)
  next
    case False
    then have "loop (with_nonce a n) (n + 1) = Some r"
      using run by (simp add: Let_def with_nonce_def attested_def pow_bound)
    from IH [OF this] show ?thesis by simp
  qed
qed

lemma attest_loop_finds:
  assumes "unat m - unat n = d" and "n \<le> m" and "attested (with_nonce a m)"
    and "\<And>j. n \<le> j \<Longrightarrow> j < m \<Longrightarrow> \<not> attested (with_nonce a j)"
  shows "attest_loop a n = Some (with_nonce a m)"
  using assms
proof (induction d arbitrary: a n)
  case 0
  then have "n = m" by (simp add: word_le_nat_alt word_unat_eq_iff)
  then show ?case using 0 by (simp add: attest_loop_unfold)
next
  case (Suc d)
  then have lt: "n < m" by (simp add: word_less_nat_alt)
  then have s: "unat (n + 1) = unat n + 1"
    using unsigned_less [of m, where 'a = nat] by (simp add: unat_word_ariths word_less_nat_alt)
  have "attest_loop (with_nonce a n) (n + 1) = Some (with_nonce (with_nonce a n) m)"
  proof (rule Suc.IH)
    show "unat m - unat (n + 1) = d" using Suc.prems(1) s by simp
    show "n + 1 \<le> m" using lt s by (simp add: word_le_nat_alt word_less_nat_alt)
    show "attested (with_nonce (with_nonce a n) m)" using Suc.prems(3) by simp
    show "\<not> attested (with_nonce (with_nonce a n) j)" if "n + 1 \<le> j" "j < m" for j
      using that Suc.prems(4) [of j] s by (simp add: word_le_nat_alt)
  qed
  then show ?case
    using Suc.prems(4) [of n] lt by (subst attest_loop_unfold) simp
qed

section \<open>Properties\<close>

text \<open>
  What an admissible alert proves: two different spends of one outpoint, each with a canonical
  signature of the key it names. The key is the one parsed from the alert for both signatures,
  except that a key with \<open>X \<ge> n\<close> can be changed by the first verification.
\<close>

definition double_signed :: "alert \<Rightarrow> bool" where
  "double_signed a \<longleftrightarrow>
     (let ev = Evidence a; mA = bytes_of (spendMessage (Outpoint a) (SpendA ev));
          mB = bytes_of (spendMessage (Outpoint a) (SpendB ev)) in
      SpendA ev \<noteq> SpendB ev \<and> SpendA ev \<noteq> zero_hash \<and> SpendB ev \<noteq> zero_hash \<and>
      (\<exists>pub pub' sigA sigB. ParseCompressed (OwnerPubKey ev) = Inr pub \<and>
         ParseSignature (SigA ev) = Inr sigA \<and> ParseSignature (SigB ev) = Inr sigB \<and>
         IsLowS sigA \<and> IsLowS sigB \<and> VerifySig pub mA sigA = Inr True \<and> VerifySig pub' mB sigB = Inr True \<and>
         (pub' = pub \<or> curveN \<le> X pub)))"

lemma VerifyAlert_sound:
  assumes "VerifyAlert a = Inr True"
  shows "double_signed a \<and> attested a"
proof -
  let ?ev = "Evidence a"
  let ?mA = "bytes_of (spendMessage (Outpoint a) (SpendA ?ev))" and ?mB = "bytes_of (spendMessage (Outpoint a) (SpendB ?ev))"
  have ne: "SpendA ?ev \<noteq> SpendB ?ev" "SpendA ?ev \<noteq> zero_hash" "SpendB ?ev \<noteq> zero_hash"
    using assms by (auto simp: VerifyAlert_def Let_def split: if_splits)
  obtain pub where pub: "ParseCompressed (OwnerPubKey ?ev) = Inr pub"
    using assms by (auto simp: VerifyAlert_def Let_def split: if_splits sum.splits)
  obtain sA where sA: "ParseSignature (SigA ?ev) = Inr sA" "IsLowS sA"
    using assms by (auto simp: VerifyAlert_def Let_def split: if_splits sum.splits)
  obtain sB where sB: "ParseSignature (SigB ?ev) = Inr sB" "IsLowS sB"
    using assms by (auto simp: VerifyAlert_def Let_def split: if_splits sum.splits)
  have run: "(case Verify_run pub ?mA sA of Inl e \<Rightarrow> Inl e | Inr (False, _) \<Rightarrow> Inr False
      | Inr (True, pub) \<Rightarrow> (case VerifySig pub ?mB sB of Inl e \<Rightarrow> Inl e | Inr False \<Rightarrow> Inr False
          | Inr True \<Rightarrow> Inr (\<not> leadingZeroBits (alertDigest a) < PoWBits))) = (Inr True :: bool res)"
    using assms ne pub sA sB by (simp add: VerifyAlert_def Let_def)
  then obtain pub' where vA: "Verify_run pub ?mA sA = Inr (True, pub')" and vB: "VerifySig pub' ?mB sB = Inr True"
    and pw: "\<not> leadingZeroBits (alertDigest a) < PoWBits"
    by (auto split: sum.splits prod.splits bool.splits)
  have "0 \<le> X pub" using onCurve_range ParseCompressed_ok [OF pub] by blast
  then have "pub' = pub \<or> curveN \<le> X pub"
    using Verify_run_key [OF vA] by (cases "curveN \<le> X pub") (auto simp: mod_pos_pos_trivial)
  moreover have "VerifySig pub ?mA sA = Inr True" using vA by (simp add: VerifySig_def)
  moreover have "attested a" using pw pow_bound [of "alertDigest a"] by (auto simp: attested_def)
  ultimately show ?thesis using ne pub sA sB vB unfolding double_signed_def Let_def by blast
qed

lemma set_admitted: "x \<in> set (admitted es) \<longleftrightarrow> (\<exists>t a. x = (t, a) \<and> Pub t a \<in> set es \<and> VerifyAlert a = Inr True)"
  by (force simp: admitted_def admits_def split: bus_event.splits if_splits)

text \<open>
  C24. The bus refines the log of admissible alerts. Whatever subscribers and publishers did to a
  new bus, the point-of-sale query answers "not quiet" exactly when some published alert passed
  the admission check, names an outpoint of the payment, is later than the start of the window,
  and was signed with the very key that spends the outpoint (or the payment carries no key for it).
  Rejected alerts and alerts of third parties never count, and no admitted one is ever lost.
\<close>
theorem QuietForOwners_refines:
  assumes "run_bus es NewBus = Inr b"
  shows "QuietForOwners now owners w b
    = (\<not> (\<exists>e\<in>set (admitted es). \<exists>ow\<in>set owners. speaks_against (now - w) e ow))"
  by (rule bus_alerts.quiet_log) (use run_new_seen [OF assms] in \<open>simp add: bus_log_def\<close>)

theorem QuietForOwners_refines_witness:
  "QuietForOwners 100 [(\<lparr>TXID = zero_hash, Vout = 0\<rparr>, [2])] 60
     \<lparr>subs = [[]], seen = Map.empty\<rparr>
   = (\<not> (\<exists>e\<in>set (admitted [Sub, Pub 90 \<lparr>Outpoint = \<lparr>TXID = zero_hash, Vout = 0\<rparr>,
        Evidence = \<lparr>OwnerPubKey = [2], SpendA = zero_hash, SigA = [], SpendB = zero_hash, SigB = []\<rparr>,
        AttesterPoW = []\<rparr>]).
      \<exists>ow\<in>set [(\<lparr>TXID = zero_hash, Vout = 0\<rparr>, [2])]. speaks_against (100 - 60) e ow))"
  by (rule QuietForOwners_refines)
    (simp add: bus_event_step_def Subscribe_def Publish_def VerifyAlert_def NewBus_def)

text \<open>What a subscriber's buffer holds after the events \<open>es\<close>.\<close>

definition chan_ok :: "bus_event list \<Rightarrow> alert list \<Rightarrow> bool" where
  "chan_ok es ch \<longleftrightarrow> length ch \<le> chan_cap \<and> (\<forall>a\<in>set ch. \<exists>t. (t, a) \<in> set (admitted es))"

lemma chan_ok_mono: "chan_ok es ch \<Longrightarrow> chan_ok (es @ [e]) ch"
  by (fastforce simp: chan_ok_def admitted_def)

lemma chan_step:
  assumes e: "bus_event_step e c = Inr c'" and q: "\<forall>ch\<in>set (subs c). chan_ok es ch"
  shows "\<forall>ch\<in>set (subs c'). chan_ok (es @ [e]) ch"
proof -
  have q': "\<forall>ch\<in>set (subs c). chan_ok (es @ [e]) ch" using q chan_ok_mono by blast
  show ?thesis
  proof (cases e)
    case (Pub t a)
    then obtain ok where "Publish t a c = Inr (ok, c')" using e by (auto simp: bus_event_step_def)
    then show ?thesis
    proof (cases rule: Publish_cases)
      case admit
      then have "(t, a) \<in> set (admitted (es @ [e]))" by (auto simp: set_admitted Pub)
      then show ?thesis using q' admit(4) by (auto simp: chan_send_def chan_ok_def)
    qed (use q' in simp)
  next
    case (Recv i)
    have c': "c' = Receive i c" using e Recv by (simp add: bus_event_step_def)
    show ?thesis
    proof (cases "i < length (subs c)")
      case True
      then have "chan_ok (es @ [e]) (subs c ! i)" using q' nth_mem by blast
      then have "chan_ok (es @ [e]) (drop 1 (subs c ! i))"
        using set_drop_subset [of 1 "subs c ! i"] by (auto simp: chan_ok_def)
      then show ?thesis using q' True unfolding c' Receive_def
        by (auto dest!: set_update_subset_insert [THEN subsetD])
    qed (use q' c' in \<open>simp add: Receive_def\<close>)
  qed (use q' e in \<open>auto simp: bus_event_step_def Subscribe_def chan_ok_def\<close>)
qed

lemma chan_run:
  "run_bus es c = Inr b \<Longrightarrow> \<forall>ch\<in>set (subs c). chan_ok es0 ch \<Longrightarrow> \<forall>ch\<in>set (subs b). chan_ok (es0 @ es) ch"
proof (induction es arbitrary: es0 c)
  case (Cons e es)
  then obtain c1 where "bus_event_step e c = Inr c1" "run_bus es c1 = Inr b" by (auto split: sum.splits)
  then show ?case using Cons.IH [of c1 "es0 @ [e]"] chan_step [of e c c1 es0] Cons.prems(2) by simp
qed simp

text \<open>
  C25. Evidence-gated: in every reachable state of the bus, each recorded observation and each
  buffered delivery comes from a published alert whose two different, nonzero spends of the outpoint are
  both signed with low-S signatures, the first under the key that the alert names as the owner's and
  the second under the same key (for a key with \<open>X \<ge> n\<close>, which the first verification may overwrite, the
  second may verify under another key), and whose digest has the attested twelve leading zero bits.
  No subscriber's buffer exceeds its 64 places.
\<close>
theorem bus_gated:
  assumes "run_bus es NewBus = Inr b"
  shows "(\<forall>op. \<forall>r\<in>set (go_get [] (seen b) op). \<exists>a. Pub (ts r) a \<in> set es \<and> Outpoint a = op \<and>
            ownerPub r = OwnerPubKey (Evidence a) \<and> double_signed a \<and> attested a)
    \<and> (\<forall>ch\<in>set (subs b). length ch \<le> 64 \<and>
            (\<forall>a\<in>set ch. (\<exists>t. Pub t a \<in> set es) \<and> double_signed a \<and> attested a))"
proof
  show "\<forall>op. \<forall>r\<in>set (go_get [] (seen b) op). \<exists>a. Pub (ts r) a \<in> set es \<and> Outpoint a = op \<and>
            ownerPub r = OwnerPubKey (Evidence a) \<and> double_signed a \<and> attested a"
    by (force simp: run_new_seen [OF assms] set_admitted rec_of_def dest: VerifyAlert_sound)
next
  have "\<forall>ch\<in>set (subs b). chan_ok es ch" using chan_run [OF assms, of "[]"] by (simp add: NewBus_def)
  then show "\<forall>ch\<in>set (subs b). length ch \<le> 64 \<and>
            (\<forall>a\<in>set ch. (\<exists>t. Pub t a \<in> set es) \<and> double_signed a \<and> attested a)"
    by (fastforce simp: chan_ok_def chan_cap_def set_admitted dest: VerifyAlert_sound)
qed

theorem bus_gated_witness:
  "length (subs \<lparr>subs = [[]], seen = Map.empty\<rparr> ! 0) \<le> 64"
proof -
  have "run_bus [Sub, Pub 90 \<lparr>Outpoint = \<lparr>TXID = zero_hash, Vout = 0\<rparr>,
        Evidence = \<lparr>OwnerPubKey = [2], SpendA = zero_hash, SigA = [], SpendB = zero_hash, SigB = []\<rparr>,
        AttesterPoW = []\<rparr>, Recv 0] NewBus = Inr \<lparr>subs = [[]], seen = Map.empty\<rparr>"
    by (simp add: bus_event_step_def Subscribe_def Receive_def Publish_def VerifyAlert_def NewBus_def)
  from bus_gated [OF this] show ?thesis by (metis bus.select_convs(1) list.set_intros(1) nth_Cons_0)
qed

text \<open>
  \<open>Attest\<close> searches the 64-bit nonces in order: it returns the alert with the least nonce for
  which the digest, read as a number, is below 2^244, and it runs for ever exactly when no nonce
  has one (the counter wraps).
\<close>
theorem Attest_least:
  "Attest out ev =
     (let a = \<lparr>Outpoint = out, Evidence = ev, AttesterPoW = []\<rparr> in
      if \<exists>n. attested (with_nonce a n) then Some (with_nonce a (LEAST n. attested (with_nonce a n))) else None)"
proof (cases "\<exists>n. attested (with_nonce \<lparr>Outpoint = out, Evidence = ev, AttesterPoW = []\<rparr> n)")
  case True
  let ?a = "\<lparr>Outpoint = out, Evidence = ev, AttesterPoW = []\<rparr>"
  have "attest_loop ?a 0 = Some (with_nonce ?a (LEAST n. attested (with_nonce ?a n)))"
  proof (rule attest_loop_finds [OF refl])
    show "attested (with_nonce ?a (LEAST n. attested (with_nonce ?a n)))" using True by (metis LeastI)
    show "\<not> attested (with_nonce ?a j)" if "j < (LEAST n. attested (with_nonce ?a n))" for j
      using that not_less_Least by blast
  qed simp
  then show ?thesis using True by (simp add: Attest_def Let_def)
next
  case False
  then have "attest_loop \<lparr>Outpoint = out, Evidence = ev, AttesterPoW = []\<rparr> 0 = None"
    using attest_loop_sound [of "\<lparr>Outpoint = out, Evidence = ev, AttesterPoW = []\<rparr>" 0] by (metis not_None_eq)
  then show ?thesis using False by (simp add: Attest_def Let_def)
qed

end
