(* ===== verification/Payment.thy ===== *)
theory Payment
  imports Bundle Crypto
begin

text \<open>
  Package \<open>payment\<close> (src/payment/payment.go): the payment transaction, its signature digest, the
  check of an input's signature, and the message a payer pushes to a merchant.
\<close>

section \<open>Transactions\<close>

record tx_in =
  Prev :: outpoint
  Sig :: bytes
  PubKey :: bytes

record tx_out =
  Value :: u64
  ScriptPubKey :: bytes

record tx3 =
  Version :: u32
  Inputs :: "tx_in list"
  Outputs :: "tx_out list"
  LockTime :: u32

section \<open>The writer\<close>

definition buf_u16 :: "u16 \<Rightarrow> bytes \<Rightarrow> bytes" where "buf_u16 v b = b @ le_bytes 2 v"

definition buf_u32 :: "u32 \<Rightarrow> bytes \<Rightarrow> bytes" where "buf_u32 v b = b @ le_bytes 4 v"

definition buf_u64 :: "u64 \<Rightarrow> bytes \<Rightarrow> bytes" where "buf_u64 v b = b @ le_bytes 8 v"

definition buf_bytes :: "bytes \<Rightarrow> bytes \<Rightarrow> bytes" where "buf_bytes x b = b @ x"

section \<open>Signature digest\<close>

definition preimage :: "tx3 \<Rightarrow> int \<Rightarrow> bytes" where
  "preimage t inputIdx =
     (let w = buf_u32 (Version t) [];
          w = buf_u32 (word_of_nat (length (Inputs t))) w;
          w = fold (\<lambda>i w. buf_bytes (PubKey i) (buf_u32 (Vout (Prev i)) (buf_bytes (bytes_of (TXID (Prev i))) w)))
                (Inputs t) w;
          w = buf_u32 (word_of_nat (length (Outputs t))) w;
          w = fold (\<lambda>x w. buf_bytes (ScriptPubKey x)
                     (buf_u32 (word_of_nat (length (ScriptPubKey x))) (buf_u64 (Value x) w))) (Outputs t) w;
          w = buf_u32 (LockTime t) w
      in buf_u32 (word_of_int inputIdx) w)"

definition Sighash :: "tx3 \<Rightarrow> int \<Rightarrow> hash" where
  "Sighash t inputIdx = DoubleSHA256 (preimage t inputIdx)"

text \<open>\<open>Inl Panic\<close> stands for the nil inverse inside \<open>crypto.Verify\<close>.\<close>

definition VerifyInputSignature :: "tx3 \<Rightarrow> int \<Rightarrow> bool res" where
  "VerifyInputSignature t inputIdx =
     (if inputIdx < 0 \<or> int (length (Inputs t)) \<le> inputIdx then Inr False
      else
        let i = Inputs t ! nat inputIdx in
        if length (Sig i) \<noteq> 64 \<or> length (PubKey i) \<noteq> 33 then Inr False
        else case ParseCompressed (PubKey i) of
          Inl _ \<Rightarrow> Inr False
        | Inr pub \<Rightarrow>
          (case ParseSignature (Sig i) of
             Inl _ \<Rightarrow> Inr False
           | Inr sig \<Rightarrow>
             if \<not> IsLowS sig then Inr False
             else VerifySig pub (bytes_of (Sighash t inputIdx)) sig))"

section \<open>The message\<close>

record message =
  Tx :: tx3
  Bundles :: "proof_bundle list"

definition encodeTx :: "tx3 \<Rightarrow> bytes \<Rightarrow> bytes" where
  "encodeTx t w =
     (let w = buf_u32 (Version t) w;
          w = buf_u32 (word_of_nat (length (Inputs t))) w;
          w = fold (\<lambda>i w.
                let w = buf_bytes (bytes_of (TXID (Prev i))) w;
                    w = buf_u32 (Vout (Prev i)) w;
                    w = buf_u16 (word_of_nat (length (Sig i))) w;
                    w = buf_bytes (Sig i) w;
                    w = buf_u16 (word_of_nat (length (PubKey i))) w
                in buf_bytes (PubKey i) w) (Inputs t) w;
          w = buf_u32 (word_of_nat (length (Outputs t))) w;
          w = fold (\<lambda>x w.
                let w = buf_u64 (Value x) w;
                    w = buf_u32 (word_of_nat (length (ScriptPubKey x))) w
                in buf_bytes (ScriptPubKey x) w) (Outputs t) w
      in buf_u32 (LockTime t) w)"

definition Encode :: "message \<Rightarrow> bytes" where
  "Encode m =
     (let w = encodeTx (Tx m) [];
          w = buf_u32 (word_of_nat (length (Bundles m))) w
      in fold (\<lambda>b w. let bb = Serialize b in buf_bytes bb (buf_u32 (word_of_nat (length bb)) w)) (Bundles m) w)"

section \<open>The reader\<close>

record rdr =
  rd_b :: bytes
  rd_off :: nat
  rd_err :: "go_error option"

text \<open>A length read from 32 bits is never negative as a 64-bit \<open>int\<close>.\<close>

definition rdr_take :: "nat \<Rightarrow> rdr \<Rightarrow> bytes option \<times> rdr" where
  "rdr_take n r =
     (if rd_err r \<noteq> None then (None, r)
      else if length (rd_b r) < rd_off r + n then (None, r\<lparr>rd_err := Some ErrTruncated\<rparr>)
      else (Some (go_slice (rd_b r) (rd_off r) (rd_off r + n)), r\<lparr>rd_off := rd_off r + n\<rparr>))"

text \<open>\<open>read\<close> into an array that is zero before: it stays zero on failure.\<close>

definition rdr_read :: "rdr \<Rightarrow> ('n::len) barray \<times> rdr" where
  "rdr_read r =
     (case rdr_take LENGTH('n) r of (None, r) \<Rightarrow> (barray_of [], r) | (Some b, r) \<Rightarrow> (barray_of b, r))"

definition rdr_u16 :: "rdr \<Rightarrow> u16 \<times> rdr" where
  "rdr_u16 r = (case rdr_take 2 r of (None, r) \<Rightarrow> (0, r) | (Some b, r) \<Rightarrow> (le_word b, r))"

definition rdr_u32 :: "rdr \<Rightarrow> u32 \<times> rdr" where
  "rdr_u32 r = (case rdr_take 4 r of (None, r) \<Rightarrow> (0, r) | (Some b, r) \<Rightarrow> (le_word b, r))"

definition rdr_u64 :: "rdr \<Rightarrow> u64 \<times> rdr" where
  "rdr_u64 r = (case rdr_take 8 r of (None, r) \<Rightarrow> (0, r) | (Some b, r) \<Rightarrow> (le_word b, r))"

text \<open>\<open>append([]byte(nil), r.take(n)...)\<close>: a copy, empty for nil.\<close>

definition rdr_copy :: "nat \<Rightarrow> rdr \<Rightarrow> bytes \<times> rdr" where
  "rdr_copy n r = (case rdr_take n r of (None, r) \<Rightarrow> ([], r) | (Some b, r) \<Rightarrow> (b, r))"

primrec dec_inputs :: "nat \<Rightarrow> tx_in list \<Rightarrow> rdr \<Rightarrow> tx_in list \<times> rdr" where
  "dec_inputs 0 ins r = (ins, r)"
| "dec_inputs (Suc n) ins r =
     (if rd_err r \<noteq> None then (ins, r)
      else
        let (txid, r) = rdr_read r;
            (vout, r) = rdr_u32 r;
            (sl, r) = rdr_u16 r; (sig, r) = rdr_copy (unat sl) r;
            (pl, r) = rdr_u16 r; (pk, r) = rdr_copy (unat pl) r
        in dec_inputs n (ins @ [\<lparr>Prev = \<lparr>TXID = txid, Vout = vout\<rparr>, Sig = sig, PubKey = pk\<rparr>]) r)"

primrec dec_outputs :: "nat \<Rightarrow> tx_out list \<Rightarrow> rdr \<Rightarrow> tx_out list \<times> rdr" where
  "dec_outputs 0 outs r = (outs, r)"
| "dec_outputs (Suc n) outs r =
     (if rd_err r \<noteq> None then (outs, r)
      else
        let (v, r) = rdr_u64 r;
            (sl, r) = rdr_u32 r; (script, r) = rdr_copy (unat sl) r
        in dec_outputs n (outs @ [\<lparr>Value = v, ScriptPubKey = script\<rparr>]) r)"

definition decodeTx :: "rdr \<Rightarrow> tx3 res \<times> rdr" where
  "decodeTx r =
     (let (version, r) = rdr_u32 r;
          (ni, r) = rdr_u32 r;
          (ins, r) = dec_inputs (unat ni) [] r;
          (no, r) = rdr_u32 r;
          (outs, r) = dec_outputs (unat no) [] r;
          (lt, r) = rdr_u32 r
      in case rd_err r of
           Some e \<Rightarrow> (Inl e, r)
         | None \<Rightarrow> (Inr \<lparr>Version = version, Inputs = ins, Outputs = outs, LockTime = lt\<rparr>, r))"

primrec dec_bundles :: "nat \<Rightarrow> proof_bundle list \<Rightarrow> rdr \<Rightarrow> (proof_bundle list \<times> rdr) res" where
  "dec_bundles 0 bs r = Inr (bs, r)"
| "dec_bundles (Suc n) bs r =
     (let (ln, r) = rdr_u32 r; (bb, r) = rdr_copy (unat ln) r in
      case rd_err r of
        Some e \<Rightarrow> Inl e
      | None \<Rightarrow>
        (case Deserialize bb of
           Inl e \<Rightarrow> Inl e
         | Inr b \<Rightarrow> dec_bundles n (bs @ [b]) r))"

definition DecodeMessage :: "bytes \<Rightarrow> message res" where
  "DecodeMessage data =
     (let (t, r) = decodeTx \<lparr>rd_b = data, rd_off = 0, rd_err = None\<rparr> in
      case t of
        Inl e \<Rightarrow> Inl e
      | Inr tx \<Rightarrow>
        (let (n, r) = rdr_u32 r in
         case rd_err r of
           Some e \<Rightarrow> Inl e
         | None \<Rightarrow>
           (case dec_bundles (unat n) [] r of
              Inl e \<Rightarrow> Inl e
            | Inr (bs, r) \<Rightarrow>
              (case rd_err r of
                 Some e \<Rightarrow> Inl e
               | None \<Rightarrow>
                   if rd_off r \<noteq> length (rd_b r) then Inl ErrTrailing
                   else Inr \<lparr>Tx = tx, Bundles = bs\<rparr>))))"

section \<open>What is written\<close>

definition enc_in :: "tx_in \<Rightarrow> bytes" where
  "enc_in i = bytes_of (TXID (Prev i)) @ le_bytes 4 (Vout (Prev i)) @
     le_bytes 2 (word_of_nat (length (Sig i)) :: u16) @ Sig i @
     le_bytes 2 (word_of_nat (length (PubKey i)) :: u16) @ PubKey i"

definition enc_out :: "tx_out \<Rightarrow> bytes" where
  "enc_out x = le_bytes 8 (Value x) @ le_bytes 4 (word_of_nat (length (ScriptPubKey x)) :: u32) @ ScriptPubKey x"

definition enc_tx :: "tx3 \<Rightarrow> bytes" where
  "enc_tx t = le_bytes 4 (Version t) @ le_bytes 4 (word_of_nat (length (Inputs t)) :: u32) @
     concat (map enc_in (Inputs t)) @ le_bytes 4 (word_of_nat (length (Outputs t)) :: u32) @
     concat (map enc_out (Outputs t)) @ le_bytes 4 (LockTime t)"

definition enc_bundle :: "proof_bundle \<Rightarrow> bytes" where
  "enc_bundle b = le_bytes 4 (word_of_nat (length (Serialize b)) :: u32) @ Serialize b"

lemmas buf_defs = buf_u16_def buf_u32_def buf_u64_def buf_bytes_def

lemma fold_append: "(\<And>x w. f x w = w @ e x) \<Longrightarrow> fold f xs w = w @ concat (map e xs)"
  by (induction xs arbitrary: w) simp_all

lemma encodeTx_eq: "encodeTx t w = w @ enc_tx t"
proof -
  have "fold (\<lambda>i w. let w = buf_bytes (bytes_of (TXID (Prev i))) w; w = buf_u32 (Vout (Prev i)) w;
                    w = buf_u16 (word_of_nat (length (Sig i))) w; w = buf_bytes (Sig i) w;
                    w = buf_u16 (word_of_nat (length (PubKey i))) w
                in buf_bytes (PubKey i) w) ins w = w @ concat (map enc_in ins)" for ins w
    by (rule fold_append) (simp add: enc_in_def buf_defs)
  moreover have "fold (\<lambda>x w. let w = buf_u64 (Value x) w;
                    w = buf_u32 (word_of_nat (length (ScriptPubKey x))) w
                in buf_bytes (ScriptPubKey x) w) outs w = w @ concat (map enc_out outs)" for outs w
    by (rule fold_append) (simp add: enc_out_def buf_defs)
  ultimately show ?thesis by (simp add: encodeTx_def enc_tx_def buf_u32_def)
qed

lemma Encode_eq:
  "Encode m = enc_tx (Tx m) @ le_bytes 4 (word_of_nat (length (Bundles m)) :: u32) @
     concat (map enc_bundle (Bundles m))"
proof -
  have "fold (\<lambda>b w. let bb = Serialize b in buf_bytes bb (buf_u32 (word_of_nat (length bb)) w)) bs w
      = w @ concat (map enc_bundle bs)" for bs w
    by (rule fold_append) (simp add: enc_bundle_def buf_defs Let_def)
  then show ?thesis by (simp add: Encode_def encodeTx_eq buf_u32_def)
qed

section \<open>What is read\<close>

definition rdr_at :: "rdr \<Rightarrow> bytes \<Rightarrow> bool" where
  "rdr_at r xs \<longleftrightarrow> rd_err r = None \<and> rd_off r \<le> length (rd_b r) \<and> drop (rd_off r) (rd_b r) = xs"

lemma rdr_at_err: "rdr_at r xs \<Longrightarrow> rd_err r = None"
  by (simp add: rdr_at_def)

interpretation pay: byte_reader rdr_take rdr_at
proof
  fix r xs rest
  assume a: "rdr_at r (xs @ rest)"
  then have len: "length (rd_b r) = rd_off r + length xs + length rest"
    by (metis (no_types, lifting) add.assoc le_add_diff_inverse length_append length_drop rdr_at_def)
  have "take (length xs) (drop (rd_off r) (rd_b r)) = xs"
    and "drop (length xs) (drop (rd_off r) (rd_b r)) = rest"
    using a by (simp_all add: rdr_at_def)
  then have "go_slice (rd_b r) (rd_off r) (rd_off r + length xs) = xs"
    and "drop (rd_off r + length xs) (rd_b r) = rest"
    by (simp_all add: go_slice_def add.commute)
  then show "\<exists>r'. rdr_take (length xs) r = (Some xs, r') \<and> rdr_at r' rest"
    using a len by (simp add: rdr_take_def rdr_at_def)
qed

lemma rdr_u16_ok: "rdr_at r (le_bytes 2 v @ rest) \<Longrightarrow> \<exists>r'. rdr_u16 r = (v, r') \<and> rdr_at r' rest"
  using pay.take_word [of r 2 v rest] by (auto simp: rdr_u16_def)

lemma rdr_u32_ok: "rdr_at r (le_bytes 4 v @ rest) \<Longrightarrow> \<exists>r'. rdr_u32 r = (v, r') \<and> rdr_at r' rest"
  using pay.take_word [of r 4 v rest] by (auto simp: rdr_u32_def)

lemma rdr_u64_ok: "rdr_at r (le_bytes 8 v @ rest) \<Longrightarrow> \<exists>r'. rdr_u64 r = (v, r') \<and> rdr_at r' rest"
  using pay.take_word [of r 8 v rest] by (auto simp: rdr_u64_def)

lemma rdr_read_ok: "rdr_at r (bytes_of (x :: 'n::len barray) @ rest) \<Longrightarrow> \<exists>r'. rdr_read r = (x, r') \<and> rdr_at r' rest"
  using pay.take_barray [of r x rest] by (auto simp: rdr_read_def)

lemma rdr_copy_ok: "rdr_at r (xs @ rest) \<Longrightarrow> length xs = n \<Longrightarrow> \<exists>r'. rdr_copy n r = (xs, r') \<and> rdr_at r' rest"
  using pay.take_n [of r xs rest n] by (auto simp: rdr_copy_def)

definition in_ok :: "tx_in \<Rightarrow> bool" where
  "in_ok i \<longleftrightarrow> length (Sig i) < 2 ^ 16 \<and> length (PubKey i) < 2 ^ 16"

definition out_ok :: "tx_out \<Rightarrow> bool" where
  "out_ok x \<longleftrightarrow> length (ScriptPubKey x) < 2 ^ 32"

definition tx_ok :: "tx3 \<Rightarrow> bool" where
  "tx_ok t \<longleftrightarrow> length (Inputs t) < 2 ^ 32 \<and> length (Outputs t) < 2 ^ 32 \<and>
     (\<forall>i\<in>set (Inputs t). in_ok i) \<and> (\<forall>x\<in>set (Outputs t). out_ok x)"

definition message_ok :: "message \<Rightarrow> bool" where
  "message_ok m \<longleftrightarrow> tx_ok (Tx m) \<and> length (Bundles m) < 2 ^ 32 \<and>
     (\<forall>b\<in>set (Bundles m). wire_ok b \<and> length (Serialize b) < 2 ^ 32)"

lemma dec_inputs_ok:
  "rdr_at r (concat (map enc_in ins) @ rest) \<Longrightarrow> \<forall>i\<in>set ins. in_ok i \<Longrightarrow>
   \<exists>r'. dec_inputs (length ins) acc r = (acc @ ins, r') \<and> rdr_at r' rest"
proof (induction ins arbitrary: acc r)
  case (Cons i ins)
  let ?tl = "concat (map enc_in ins) @ rest"
  let ?s = "word_of_nat (length (Sig i)) :: u16" and ?p = "word_of_nat (length (PubKey i)) :: u16"
  have n: "unat ?s = length (Sig i)" "unat ?p = length (PubKey i)"
    using Cons.prems(2) by (auto intro!: unat_word_of_nat_16 simp: in_ok_def)
  have "rdr_at r (bytes_of (TXID (Prev i)) @ le_bytes 4 (Vout (Prev i)) @ le_bytes 2 ?s @ Sig i @ le_bytes 2 ?p @ PubKey i @ ?tl)"
    using Cons.prems(1) by (simp add: enc_in_def [of i])
  from rdr_read_ok [OF this] obtain r1 where r1: "rdr_read r = (TXID (Prev i), r1)"
    and "rdr_at r1 (le_bytes 4 (Vout (Prev i)) @ le_bytes 2 ?s @ Sig i @ le_bytes 2 ?p @ PubKey i @ ?tl)" by blast
  from rdr_u32_ok [OF this(2)] obtain r2 where r2: "rdr_u32 r1 = (Vout (Prev i), r2)"
    and "rdr_at r2 (le_bytes 2 ?s @ Sig i @ le_bytes 2 ?p @ PubKey i @ ?tl)" by blast
  from rdr_u16_ok [OF this(2)] obtain r3 where r3: "rdr_u16 r2 = (?s, r3)"
    and "rdr_at r3 (Sig i @ le_bytes 2 ?p @ PubKey i @ ?tl)" by blast
  from rdr_copy_ok [OF this(2) n(1) [symmetric]] obtain r4 where r4: "rdr_copy (unat ?s) r3 = (Sig i, r4)"
    and "rdr_at r4 (le_bytes 2 ?p @ PubKey i @ ?tl)" by blast
  from rdr_u16_ok [OF this(2)] obtain r5 where r5: "rdr_u16 r4 = (?p, r5)"
    and "rdr_at r5 (PubKey i @ ?tl)" by blast
  from rdr_copy_ok [OF this(2) n(2) [symmetric]] obtain r6 where r6: "rdr_copy (unat ?p) r5 = (PubKey i, r6)"
    and at6: "rdr_at r6 ?tl" by blast
  have e: "\<lparr>Prev = \<lparr>TXID = TXID (Prev i), Vout = Vout (Prev i)\<rparr>, Sig = Sig i, PubKey = PubKey i\<rparr> = i"
    by (cases i; cases "Prev i") simp
  show ?case
    using Cons.IH [OF at6, of "acc @ [i]"] Cons.prems r1 r2 r3 r4 r5 r6 rdr_at_err [OF Cons.prems(1)]
    by (simp add: e)
qed simp

lemma dec_outputs_ok:
  "rdr_at r (concat (map enc_out outs) @ rest) \<Longrightarrow> \<forall>x\<in>set outs. out_ok x \<Longrightarrow>
   \<exists>r'. dec_outputs (length outs) acc r = (acc @ outs, r') \<and> rdr_at r' rest"
proof (induction outs arbitrary: acc r)
  case (Cons x outs)
  let ?tl = "concat (map enc_out outs) @ rest"
  let ?s = "word_of_nat (length (ScriptPubKey x)) :: u32"
  have n: "unat ?s = length (ScriptPubKey x)"
    using Cons.prems(2) by (auto intro!: unat_word_of_nat_32 simp: out_ok_def)
  have "rdr_at r (le_bytes 8 (Value x) @ le_bytes 4 ?s @ ScriptPubKey x @ ?tl)"
    using Cons.prems(1) by (simp add: enc_out_def [of x])
  from rdr_u64_ok [OF this] obtain r1 where r1: "rdr_u64 r = (Value x, r1)"
    and "rdr_at r1 (le_bytes 4 ?s @ ScriptPubKey x @ ?tl)" by blast
  from rdr_u32_ok [OF this(2)] obtain r2 where r2: "rdr_u32 r1 = (?s, r2)"
    and "rdr_at r2 (ScriptPubKey x @ ?tl)" by blast
  from rdr_copy_ok [OF this(2) n [symmetric]] obtain r3 where r3: "rdr_copy (unat ?s) r2 = (ScriptPubKey x, r3)"
    and at3: "rdr_at r3 ?tl" by blast
  show ?case
    using Cons.IH [OF at3, of "acc @ [x]"] Cons.prems r1 r2 r3 rdr_at_err [OF Cons.prems(1)]
    by (cases x) (simp add: Let_def)
qed simp

lemma decodeTx_ok:
  assumes "rdr_at r (enc_tx t @ rest)" and "tx_ok t"
  shows "\<exists>r'. decodeTx r = (Inr t, r') \<and> rdr_at r' rest"
proof -
  let ?ni = "word_of_nat (length (Inputs t)) :: u32" and ?no = "word_of_nat (length (Outputs t)) :: u32"
  have n: "unat ?ni = length (Inputs t)" "unat ?no = length (Outputs t)"
    using assms(2) by (auto intro!: unat_word_of_nat_32 simp: tx_ok_def)
  note at = assms(1) [unfolded enc_tx_def append_assoc]
  from rdr_u32_ok [OF at] obtain r1 where r1: "rdr_u32 r = (Version t, r1)"
    and at1: "rdr_at r1 (le_bytes 4 ?ni @ concat (map enc_in (Inputs t)) @ le_bytes 4 ?no @
      concat (map enc_out (Outputs t)) @ le_bytes 4 (LockTime t) @ rest)" by blast
  from rdr_u32_ok [OF at1] obtain r2 where r2: "rdr_u32 r1 = (?ni, r2)"
    and at2: "rdr_at r2 (concat (map enc_in (Inputs t)) @ le_bytes 4 ?no @
      concat (map enc_out (Outputs t)) @ le_bytes 4 (LockTime t) @ rest)" by blast
  from dec_inputs_ok [OF at2, of "[]"] assms(2) obtain r3 where r3: "dec_inputs (length (Inputs t)) [] r2 = (Inputs t, r3)"
    and at3: "rdr_at r3 (le_bytes 4 ?no @ concat (map enc_out (Outputs t)) @ le_bytes 4 (LockTime t) @ rest)"
    by (auto simp: tx_ok_def)
  from rdr_u32_ok [OF at3] obtain r4 where r4: "rdr_u32 r3 = (?no, r4)"
    and at4: "rdr_at r4 (concat (map enc_out (Outputs t)) @ le_bytes 4 (LockTime t) @ rest)" by blast
  from dec_outputs_ok [OF at4, of "[]"] assms(2) obtain r5 where r5: "dec_outputs (length (Outputs t)) [] r4 = (Outputs t, r5)"
    and at5: "rdr_at r5 (le_bytes 4 (LockTime t) @ rest)" by (auto simp: tx_ok_def)
  from rdr_u32_ok [OF at5] obtain r6 where r6: "rdr_u32 r5 = (LockTime t, r6)" and at6: "rdr_at r6 rest" by blast
  show ?thesis
    using r1 r2 r3 r4 r5 r6 at6 n rdr_at_err [OF at6] by (simp add: decodeTx_def)
qed

lemma dec_bundles_ok:
  "rdr_at r (concat (map enc_bundle bs) @ rest) \<Longrightarrow> \<forall>b\<in>set bs. wire_ok b \<and> length (Serialize b) < 2 ^ 32 \<Longrightarrow>
   \<exists>r'. dec_bundles (length bs) acc r = Inr (acc @ bs, r') \<and> rdr_at r' rest"
proof (induction bs arbitrary: acc r)
  case (Cons b bs)
  let ?tl = "concat (map enc_bundle bs) @ rest"
  let ?s = "word_of_nat (length (Serialize b)) :: u32"
  have n: "unat ?s = length (Serialize b)" using Cons.prems(2) by (auto intro!: unat_word_of_nat_32)
  have "rdr_at r (le_bytes 4 ?s @ Serialize b @ ?tl)"
    using Cons.prems(1) by (simp add: enc_bundle_def [of b])
  from rdr_u32_ok [OF this] obtain r1 where r1: "rdr_u32 r = (?s, r1)" and "rdr_at r1 (Serialize b @ ?tl)" by blast
  from rdr_copy_ok [OF this(2) n [symmetric]] obtain r2 where r2: "rdr_copy (unat ?s) r1 = (Serialize b, r2)"
    and at2: "rdr_at r2 ?tl" by blast
  have "Deserialize (Serialize b) = Inr b" using Deserialize_Serialize Cons.prems(2) by simp
  then show ?case
    using Cons.IH [OF at2, of "acc @ [b]"] Cons.prems r1 r2 rdr_at_err [OF at2] by (simp add: Let_def)
qed simp

section \<open>What the digest commits to\<close>

text \<open>A transaction without its signatures.\<close>

definition unsigned_in :: "tx_in \<Rightarrow> outpoint \<times> bytes" where
  "unsigned_in i = (Prev i, PubKey i)"

definition tx_body :: "tx3 \<Rightarrow> u32 \<times> (outpoint \<times> bytes) list \<times> tx_out list \<times> u32" where
  "tx_body t = (Version t, map unsigned_in (Inputs t), Outputs t, LockTime t)"

definition pre_in :: "tx_in \<Rightarrow> bytes" where
  "pre_in i = bytes_of (TXID (Prev i)) @ le_bytes 4 (Vout (Prev i)) @ PubKey i"

lemma preimage_eq:
  "preimage t idx = le_bytes 4 (Version t) @ le_bytes 4 (word_of_nat (length (Inputs t)) :: u32) @
     concat (map pre_in (Inputs t)) @ le_bytes 4 (word_of_nat (length (Outputs t)) :: u32) @
     concat (map enc_out (Outputs t)) @ le_bytes 4 (LockTime t) @ le_bytes 4 (word_of_int idx :: u32)"
proof -
  have "fold (\<lambda>i w. buf_bytes (PubKey i) (buf_u32 (Vout (Prev i)) (buf_bytes (bytes_of (TXID (Prev i))) w))) ins w
      = w @ concat (map pre_in ins)" for ins w
    by (rule fold_append) (simp add: pre_in_def buf_defs)
  moreover have "fold (\<lambda>x w. buf_bytes (ScriptPubKey x) (buf_u32 (word_of_nat (length (ScriptPubKey x)))
      (buf_u64 (Value x) w))) outs w = w @ concat (map enc_out outs)" for outs w
    by (rule fold_append) (simp add: enc_out_def buf_defs)
  ultimately show ?thesis by (simp add: preimage_def buf_u32_def)
qed

definition digest_ok :: "tx3 \<Rightarrow> bool" where
  "digest_ok t \<longleftrightarrow> length (Inputs t) < 2 ^ 32 \<and> length (Outputs t) < 2 ^ 32 \<and>
     (\<forall>i\<in>set (Inputs t). length (PubKey i) = 33) \<and> (\<forall>x\<in>set (Outputs t). out_ok x)"

lemma bytes_of_append_inject:
  "bytes_of (x :: 'n::len barray) @ r = bytes_of y @ r' \<longleftrightarrow> x = y \<and> r = r'"
  by (simp add: bytes_of_eq_iff)

lemma word_of_nat_inject_32:
  "m < 2 ^ 32 \<Longrightarrow> n < 2 ^ 32 \<Longrightarrow> (word_of_nat m :: u32) = word_of_nat n \<longleftrightarrow> m = n"
  by (metis unat_word_of_nat_32)

lemma enc_out_inject:
  assumes "out_ok x" and "out_ok y" and "enc_out x @ r = enc_out y @ r'"
  shows "x = y \<and> r = r'"
proof -
  have v: "Value x = Value y" and l: "length (ScriptPubKey x) = length (ScriptPubKey y)"
    and "ScriptPubKey x @ r = ScriptPubKey y @ r'"
    using assms by (auto simp: enc_out_def out_ok_def le_bytes_inject word_of_nat_inject_32)
  then show ?thesis by (cases x; cases y) simp
qed

lemma pre_in_inject:
  assumes "length (PubKey i) = 33" and "length (PubKey j) = 33" and "pre_in i @ r = pre_in j @ r'"
  shows "unsigned_in i = unsigned_in j \<and> r = r'"
proof -
  have "TXID (Prev i) = TXID (Prev j)" "Vout (Prev i) = Vout (Prev j)" "PubKey i = PubKey j \<and> r = r'"
    using assms by (auto simp: pre_in_def le_bytes_inject bytes_of_append_inject)
  then show ?thesis by (simp add: unsigned_in_def)
qed

lemma preimage_inject:
  assumes "digest_ok t" and "digest_ok t'" and "preimage t i = preimage t' i'"
  shows "tx_body t = tx_body t' \<and> (word_of_int i :: u32) = word_of_int i'"
proof -
  note eq = assms(3) [unfolded preimage_eq]
  have v: "Version t = Version t'" and li: "length (Inputs t) = length (Inputs t')"
    and eq1: "concat (map pre_in (Inputs t)) @ le_bytes 4 (word_of_nat (length (Outputs t)) :: u32) @
      concat (map enc_out (Outputs t)) @ le_bytes 4 (LockTime t) @ le_bytes 4 (word_of_int i :: u32)
     = concat (map pre_in (Inputs t')) @ le_bytes 4 (word_of_nat (length (Outputs t')) :: u32) @
      concat (map enc_out (Outputs t')) @ le_bytes 4 (LockTime t') @ le_bytes 4 (word_of_int i' :: u32)"
    using eq assms(1,2) by (auto simp: le_bytes_inject digest_ok_def word_of_nat_inject_32)
  have "map unsigned_in (Inputs t) = map unsigned_in (Inputs t') \<and> le_bytes 4 (word_of_nat (length (Outputs t)) :: u32) @
      concat (map enc_out (Outputs t)) @ le_bytes 4 (LockTime t) @ le_bytes 4 (word_of_int i :: u32)
     = le_bytes 4 (word_of_nat (length (Outputs t')) :: u32) @
      concat (map enc_out (Outputs t')) @ le_bytes 4 (LockTime t') @ le_bytes 4 (word_of_int i' :: u32)"
    by (rule concat_inject [OF _ li eq1], rule pre_in_inject) (use assms(1,2) in \<open>auto simp: digest_ok_def\<close>)
  then have ins: "map unsigned_in (Inputs t) = map unsigned_in (Inputs t')"
    and eq2: "le_bytes 4 (word_of_nat (length (Outputs t)) :: u32) @
      concat (map enc_out (Outputs t)) @ le_bytes 4 (LockTime t) @ le_bytes 4 (word_of_int i :: u32)
     = le_bytes 4 (word_of_nat (length (Outputs t')) :: u32) @
      concat (map enc_out (Outputs t')) @ le_bytes 4 (LockTime t') @ le_bytes 4 (word_of_int i' :: u32)"
    by blast+
  have lo: "length (Outputs t) = length (Outputs t')"
    and eq3: "concat (map enc_out (Outputs t)) @ le_bytes 4 (LockTime t) @ le_bytes 4 (word_of_int i :: u32)
     = concat (map enc_out (Outputs t')) @ le_bytes 4 (LockTime t') @ le_bytes 4 (word_of_int i' :: u32)"
    using eq2 assms(1,2) by (auto simp: le_bytes_inject digest_ok_def word_of_nat_inject_32)
  have "map id (Outputs t) = map id (Outputs t') \<and> le_bytes 4 (LockTime t) @ le_bytes 4 (word_of_int i :: u32)
      = le_bytes 4 (LockTime t') @ le_bytes 4 (word_of_int i' :: u32)"
    by (rule concat_inject [OF _ lo eq3], unfold id_apply, rule enc_out_inject)
      (use assms(1,2) in \<open>auto simp: digest_ok_def\<close>)
  then show ?thesis
    using v ins by (simp add: tx_body_def le_bytes_inject)
qed

lemma body_length:
  assumes "tx_body t = tx_body t'"
  shows "length (Inputs t) = length (Inputs t')"
proof -
  have "map unsigned_in (Inputs t) = map unsigned_in (Inputs t')" using assms by (simp add: tx_body_def)
  then show ?thesis by (rule map_eq_imp_length_eq)
qed

text \<open>The digest does not depend on the signatures.\<close>

lemma Sighash_unsigned:
  assumes "tx_body t = tx_body t'"
  shows "Sighash t i = Sighash t' i"
proof -
  have p: "concat (map pre_in (Inputs t)) = concat (map pre_in (Inputs t'))"
  proof -
    have "concat (map pre_in ins) = concat (map (\<lambda>x. bytes_of (TXID (fst x)) @ le_bytes 4 (Vout (fst x)) @ snd x) (map unsigned_in ins))" for ins
      by (induction ins) (simp_all add: pre_in_def unsigned_in_def)
    then show ?thesis using assms by (simp add: tx_body_def del: map_map)
  qed
  then show ?thesis using assms body_length [OF assms] by (simp add: Sighash_def preimage_eq tx_body_def)
qed

section \<open>Properties\<close>

lemma DecodeMessage_Encode:
  assumes "message_ok m"
  shows "DecodeMessage (Encode m) = Inr m"
proof -
  let ?r = "\<lparr>rd_b = Encode m, rd_off = 0, rd_err = None\<rparr>"
  let ?n = "word_of_nat (length (Bundles m)) :: u32"
  have n: "unat ?n = length (Bundles m)"
    using assms by (auto intro!: unat_word_of_nat_32 simp: message_ok_def)
  have "rdr_at ?r (enc_tx (Tx m) @ le_bytes 4 ?n @ concat (map enc_bundle (Bundles m)) @ [])"
    by (simp add: rdr_at_def Encode_eq)
  from decodeTx_ok [OF this] assms obtain r1 where r1: "decodeTx ?r = (Inr (Tx m), r1)"
    and at1: "rdr_at r1 (le_bytes 4 ?n @ concat (map enc_bundle (Bundles m)) @ [])"
    by (auto simp: message_ok_def)
  from rdr_u32_ok [OF at1] obtain r2 where r2: "rdr_u32 r1 = (?n, r2)"
    and at2: "rdr_at r2 (concat (map enc_bundle (Bundles m)) @ [])" by blast
  from dec_bundles_ok [OF at2, of "[]"] assms obtain r3
    where r3: "dec_bundles (length (Bundles m)) [] r2 = Inr (Bundles m, r3)" and at3: "rdr_at r3 []"
    by (auto simp: message_ok_def)
  have "rd_off r3 = length (rd_b r3)" using at3 by (simp add: rdr_at_def)
  then show ?thesis
    using r1 r2 r3 n rdr_at_err [OF at2] rdr_at_err [OF at3] by (simp add: DecodeMessage_def)
qed

text \<open>
  C22. What a payer pushes, the merchant reads back: for every message whose lists and byte
  strings fit their length fields, \<open>DecodeMessage\<close> returns the message \<open>Encode\<close> wrote, the
  transaction with its signatures and every bundle, and it consumes the input exactly.
\<close>
theorem message_roundtrip:
  assumes "message_ok m"
  shows "DecodeMessage (Encode m) = Inr m"
  by (rule DecodeMessage_Encode [OF assms])

theorem message_roundtrip_witness:
  "DecodeMessage (Encode \<lparr>Tx = \<lparr>Version = 2,
      Inputs = [\<lparr>Prev = \<lparr>TXID = zero_hash, Vout = 1\<rparr>, Sig = [7, 7], PubKey = [2, 9]\<rparr>],
      Outputs = [\<lparr>Value = 5000000000, ScriptPubKey = [0x76]\<rparr>], LockTime = 9\<rparr>, Bundles = []\<rparr>)
   = Inr \<lparr>Tx = \<lparr>Version = 2,
      Inputs = [\<lparr>Prev = \<lparr>TXID = zero_hash, Vout = 1\<rparr>, Sig = [7, 7], PubKey = [2, 9]\<rparr>],
      Outputs = [\<lparr>Value = 5000000000, ScriptPubKey = [0x76]\<rparr>], LockTime = 9\<rparr>, Bundles = []\<rparr>"
  by (rule message_roundtrip) (simp add: message_ok_def tx_ok_def in_ok_def out_ok_def)

text \<open>
  C23. What a signature commits to. For two transactions in which every public key has its 33 bytes and the
  numbers of inputs and outputs and the lengths of the output scripts fit 32 bits (\<open>digest_ok\<close>), and for inputs
  that they have, the two digests are equal exactly when the transactions agree on everything but the signatures (version,
  outpoints and keys of all inputs in order, all outputs, lock time) and on the index of the input that is
  signed, or when their two pre-images are a SHA-256d collision. Without the first condition the digest does not
  separate transactions: it writes the keys without their lengths.
\<close>
theorem Sighash_binds:
  assumes "digest_ok t" and "digest_ok t'"
    and "0 \<le> i" and "i < int (length (Inputs t))" and "0 \<le> i'" and "i' < int (length (Inputs t'))"
  shows "Sighash t i = Sighash t' i' \<longleftrightarrow>
    (tx_body t = tx_body t' \<and> i = i') \<or> collision (preimage t i, preimage t' i')"
proof (cases "preimage t i = preimage t' i'")
  case True
  from preimage_inject [OF assms(1,2) True]
  have b: "tx_body t = tx_body t'" and w: "(word_of_int i :: u32) = word_of_int i'" by auto
  have "i mod 2 ^ 32 = i' mod 2 ^ 32"
    using arg_cong [OF w, of uint] by (simp add: uint_word_of_int)
  moreover have "i < 2 ^ 32" "i' < 2 ^ 32" using assms by (auto simp: digest_ok_def)
  ultimately have "i = i'" using assms(3,5) by (simp add: mod_pos_pos_trivial)
  then show ?thesis using b True by (simp add: Sighash_def)
next
  case False
  then show ?thesis using Sighash_unsigned [of t t' i] by (auto simp: collision_def Sighash_def)
qed

theorem Sighash_binds_witness:
  "let t = \<lparr>Version = 1, Inputs = [\<lparr>Prev = \<lparr>TXID = zero_hash, Vout = 0\<rparr>, Sig = [1], PubKey = replicate 33 2\<rparr>],
      Outputs = [\<lparr>Value = 7, ScriptPubKey = [1, 2]\<rparr>], LockTime = 0\<rparr>;
     t' = t\<lparr>Outputs := [\<lparr>Value = 8, ScriptPubKey = [1, 2]\<rparr>]\<rparr>
   in Sighash t 0 = Sighash t' 0 \<longleftrightarrow>
    (tx_body t = tx_body t' \<and> (0 :: int) = 0) \<or> collision (preimage t 0, preimage t' 0)"
  unfolding Let_def by (rule Sighash_binds) (simp_all add: digest_ok_def out_ok_def)

end
