(* ===== verification/WalletAlice.thy ===== *)
theory WalletAlice
  imports Payment
begin

text \<open>
  Package \<open>walletalice\<close> (src/walletalice/walletalice.go): the payer's offline wallet. It keeps a
  proof bundle and a key for each of its outputs, completes a merchant's template, signs every
  input, and exports the signed transaction with its bundles.

  \<open>outKey\<close> has the fields of an outpoint and shares its record. A stored key is a pointer, so
  the key map has values of type \<open>private_key option\<close>, \<open>None\<close> for nil. The outer \<open>None\<close> of a
  result stands for the nonce search of \<open>crypto.Sign\<close> that does not end.
\<close>

section \<open>State and operations\<close>

record alice_wallet =
  bundles :: "outpoint \<rightharpoonup> proof_bundle"
  keys :: "outpoint \<rightharpoonup> private_key option"

definition New :: alice_wallet where
  "New = \<lparr>bundles = Map.empty, keys = Map.empty\<rparr>"

definition AddOutput :: "alice_wallet \<Rightarrow> proof_bundle \<Rightarrow> private_key option \<Rightarrow> alice_wallet" where
  "AddOutput w b key =
     w\<lparr>bundles := (bundles w)(OutputRef b \<mapsto> b), keys := (keys w)(OutputRef b \<mapsto> key)\<rparr>"

definition SignInput :: "tx3 \<Rightarrow> int \<Rightarrow> private_key option \<Rightarrow> bytes res option" where
  "SignInput tx inputIdx key =
     (if inputIdx < 0 \<or> int (length (Inputs tx)) \<le> inputIdx then Some (Inl ErrInputIdx)
      else if key = None then Some (Inl ErrNoKey)
      else case Sign key (bytes_of (Sighash tx inputIdx)) of
        None \<Rightarrow> None
      | Some (Inl e) \<Rightarrow> Some (Inl e)
      | Some (Inr sig) \<Rightarrow> Some (SerializeSig sig))"

text \<open>The first loop of \<open>FillTemplate\<close>; the public key of a nil key is a panic.\<close>

definition new_input :: "proof_bundle \<Rightarrow> private_key option \<Rightarrow> tx_in res" where
  "new_input b key =
     (case key of
        None \<Rightarrow> Inl Panic
      | Some k \<Rightarrow>
        (case Public k of
           None \<Rightarrow> Inl Panic
         | Some pub \<Rightarrow> map_res (\<lambda>pk. \<lparr>Prev = OutputRef b, Sig = [], PubKey = pk\<rparr>) (SerializeCompressed pub)))"

primrec fill_inputs :: "alice_wallet \<Rightarrow> proof_bundle list \<Rightarrow> tx_in list \<Rightarrow> tx_in list res" where
  "fill_inputs w [] ins = Inr ins"
| "fill_inputs w (b # bs) ins =
     (case keys w (OutputRef b) of
        None \<Rightarrow> Inl ErrNoKey
      | Some key \<Rightarrow>
        (case new_input b key of
           Inl e \<Rightarrow> Inl e
         | Inr i \<Rightarrow> fill_inputs w bs (ins @ [i])))"

text \<open>The second loop, at index \<open>i\<close>. A map read of an absent key gives the nil pointer.\<close>

primrec sign_inputs :: "alice_wallet \<Rightarrow> proof_bundle list \<Rightarrow> nat \<Rightarrow> tx3 \<Rightarrow> tx3 res option" where
  "sign_inputs w [] i tx = Some (Inr tx)"
| "sign_inputs w (b # bs) i tx =
     (case SignInput tx (int i) (go_get None (keys w) (OutputRef b)) of
        None \<Rightarrow> None
      | Some (Inl e) \<Rightarrow> Some (Inl e)
      | Some (Inr sig) \<Rightarrow>
          sign_inputs w bs (i + 1) (tx\<lparr>Inputs := (Inputs tx)[i := (Inputs tx ! i)\<lparr>Sig := sig\<rparr>]\<rparr>))"

definition FillTemplate ::
  "alice_wallet \<Rightarrow> tx3 \<Rightarrow> proof_bundle list \<Rightarrow> bytes option \<Rightarrow> u64 \<Rightarrow> tx3 res option" where
  "FillTemplate w template inputs changeScript changeValue =
     (case fill_inputs w inputs [] of
        Inl e \<Rightarrow> Some (Inl e)
      | Inr ins \<Rightarrow>
        (let tx = template\<lparr>Inputs := ins\<rparr>;
             tx = (case changeScript of
                     Some script \<Rightarrow>
                       if 0 < changeValue
                       then tx\<lparr>Outputs := Outputs tx @ [\<lparr>Value = changeValue, ScriptPubKey = script\<rparr>]\<rparr>
                       else tx
                   | None \<Rightarrow> tx)
         in sign_inputs w inputs 0 tx))"

definition Export :: "proof_bundle list \<Rightarrow> tx3 \<Rightarrow> bytes res" where
  "Export inputs signedTx =
     (if list_ex (\<lambda>b. length (Fields b) = 0) inputs then Inl ErrTXIDOnly
      else Inr (Encode \<lparr>Tx = signedTx, Bundles = inputs\<rparr>))"

section \<open>What the payer signs\<close>

lemma new_input_ok:
  assumes "new_input b key = Inr i"
  obtains k pub pk where "key = Some k" "Public k = Some pub" "SerializeCompressed pub = Inr pk"
    "i = \<lparr>Prev = OutputRef b, Sig = [], PubKey = pk\<rparr>"
  using assms by (auto simp: new_input_def split: option.splits)

lemma fill_inputs_ok:
  "fill_inputs w bs ins = Inr r \<Longrightarrow> \<exists>new. r = ins @ new \<and>
     list_all2 (\<lambda>b i. \<exists>key. keys w (OutputRef b) = Some key \<and> new_input b key = Inr i) bs new"
proof (induction bs arbitrary: ins)
  case (Cons b bs)
  then obtain key i where k: "keys w (OutputRef b) = Some key" "new_input b key = Inr i"
    and "fill_inputs w bs (ins @ [i]) = Inr r" by (auto split: option.splits sum.splits)
  from Cons.IH [OF this(3)] obtain new where "r = (ins @ [i]) @ new"
    "list_all2 (\<lambda>b i. \<exists>key. keys w (OutputRef b) = Some key \<and> new_input b key = Inr i) bs new" by blast
  then show ?case using k by (intro exI [of _ "i # new"]) auto
qed simp

text \<open>Signing writes signatures and nothing else.\<close>

lemma body_sign [simp]: "i < length (Inputs t) \<Longrightarrow>
   tx_body (t\<lparr>Inputs := (Inputs t)[i := (Inputs t ! i)\<lparr>Sig := s\<rparr>]\<rparr>) = tx_body t"
proof -
  assume i: "i < length (Inputs t)"
  have "map unsigned_in ((Inputs t)[i := (Inputs t ! i)\<lparr>Sig := s\<rparr>]) = (map unsigned_in (Inputs t))[i := unsigned_in (Inputs t ! i)]"
    by (simp add: map_update unsigned_in_def)
  also have "\<dots> = map unsigned_in (Inputs t)" using i by (metis list_update_id length_map nth_map)
  finally show ?thesis by (simp add: tx_body_def)
qed

definition signed_at :: "alice_wallet \<Rightarrow> tx3 \<Rightarrow> proof_bundle \<Rightarrow> nat \<Rightarrow> bool" where
  "signed_at w tx b i \<longleftrightarrow> (\<exists>k sig. keys w (OutputRef b) = Some (Some k) \<and>
     Sign (Some k) (bytes_of (Sighash tx (int i))) = Some (Inr sig) \<and> SerializeSig sig = Inr (Sig (Inputs tx ! i)))"

lemma sign_inputs_ok:
  assumes "sign_inputs w bs i tx = Some (Inr tx')" and "i + length bs \<le> length (Inputs tx)"
  shows "tx_body tx' = tx_body tx \<and> (\<forall>j < i. Inputs tx' ! j = Inputs tx ! j) \<and>
    (\<forall>j < length bs. signed_at w tx' (bs ! j) (i + j))"
  using assms
proof (induction bs arbitrary: i tx)
  case (Cons b bs)
  then obtain s where s: "SignInput tx (int i) (go_get None (keys w) (OutputRef b)) = Some (Inr s)"
    and run: "sign_inputs w bs (i + 1) (tx\<lparr>Inputs := (Inputs tx)[i := (Inputs tx ! i)\<lparr>Sig := s\<rparr>]\<rparr>) = Some (Inr tx')"
    by (auto split: option.splits sum.splits)
  let ?t = "tx\<lparr>Inputs := (Inputs tx)[i := (Inputs tx ! i)\<lparr>Sig := s\<rparr>]\<rparr>"
  have i: "i < length (Inputs tx)" using Cons.prems(2) by simp
  from Cons.IH [OF run] Cons.prems(2)
  have body: "tx_body tx' = tx_body tx" and low: "\<forall>j < i + 1. Inputs tx' ! j = Inputs ?t ! j"
    and rest: "\<forall>j < length bs. signed_at w tx' (bs ! j) (i + 1 + j)" using i by auto
  obtain k sig where k: "go_get None (keys w) (OutputRef b) = Some k"
    and sig: "Sign (Some k) (bytes_of (Sighash tx (int i))) = Some (Inr sig)" "SerializeSig sig = Inr s"
    using s by (auto simp: SignInput_def split: if_splits option.splits sum.splits)
  have "keys w (OutputRef b) = Some (Some k)" using k by (auto simp: go_get_def split: option.splits)
  moreover have "Sig (Inputs tx' ! i) = s" using low i by simp
  ultimately have "signed_at w tx' b i"
    using sig Sighash_unsigned [OF body] by (auto simp: signed_at_def)
  then have "\<forall>j < length (b # bs). signed_at w tx' ((b # bs) ! j) (i + j)"
    using rest by (auto simp: less_Suc_eq_0_disj)
  moreover have "\<forall>j < i. Inputs tx' ! j = Inputs tx ! j" using low by auto
  ultimately show ?case using body by blast
qed simp

section \<open>Properties\<close>

text \<open>The outputs \<open>FillTemplate\<close> adds, and the input it makes for a bundle.\<close>

definition change_outputs :: "bytes option \<Rightarrow> u64 \<Rightarrow> tx_out list" where
  "change_outputs cs v = (case cs of Some s \<Rightarrow> (if 0 < v then [\<lparr>Value = v, ScriptPubKey = s\<rparr>] else []) | None \<Rightarrow> [])"

definition spends_with_held_key :: "alice_wallet \<Rightarrow> tx3 \<Rightarrow> proof_bundle \<Rightarrow> nat \<Rightarrow> bool" where
  "spends_with_held_key w tx b j \<longleftrightarrow> Prev (Inputs tx ! j) = OutputRef b \<and>
     (\<exists>k pub sig. keys w (OutputRef b) = Some (Some k) \<and>
        Public k = Some pub \<and> SerializeCompressed pub = Inr (PubKey (Inputs tx ! j)) \<and>
        Sign (Some k) (bytes_of (Sighash tx (int j))) = Some (Inr sig) \<and>
        SerializeSig sig = Inr (Sig (Inputs tx ! j)))"

lemma body_input:
  assumes "tx_body t = tx_body t'" and "j < length (Inputs t')"
  shows "Prev (Inputs t ! j) = Prev (Inputs t' ! j)" and "PubKey (Inputs t ! j) = PubKey (Inputs t' ! j)"
proof -
  have "map unsigned_in (Inputs t) = map unsigned_in (Inputs t')" using assms(1) by (simp add: tx_body_def)
  then have "unsigned_in (Inputs t ! j) = unsigned_in (Inputs t' ! j)"
    using assms(2) by (metis length_map nth_map)
  then show "Prev (Inputs t ! j) = Prev (Inputs t' ! j)" and "PubKey (Inputs t ! j) = PubKey (Inputs t' ! j)"
    by (simp_all add: unsigned_in_def)
qed

lemma FillTemplate_ok:
  assumes "FillTemplate w t ins cs v = Some (Inr tx)"
  shows "Version tx = Version t \<and> LockTime tx = LockTime t \<and> Outputs tx = Outputs t @ change_outputs cs v \<and>
    length (Inputs tx) = length ins \<and> (\<forall>j < length ins. spends_with_held_key w tx (ins ! j) j)"
proof -
  obtain new where new: "fill_inputs w ins [] = Inr new"
    using assms by (auto simp: FillTemplate_def split: sum.splits)
  let ?t = "t\<lparr>Inputs := new, Outputs := Outputs t @ change_outputs cs v\<rparr>"
  have run: "sign_inputs w ins 0 ?t = Some (Inr tx)"
    using assms new by (cases cs; cases "0 < v") (simp_all add: FillTemplate_def change_outputs_def)
  have all: "list_all2 (\<lambda>b i. \<exists>key. keys w (OutputRef b) = Some key \<and> new_input b key = Inr i) ins new"
    using fill_inputs_ok [OF new] by simp
  then have len: "length new = length ins" by (simp add: list_all2_lengthD)
  from sign_inputs_ok [OF run] len
  have body: "tx_body tx = tx_body ?t" and sg: "\<forall>j < length ins. signed_at w tx (ins ! j) j" by auto
  have "spends_with_held_key w tx (ins ! j) j" if j: "j < length ins" for j
  proof -
    obtain key where "keys w (OutputRef (ins ! j)) = Some key" "new_input (ins ! j) key = Inr (new ! j)"
      using list_all2_nthD [OF all j] by blast
    moreover have "Prev (Inputs tx ! j) = Prev (new ! j)" "PubKey (Inputs tx ! j) = PubKey (new ! j)"
      using body_input [OF body, of j] j len by simp_all
    ultimately show ?thesis using sg [rule_format, OF j]
      by (auto simp: spends_with_held_key_def signed_at_def elim!: new_input_ok)
  qed
  then show ?thesis using body body_length [OF body] len by (simp add: tx_body_def)
qed

text \<open>
  The payer's transaction. What \<open>FillTemplate\<close> returns keeps the template's version, lock time
  and outputs, adds at most the change output, and spends exactly the given bundles in order; each
  input names its bundle's outpoint, carries the public key of the key the wallet holds for it, and
  is signed with that key over the digest of the finished transaction (not of an intermediate one).
\<close>
theorem FillTemplate_signs:
  assumes "FillTemplate w t ins cs v = Some (Inr tx)"
  shows "Version tx = Version t \<and> LockTime tx = LockTime t \<and> Outputs tx = Outputs t @ change_outputs cs v \<and>
    length (Inputs tx) = length ins \<and> (\<forall>j < length ins. spends_with_held_key w tx (ins ! j) j)"
  by (rule FillTemplate_ok [OF assms])

theorem FillTemplate_signs_witness:
  "let t = \<lparr>Version = 2, Inputs = [\<lparr>Prev = \<lparr>TXID = zero_hash, Vout = 0\<rparr>, Sig = [], PubKey = []\<rparr>],
      Outputs = [\<lparr>Value = 7, ScriptPubKey = [1]\<rparr>], LockTime = 3\<rparr>;
     tx = \<lparr>Version = 2, Inputs = [], Outputs = [\<lparr>Value = 7, ScriptPubKey = [1]\<rparr>, \<lparr>Value = 5, ScriptPubKey = [9]\<rparr>],
      LockTime = 3\<rparr>
   in Version tx = Version t \<and> LockTime tx = LockTime t \<and> Outputs tx = Outputs t @ change_outputs (Some [9]) 5 \<and>
    length (Inputs tx) = length ([] :: proof_bundle list)"
proof -
  let ?t = "\<lparr>Version = 2, Inputs = [\<lparr>Prev = \<lparr>TXID = zero_hash, Vout = 0\<rparr>, Sig = [], PubKey = []\<rparr>],
      Outputs = [\<lparr>Value = 7, ScriptPubKey = [1]\<rparr>], LockTime = 3\<rparr>"
  have "FillTemplate New ?t [] (Some [9]) 5 = Some (Inr \<lparr>Version = 2, Inputs = [],
      Outputs = [\<lparr>Value = 7, ScriptPubKey = [1]\<rparr>, \<lparr>Value = 5, ScriptPubKey = [9]\<rparr>], LockTime = 3\<rparr>)"
    by (simp add: FillTemplate_def)
  from FillTemplate_signs [OF this] show ?thesis unfolding Let_def by blast
qed

text \<open>
  A transaction id alone is never exported: \<open>Export\<close> fails exactly when some bundle reveals no
  field, and otherwise its bytes decode at the merchant to the same transaction and bundles.
\<close>
theorem Export_decodes:
  assumes "message_ok \<lparr>Tx = tx, Bundles = ins\<rparr>"
  shows "if \<exists>b. b \<in> set ins \<and> Fields b = [] then Export ins tx = Inl ErrTXIDOnly
    else \<exists>m. Export ins tx = Inr m \<and> DecodeMessage m = Inr \<lparr>Tx = tx, Bundles = ins\<rparr>"
  using DecodeMessage_Encode [OF assms] by (auto simp: Export_def list_ex_iff)

theorem Export_decodes_witness:
  "let tx = \<lparr>Version = 2, Inputs = [], Outputs = [\<lparr>Value = 7, ScriptPubKey = [1]\<rparr>], LockTime = 3\<rparr>;
     ins = [\<lparr>OutputRef = \<lparr>TXID = zero_hash, Vout = 7\<rparr>, Fields = [], MTxIDPath' = [], SubtreePath = [],
       BlockPath = [], Header = barray_of [9], Anchor = None\<rparr>]
   in if \<exists>b. b \<in> set ins \<and> Fields b = [] then Export ins tx = Inl ErrTXIDOnly
    else \<exists>m. Export ins tx = Inr m \<and> DecodeMessage m = Inr \<lparr>Tx = tx, Bundles = ins\<rparr>"
  unfolding Let_def
proof (rule Export_decodes)
  let ?b = "\<lparr>OutputRef = \<lparr>TXID = zero_hash, Vout = 7\<rparr>, Fields = [], MTxIDPath' = [], SubtreePath = [],
       BlockPath = [], Header = barray_of [9], Anchor = None\<rparr> :: proof_bundle"
  have "wire_ok ?b" by (simp add: wire_ok_def path_ok_def fields_ok_def)
  moreover have "length (Serialize ?b) < 2 ^ 32"
    by (simp add: Serialize_def w_u8_def w_u16_def w_u32_def w_bytes_def w_path_def w_fields_def)
  ultimately show "message_ok \<lparr>Tx = \<lparr>Version = 2, Inputs = [], Outputs = [\<lparr>Value = 7, ScriptPubKey = [1]\<rparr>], LockTime = 3\<rparr>,
      Bundles = [?b]\<rparr>"
    by (simp add: message_ok_def tx_ok_def out_ok_def)
qed

end
