(* ===== verification/WalletBob.thy ===== *)
theory WalletBob
  imports Complex_Main Dsalert WalletAlice "HOL-Library.AList"
begin

text \<open>
  Package \<open>walletbob\<close> (src/walletbob/walletbob.go): the merchant's till. \<open>AcceptPayment\<close> decodes the
  pushed message, checks every bundle against the till's header view, asks the UTXO client, the alert
  bus and, if there is one, the value oracle, verifies the signatures and the requested outputs, and
  combines the signals with the merchant's risk policy.

  The header view, the UTXO client and the bus are the interfaces of the other packages, read at one
  moment; the clock of the bus is the argument \<open>now\<close>. The result of a call is \<open>Inl Panic\<close>, or the
  pair of the decision and the error that the Go function returns.
\<close>

section \<open>Risk policy\<close>

text \<open>
  A \<open>float64\<close>: not a number, an infinity, or a finite value (every finite double is a rational; the
  two zeros are equal under comparison).
\<close>

datatype float64 = NaN | NegInf | Finite rat | PosInf

fun float_le :: "float64 \<Rightarrow> float64 \<Rightarrow> bool" where
  "float_le NaN _ = False"
| "float_le _ NaN = False"
| "float_le NegInf _ = True"
| "float_le _ NegInf = False"
| "float_le _ PosInf = True"
| "float_le PosInf _ = False"
| "float_le (Finite x) (Finite y) = (x \<le> y)"

record risk_policy =
  Tau :: float64
  Window :: int

definition Decide :: "risk_policy \<Rightarrow> float64 \<Rightarrow> bool \<Rightarrow> bool \<Rightarrow> bool \<Rightarrow> bool" where
  "Decide p valueAtRisk inclusionOK allUnspent alertQuiet =
     (if \<not> inclusionOK \<or> \<not> allUnspent \<or> \<not> alertQuiet then False
      else float_le valueAtRisk (Tau p))"

section \<open>State\<close>

record decision =
  Accepted :: bool
  Reason :: string
  InclusionOK :: bool
  AllUnspent :: bool
  AlertQuiet :: bool
  SignaturesOK :: bool
  TemplateOK :: bool
  ValueOK :: bool

definition no_decision :: decision where
  "no_decision = \<lparr>Accepted = False, Reason = [], InclusionOK = False, AllUnspent = False,
     AlertQuiet = False, SignaturesOK = False, TemplateOK = False, ValueOK = False\<rparr>"

text \<open>\<open>broadcaster\<close>: the error that the configured function returns for a transaction, if any.\<close>

record till =
  till_headers :: "header_chain option"
  utxo :: utxo_client
  alerts :: "bus option"
  broadcaster :: "(tx3 \<Rightarrow> go_error option) option"
  receiving :: "bytes \<rightharpoonup> public_key"

definition NewTill ::
  "header_chain option \<Rightarrow> utxo_client \<Rightarrow> bus option \<Rightarrow> (tx3 \<Rightarrow> go_error option) option \<Rightarrow> till" where
  "NewTill hs u al bc =
     \<lparr>till_headers = hs, utxo = u, alerts = al, broadcaster = bc, receiving = Map.empty\<rparr>"

definition AddReceivingKey :: "till \<Rightarrow> public_key \<Rightarrow> till res" where
  "AddReceivingKey w pub =
     map_res (\<lambda>k. w\<lparr>receiving := (receiving w)(k \<mapsto> pub)\<rparr>) (SerializeCompressed pub)"

definition StorePrivateKey :: "till \<Rightarrow> private_key option \<Rightarrow> go_error option" where
  "StorePrivateKey w k = Some ErrNoKeysAtTill"

definition Broadcast :: "till \<Rightarrow> tx3 \<Rightarrow> go_error option" where
  "Broadcast w tx = (case broadcaster w of None \<Rightarrow> Some ErrNoBroadcaster | Some f \<Rightarrow> f tx)"

section \<open>The checks\<close>

fun bytesEqual_loop :: "bytes \<Rightarrow> bytes \<Rightarrow> bool" where
  "bytesEqual_loop (a # as) (b # bs) = (if a \<noteq> b then False else bytesEqual_loop as bs)"
| "bytesEqual_loop _ _ = True"

definition bytesEqual :: "bytes \<Rightarrow> bytes \<Rightarrow> bool" where
  "bytesEqual a b = (if length a \<noteq> length b then False else bytesEqual_loop a b)"

definition templateSatisfied :: "tx3 \<Rightarrow> tx3 \<Rightarrow> bool" where
  "templateSatisfied template tx =
     list_all (\<lambda>want. list_ex (\<lambda>got. Value got = Value want \<and>
        bytesEqual (ScriptPubKey got) (ScriptPubKey want)) (Outputs tx)) (Outputs template)"

text \<open>Step 2: whether all bundles pass, and the reason of the first that does not.\<close>

primrec inclusion_loop :: "header_chain option \<Rightarrow> tx_in list \<Rightarrow> nat \<Rightarrow> proof_bundle list \<Rightarrow> (bool \<times> string) res" where
  "inclusion_loop hs ins i [] = Inr (True, [])"
| "inclusion_loop hs ins i (b # bs) =
     (case go_index ins i of
        Inl e \<Rightarrow> Inl e
      | Inr inp \<Rightarrow>
        if TXID (OutputRef b) \<noteq> TXID (Prev inp) \<or> Vout (OutputRef b) \<noteq> Vout (Prev inp)
        then Inr (False, ''bundle/input mismatch'')
        else case Verify b hs of
               (ok, _, reason) \<Rightarrow>
                 if \<not> ok then Inr (False, ''inclusion:'' @ reason) else inclusion_loop hs ins (i + 1) bs)"

text \<open>Step 3: whether all outpoints are unspent, the map \<open>owners\<close> as its entries, and the error.\<close>

primrec liveness_loop ::
  "utxo_client \<Rightarrow> tx_in list \<Rightarrow> bool \<Rightarrow> (outpoint \<times> bytes) list
    \<Rightarrow> bool \<times> (outpoint \<times> bytes) list \<times> go_error option" where
  "liveness_loop u [] unspent owners = (unspent, owners, None)"
| "liveness_loop u (inp # ins) unspent owners =
     (case IsUnspent u (Prev inp) of
        Inl e \<Rightarrow> (unspent, owners, Some e)
      | Inr live \<Rightarrow>
          liveness_loop u ins (if \<not> live then False else unspent) (AList.update (Prev inp) (PubKey inp) owners))"

text \<open>Step 5, from input \<open>i\<close> on.\<close>

primrec signature_loop :: "tx3 \<Rightarrow> nat \<Rightarrow> tx_in list \<Rightarrow> bool res" where
  "signature_loop tx i [] = Inr True"
| "signature_loop tx i (inp # ins) =
     (case VerifyInputSignature tx (int i) of
        Inl e \<Rightarrow> Inl e
      | Inr ok \<Rightarrow> if \<not> ok then Inr False else signature_loop tx (i + 1) ins)"

text \<open>Step 5b: the sums in \<open>uint64\<close>.\<close>

primrec sum_in_loop :: "(outpoint \<Rightarrow> (u64 \<times> bool) res) \<Rightarrow> tx_in list \<Rightarrow> u64 \<Rightarrow> u64 res" where
  "sum_in_loop vo [] s = Inr s"
| "sum_in_loop vo (inp # ins) s =
     (case vo (Prev inp) of Inl e \<Rightarrow> Inl e | Inr (v, _) \<Rightarrow> sum_in_loop vo ins (s + v))"

definition sum_out :: "tx_out list \<Rightarrow> u64" where
  "sum_out outs = fold (\<lambda>x s. s + Value x) outs 0"

definition value_check :: "utxo_client \<Rightarrow> tx3 \<Rightarrow> bool res" where
  "value_check u tx =
     (case AsValueOracle u of
        None \<Rightarrow> Inr True
      | Some vo \<Rightarrow> map_res (\<lambda>sumIn. sum_out (Outputs tx) \<le> sumIn) (sum_in_loop vo (Inputs tx) 0))"

section \<open>The point-of-sale decision\<close>

definition final_decision :: "risk_policy \<Rightarrow> float64 \<Rightarrow> decision \<Rightarrow> decision" where
  "final_decision policy valueAtRisk d =
     (let allOK = (InclusionOK d \<and> SignaturesOK d \<and> TemplateOK d \<and> ValueOK d);
          d = d\<lparr>Accepted := allOK \<and>
                 Decide policy valueAtRisk (InclusionOK d) (AllUnspent d) (AlertQuiet d)\<rparr>
      in
      if Accepted d then d\<lparr>Reason := ''accepted''\<rparr>
      else if Reason d = [] then
        d\<lparr>Reason :=
            (if \<not> SignaturesOK d then ''signature''
             else if \<not> TemplateOK d then ''template''
             else if \<not> ValueOK d then ''value:underfunded''
             else if \<not> AllUnspent d then ''double-spend:utxo-spent''
             else if \<not> AlertQuiet d then ''double-spend:alert''
             else ''risk-policy:value-exceeds-tau'')\<rparr>
      else d)"

text \<open>An error of an interface returns the decision as far as it is filled in.\<close>

definition AcceptPayment ::
  "till \<Rightarrow> int \<Rightarrow> bytes \<Rightarrow> tx3 \<Rightarrow> float64 \<Rightarrow> risk_policy \<Rightarrow> (decision \<times> go_error option) res" where
  "AcceptPayment w now msg template valueAtRisk policy =
     (let d = no_decision in
      case DecodeMessage msg of
        Inl e \<Rightarrow> Inr (d, Some e)
      | Inr m \<Rightarrow>
        if length (Bundles m) \<noteq> length (Inputs (Tx m)) then Inr (d, Some ErrBundleCount)
        else
        (case inclusion_loop (till_headers w) (Inputs (Tx m)) 0 (Bundles m) of
           Inl e \<Rightarrow> Inl e
         | Inr (incl, reason) \<Rightarrow>
           (let d = d\<lparr>InclusionOK := incl, Reason := reason\<rparr>;
                (unspent, owners, err) = liveness_loop (utxo w) (Inputs (Tx m)) True [];
                d = d\<lparr>AllUnspent := unspent\<rparr>
            in case err of
              Some e \<Rightarrow> Inr (d, Some e)
            | None \<Rightarrow>
              (let d = d\<lparr>AlertQuiet := (case alerts w of None \<Rightarrow> True
                          | Some b \<Rightarrow> QuietForOwners now owners (Window policy) b)\<rparr>
               in case signature_loop (Tx m) 0 (Inputs (Tx m)) of
                    Inl e \<Rightarrow> Inl e
                  | Inr sigs \<Rightarrow>
                    (let d = d\<lparr>SignaturesOK := sigs\<rparr>;
                         d = d\<lparr>TemplateOK := templateSatisfied template (Tx m)\<rparr>
                     in case value_check (utxo w) (Tx m) of
                          Inl e \<Rightarrow> Inr (d\<lparr>ValueOK := True\<rparr>, Some e)
                        | Inr v \<Rightarrow> Inr (final_decision policy valueAtRisk (d\<lparr>ValueOK := v\<rparr>), None))))))"

section \<open>What the loops compute\<close>

lemma bytesEqual_loop_iff: "length a = length b \<Longrightarrow> bytesEqual_loop a b \<longleftrightarrow> a = b"
  by (induction a b rule: bytesEqual_loop.induct) auto

lemma bytesEqual_iff [simp]: "bytesEqual a b \<longleftrightarrow> a = b"
  by (auto simp: bytesEqual_def bytesEqual_loop_iff)

lemma tx_out_eq: "Value x = Value y \<and> ScriptPubKey x = ScriptPubKey y \<longleftrightarrow> x = (y :: tx_out)"
  by (cases x; cases y) simp

lemma templateSatisfied_iff: "templateSatisfied t tx \<longleftrightarrow> set (Outputs t) \<subseteq> set (Outputs tx)"
  by (auto simp: templateSatisfied_def list_all_iff list_ex_iff tx_out_eq)

lemma outpoint_eq: "TXID x = TXID y \<and> Vout x = Vout y \<longleftrightarrow> x = (y :: outpoint)"
  by (cases x; cases y) simp

text \<open>A bundle passes for an input when it is of that input's outpoint and verifies.\<close>

definition proves_input :: "header_chain option \<Rightarrow> proof_bundle \<Rightarrow> tx_in \<Rightarrow> bool" where
  "proves_input hs b i \<longleftrightarrow> OutputRef b = Prev i \<and> fst (Verify b hs)"

definition inclusion_reason :: "string \<Rightarrow> bool" where
  "inclusion_reason r \<longleftrightarrow> r = ''bundle/input mismatch'' \<or> (\<exists>x. r = ''inclusion:'' @ x)"

lemma inclusion_reason_ne [simp]: "\<not> inclusion_reason []"
  by (simp add: inclusion_reason_def)

lemma inclusion_loop_ok:
  "i + length bs = length ins \<Longrightarrow>
   \<exists>ok r. inclusion_loop hs ins i bs = Inr (ok, r) \<and> ok = list_all2 (proves_input hs) bs (drop i ins) \<and>
     (if ok then r = [] else inclusion_reason r)"
proof (induction bs arbitrary: i)
  case (Cons b bs)
  then have i: "i < length ins" by simp
  then have d: "drop i ins = ins ! i # drop (Suc i) ins" by (rule Cons_nth_drop_Suc [symmetric])
  show ?case
  proof (cases "OutputRef b = Prev (ins ! i)")
    case False
    then show ?thesis using i d outpoint_eq [of "OutputRef b" "Prev (ins ! i)"]
      by (auto simp: proves_input_def inclusion_reason_def)
  next
    case True
    obtain ok dp r where v: "Verify b hs = (ok, dp, r)" by (cases "Verify b hs")
    show ?thesis
    proof (cases ok)
      case False
      then show ?thesis using True i d v by (auto simp: proves_input_def inclusion_reason_def)
    next
      case True
      then show ?thesis using \<open>OutputRef b = Prev (ins ! i)\<close> i d v Cons.IH [of "Suc i"] Cons.prems
        by (simp add: proves_input_def)
    qed
  qed
qed auto

text \<open>
  The level at which a bundle that does not verify fails first: the depth limits, the revealed field against the
  transaction identifier, the two upper paths against the header's root, or the header against the chain.
\<close>

definition failing_level :: "proof_bundle \<Rightarrow> string" where
  "failing_level b =
     (if 20 < length (SubtreePath b) \<or> MaxDepth < length (MTxIDPath' b @ SubtreePath b @ BlockPath b) then ''depth-overflow''
      else if Fields b = [] \<or> Fold (leafHash (hd (Fields b))) (MTxIDPath' b) \<noteq> TXID (OutputRef b) then ''L0''
      else if Fold (TXID (OutputRef b)) (SubtreePath b @ BlockPath b) \<noteq> HeaderMerkleRoot (Header b) then ''L3-bind''
      else ''L3/L4-chain'')"

lemma Verify_level: "\<not> fst (Verify b hs) \<Longrightarrow> snd (snd (Verify b hs)) = failing_level b"
  by (simp add: Verify_def failing_level_def Let_def LeafForField_def hd_conv_nth add.assoc split: if_splits) blast

text \<open>The reason that the first bundle gives which does not pass for its input.\<close>

definition inclusion_fault :: "header_chain option \<Rightarrow> tx_in list \<Rightarrow> proof_bundle list \<Rightarrow> string \<Rightarrow> bool" where
  "inclusion_fault hs ins bs r \<longleftrightarrow>
     (\<exists>i<length bs. (\<forall>j<i. proves_input hs (bs ! j) (ins ! j)) \<and> \<not> proves_input hs (bs ! i) (ins ! i) \<and>
        r = (if OutputRef (bs ! i) \<noteq> Prev (ins ! i) then ''bundle/input mismatch''
             else ''inclusion:'' @ failing_level (bs ! i)))"

lemma inclusion_fault_here:
  assumes "\<not> proves_input hs b i"
    and "r = (if OutputRef b \<noteq> Prev i then ''bundle/input mismatch'' else ''inclusion:'' @ failing_level b)"
  shows "inclusion_fault hs (i # ins) (b # bs) r"
  unfolding inclusion_fault_def using assms by (intro exI [of _ 0]) simp

lemma inclusion_fault_later:
  assumes "proves_input hs b i" and "inclusion_fault hs ins bs r"
  shows "inclusion_fault hs (i # ins) (b # bs) r"
proof -
  obtain k where "k < length bs" "\<forall>j<k. proves_input hs (bs ! j) (ins ! j)" "\<not> proves_input hs (bs ! k) (ins ! k)"
    "r = (if OutputRef (bs ! k) \<noteq> Prev (ins ! k) then ''bundle/input mismatch'' else ''inclusion:'' @ failing_level (bs ! k))"
    using assms(2) unfolding inclusion_fault_def by blast
  then show ?thesis
    unfolding inclusion_fault_def using assms(1) by (intro exI [of _ "Suc k"]) (auto simp: less_Suc_eq_0_disj)
qed

lemma inclusion_loop_fault:
  "i + length bs = length ins \<Longrightarrow> inclusion_loop hs ins i bs = Inr (False, r) \<Longrightarrow> inclusion_fault hs (drop i ins) bs r"
proof (induction bs arbitrary: i)
  case (Cons b bs)
  then have i: "i < length ins" by simp
  then have d: "drop i ins = ins ! i # drop (Suc i) ins" by (rule Cons_nth_drop_Suc [symmetric])
  obtain ok dp r' where v: "Verify b hs = (ok, dp, r')" by (cases "Verify b hs")
  show ?case
  proof (cases "proves_input hs b (ins ! i)")
    case False
    have "r = (if OutputRef b \<noteq> Prev (ins ! i) then ''bundle/input mismatch'' else ''inclusion:'' @ failing_level b)"
      using Cons.prems(2) i v False Verify_level [of b hs] outpoint_eq [of "OutputRef b" "Prev (ins ! i)"]
      by (auto simp: proves_input_def split: if_splits)
    then show ?thesis unfolding d by (rule inclusion_fault_here [OF False])
  next
    case True
    then have "inclusion_loop hs ins (Suc i) bs = Inr (False, r)"
      using Cons.prems(2) i v by (auto simp: proves_input_def split: if_splits)
    then show ?thesis unfolding d using inclusion_fault_later [OF True] Cons.IH [of "Suc i"] Cons.prems(1) by simp
  qed
qed simp

text \<open>The key the alert check uses for an outpoint: that of the last input that spends it.\<close>

definition spending_key :: "tx_in list \<Rightarrow> outpoint \<rightharpoonup> bytes" where
  "spending_key ins = map_of (rev (map (\<lambda>i. (Prev i, PubKey i)) ins))"

lemma liveness_loop_ok:
  assumes "liveness_loop u ins un ow = (un', ow', None)" and "distinct (map fst ow)"
  shows "un' = (un \<and> (\<forall>i\<in>set ins. IsUnspent u (Prev i) = Inr True)) \<and> distinct (map fst ow') \<and>
     map_of ow' = map_of ow ++ spending_key ins"
  using assms
proof (induction ins arbitrary: un ow)
  case Nil
  then show ?case by (simp add: spending_key_def)
next
  case (Cons i ins)
  then obtain live where l: "IsUnspent u (Prev i) = Inr live" by (auto split: sum.splits)
  let ?ow = "AList.update (Prev i) (PubKey i) ow"
  have run: "liveness_loop u ins (live \<and> un) ?ow = (un', ow', None)"
    using Cons.prems(1) l by (cases live) simp_all
  from Cons.IH [OF run] Cons.prems(2) l show ?case
    by (auto simp: distinct_update update_conv' spending_key_def map_add_def split: option.splits)
qed

lemma liveness_loop_err:
  "liveness_loop u ins un ow = (un', ow', Some e) \<Longrightarrow> \<exists>i\<in>set ins. IsUnspent u (Prev i) = Inl e"
  by (induction ins arbitrary: un ow) (auto split: sum.splits)

definition signed_by_own_key :: "tx3 \<Rightarrow> nat \<Rightarrow> bool" where
  "signed_by_own_key tx k \<longleftrightarrow> VerifyInputSignature tx (int k) = Inr True"

lemma upt_Cons: "[i..<i + Suc n] = i # [Suc i..<Suc i + n]"
  by (simp add: upt_conv_Cons del: upt_Suc)

lemma signature_loop_iff:
  "signature_loop tx i ins = Inr ok \<Longrightarrow> ok = list_all (signed_by_own_key tx) [i..<i + length ins]"
proof (induction ins arbitrary: i)
  case (Cons x ins)
  then obtain v where v: "VerifyInputSignature tx (int i) = Inr v" by (auto split: sum.splits)
  show ?case
    using Cons.IH [of "Suc i"] Cons.prems v unfolding length_Cons upt_Cons
    by (cases v) (auto simp: signed_by_own_key_def)
qed simp

lemma signature_loop_all:
  "list_all (signed_by_own_key tx) [i..<i + length ins] \<Longrightarrow> signature_loop tx i ins = Inr True"
proof (induction ins arbitrary: i)
  case (Cons x ins)
  then show ?case
    using Cons.IH [of "Suc i"] unfolding length_Cons upt_Cons by (simp add: signed_by_own_key_def)
qed simp

text \<open>The two sums are exact modulo \<open>2^64\<close> only.\<close>

definition in_value :: "(outpoint \<Rightarrow> (u64 \<times> bool) res) \<Rightarrow> tx_in \<Rightarrow> nat" where
  "in_value vo i = (case vo (Prev i) of Inl _ \<Rightarrow> 0 | Inr (v, _) \<Rightarrow> unat v)"

lemma unat_add_64: "unat (a + b :: u64) = (unat a + unat b) mod 2 ^ 64"
  by (simp add: unat_word_ariths)

lemma sum_in_loop_ok:
  "sum_in_loop vo ins s = Inr r \<Longrightarrow>
   unat r = (unat s + sum_list (map (in_value vo) ins)) mod 2 ^ 64 \<and> (\<forall>i\<in>set ins. is_ok (vo (Prev i)))"
proof (induction ins arbitrary: s)
  case Nil
  then show ?case using unsigned_less [of r, where 'a = nat] by simp
next
  case (Cons i ins)
  then obtain v l where v: "vo (Prev i) = Inr (v, l)" by (auto split: sum.splits)
  from Cons.IH [of "s + v"] Cons.prems v show ?case
    by (auto simp: in_value_def unat_add_64 mod_simps add.assoc)
qed

lemma sum_in_loop_err: "sum_in_loop vo ins s = Inl e \<Longrightarrow> \<exists>i\<in>set ins. vo (Prev i) = Inl e"
  by (induction ins arbitrary: s) (auto split: sum.splits)

lemma fold_sum_out: "unat (fold (\<lambda>x s. s + Value x) outs s) = (unat s + sum_list (map (unat \<circ> Value) outs)) mod 2 ^ 64"
proof (induction outs arbitrary: s)
  case Nil
  then show ?case using unsigned_less [of s, where 'a = nat] by simp
next
  case (Cons x outs)
  then show ?case by (simp add: unat_add_64 mod_simps add.assoc)
qed

lemma sum_out_value: "unat (sum_out outs) = sum_list (map (unat \<circ> Value) outs) mod 2 ^ 64"
  by (simp add: sum_out_def fold_sum_out)

section \<open>The conditions of acceptance\<close>

text \<open>
  The signals, each said without the loops: inclusion of every input, liveness, no alert of the
  spending key inside the window, every signature, the template, the sums modulo \<open>2^64\<close>.
\<close>

definition no_alert :: "bus \<Rightarrow> int \<Rightarrow> tx_in list \<Rightarrow> bool" where
  "no_alert b cutoff ins \<longleftrightarrow>
     (\<forall>op key. spending_key ins op = Some key \<longrightarrow>
        (\<forall>r\<in>set (go_get [] (seen b) op). cutoff < ts r \<longrightarrow> key \<noteq> [] \<and> ownerPub r \<noteq> key))"

definition funded :: "utxo_client \<Rightarrow> tx3 \<Rightarrow> bool" where
  "funded u tx \<longleftrightarrow> (case AsValueOracle u of None \<Rightarrow> True
     | Some vo \<Rightarrow> sum_list (map (unat \<circ> Value) (Outputs tx)) mod 2 ^ 64
                 \<le> sum_list (map (in_value vo) (Inputs tx)) mod 2 ^ 64)"

definition signals :: "till \<Rightarrow> int \<Rightarrow> tx3 \<Rightarrow> risk_policy \<Rightarrow> message \<Rightarrow> decision \<Rightarrow> bool" where
  "signals w now template policy m d \<longleftrightarrow>
     InclusionOK d = list_all2 (proves_input (till_headers w)) (Bundles m) (Inputs (Tx m)) \<and>
     AllUnspent d = (\<forall>i\<in>set (Inputs (Tx m)). IsUnspent (utxo w) (Prev i) = Inr True) \<and>
     AlertQuiet d = (case alerts w of None \<Rightarrow> True | Some b \<Rightarrow> no_alert b (now - Window policy) (Inputs (Tx m))) \<and>
     SignaturesOK d = list_all (signed_by_own_key (Tx m)) [0..<length (Inputs (Tx m))] \<and>
     TemplateOK d = (set (Outputs template) \<subseteq> set (Outputs (Tx m))) \<and>
     ValueOK d = funded (utxo w) (Tx m)"

lemma value_check_iff:
  assumes "value_check u tx = Inr ok"
  shows "ok = funded u tx"
proof (cases "AsValueOracle u")
  case (Some vo)
  then obtain r where "sum_in_loop vo (Inputs tx) 0 = Inr r" "ok = (sum_out (Outputs tx) \<le> r)"
    using assms by (auto simp: value_check_def)
  then show ?thesis
    using Some sum_in_loop_ok [of vo "Inputs tx" 0 r] by (simp add: funded_def word_le_nat_alt sum_out_value)
qed (use assms in \<open>simp add: value_check_def funded_def\<close>)

lemma value_check_err:
  "value_check u tx = Inl e \<Longrightarrow> \<exists>vo. AsValueOracle u = Some vo \<and> (\<exists>i\<in>set (Inputs tx). vo (Prev i) = Inl e)"
  by (auto simp: value_check_def dest: sum_in_loop_err split: option.splits)

lemma quiet_no_alert:
  assumes "distinct (map fst ow)" and "map_of ow = spending_key ins"
  shows "QuietForOwners now ow win b = no_alert b (now - win) ins"
proof -
  have "set ow = {(op, key). spending_key ins op = Some key}"
    using assms by (auto simp: map_of_eq_Some_iff simp flip: assms(2))
  then show ?thesis by (auto simp: QuietForOwners_def owners_loop_iff no_alert_def)
qed

lemma final_simps [simp]:
  "InclusionOK (final_decision p v d) = InclusionOK d" "AllUnspent (final_decision p v d) = AllUnspent d"
  "AlertQuiet (final_decision p v d) = AlertQuiet d" "SignaturesOK (final_decision p v d) = SignaturesOK d"
  "TemplateOK (final_decision p v d) = TemplateOK d" "ValueOK (final_decision p v d) = ValueOK d"
  by (simp_all add: final_decision_def Let_def)

lemma final_accepted:
  "Accepted (final_decision p v d) \<longleftrightarrow> InclusionOK d \<and> SignaturesOK d \<and> TemplateOK d \<and> ValueOK d \<and>
     AllUnspent d \<and> AlertQuiet d \<and> float_le v (Tau p)"
  by (auto simp: final_decision_def Let_def Decide_def)

text \<open>A run of \<open>AcceptPayment\<close> that decodes, taken apart.\<close>

lemma AcceptPayment_run:
  assumes run: "AcceptPayment w now msg template v policy = Inr (d, None)"
  obtains m d0 where "DecodeMessage msg = Inr m" and "length (Bundles m) = length (Inputs (Tx m))"
    and "d = final_decision policy v d0" and "signals w now template policy m d0"
    and "if InclusionOK d0 then Reason d0 = [] else inclusion_reason (Reason d0)"
    and "\<not> InclusionOK d0 \<Longrightarrow> inclusion_fault (till_headers w) (Inputs (Tx m)) (Bundles m) (Reason d0)"
proof -
  obtain m where m: "DecodeMessage msg = Inr m" and len: "length (Bundles m) = length (Inputs (Tx m))"
    using run by (auto simp: AcceptPayment_def Let_def split: sum.splits if_splits)
  let ?ins = "Inputs (Tx m)"
  obtain incl r where inc: "inclusion_loop (till_headers w) ?ins 0 (Bundles m) = Inr (incl, r)"
    and incl: "incl = list_all2 (proves_input (till_headers w)) (Bundles m) ?ins"
    and r: "if incl then r = [] else inclusion_reason r"
    using inclusion_loop_ok [of 0 "Bundles m" ?ins "till_headers w"] len by auto
  obtain un ow err where live: "liveness_loop (utxo w) ?ins True [] = (un, ow, err)"
    by (cases "liveness_loop (utxo w) ?ins True []") auto
  have err: "err = None"
    using run m len inc live by (auto simp: AcceptPayment_def Let_def split: option.splits)
  have lv: "un = (\<forall>i\<in>set ?ins. IsUnspent (utxo w) (Prev i) = Inr True)" "distinct (map fst ow)"
      "map_of ow = spending_key ?ins"
    using liveness_loop_ok [OF live [unfolded err]] by simp_all
  obtain sg where sig: "signature_loop (Tx m) 0 ?ins = Inr sg"
    using run m len inc live err by (auto simp: AcceptPayment_def Let_def split: sum.splits)
  obtain vok where vc: "value_check (utxo w) (Tx m) = Inr vok"
    using run m len inc live err sig by (auto simp: AcceptPayment_def Let_def split: sum.splits)
  let ?q = "case alerts w of None \<Rightarrow> True | Some b \<Rightarrow> QuietForOwners now ow (Window policy) b"
  let ?d = "no_decision\<lparr>InclusionOK := incl, Reason := r, AllUnspent := un, AlertQuiet := ?q, SignaturesOK := sg,
      TemplateOK := templateSatisfied template (Tx m), ValueOK := vok\<rparr>"
  have "d = final_decision policy v ?d"
    using run m len inc live err sig vc by (simp add: AcceptPayment_def Let_def)
  moreover have "signals w now template policy m ?d"
    using incl lv signature_loop_iff [OF sig] value_check_iff [OF vc]
    by (simp add: signals_def templateSatisfied_iff quiet_no_alert cong: option.case_cong)
  moreover have "inclusion_fault (till_headers w) ?ins (Bundles m) r" if "\<not> incl"
    using inclusion_loop_fault [of 0 "Bundles m" ?ins "till_headers w" r] inc len that by simp
  ultimately show thesis using that [of m ?d] m len r by simp
qed

section \<open>Properties\<close>

text \<open>
  C26. The decision of the till. When the call returns without an error the message decoded to as
  many bundles as inputs, every recorded signal has its meaning, and the payment is accepted exactly
  when all hold and the value at risk is within the merchant's threshold (never for a NaN): each
  bundle is of its input's outpoint and proves its inclusion, each outpoint is unspent, no alert
  signed with the spending key lies inside the window, each input is signed with the key it carries,
  each requested output is present, and the inputs cover the outputs modulo \<open>2^64\<close>.
\<close>
theorem AcceptPayment_decides:
  assumes "AcceptPayment w now msg template v policy = Inr (d, None)"
  shows "\<exists>m. DecodeMessage msg = Inr m \<and> length (Bundles m) = length (Inputs (Tx m)) \<and>
    signals w now template policy m d \<and>
    (Accepted d \<longleftrightarrow> InclusionOK d \<and> AllUnspent d \<and> AlertQuiet d \<and> SignaturesOK d \<and> TemplateOK d \<and>
       ValueOK d \<and> float_le v (Tau policy))"
proof (rule AcceptPayment_run [OF assms])
  fix m d0
  assume m: "DecodeMessage msg = Inr m" "length (Bundles m) = length (Inputs (Tx m))"
    and d: "d = final_decision policy v d0" and s: "signals w now template policy m d0"
  have "signals w now template policy m d" using s by (simp add: signals_def d)
  then show ?thesis using m by (auto simp: d final_accepted)
qed

text \<open>A till without alerts and oracle, and a message of one input that is not signed.\<close>

definition plain_till :: till where
  "plain_till = NewTill None \<lparr>IsUnspent = (\<lambda>_. Inr True), AsValueOracle = None\<rparr> None None"

definition unsigned_message :: message where
  "unsigned_message = \<lparr>Tx = \<lparr>Version = 1,
       Inputs = [\<lparr>Prev = \<lparr>TXID = zero_hash, Vout = 0\<rparr>, Sig = [], PubKey = [2]\<rparr>],
       Outputs = [\<lparr>Value = 5, ScriptPubKey = [1]\<rparr>], LockTime = 0\<rparr>,
     Bundles = [\<lparr>OutputRef = \<lparr>TXID = zero_hash, Vout = 0\<rparr>, Fields = [], MTxIDPath' = [], SubtreePath = [],
       BlockPath = [], Header = barray_of [], Anchor = None\<rparr>]\<rparr>"

lemma unsigned_message_decodes: "DecodeMessage (Encode unsigned_message) = Inr unsigned_message"
proof (rule DecodeMessage_Encode)
  show "message_ok unsigned_message"
    by (simp add: message_ok_def unsigned_message_def tx_ok_def in_ok_def out_ok_def wire_ok_def path_ok_def
        fields_ok_def Serialize_def w_u8_def w_u16_def w_u32_def w_bytes_def w_path_def w_fields_def)
qed

lemma unsigned_message_run:
  "AcceptPayment plain_till 0 (Encode unsigned_message) (Tx unsigned_message) (Finite 5) \<lparr>Tau = Finite 10, Window = 60\<rparr>
   = Inr (\<lparr>Accepted = False, Reason = ''inclusion:L0'', InclusionOK = False, AllUnspent = True, AlertQuiet = True,
      SignaturesOK = False, TemplateOK = True, ValueOK = True\<rparr>, None)"
proof -
  let ?m = "unsigned_message"
  have "inclusion_loop None (Inputs (Tx ?m)) 0 (Bundles ?m) = Inr (False, ''inclusion:L0'')"
    by (simp add: unsigned_message_def Verify_def MaxDepth_def)
  moreover have "signature_loop (Tx ?m) 0 (Inputs (Tx ?m)) = Inr False"
    by (simp add: unsigned_message_def VerifyInputSignature_def)
  moreover have "length (Bundles ?m) = length (Inputs (Tx ?m))" by (simp add: unsigned_message_def)
  moreover have "liveness_loop (utxo plain_till) (Inputs (Tx ?m)) True [] = (True, [(\<lparr>TXID = zero_hash, Vout = 0\<rparr>, [2])], None)"
    by (simp add: unsigned_message_def plain_till_def NewTill_def)
  moreover have "value_check (utxo plain_till) (Tx ?m) = Inr True"
    by (simp add: value_check_def plain_till_def NewTill_def)
  ultimately show ?thesis
    by (simp add: AcceptPayment_def unsigned_message_decodes templateSatisfied_iff plain_till_def NewTill_def
        no_decision_def final_decision_def Decide_def)
qed

theorem AcceptPayment_decides_witness:
  "\<exists>m. DecodeMessage (Encode unsigned_message) = Inr m \<and> length (Bundles m) = length (Inputs (Tx m)) \<and>
    signals plain_till 0 (Tx unsigned_message) \<lparr>Tau = Finite 10, Window = 60\<rparr> m
      \<lparr>Accepted = False, Reason = ''inclusion:L0'', InclusionOK = False, AllUnspent = True, AlertQuiet = True,
       SignaturesOK = False, TemplateOK = True, ValueOK = True\<rparr>"
  using AcceptPayment_decides [OF unsigned_message_run] by blast

text \<open>The causes of an error.\<close>

lemma AcceptPayment_error:
  assumes "AcceptPayment w now msg template v policy = Inr (d, Some e)"
  shows "\<not> Accepted d \<and>
    (DecodeMessage msg = Inl e \<or>
     (\<exists>m. DecodeMessage msg = Inr m \<and>
       (e = ErrBundleCount \<and> length (Bundles m) \<noteq> length (Inputs (Tx m)) \<or>
        (\<exists>i\<in>set (Inputs (Tx m)). IsUnspent (utxo w) (Prev i) = Inl e \<or>
       (\<exists>vo. AsValueOracle (utxo w) = Some vo \<and> vo (Prev i) = Inl e)))))"
proof (cases "DecodeMessage msg")
  case (Inl e')
  then show ?thesis using assms by (auto simp: AcceptPayment_def no_decision_def)
next
  case (Inr m)
  show ?thesis
  proof (cases "length (Bundles m) = length (Inputs (Tx m))")
    case False
    then show ?thesis using assms Inr by (auto simp: AcceptPayment_def no_decision_def)
  next
    case True
    obtain un ow err' where live: "liveness_loop (utxo w) (Inputs (Tx m)) True [] = (un, ow, err')"
      by (cases "liveness_loop (utxo w) (Inputs (Tx m)) True []") auto
    have acc: "\<not> Accepted d"
      using assms Inr True live
      by (auto simp: AcceptPayment_def no_decision_def Let_def split: sum.splits option.splits)
    have "err' = Some e \<or> value_check (utxo w) (Tx m) = Inl e"
      using assms Inr True live
      by (auto simp: AcceptPayment_def Let_def split: sum.splits option.splits)
    then have "\<exists>i\<in>set (Inputs (Tx m)). IsUnspent (utxo w) (Prev i) = Inl e \<or>
             (\<exists>vo. AsValueOracle (utxo w) = Some vo \<and> vo (Prev i) = Inl e)"
      using live liveness_loop_err value_check_err by blast
    then show ?thesis using acc Inr by auto
  qed
qed

text \<open>
  C27. Every failure is named. With an error nothing is accepted, and the error is the decoder's, the
  bundle count, or that of the UTXO client or value oracle for one of the inputs. Without an error
  the reason is \<open>accepted\<close>, or that of the first signal that fails in the order in which the code of the
  final decision asks for them: inclusion, signature, template, value, spent output, alert, threshold. (This is not
  the order of the checks in the comment and the specification, which have liveness and alerts before the signatures.)
  The reason of a failed inclusion is that of the first bundle that does not pass for its input: the mismatch of
  outpoints, or the level at which the bundle fails first, as \<open>failing_level\<close> states the levels.
\<close>
theorem AcceptPayment_reason:
  assumes "AcceptPayment w now msg template v policy = Inr (d, err)"
  shows "case err of
      Some e \<Rightarrow> \<not> Accepted d \<and>
        (DecodeMessage msg = Inl e \<or>
         (\<exists>m. DecodeMessage msg = Inr m \<and>
           (e = ErrBundleCount \<and> length (Bundles m) \<noteq> length (Inputs (Tx m)) \<or>
            (\<exists>i\<in>set (Inputs (Tx m)). IsUnspent (utxo w) (Prev i) = Inl e \<or>
               (\<exists>vo. AsValueOracle (utxo w) = Some vo \<and> vo (Prev i) = Inl e)))))
    | None \<Rightarrow>
        (if Accepted d then Reason d = ''accepted''
         else if \<not> InclusionOK d then
           (\<exists>m. DecodeMessage msg = Inr m \<and> inclusion_fault (till_headers w) (Inputs (Tx m)) (Bundles m) (Reason d))
         else Reason d =
           (if \<not> SignaturesOK d then ''signature'' else if \<not> TemplateOK d then ''template''
            else if \<not> ValueOK d then ''value:underfunded'' else if \<not> AllUnspent d then ''double-spend:utxo-spent''
            else if \<not> AlertQuiet d then ''double-spend:alert'' else ''risk-policy:value-exceeds-tau''))"
proof (cases err)
  case None
  show ?thesis
  proof (rule AcceptPayment_run [OF assms [unfolded None]])
    fix m d0
    assume m: "DecodeMessage msg = Inr m" and d: "d = final_decision policy v d0"
      and r: "if InclusionOK d0 then Reason d0 = [] else inclusion_reason (Reason d0)"
      and f: "\<not> InclusionOK d0 \<Longrightarrow> inclusion_fault (till_headers w) (Inputs (Tx m)) (Bundles m) (Reason d0)"
    have "Reason d0 \<noteq> []" if "\<not> InclusionOK d0" using r that by auto
    then show ?thesis using m r f by (auto simp: None d final_decision_def Let_def)
  qed
next
  case (Some e)
  then show ?thesis using AcceptPayment_error [of w now msg template v policy d e] assms by simp
qed

theorem AcceptPayment_reason_witness:
  "\<exists>d. AcceptPayment plain_till 0 (Encode unsigned_message) (Tx unsigned_message) (Finite 5) \<lparr>Tau = Finite 10, Window = 60\<rparr>
     = Inr (d, None) \<and> Reason d = ''inclusion:L0'' \<and> (\<exists>m. DecodeMessage (Encode unsigned_message) = Inr m \<and>
       inclusion_fault (till_headers plain_till) (Inputs (Tx m)) (Bundles m) (Reason d))"
  using AcceptPayment_reason [OF unsigned_message_run] unsigned_message_run by simp

text \<open>
  A payment for nothing. The sums of step 5b wrap, and no step asks for an input: at every till,
  whatever its header view, UTXO client, value oracle and alerts, a transaction with no inputs that
  adds an output of \<open>2^64\<close> minus the requested amount is accepted, value check included.
\<close>
theorem till_accepts_nothing:
  assumes "out_ok x" and "out_ok y" and "Value y = - Value x" and "Outputs template = [x]"
    and "float_le v (Tau policy)"
  shows "\<exists>d. AcceptPayment w now
      (Encode \<lparr>Tx = \<lparr>Version = ver, Inputs = [], Outputs = [x, y], LockTime = lt\<rparr>, Bundles = []\<rparr>)
      template v policy = Inr (d, None) \<and> Accepted d \<and> Reason d = ''accepted'' \<and> ValueOK d"
proof -
  let ?m = "\<lparr>Tx = \<lparr>Version = ver, Inputs = [], Outputs = [x, y], LockTime = lt\<rparr>, Bundles = []\<rparr>"
  have "DecodeMessage (Encode ?m) = Inr ?m"
    by (rule DecodeMessage_Encode) (use assms(1,2) in \<open>simp add: message_ok_def tx_ok_def\<close>)
  moreover have "value_check (utxo w) (Tx ?m) = Inr True"
    using assms(3) by (simp add: value_check_def sum_out_def split: option.splits)
  moreover have "templateSatisfied template (Tx ?m)" using assms(4) by (simp add: templateSatisfied_iff)
  moreover have "QuietForOwners now [] (Window policy) b" for b
    by (simp add: QuietForOwners_def)
  ultimately show ?thesis
    using assms(5) by (simp add: AcceptPayment_def no_decision_def final_decision_def Decide_def split: option.splits)
qed

theorem till_accepts_nothing_witness:
  "\<exists>d. AcceptPayment (NewTill None \<lparr>IsUnspent = (\<lambda>_. Inr True), AsValueOracle = Some (\<lambda>_. Inr (0, True))\<rparr> (Some NewBus) None) 0
      (Encode \<lparr>Tx = \<lparr>Version = 1, Inputs = [], Outputs = [\<lparr>Value = 100000, ScriptPubKey = [7]\<rparr>,
          \<lparr>Value = - 100000, ScriptPubKey = []\<rparr>], LockTime = 0\<rparr>, Bundles = []\<rparr>)
      \<lparr>Version = 1, Inputs = [], Outputs = [\<lparr>Value = 100000, ScriptPubKey = [7]\<rparr>], LockTime = 0\<rparr>
      (Finite 100000) \<lparr>Tau = Finite 100000, Window = 60\<rparr> = Inr (d, None) \<and>
    Accepted d \<and> Reason d = ''accepted'' \<and> ValueOK d"
  by (rule till_accepts_nothing) (simp_all add: out_ok_def)

text \<open>
  C28. Two inputs that spend the same outpoint. The liveness check passes for both, the alert check
  looks only for alerts of the second input's key (so a published double spend of the real owner's
  key is not seen), and the value of the outpoint is counted twice.
\<close>
theorem duplicate_input_hides_alert:
  assumes "AcceptPayment w now msg template v policy = Inr (d, None)" and "DecodeMessage msg = Inr m"
    and "Inputs (Tx m) = [i1, i2]" and "Prev i1 = Prev i2" and "IsUnspent (utxo w) (Prev i1) = Inr True"
    and "alerts w = Some b" and "PubKey i2 \<noteq> []"
    and "PubKey i2 \<notin> ownerPub ` set (go_get [] (seen b) (Prev i1))"
    and "AsValueOracle (utxo w) = Some vo" and "vo (Prev i1) = Inr (val, live)"
  shows "AllUnspent d \<and> AlertQuiet d \<and>
    (ValueOK d \<longleftrightarrow> sum_list (map (unat \<circ> Value) (Outputs (Tx m))) mod 2 ^ 64 \<le> (2 * unat val) mod 2 ^ 64)"
proof (rule AcceptPayment_run [OF assms(1)])
  fix m' d0
  assume "DecodeMessage msg = Inr m'" and d: "d = final_decision policy v d0"
    and s: "signals w now template policy m' d0"
  then have m': "m' = m" using assms(2) by simp
  have key: "spending_key [i1, i2] op = (if op = Prev i1 then Some (PubKey i2) else None)" for op
    using assms(4) by (simp add: spending_key_def)
  have "\<forall>r\<in>set (go_get [] (seen b) (Prev i1)). ownerPub r \<noteq> PubKey i2"
    using assms(8) by (metis imageI)
  then have "no_alert b (now - Window policy) [i1, i2]"
    using assms(7) by (auto simp: no_alert_def key)
  moreover have "funded (utxo w) (Tx m) \<longleftrightarrow>
      sum_list (map (unat \<circ> Value) (Outputs (Tx m))) mod 2 ^ 64 \<le> (2 * unat val) mod 2 ^ 64"
    using assms(3,4,9,10) by (simp add: funded_def in_value_def mult_2)
  ultimately show ?thesis
    using s assms(3-6) by (simp add: d signals_def m')
qed

text \<open>A bus with an alert of the owner \<open>[2]\<close>, and a payment of that outpoint with the keys \<open>[2]\<close> and \<open>[3]\<close>.\<close>

definition alerted_till :: till where
  "alerted_till = NewTill None
     \<lparr>IsUnspent = (\<lambda>_. Inr True), AsValueOracle = Some (\<lambda>_. Inr (50, True))\<rparr>
     (Some \<lparr>subs = [], seen = [\<lparr>TXID = zero_hash, Vout = 0\<rparr> \<mapsto> [\<lparr>ts = 95, ownerPub = [2]\<rparr>]]\<rparr>) None"

definition twice_message :: message where
  "twice_message = \<lparr>Tx = \<lparr>Version = 1,
       Inputs = [\<lparr>Prev = \<lparr>TXID = zero_hash, Vout = 0\<rparr>, Sig = [], PubKey = [2]\<rparr>,
                 \<lparr>Prev = \<lparr>TXID = zero_hash, Vout = 0\<rparr>, Sig = [], PubKey = [3]\<rparr>],
       Outputs = [\<lparr>Value = 100, ScriptPubKey = [1]\<rparr>], LockTime = 0\<rparr>,
     Bundles = Bundles unsigned_message @ Bundles unsigned_message\<rparr>"

lemma twice_message_decodes: "DecodeMessage (Encode twice_message) = Inr twice_message"
proof (rule DecodeMessage_Encode)
  show "message_ok twice_message"
    by (simp add: message_ok_def twice_message_def unsigned_message_def tx_ok_def in_ok_def out_ok_def wire_ok_def
        path_ok_def fields_ok_def Serialize_def w_u8_def w_u16_def w_u32_def w_bytes_def w_path_def w_fields_def)
qed

lemma twice_message_run:
  "AcceptPayment alerted_till 100 (Encode twice_message) (Tx twice_message) (Finite 5) \<lparr>Tau = Finite 10, Window = 60\<rparr>
   = Inr (\<lparr>Accepted = False, Reason = ''inclusion:L0'', InclusionOK = False, AllUnspent = True, AlertQuiet = True,
      SignaturesOK = False, TemplateOK = True, ValueOK = True\<rparr>, None)"
proof -
  let ?m = "twice_message"
  have "inclusion_loop None (Inputs (Tx ?m)) 0 (Bundles ?m) = Inr (False, ''inclusion:L0'')"
    by (simp add: twice_message_def unsigned_message_def Verify_def MaxDepth_def)
  moreover have "signature_loop (Tx ?m) 0 (Inputs (Tx ?m)) = Inr False"
    by (simp add: twice_message_def VerifyInputSignature_def)
  moreover have "length (Bundles ?m) = length (Inputs (Tx ?m))"
    by (simp add: twice_message_def unsigned_message_def)
  moreover have "liveness_loop (utxo alerted_till) (Inputs (Tx ?m)) True [] = (True, [(\<lparr>TXID = zero_hash, Vout = 0\<rparr>, [3])], None)"
    by (simp add: twice_message_def alerted_till_def NewTill_def)
  moreover have "value_check (utxo alerted_till) (Tx ?m) = Inr True"
    by (simp add: value_check_def alerted_till_def NewTill_def twice_message_def sum_out_def)
  moreover have "QuietForOwners 100 [(\<lparr>TXID = zero_hash, Vout = 0\<rparr>, [3])] 60
      \<lparr>subs = [], seen = [\<lparr>TXID = zero_hash, Vout = 0\<rparr> \<mapsto> [\<lparr>ts = 95, ownerPub = [2]\<rparr>]]\<rparr>"
    by (simp add: QuietForOwners_def)
  ultimately show ?thesis
    by (simp add: AcceptPayment_def twice_message_decodes templateSatisfied_iff alerted_till_def NewTill_def
        no_decision_def final_decision_def Decide_def)
qed

theorem duplicate_input_hides_alert_witness:
  "let d = \<lparr>Accepted = False, Reason = ''inclusion:L0'', InclusionOK = False, AllUnspent = True, AlertQuiet = True,
      SignaturesOK = False, TemplateOK = True, ValueOK = True\<rparr>
   in AllUnspent d \<and> AlertQuiet d \<and>
    (ValueOK d \<longleftrightarrow> sum_list (map (unat \<circ> Value) (Outputs (Tx twice_message))) mod 2 ^ 64
       \<le> (2 * unat (50 :: u64)) mod 2 ^ 64)"
  unfolding Let_def
  by (rule duplicate_input_hides_alert [OF twice_message_run twice_message_decodes, where live = True
      and b = "\<lparr>subs = [], seen = [\<lparr>TXID = zero_hash, Vout = 0\<rparr> \<mapsto> [\<lparr>ts = 95, ownerPub = [2]\<rparr>]]\<rparr>"
      and ?i1.0 = "\<lparr>Prev = \<lparr>TXID = zero_hash, Vout = 0\<rparr>, Sig = [], PubKey = [2]\<rparr>"
      and ?i2.0 = "\<lparr>Prev = \<lparr>TXID = zero_hash, Vout = 0\<rparr>, Sig = [], PubKey = [3]\<rparr>"])
    (simp_all add: twice_message_def alerted_till_def NewTill_def)

text \<open>
  An honest payment is accepted. When the payer fills the merchant's template from bundles that
  prove their outputs to the merchant, exports it, and its signatures verify, and the outputs are
  unspent, free of alerts, funded, and within the threshold, then the merchant's decision on the
  exported bytes is \<open>accepted\<close>.
\<close>
theorem honest_payment_accepted:
  assumes "FillTemplate aw template ins cs cv = Some (Inr tx)" and "Export ins tx = Inr msg"
    and "message_ok \<lparr>Tx = tx, Bundles = ins\<rparr>"
    and "list_all (\<lambda>b. fst (Verify b (till_headers w)) \<and> IsUnspent (utxo w) (OutputRef b) = Inr True) ins"
    and "list_all (signed_by_own_key tx) [0..<length (Inputs tx)]"
    and "case alerts w of None \<Rightarrow> True | Some b \<Rightarrow> no_alert b (now - Window policy) (Inputs tx)"
    and "value_check (utxo w) tx = Inr True" and "float_le v (Tau policy)"
  shows "\<exists>d. AcceptPayment w now msg template v policy = Inr (d, None) \<and> Accepted d \<and> Reason d = ''accepted''"
proof -
  let ?m = "\<lparr>Tx = tx, Bundles = ins\<rparr>"
  have dec: "DecodeMessage msg = Inr ?m"
    using assms(2) DecodeMessage_Encode [OF assms(3)] by (auto simp: Export_def split: if_splits)
  note filled = FillTemplate_ok [OF assms(1)]
  then have len: "length (Inputs tx) = length ins" and tmpl: "templateSatisfied template tx"
    by (auto simp: templateSatisfied_iff)
  have prev: "Prev (Inputs tx ! j) = OutputRef (ins ! j)" if "j < length ins" for j
    using filled that by (simp add: spends_with_held_key_def)
  have "list_all2 (proves_input (till_headers w)) ins (Inputs tx)"
    using assms(4) prev len by (auto simp: list_all2_conv_all_nth proves_input_def list_all_length)
  then have inc: "inclusion_loop (till_headers w) (Inputs tx) 0 ins = Inr (True, [])"
    using inclusion_loop_ok [of 0 ins "Inputs tx" "till_headers w"] len by auto
  have unspent: "\<forall>i\<in>set (Inputs tx). IsUnspent (utxo w) (Prev i) = Inr True"
    using assms(4) prev len by (auto simp: in_set_conv_nth list_all_length)
  obtain un ow err where live: "liveness_loop (utxo w) (Inputs tx) True [] = (un, ow, err)"
    by (cases "liveness_loop (utxo w) (Inputs tx) True []") auto
  have err: "err = None"
    using live liveness_loop_err [of "utxo w" "Inputs tx"] unspent by (cases err) force+
  have lv: un "distinct (map fst ow)" "map_of ow = spending_key (Inputs tx)"
    using liveness_loop_ok [OF live [unfolded err]] unspent by simp_all
  have sig: "signature_loop tx 0 (Inputs tx) = Inr True"
    using signature_loop_all [of tx 0 "Inputs tx"] assms(5) by simp
  have "case alerts w of None \<Rightarrow> True | Some b \<Rightarrow> QuietForOwners now ow (Window policy) b"
    using assms(6) quiet_no_alert [OF lv(2,3)] by (simp split: option.splits)
  then show ?thesis
    using dec len inc live err lv(1) sig tmpl assms(7,8)
    by (simp add: AcceptPayment_def no_decision_def final_decision_def Decide_def split: option.splits)
qed

theorem honest_payment_accepted_witness:
  "let t = \<lparr>Version = 2, Inputs = [], Outputs = [\<lparr>Value = 7, ScriptPubKey = [1]\<rparr>], LockTime = 3\<rparr>
   in \<exists>d. AcceptPayment plain_till 0 (Encode \<lparr>Tx = t, Bundles = []\<rparr>) t (Finite 7) \<lparr>Tau = Finite 10, Window = 60\<rparr>
        = Inr (d, None) \<and> Accepted d \<and> Reason d = ''accepted''"
  unfolding Let_def
  by (rule honest_payment_accepted [where aw = New and ins = "[]" and cs = None and cv = 0
      and tx = "\<lparr>Version = 2, Inputs = [], Outputs = [\<lparr>Value = 7, ScriptPubKey = [1]\<rparr>], LockTime = 3\<rparr>"])
    (simp_all add: FillTemplate_def Export_def message_ok_def tx_ok_def out_ok_def plain_till_def NewTill_def
      value_check_def)

end
