(* ===== verification/Demo.thy ===== *)
theory Demo
  imports WalletBob
begin

text \<open>
  Command \<open>mfspv\<close> (src/cmd/mfspv/main.go): the end-to-end push payment \<open>runPayment\<close>, which seals a
  block, builds the payer's bundle, fills, signs and exports the payment, and lets the merchant decide
  twice, before and after the node learns that the output is spent; and the table of claims
  \<open>claimsCSV\<close>. What the command prints is the result of the definitions; its files, flags and clock
  are not modelled.
\<close>

section \<open>The push payment\<close>

definition demo_fields :: tx_fields where
  "demo_fields =
     [\<lparr>Index = 0, Bytes = [0x01]\<rparr>,
      \<lparr>Index = 1, Bytes = map of_char ''alice-output-1000-sats''\<rparr>,
      \<lparr>Index = 2, Bytes = [0xde, 0xad, 0xbe, 0xef]\<rparr>]"

definition demo_txids :: "hash \<Rightarrow> hash list" where
  "demo_txids mtxid = mtxid # map (\<lambda>i. DoubleSHA256 [0x33, word_of_nat i]) [0..<40]"

text \<open>
  The node with its block, and the payer's bundle. The command drops the errors of the calls: a failed
  one leaves a zero value, here the failure of the definition.
\<close>

definition demo_node :: "(mock_node \<times> proof_bundle) res" where
  "demo_node =
     (let node = NewMockNode 8 in
      case BuildMTxID demo_fields of
        Inl e \<Rightarrow> Inl e
      | Inr (mtxid, _) \<Rightarrow>
        (case SealBlock node (demo_txids mtxid) False of
           Inl e \<Rightarrow> Inl e
         | Inr (_, node) \<Rightarrow>
           (let out = \<lparr>TXID = mtxid, Vout = 0\<rparr>;
                node = SetOutputValue node \<lparr>TXID = mtxid, Vout = 0\<rparr> 1000
            in map_res (\<lambda>fund. (node, fund)) (Build out demo_fields 1 (node_source node)))))"

definition demo_key :: "string \<Rightarrow> private_key" where
  "demo_key seed = NewPrivateKey (bytes_of (sha256 (map of_char seed)))"

text \<open>The merchant's till looks at the node as it is at the time of the call.\<close>

definition demo_till :: "mock_node \<Rightarrow> public_key \<Rightarrow> till res" where
  "demo_till node pub =
     AddReceivingKey (NewTill (Some (node_chain node)) (node_utxo node) (Some NewBus) (Some (\<lambda>_. None))) pub"

definition demo_policy :: risk_policy where
  "demo_policy = \<lparr>Tau = Finite 5000, Window = 60 * 1000000000\<rparr>"

text \<open>
  The two decisions; the second call is not made when the first returns an error. The outer \<open>None\<close> is
  the nonce search that does not end. \<open>t1\<close> and \<open>t2\<close> are the times of the two calls.
\<close>

definition run_payment ::
  "int \<Rightarrow> int \<Rightarrow> ((decision \<times> go_error option) \<times> (decision \<times> go_error option) option) res option" where
  "run_payment t1 t2 =
     (case demo_node of
        Inl e \<Rightarrow> Some (Inl e)
      | Inr (node, fund) \<Rightarrow>
        (let aliceK = demo_key ''alice''; bobK = demo_key ''bob'' in
         case Public bobK of
           None \<Rightarrow> Some (Inl Panic)
         | Some bobP \<Rightarrow>
           (case SerializeCompressed bobP of
              Inl e \<Rightarrow> Some (Inl e)
            | Inr script \<Rightarrow>
              (let aliceW = AddOutput New fund (Some aliceK);
                   template = \<lparr>Version = 1, Inputs = [], Outputs = [\<lparr>Value = 900, ScriptPubKey = script\<rparr>], LockTime = 0\<rparr>
               in case FillTemplate aliceW template [fund] None 0 of
                    None \<Rightarrow> None
                  | Some (Inl e) \<Rightarrow> Some (Inl e)
                  | Some (Inr stx) \<Rightarrow> Some
                    (case Export [fund] stx of
                       Inl e \<Rightarrow> Inl e
                     | Inr msg \<Rightarrow>
                       (case demo_till node bobP of
                          Inl e \<Rightarrow> Inl e
                        | Inr bobW \<Rightarrow>
                          (case AcceptPayment bobW t1 msg template (Finite 900) demo_policy of
                             Inl e \<Rightarrow> Inl e
                           | Inr (d, Some e) \<Rightarrow> Inr ((d, Some e), None)
                           | Inr (d, None) \<Rightarrow>
                             (let node = MarkSpent node (OutputRef fund);
                                  bobW = bobW\<lparr>till_headers := Some (node_chain node), utxo := node_utxo node\<rparr>
                              in map_res (\<lambda>d2. ((d, None), Some d2))
                                   (AcceptPayment bobW t2 msg template (Finite 900) demo_policy)))))))))"

section \<open>The table of claims\<close>

definition claims_rows :: "(string \<times> string \<times> string \<times> string) list" where
  "claims_rows =
     [(''id'', ''claim'', ''class'', ''falsifying_test''),
      (''X-DL'', ''depth==ceil(log2 T)'', ''S'', ''commitment.TestT1_3_DepthLaw;bench.TestT7_TargetTable''),
      (''X-R1'', ''proof=32*depth; +416B 1e6->1e10; 1472B@1e11'', ''D+S'', ''bench.TestR1_ProofGrowth;bench.TestScale100BillionTPS''),
      (''X-R2'', ''header dataset ~4.2MB/yr, constant in r'', ''D'', ''bench.TestT7_3_HeaderConstant''),
      (''X-R3'', ''verify ~ log T, not linear'', ''M+S'', ''bench.TestEQ3_ScalingLawRegression;bench.TestT7_4_LogarithmicVerify''),
      (''X-R4'', ''push proof network bytes == 0'', ''M'', ''bench.TestT7_5_PushVsPull''),
      (''X-CAP'', ''seal ~2r SHA256d/s; 100B tps capacity'', ''M+D'', ''bench.TestCapacity100BillionTPS''),
      (''X-FROZEN'', ''L0-L3 path byte-frozen after sealing'', ''M'', ''bundle.TestT3_3_FrozenCore''),
      (''X-PRIV'', ''reveal one field, not whole tx'', ''M'', ''bundle.TestT3_*''),
      (''S1'', ''inclusion forgery rejected (MC + p_upper)'', ''M'', ''adversarial.TestS1_MonteCarloForgery;TestA1_ForgeryRejected''),
      (''S2'', ''field reordering rejected'', ''M'', ''adversarial.TestS2_FieldReordering''),
      (''S3'', ''duplication grants no non-member inclusion'', ''M'', ''adversarial.TestS3_DuplicationAmbiguity''),
      (''S4'', ''alternative chain rejected'', ''M'', ''adversarial.TestA2_AlternativeChainRejected''),
      (''S5'', ''L4 anchor PoW-gated (RT-1)'', ''M'', ''adversarial.TestRT1_AnchorRequiresTrustedCarrier;bundle.TestL4PrunedVerifier''),
      (''S6'', ''absent-period gap honesty'', ''M'', ''accumulator.TestT2_3_GapHonesty''),
      (''S7'', ''DoS: fail-fast, bounded, evidence-gated alerts'', ''M'', ''adversarial.TestA3_SpamRejectedFailFast;TestA4_AlertFloodDropped;TestRT5_SerializationDoS''),
      (''S8'', ''inclusion != double-spend'', ''M'', ''bundle.TestT3_5_InclusionNotDoubleSpend;walletbob.TestT4_4_AcceptanceSeparation''),
      (''S9'', ''signature malleability rejected (low-S)'', ''M'', ''adversarial.TestRT3_HighSRejected''),
      (''S9b'', ''alert unforgeable + owner-bound (RT-2/RT-7)'', ''M'', ''dsalert.TestT5_1_EvidenceGated;TestRT7_OwnerBoundAlerts''),
      (''S10'', ''no private keys at till'', ''M'', ''walletbob.TestT4_3_NoKeysAtTill''),
      (''VAL'', ''value conservation: inputs>=outputs'', ''M'', ''walletbob.TestValueConservation''),
      (''MUT'', ''security-critical mutants killed (>=0.85)'', ''M'', ''cmd/mutate (go run ./cmd/mutate)''),
      (''R6'', ''verifier throughput: dense batch A>=1.5 (07)'', ''M'', ''fabric.TestFabricBar (go run ./cmd/mfspv -fabric)''),
      (''LEAF'', ''inclusion leaf = consensus TXID (07 '' @ [CHR 0xC2, CHR 0xA7] @ ''5)'', ''M'', ''fabric.TestLeafIsConsensusTXID''),
      (''KAT'', ''sha256d/2G/RFC6979 known-answer'', ''M'', ''crypto.TestKAT_TwoG;TestKAT_RFC6979Nonce;commitment.TestKAT_DoubleSHA256''),
      (''CT'', ''constant-time k*G == big.Int reference'', ''M'', ''crypto.TestScalarMultCTvsReference;TestFieldVsBigInt''),
      (''DIFF'', ''merkle vs independent oracle (incl odd)'', ''M'', ''commitment.TestDifferentialMerkle'')]"

definition claims_line :: "string \<times> string \<times> string \<times> string \<Rightarrow> string" where
  "claims_line r = (case r of (i, c, k, t) \<Rightarrow> i @ '','' @ c @ '','' @ k @ '','' @ t)"

definition claimsCSV :: string where
  "claimsCSV = concat (map (\<lambda>r. claims_line r @ [CHR 0x0A]) claims_rows)"

text \<open>The columns a reader of the file finds in a line; the fields are not quoted.\<close>

definition csv_columns :: "string \<Rightarrow> nat" where
  "csv_columns line = length (filter (\<lambda>c. c = CHR '','') line) + 1"

lemma claims_columns:
  "map fst (filter (\<lambda>r. csv_columns (claims_line r) \<noteq> 4) claims_rows) = [''X-R2'', ''X-R3'', ''X-PRIV'', ''S7'']"
  by code_simp

section \<open>What a spend changes at the till\<close>

text \<open>A till that reads the chain and the outputs of one node.\<close>

definition till_at :: "till \<Rightarrow> mock_node \<Rightarrow> till" where
  "till_at w n = w\<lparr>till_headers := Some (node_chain n), utxo := node_utxo n\<rparr>"

lemma till_at_simps [simp]:
  "till_headers (till_at w n) = Some (node_chain n)" "utxo (till_at w n) = node_utxo n" "alerts (till_at w n) = alerts w"
  by (simp_all add: till_at_def)

lemma chain_spent: "node_chain (MarkSpent n ou) = node_chain n"
proof -
  have "node_Contains (MarkSpent n ou) h = node_Contains n h" for h
    by (simp add: node_Contains_def MarkSpent_def cong: option.case_cong)
  then show ?thesis by (simp add: node_chain_def node_BestTipHeight_def MarkSpent_def fun_eq_iff)
qed

lemma value_spent: "value_check (node_utxo (MarkSpent n ou)) tx = value_check (node_utxo n) tx"
proof -
  have "sum_in_loop (node_OutputValue (MarkSpent n ou)) ins s = sum_in_loop (node_OutputValue n) ins s" for ins s
    by (induction ins arbitrary: s) (simp_all add: node_OutputValue_def MarkSpent_def go_get_def)
  then show ?thesis by (simp add: value_check_def node_utxo_def)
qed

lemma liveness_node: "\<exists>ow. \<forall>n un. liveness_loop (node_utxo n) ins un acc =
    (un \<and> (\<forall>i. i \<in> set ins \<longrightarrow> \<not> go_get False (spent n) (Prev i)), ow, None)"
proof (induction ins arbitrary: acc)
  case (Cons i ins)
  obtain ow where ow: "\<forall>n un. liveness_loop (node_utxo n) ins un (AList.update (Prev i) (PubKey i) acc) =
    (un \<and> (\<forall>i. i \<in> set ins \<longrightarrow> \<not> go_get False (spent n) (Prev i)), ow, None)"
    using Cons.IH [of "AList.update (Prev i) (PubKey i) acc"] by blast
  show ?case
    by (intro exI [of _ ow]) (auto simp: ow node_utxo_def [THEN arg_cong, of IsUnspent] node_IsUnspent_def)
qed simp

lemma spent_after: "go_get False (spent (MarkSpent n ou)) o' \<longleftrightarrow> o' = ou \<or> go_get False (spent n) o'"
  by (simp add: MarkSpent_def go_get_def)

definition spent_reason :: "string \<Rightarrow> string" where
  "spent_reason r = (if r \<in> {''accepted'', ''double-spend:alert'', ''risk-policy:value-exceeds-tau''}
     then ''double-spend:utxo-spent'' else r)"

lemma spent_reason_inclusion: "inclusion_reason r \<Longrightarrow> spent_reason r = r"
  by (auto simp: spent_reason_def inclusion_reason_def)

lemma spent_reasons:
  "spent_reason ''accepted'' = ''double-spend:utxo-spent''" "spent_reason ''double-spend:alert'' = ''double-spend:utxo-spent''"
  "spent_reason ''risk-policy:value-exceeds-tau'' = ''double-spend:utxo-spent''"
  "spent_reason ''signature'' = ''signature''" "spent_reason ''template'' = ''template''"
  "spent_reason ''value:underfunded'' = ''value:underfunded''"
  "spent_reason ''double-spend:utxo-spent'' = ''double-spend:utxo-spent''"
  by (simp_all add: spent_reason_def)

lemma final_spent:
  assumes "if InclusionOK d then Reason d = [] else inclusion_reason (Reason d)"
  shows "final_decision policy v (d\<lparr>AllUnspent := False\<rparr>) = (final_decision policy v d)\<lparr>Accepted := False,
     AllUnspent := False, Reason := spent_reason (Reason (final_decision policy v d))\<rparr>"
proof (cases "InclusionOK d")
  case True
  then have r: "Reason d = []" using assms by simp
  obtain a i u q sg t vo where d: "d = \<lparr>Accepted = a, Reason = [], InclusionOK = i, AllUnspent = u, AlertQuiet = q,
      SignaturesOK = sg, TemplateOK = t, ValueOK = vo\<rparr>" using r by (cases d) simp
  show ?thesis using True unfolding d
    by (cases u; cases q; cases sg; cases t; cases vo; cases "float_le v (Tau policy)")
      (simp_all add: final_decision_def Decide_def spent_reasons)
next
  case False
  then have i: "inclusion_reason (Reason d)" using assms by simp
  then have r: "spent_reason (Reason d) = Reason d" "Reason d \<noteq> []"
    using spent_reason_inclusion by (simp, metis inclusion_reason_ne)
  then show ?thesis using False by (cases d) (simp add: final_decision_def Decide_def Let_def)
qed

lemma spent_output_run:
  assumes "AcceptPayment (till_at w n) now msg template v policy = Inr (d, None)"
    and "DecodeMessage msg = Inr m"
  shows "AcceptPayment (till_at w (MarkSpent n ou)) now msg template v policy
    = Inr (if list_ex (\<lambda>i. Prev i = ou) (Inputs (Tx m))
           then d\<lparr>Accepted := False, AllUnspent := False, Reason := spent_reason (Reason d)\<rparr> else d, None)"
proof -
  let ?ins = "Inputs (Tx m)"
  have len: "length (Bundles m) = length ?ins"
    using assms by (auto simp: AcceptPayment_def Let_def split: if_splits)
  obtain incl r where inc: "inclusion_loop (Some (node_chain n)) ?ins 0 (Bundles m) = Inr (incl, r)"
    and r: "if incl then r = [] else inclusion_reason r"
    using inclusion_loop_ok [of 0 "Bundles m" ?ins "Some (node_chain n)"] len by auto
  obtain ow where live: "\<And>n. liveness_loop (node_utxo n) ?ins True []
      = ((\<forall>i. i \<in> set ?ins \<longrightarrow> \<not> go_get False (spent n) (Prev i)), ow, None)"
    using liveness_node [of ?ins "[]"] by auto
  let ?un = "\<lambda>n. \<forall>i. i \<in> set ?ins \<longrightarrow> \<not> go_get False (spent n) (Prev i)"
  obtain sg where sig: "signature_loop (Tx m) 0 ?ins = Inr sg"
    using assms len inc live by (auto simp: AcceptPayment_def Let_def split: sum.splits)
  obtain vok where vc: "value_check (node_utxo n) (Tx m) = Inr vok"
    using assms len inc live sig by (auto simp: AcceptPayment_def Let_def split: sum.splits)
  let ?q = "case alerts w of None \<Rightarrow> True | Some b \<Rightarrow> QuietForOwners now ow (Window policy) b"
  let ?d = "\<lambda>u. no_decision\<lparr>InclusionOK := incl, Reason := r, AllUnspent := u, AlertQuiet := ?q, SignaturesOK := sg,
      TemplateOK := templateSatisfied template (Tx m), ValueOK := vok\<rparr>"
  have d: "d = final_decision policy v (?d (?un n))"
    using assms len inc live sig vc by (simp add: AcceptPayment_def Let_def)
  have run: "AcceptPayment (till_at w (MarkSpent n ou)) now msg template v policy
      = Inr (final_decision policy v (?d (?un (MarkSpent n ou))), None)"
    using assms(2) len inc live sig vc by (simp add: AcceptPayment_def Let_def chain_spent value_spent)
  show ?thesis
  proof (cases "list_ex (\<lambda>i. Prev i = ou) ?ins")
    case True
    then have "\<not> ?un (MarkSpent n ou)" by (auto simp: spent_after list_ex_iff)
    then have "AcceptPayment (till_at w (MarkSpent n ou)) now msg template v policy
        = Inr (final_decision policy v (?d False), None)" unfolding run by (simp only:)
    also have "?d False = ?d (?un n)\<lparr>AllUnspent := False\<rparr>" by simp
    also have "final_decision policy v (?d (?un n)\<lparr>AllUnspent := False\<rparr>)
        = d\<lparr>Accepted := False, AllUnspent := False, Reason := spent_reason (Reason d)\<rparr>"
      unfolding d by (rule final_spent) (use r in simp)
    finally show ?thesis using True by simp
  next
    case False
    then have "?un (MarkSpent n ou) = ?un n" by (auto simp: spent_after list_ex_iff)
    then show ?thesis using False unfolding run d by (simp only: if_False)
  qed
qed

section \<open>The demonstration runs through\<close>

lemma demo_mtxid:
  obtains leaf l0 where "BuildMTxID demo_fields = Inr (tree_root (map leafHash demo_fields), build_layers (map leafHash demo_fields))"
    and "MTxIDPath demo_fields 1 = Inr (leaf, l0, tree_root (map leafHash demo_fields))"
proof -
  have len: "length demo_fields = 3" "demo_fields \<noteq> []" by (simp_all add: demo_fields_def)
  obtain p where "MerklePath (build_layers (map leafHash demo_fields)) (int 1) = Inr p"
    using MerklePath_ok [of 1 "map leafHash demo_fields"] len by auto
  then show thesis using that len by (simp add: BuildMTxID_def BuildMerkleTree_eq MTxIDPath_def)
qed

lemma length_Serialize_plain:
  assumes "Anchor b = None" and "path_ok (MTxIDPath' b)" and "path_ok (SubtreePath b)" and "path_ok (BlockPath b)"
    and "Fields b = [f]" and "length (Bytes f) < 100"
  shows "length (Serialize b) < 2 ^ 32"
proof -
  have path: "length (enc_path p) = 2 + 33 * length p" for p
  proof -
    have "length (concat (map enc_elem p)) = 33 * length p" by (induction p) (simp_all add: enc_elem_def)
    then show ?thesis by (simp add: enc_path_def)
  qed
  have "length (enc_fields [f]) = 5 + length (Bytes f)" by (simp add: enc_fields_def enc_field_def)
  then show ?thesis using assms by (simp add: Serialize_eq path path_ok_def MaxDepth_def)
qed

lemma demo_node_ok:
  obtains node fund where "demo_node = Inr (node, fund)" and "fst (Verify fund (Some (node_chain node)))"
    and "Fields fund \<noteq> []" and "wire_ok fund" and "length (Serialize fund) < 2 ^ 32"
    and "node_IsUnspent node (OutputRef fund) = Inr True" and "node_OutputValue node (OutputRef fund) = Inr (1000, True)"
proof -
  let ?m = "tree_root (map leafHash demo_fields)"
  let ?txids = "demo_txids ?m" and ?out = "\<lparr>TXID = ?m, Vout = 0\<rparr>"
  obtain leaf l0 where m: "BuildMTxID demo_fields = Inr (?m, build_layers (map leafHash demo_fields))"
    "MTxIDPath demo_fields 1 = Inr (leaf, l0, TXID ?out)" by (rule demo_mtxid) simp
  have txids: "?txids \<noteq> []" "length ?txids + 1 < 2 ^ 63" "?m \<in> set ?txids" by (simp_all add: demo_txids_def)
  obtain sb where sb: "SealBlock (NewMockNode 8) ?txids False = Inr (sb_hash sb, add_block (NewMockNode 8) sb)"
    "sealed 8 (NewMockNode 8) ?txids False sb" "reachable_node 8 (add_block (NewMockNode 8) sb)"
    using one_block [of 8 ?txids False] txids by auto
  let ?n0 = "add_block (NewMockNode 8) sb"
  let ?n = "SetOutputValue ?n0 ?out 1000"
  have "reachable_node 8 ?n" using sb(3) node_step.set_value reachable_node.next_state by blast
  then have good: "good_node ?n" by (rule good_nodeI) simp_all
  have loc: "node_LocateTx ?n ?m = Inr (sb_hash sb)"
    using sealed_index [OF sb(2) txids(3)] by (simp add: node_LocateTx_def SetOutputValue_def)
  have best: "go_get False (onBest ?n) (sb_hash sb)" by (simp add: SetOutputValue_def add_block_def go_get_def)
  have len: "length demo_fields < 2 ^ 64" by (simp add: demo_fields_def)
  have src: "LocateTx (node_source ?n) (TXID ?out) = Inr (sb_hash sb)" using loc by (simp add: node_source_def)
  obtain b where b: "Build ?out demo_fields 1 (node_source ?n) = Inr b" "inclusion_ok b"
    "DoubleSHA256 (bytes_of (Header b)) = sb_hash sb" "Fields b = [demo_fields ! unat (1 :: byte)]" "OutputRef b = ?out"
    "Anchor b = None" by (rule node_src.Build_ok [OF good m(2) len src])
  have view: "on_view (Some (node_chain ?n)) (Header b)"
    using on_node_view [OF good b(3) located_block [OF good loc]] best by simp
  have paths: "path_ok (MTxIDPath' b)" "path_ok (SubtreePath b)" "path_ok (BlockPath b)"
    using b(2) by (simp_all add: inclusion_ok_def path_ok_def MaxDepth_def)
  have f: "length (Bytes (demo_fields ! unat (1 :: byte))) = 22" by (simp add: demo_fields_def)
  show thesis
  proof (rule that)
    show "demo_node = Inr (?n, b)" using m(1) sb(1) b(1) by (simp add: demo_node_def)
    show "fst (Verify b (Some (node_chain ?n)))" using Verify_accepts [OF b(2)] view by simp
    show "wire_ok b" using paths b(4,6) f by (simp add: wire_ok_def fields_ok_def)
    show "length (Serialize b) < 2 ^ 32" by (rule length_Serialize_plain [OF b(6) paths b(4)]) (simp add: demo_fields_def)
    show "node_IsUnspent ?n (OutputRef b) = Inr True"
      by (simp add: node_IsUnspent_def SetOutputValue_def add_block_def NewMockNode_def go_get_def)
    show "node_OutputValue ?n (OutputRef b) = Inr (1000, True)"
      by (simp add: b(5) node_OutputValue_def SetOutputValue_def add_block_def NewMockNode_def go_get_def)
  qed (simp add: b(4))
qed

lemma length_copy_at_end: "copy_at_end out b = Inr r \<Longrightarrow> length r = length out"
  by (auto simp: copy_at_end_def split: if_splits)

lemma length_key_sig:
  shows "SerializeCompressed pub = Inr pk \<Longrightarrow> length pk = 33" and "SerializeSig sig = Inr b \<Longrightarrow> length b = 64"
  by (auto simp: SerializeCompressed_def SerializeSig_def dest!: length_copy_at_end split: sum.splits)

text \<open>A bus without alerts is quiet at any time.\<close>

lemma quiet_new_bus: "QuietForOwners now ow win NewBus"
proof -
  have "owners_loop t Map.empty ow" for t
    by (induction ow) (auto simp: go_get_def)
  then show ?thesis by (simp add: QuietForOwners_def NewBus_def)
qed

lemma AcceptPayment_any_time:
  assumes "alerts w = Some NewBus"
  shows "AcceptPayment w now msg template v policy = AcceptPayment w 0 msg template v policy"
  unfolding AcceptPayment_def assms option.case quiet_new_bus [THEN eqTrueI] by (rule refl)

text \<open>
  The demonstration, when the merchant has a key: the payer's signing decides what happens. Every signal of the
  first decision but the signatures holds, and the second decision is the first one with the output spent.
\<close>

definition demo_template :: "bytes \<Rightarrow> tx3" where
  "demo_template script = \<lparr>Version = 1, Inputs = [], Outputs = [\<lparr>Value = 900, ScriptPubKey = script\<rparr>], LockTime = 0\<rparr>"

definition demo_wallet :: "proof_bundle \<Rightarrow> alice_wallet" where
  "demo_wallet fund = AddOutput New fund (Some (demo_key ''alice''))"

definition demo_decision :: "bool \<Rightarrow> decision" where
  "demo_decision ok = final_decision demo_policy (Finite 900)
     \<lparr>Accepted = False, Reason = [], InclusionOK = True, AllUnspent = True, AlertQuiet = True, SignaturesOK = ok,
      TemplateOK = True, ValueOK = True\<rparr>"

definition demo_spent :: "decision \<Rightarrow> decision" where
  "demo_spent d = d\<lparr>Accepted := False, AllUnspent := False, Reason := spent_reason (Reason d)\<rparr>"

text \<open>The two decisions on the transaction that the payer filled.\<close>

definition demo_decisions :: "till \<Rightarrow> mock_node \<Rightarrow> bytes \<Rightarrow> proof_bundle \<Rightarrow> tx3 \<Rightarrow>
    ((decision \<times> go_error option) \<times> (decision \<times> go_error option) option) res" where
  "demo_decisions w node script fund stx =
     (let run = (\<lambda>n. AcceptPayment (till_at w n) 0 (Encode \<lparr>Tx = stx, Bundles = [fund]\<rparr>) (demo_template script) (Finite 900) demo_policy)
      in case run node of
           Inl e \<Rightarrow> Inl e
         | Inr (d, Some e) \<Rightarrow> Inr ((d, Some e), None)
         | Inr (d, None) \<Rightarrow> map_res (\<lambda>d2. ((d, None), Some d2)) (run (MarkSpent node (OutputRef fund))))"

lemma demo_till_decides:
  assumes "fst (Verify fund (Some (node_chain node)))" and "wire_ok fund" and "length (Serialize fund) < 2 ^ 32"
    and "node_IsUnspent node (OutputRef fund) = Inr True" and "node_OutputValue node (OutputRef fund) = Inr (1000, True)"
    and "SerializeCompressed bobP = Inr script"
    and "FillTemplate (demo_wallet fund) (demo_template script) [fund] None 0 = Some (Inr stx)"
    and "alerts w = Some NewBus"
  shows "demo_decisions w node script fund stx =
    map_res (\<lambda>ok. ((demo_decision ok, None), Some (demo_spent (demo_decision ok), None))) (signature_loop stx 0 (Inputs stx))"
proof -
  let ?m = "\<lparr>Tx = stx, Bundles = [fund]\<rparr>"
  let ?run = "\<lambda>n. AcceptPayment (till_at w n) 0 (Encode ?m) (demo_template script) (Finite 900) demo_policy"
  note filled = FillTemplate_ok [OF assms(7)]
  have out: "Outputs stx = [\<lparr>Value = 900, ScriptPubKey = script\<rparr>]" using filled by (simp add: change_outputs_def demo_template_def)
  obtain i where i: "Inputs stx = [i]" "Prev i = OutputRef fund"
    using filled by (cases "Inputs stx") (auto simp: spends_with_held_key_def)
  obtain pub sig where sg: "SerializeCompressed pub = Inr (PubKey i)" "SerializeSig sig = Inr (Sig i)"
    using filled i(1) by (auto simp: spends_with_held_key_def)
  have "message_ok ?m"
    using assms(2,3) length_key_sig(1) [OF assms(6)] length_key_sig(1) [OF sg(1)] length_key_sig(2) [OF sg(2)]
    by (simp add: message_ok_def tx_ok_def i(1) out in_ok_def out_ok_def)
  then have dec: "DecodeMessage (Encode ?m) = Inr ?m" by (rule DecodeMessage_Encode)
  obtain ok r0 where inc: "inclusion_loop (Some (node_chain node)) [i] 0 [fund] = Inr (ok, r0)"
    "ok = list_all2 (proves_input (Some (node_chain node))) [fund] [i]" "if ok then r0 = [] else inclusion_reason r0"
    using inclusion_loop_ok [of 0 "[fund]" "[i]" "Some (node_chain node)"] by auto
  then have inc': "inclusion_loop (Some (node_chain node)) [i] 0 [fund] = Inr (True, [])"
    using assms(1) i(2) by (simp add: proves_input_def)
  have live: "liveness_loop (node_utxo node) [i] True [] = (True, [(Prev i, PubKey i)], None)"
    using assms(4) i(2) by (simp add: node_utxo_def)
  have val: "value_check (node_utxo node) stx = Inr True"
    using assms(5) i by (simp add: value_check_def node_utxo_def out sum_out_def)
  show ?thesis
  proof (cases "signature_loop stx 0 [i]")
    case (Inl x)
    then have "?run node = Inl x" using dec inc' live by (simp add: AcceptPayment_def i(1))
    then show ?thesis using Inl by (simp add: demo_decisions_def i(1))
  next
    case (Inr ok)
    then have first: "?run node = Inr (demo_decision ok, None)"
      using dec inc' live val
      by (simp add: AcceptPayment_def i(1) quiet_new_bus assms(8) templateSatisfied_iff out no_decision_def
          demo_template_def demo_decision_def demo_policy_def)
    then have "?run (MarkSpent node (OutputRef fund)) = Inr (demo_spent (demo_decision ok), None)"
      using spent_output_run [OF first dec, of "OutputRef fund"] i by (simp add: demo_spent_def)
    then show ?thesis using first Inr by (simp add: demo_decisions_def i(1))
  qed
qed

lemma run_payment_runs:
  assumes "Public (demo_key ''bob'') = Some bobP" and "SerializeCompressed bobP = Inr script"
  obtains fund where
    "run_payment t1 t2 =
       (case FillTemplate (demo_wallet fund) (demo_template script) [fund] None 0 of
          None \<Rightarrow> None
        | Some (Inl e) \<Rightarrow> Some (Inl e)
        | Some (Inr stx) \<Rightarrow> Some (map_res (\<lambda>ok. ((demo_decision ok, None), Some (demo_spent (demo_decision ok), None)))
            (signature_loop stx 0 (Inputs stx))))"
proof -
  obtain node fund where n: "demo_node = Inr (node, fund)" "fst (Verify fund (Some (node_chain node)))" "Fields fund \<noteq> []"
    "wire_ok fund" "length (Serialize fund) < 2 ^ 32" "node_IsUnspent node (OutputRef fund) = Inr True"
    "node_OutputValue node (OutputRef fund) = Inr (1000, True)" by (rule demo_node_ok)
  let ?t = "demo_template script" and ?aw = "demo_wallet fund"
  let ?w0 = "NewTill (Some (node_chain node)) (node_utxo node) (Some NewBus) (Some (\<lambda>_. None))"
  let ?w = "?w0\<lparr>receiving := (receiving ?w0)(script \<mapsto> bobP)\<rparr>"
  have till: "demo_till node bobP = Inr ?w" using assms(2) by (simp add: demo_till_def AddReceivingKey_def)
  have at: "?w = till_at ?w node" by (simp add: till_at_def NewTill_def)
  have alw: "alerts ?w = Some NewBus" "alerts (?w\<lparr>till_headers := a, utxo := b\<rparr>) = Some NewBus" for a b
    by (simp_all add: NewTill_def)
  have export: "Export [fund] stx = Inr (Encode \<lparr>Tx = stx, Bundles = [fund]\<rparr>)" for stx using n(3) by (simp add: Export_def)
  have run: "run_payment t1 t2 =
       (case FillTemplate ?aw ?t [fund] None 0 of
          None \<Rightarrow> None
        | Some (Inl e) \<Rightarrow> Some (Inl e)
        | Some (Inr stx) \<Rightarrow> Some (demo_decisions ?w node script fund stx))"
    unfolding run_payment_def n(1) sum.case prod.case Let_def assms option.case export till
      AcceptPayment_any_time [OF alw(1), where now = t1] AcceptPayment_any_time [OF alw(2), where now = t2]
      demo_template_def [symmetric] demo_wallet_def [symmetric] demo_decisions_def
    by (simp only: at [symmetric] till_at_def [of ?w "MarkSpent node (OutputRef fund)"])
  show thesis
    by (rule that [of fund])
      (use run demo_till_decides [OF n(2,4-7) assms(2) _ alw(1)] in \<open>simp split: option.split sum.split\<close>)
qed

section \<open>Properties\<close>

text \<open>
  Inclusion is not double-spend protection, and the two do not interfere. Take a till that reads
  a node, and a message it decides on without an error. When the node then marks an output as spent,
  the same call decides as before if no input of the payment spends that output; otherwise it records
  the output as spent and refuses the payment, an accepted one with reason
  \<open>double-spend:utxo-spent\<close>, while every other signal, inclusion among them, stays as it was.
\<close>
theorem spent_output_refused:
  assumes "AcceptPayment (till_at w n) now msg template v policy = Inr (d, None)"
    and "DecodeMessage msg = Inr m"
  shows "AcceptPayment (till_at w (MarkSpent n ou)) now msg template v policy
    = Inr (if list_ex (\<lambda>i. Prev i = ou) (Inputs (Tx m))
           then d\<lparr>Accepted := False, AllUnspent := False, Reason := spent_reason (Reason d)\<rparr> else d, None)"
  by (rule spent_output_run [OF assms])

text \<open>The unsigned message at a till of a node without blocks, before and after its output is spent.\<close>

theorem spent_output_refused_witness:
  "AcceptPayment (till_at plain_till (MarkSpent (NewMockNode 1) \<lparr>TXID = zero_hash, Vout = 0\<rparr>)) 0 (Encode unsigned_message)
      (Tx unsigned_message) (Finite 5) \<lparr>Tau = Finite 10, Window = 60\<rparr>
   = Inr (\<lparr>Accepted = False, Reason = ''inclusion:L0'', InclusionOK = False, AllUnspent = False, AlertQuiet = True,
      SignaturesOK = False, TemplateOK = True, ValueOK = False\<rparr>, None)"
proof -
  let ?m = "unsigned_message" and ?n = "NewMockNode 1"
  have "inclusion_loop (Some (node_chain ?n)) (Inputs (Tx ?m)) 0 (Bundles ?m) = Inr (False, ''inclusion:L0'')"
    by (simp add: unsigned_message_def Verify_def MaxDepth_def)
  moreover have "signature_loop (Tx ?m) 0 (Inputs (Tx ?m)) = Inr False"
    by (simp add: unsigned_message_def VerifyInputSignature_def)
  moreover have "length (Bundles ?m) = length (Inputs (Tx ?m))" by (simp add: unsigned_message_def)
  moreover have "liveness_loop (node_utxo ?n) (Inputs (Tx ?m)) True [] = (True, [(\<lparr>TXID = zero_hash, Vout = 0\<rparr>, [2])], None)"
    by (simp add: unsigned_message_def node_utxo_def node_IsUnspent_def NewMockNode_def go_get_def)
  moreover have "value_check (node_utxo ?n) (Tx ?m) = Inr False"
    by (simp add: value_check_def unsigned_message_def node_utxo_def node_OutputValue_def NewMockNode_def go_get_def sum_out_def)
  ultimately have run: "AcceptPayment (till_at plain_till ?n) 0 (Encode ?m) (Tx ?m) (Finite 5) \<lparr>Tau = Finite 10, Window = 60\<rparr>
    = Inr (\<lparr>Accepted = False, Reason = ''inclusion:L0'', InclusionOK = False, AllUnspent = True, AlertQuiet = True,
      SignaturesOK = False, TemplateOK = True, ValueOK = False\<rparr>, None)"
    by (simp add: AcceptPayment_def unsigned_message_decodes templateSatisfied_iff plain_till_def NewTill_def
        no_decision_def final_decision_def Decide_def)
  show ?thesis
    using spent_output_refused [OF run unsigned_message_decodes, of "\<lparr>TXID = zero_hash, Vout = 0\<rparr>"]
    by (simp add: unsigned_message_def spent_reason_def)
qed

end
