(* ===== verification/Commands.thy ===== *)
theory Commands
  imports MeasureBench Reports Demo
begin

text \<open>
  The commands \<open>mfspv\<close> (src/cmd/mfspv/main.go: the scaling and capacity tables and the reproduction
  record) and \<open>verifyfabric\<close> (src/cmd/verifyfabric/main.go), as the numbers they
  print. Measured rates and times are arguments; formats, files, the platform record and the texts
  without a number are not modelled.
\<close>

section \<open>Tables of mfspv\<close>

text \<open>The growth of a proof from the lowest to the highest rate, as bytes and as hashes.\<close>

definition proof_growth :: "bench_row \<Rightarrow> bench_row \<Rightarrow> nat \<times> nat \<times> int \<times> int" where
  "proof_growth lo hi =
     (row_ProofBytes lo, row_ProofBytes hi, int (row_ProofBytes hi) - int (row_ProofBytes lo),
      int (row_Depth hi) - int (row_Depth lo))"

definition printScaling :: "(real \<Rightarrow> real \<times> real) \<Rightarrow> (bench_row list \<times> nat \<times> (nat \<times> nat \<times> int \<times> int)) res" where
  "printScaling measured =
     (case SweepThroughput measured None of
        Inl e \<Rightarrow> Inl e
      | Inr rows \<Rightarrow>
        (case Row (10 ^ 6) (fst (measured (10 ^ 6))) (snd (measured (10 ^ 6))) of
           Inl e \<Rightarrow> Inl e
         | Inr lo \<Rightarrow>
             map_res (\<lambda>hi. (rows, HeaderGrowthBytesPerYear, proof_growth lo hi))
               (Row (10 ^ 10) (fst (measured (10 ^ 10))) (snd (measured (10 ^ 10))))))"

definition capacity_rates :: "real list" where
  "capacity_rates = [10 ^ 10, 10 ^ 11, 10 ^ 12]"

text \<open>\<open>edge\<close> gives the count and the rate of one worker and the rate of eight.\<close>

definition printCapacity :: "real \<Rightarrow> u64 \<times> real \<times> real \<Rightarrow> capacity list \<times> edge_profile" where
  "printCapacity rate edge =
     (let (ops1, ps1, psN) = edge in
      (map (\<lambda>r. PlanCapacity r rate) capacity_rates, ProfileEdge (10 ^ 11) 8 (1 / 5) ops1 ps1 psN))"

text \<open>The file of claims and the printed figures of the reproduction.\<close>

definition reproduce :: "real \<Rightarrow> (real \<Rightarrow> real \<times> real) \<Rightarrow> (string \<times> nat \<times> bench_row list \<times> capacity list) res" where
  "reproduce rate measured =
     map_res (\<lambda>rows. (claimsCSV, HeaderGrowthBytesPerYear, rows, map (\<lambda>r. PlanCapacity r rate) capacity_rates))
       (SweepThroughputExtended measured)"

section \<open>verifyfabric\<close>

text \<open>What the command measures, in the order of its sections.\<close>

record measured_rates =
  m_hash :: real
  m_fabric :: "batch_proof list \<Rightarrow> backend \<Rightarrow> real"
  m_stream :: "bytes \<Rightarrow> static_chain \<Rightarrow> real"
  m_lanes :: "batch_proof list \<Rightarrow> real"
  m_pull :: "mock_node \<Rightarrow> hash list \<Rightarrow> real"
  m_block :: "real \<times> bool"

text \<open>A rate, its A over \<open>VerifBar\<close>, and the verdict.\<close>

definition pf :: "bool \<Rightarrow> string" where
  "pf ok = (if ok then ''PASS'' else ''FAIL'')"

definition bar_line :: "real \<Rightarrow> real \<times> real \<times> string" where
  "bar_line v = (v, v / VerifBar, pf (VerifBar \<le> v))"

text \<open>A batch that cannot be built is reported (or left out) unless its construction panics.\<close>

definition built :: "'a res \<Rightarrow> ('a \<Rightarrow> 'b) \<Rightarrow> (go_error + 'b) res" where
  "built r f =
     (case r of
        Inl e \<Rightarrow> if e = Panic then Inl Panic else Inr (Inl e)
      | Inr x \<Rightarrow> Inr (Inr (f x)))"

definition rate_rows :: "measured_rates \<Rightarrow> backend list \<Rightarrow> fabric_row list res" where
  "rate_rows m backends =
     map_res concat (all_lines (\<lambda>r. MeasureFabric (m_fabric m) r [1, 64, 1024] backends) [10 ^ 10, 10 ^ 11])"

definition capacity_rows :: "real \<Rightarrow> (real \<times> nat \<times> real \<times> real) list" where
  "capacity_rows perCore = map (\<lambda>r. (r, FabricCapacityForBar r perCore)) [10 ^ 10, 10 ^ 11]"

definition wire_rows :: "measured_rates \<Rightarrow> (go_error + (int \<times> real \<times> real \<times> string)) list res" where
  "wire_rows m =
     all_lines (\<lambda>np. built (BuildBatchAtDepth 46 np) (\<lambda>(wire, view). (np, bar_line (m_stream m wire view))))
       [2 ^ 18, 2 ^ 20]"

definition lane_rows :: "measured_rates \<Rightarrow> (int \<times> real \<times> real \<times> string) list res" where
  "lane_rows m = all_lines (\<lambda>depth. map_res (\<lambda>ps. (depth, bar_line (m_lanes m ps))) (BuildBatch depth 8192 8)) [43, 46]"

definition push_row :: "measured_rates \<Rightarrow> (go_error + (real \<times> real \<times> string)) res" where
  "push_row m = built (BuildBatchAtDepth 46 (2 ^ 20)) (\<lambda>(wire, view). bar_line (m_stream m wire view))"

definition pull_row :: "measured_rates \<Rightarrow> (go_error + (real \<times> real \<times> string)) res" where
  "pull_row m = built (BuildServedBlock 4096 16) (\<lambda>(node, txids). bar_line (m_pull m node txids))"

text \<open>The aggregate of \<open>n\<close> servers, and whether it reaches \<open>10^10\<close>.\<close>

definition server_rows :: "real \<Rightarrow> (nat \<times> real \<times> bool) list" where
  "server_rows ceil = map (\<lambda>n. (n, ceil * real n, 10 ^ 10 \<le> ceil * real n)) [32, 64, 128, 512]"

definition servers :: int where
  "servers = \<lceil>VerifBar / 9000000\<rceil>"

record verify_report =
  vf_capability :: "real \<times> string"
  vf_rates :: "fabric_row list"
  vf_capacity :: "(real \<times> nat \<times> real \<times> real) list"
  vf_wire :: "(go_error + (int \<times> real \<times> real \<times> string)) list"
  vf_lanes :: "(int \<times> real \<times> real \<times> string) list"
  vf_push :: "go_error + (real \<times> real \<times> string)"
  vf_pull :: "go_error + (real \<times> real \<times> string)"
  vf_block :: "real \<times> bool"
  vf_nodes :: "(nat \<times> real \<times> bool) list"
  vf_servers :: int

definition verifyfabric :: "(bytes \<Rightarrow> 32 barray) \<Rightarrow> measured_rates \<Rightarrow> verify_report res" where
  "verifyfabric sum256 m =
     (case rate_rows m (AvailableBackends sum256) of
        Inl e \<Rightarrow> Inl e
      | Inr rates \<Rightarrow>
        (case wire_rows m of
           Inl e \<Rightarrow> Inl e
         | Inr wires \<Rightarrow>
           (case lane_rows m of
              Inl e \<Rightarrow> Inl e
            | Inr lanes \<Rightarrow>
              (case push_row m of
                 Inl e \<Rightarrow> Inl e
               | Inr push \<Rightarrow>
                 map_res (\<lambda>pull.
                   \<lparr>vf_capability = CapabilityNote (m_hash m), vf_rates = rates,
                    vf_capacity = capacity_rows (m_hash m), vf_wire = wires, vf_lanes = lanes,
                    vf_push = push, vf_pull = pull, vf_block = m_block m,
                    vf_nodes = server_rows (fst (m_block m)), vf_servers = servers\<rparr>)
                   (pull_row m)))))"

section \<open>What the tables say\<close>

text \<open>The growth that the claim X-R1 states.\<close>

lemma Row_at:
  assumes "2 ^ k < 600 * n" and "600 * n \<le> 2 ^ Suc k" and "600 * n < 2 ^ 64"
  shows "\<exists>row. Row (real n) a b = Inr row \<and> row_Depth row = Suc k \<and> row_ProofBytes row = 32 * Suc k"
proof -
  have "txPerBlock (real n) = word_of_nat (600 * n)"
    by (simp add: txPerBlock_def uint64_of_def BlockIntervalSec_def)
  then have "ceilLog2 (txPerBlock (real n)) = Suc k"
    using CeilLog2_between [OF assms] by (simp add: ceilLog2_def)
  then show ?thesis by (simp add: Row_def SimulateBlock_def DigestBytes_def Let_def)
qed

lemma printScaling_growth:
  assumes "printScaling measured = Inr (rows, header, growth)"
  shows "growth = (960, 1376, 416, 13) \<and> header = 4204800"
proof -
  obtain lo hi where
    lo: "Row (10 ^ 6) (fst (measured (10 ^ 6))) (snd (measured (10 ^ 6))) = Inr lo" "row_Depth lo = 30" "row_ProofBytes lo = 960"
    and hi: "Row (10 ^ 10) (fst (measured (10 ^ 10))) (snd (measured (10 ^ 10))) = Inr hi" "row_Depth hi = 43" "row_ProofBytes hi = 1376"
    using Row_at [of 29 "10 ^ 6" "fst (measured (10 ^ 6))" "snd (measured (10 ^ 6))"]
      Row_at [of 42 "10 ^ 10" "fst (measured (10 ^ 10))" "snd (measured (10 ^ 10))"] by auto
  then show ?thesis
    using assms by (auto simp: printScaling_def proof_growth_def HeaderGrowthBytesPerYear_def HeaderBytes_def
        BlocksPerYear_def split: sum.splits)
qed

text \<open>Two servers of the assumed rate reach the bar; the A of a rate here is two thirds of the one in the reports.\<close>

lemma servers_two: "servers = 2"
  by (simp add: servers_def VerifBar_def ceiling_eq_iff)

lemma bar_line_A: "fst (snd (bar_line v)) = 2 / 3 * (v / 10 ^ 7)"
  by (simp add: bar_line_def VerifBar_def)

lemma bar_line_verdict: "snd (snd (bar_line v)) = ''PASS'' \<longleftrightarrow> 1 \<le> fst (snd (bar_line v))"
  by (simp add: bar_line_def pf_def VerifBar_def)

end
