(* ===== verification/Artifacts.thy ===== *)
theory Artifacts
  imports Commands "HOL-Library.List_Lexorder" "HOL-Library.Char_ord"
begin

text \<open>
  Command \<open>mfspv\<close> (src/cmd/mfspv/main.go): its flags, the environment record and the table of claims that
  \<open>reproduce\<close> writes, and the choice between the three things it does; and the flags of \<open>verifyfabric\<close>.

  The platform (versions, cores, the clock, the output of git) is a record of arguments, and so are the measured
  rates. \<open>os.WriteFile\<close> is a parameter: \<open>wr path content d\<close> is the text of the error, if any, and the disk
  afterwards. Strings are the bytes of the program's strings; the functions of the standard library that only
  matter beyond ASCII there (\<open>strings.TrimSpace\<close>, \<open>encoding/json\<close>) are written for ASCII.
\<close>

section \<open>Flags\<close>

text \<open>Package \<open>flag\<close>: a boolean flag takes a value only behind an equals sign, another one also from the next argument.\<close>

datatype flag_kind = BoolFlag | ValueFlag

datatype flag_result = Parsed "string \<rightharpoonup> string" "string list" | Exit nat

definition parse_bool :: "string \<Rightarrow> bool option" where
  "parse_bool s =
     (if s \<in> set [''1'', ''t'', ''T'', ''TRUE'', ''true'', ''True''] then Some True
      else if s \<in> set [''0'', ''f'', ''F'', ''FALSE'', ''false'', ''False''] then Some False
      else None)"

text \<open>The name of an argument and the value behind the first equals sign after its first character.\<close>

definition split_flag :: "string \<Rightarrow> string \<times> string option" where
  "split_flag s =
     (let n = takeWhile (\<lambda>c. c \<noteq> CHR ''='') (tl s); r = drop (length n) (tl s) in
      (hd s # n, if r = [] then None else Some (tl r)))"

text \<open>\<open>accepts name value\<close> says that the flag's type can read the value. Errors end the program with status 2, help with 0.\<close>

fun parse_args ::
  "(string \<rightharpoonup> flag_kind) \<Rightarrow> (string \<Rightarrow> string \<Rightarrow> bool) \<Rightarrow> string list \<Rightarrow> (string \<rightharpoonup> string) \<Rightarrow> flag_result" where
  "parse_args fl accepts [] m = Parsed m []"
| "parse_args fl accepts (s # args) m =
     (if length s < 2 \<or> s ! 0 \<noteq> CHR ''-'' then Parsed m (s # args)
      else if s = ''--'' then Parsed m args
      else
        let name = drop (if s ! 1 = CHR ''-'' then 2 else 1) s in
        if name = [] \<or> name ! 0 = CHR ''-'' \<or> name ! 0 = CHR ''='' then Exit 2
        else
          let (name, val) = split_flag name in
          case fl name of
            None \<Rightarrow> Exit (if name = ''help'' \<or> name = ''h'' then 0 else 2)
          | Some BoolFlag \<Rightarrow>
            (case val of
               None \<Rightarrow> parse_args fl accepts args (m(name \<mapsto> ''true''))
             | Some v \<Rightarrow> if parse_bool v = None then Exit 2 else parse_args fl accepts args (m(name \<mapsto> v)))
          | Some ValueFlag \<Rightarrow>
            (case val of
               Some v \<Rightarrow> if accepts name v then parse_args fl accepts args (m(name \<mapsto> v)) else Exit 2
             | None \<Rightarrow>
               (case args of
                  [] \<Rightarrow> Exit 2
                | v # rest \<Rightarrow> if accepts name v then parse_args fl accepts rest (m(name \<mapsto> v)) else Exit 2)))"

definition mfspv_flags :: "string \<rightharpoonup> flag_kind" where
  "mfspv_flags = [''eval'' \<mapsto> BoolFlag, ''fabric'' \<mapsto> BoolFlag]"

definition bool_flag :: "(string \<rightharpoonup> string) \<Rightarrow> string \<Rightarrow> bool" where
  "bool_flag m name = (case m name of None \<Rightarrow> False | Some v \<Rightarrow> parse_bool v = Some True)"

definition verifyfabric_flags :: "string \<rightharpoonup> flag_kind" where
  "verifyfabric_flags = [''dur'' \<mapsto> ValueFlag, ''workers'' \<mapsto> ValueFlag]"

text \<open>The usage that the head of \<open>verifyfabric\<close> shows ends the command.\<close>

lemma shown_usage_exits:
  "accepts ''dur'' ''3s'' \<Longrightarrow>
   parse_args verifyfabric_flags accepts [''-dur'', ''3s'', ''-r'', ''1e11''] Map.empty = Exit 2"
  by (simp add: verifyfabric_flags_def split_flag_def)

section \<open>The environment record\<close>

definition is_space :: "char \<Rightarrow> bool" where
  "is_space c \<longleftrightarrow> c \<in> set [CHR '' '', CHR 0x09, CHR 0x0A, CHR 0x0B, CHR 0x0C, CHR 0x0D]"

definition trim_space :: "string \<Rightarrow> string" where
  "trim_space s = rev (dropWhile is_space (rev (dropWhile is_space s)))"

text \<open>The output of \<open>git\<close>, or \<open>None\<close> for its error.\<close>

definition gitCommit :: "string option \<Rightarrow> string" where
  "gitCommit out = (case out of None \<Rightarrow> ''unknown'' | Some s \<Rightarrow> trim_space s)"

text \<open>JSON values of the record, and \<open>json.MarshalIndent\<close> of a map with the indent of two spaces: keys in order.\<close>

datatype json = JString string | JInt int

definition hex_digit :: "nat \<Rightarrow> char" where
  "hex_digit n = ''0123456789abcdef'' ! n"

definition json_char :: "char \<Rightarrow> string" where
  "json_char c =
     (if c = CHR 0x22 \<or> c = CHR 0x5C then [CHR 0x5C, c]
      else if c = CHR 0x08 then [CHR 0x5C, CHR ''b'']
      else if c = CHR 0x0C then [CHR 0x5C, CHR ''f'']
      else if c = CHR 0x0A then [CHR 0x5C, CHR ''n'']
      else if c = CHR 0x0D then [CHR 0x5C, CHR ''r'']
      else if c = CHR 0x09 then [CHR 0x5C, CHR ''t'']
      else if of_char c < (0x20 :: nat) \<or> c \<in> set [CHR ''<'', CHR ''>'', CHR ''&'']
      then CHR 0x5C # ''u00'' @ [hex_digit (of_char c div 16), hex_digit (of_char c mod 16)]
      else [c])"

definition json_string :: "string \<Rightarrow> string" where
  "json_string s = [CHR 0x22] @ concat (map json_char s) @ [CHR 0x22]"

fun decimal :: "nat \<Rightarrow> string" where
  "decimal n = (if n < 10 then [char_of (48 + n)] else decimal (n div 10) @ [char_of (48 + n mod 10)])"

declare decimal.simps [simp del]

definition json_int :: "int \<Rightarrow> string" where
  "json_int i = (if i < 0 then CHR ''-'' # decimal (nat (- i)) else decimal (nat i))"

definition json_value :: "json \<Rightarrow> string" where
  "json_value v = (case v of JString s \<Rightarrow> json_string s | JInt i \<Rightarrow> json_int i)"

primrec join_with :: "string \<Rightarrow> string list \<Rightarrow> string" where
  "join_with sep [] = []"
| "join_with sep (s # ss) = (if ss = [] then s else s @ sep @ join_with sep ss)"

definition MarshalIndent :: "(string \<times> json) list \<Rightarrow> string" where
  "MarshalIndent kvs =
     (if kvs = [] then ''{}''
      else CHR ''{'' # CHR 0x0A #
        join_with ('','' @ [CHR 0x0A])
          (map (\<lambda>(k, v). ''  '' @ json_string k @ '': '' @ json_value v) (sort_key fst kvs)) @ [CHR 0x0A, CHR ''}''])"

text \<open>What the run time tells; the two runs of git may differ.\<close>

record platform =
  go_version :: string
  goos :: string
  goarch :: string
  num_cpu :: int
  gomaxprocs :: int
  git_first :: "string option"
  git_second :: "string option"
  timestamp_utc :: string

text \<open>A conversion to an integer cuts off the fraction.\<close>

definition int_of_float :: "real \<Rightarrow> int" where
  "int_of_float r = (if 0 \<le> r then \<lfloor>r\<rfloor> else \<lceil>r\<rceil>)"

text \<open>The map literal \<open>env\<close>, in the order of the source.\<close>

definition environment :: "platform \<Rightarrow> real \<Rightarrow> (string \<times> json) list" where
  "environment p rate =
     [(''go_version'', JString (go_version p)),
      (''goos'', JString (goos p)),
      (''goarch'', JString (goarch p)),
      (''num_cpu'', JInt (num_cpu p)),
      (''gomaxprocs'', JInt (gomaxprocs p)),
      (''git_commit'', JString (gitCommit (git_first p))),
      (''measured_sha256d_per_sec_per_core'', JInt (int_of_float rate)),
      (''timestamp_utc'', JString (timestamp_utc p)),
      (''note'', JString ''BSV only. sha256d rate is software path unless SHA-NI is present; see SECURITY.md.'')]"

section \<open>Files\<close>

type_synonym disk = "string \<rightharpoonup> string"

text \<open>A failed write prints to the standard error and nothing else.\<close>

definition writeFile ::
  "(string \<Rightarrow> string \<Rightarrow> disk \<Rightarrow> string option \<times> disk) \<Rightarrow> string \<Rightarrow> string \<Rightarrow> disk \<Rightarrow> string list \<times> disk" where
  "writeFile wr path content d =
     (let (err, d) = wr path content d in
      (case err of None \<Rightarrow> [] | Some e \<Rightarrow> [''write '' @ path @ '' : '' @ e @ [CHR 0x0A]], d))"

definition writeJSON ::
  "(string \<Rightarrow> string \<Rightarrow> disk \<Rightarrow> string option \<times> disk) \<Rightarrow> string \<Rightarrow> (string \<times> json) list \<Rightarrow> disk \<Rightarrow> string list \<times> disk" where
  "writeJSON wr path v d = writeFile wr path (MarshalIndent v @ [CHR 0x0A]) d"

text \<open>
  The lines on the standard error, the disk, and what is printed after the files: the platform line with its rate
  in millions, and the figures of \<open>reproduce\<close>.
\<close>

definition reproduce_run ::
  "(string \<Rightarrow> string \<Rightarrow> disk \<Rightarrow> string option \<times> disk) \<Rightarrow> platform \<Rightarrow> real \<Rightarrow> (real \<Rightarrow> real \<times> real) \<Rightarrow> disk \<Rightarrow>
     string list \<times> disk \<times> (string list \<times> int \<times> string \<times> real) \<times> (string \<times> nat \<times> bench_row list \<times> capacity list) res" where
  "reproduce_run wr p rate measured d =
     (let (e1, d) = writeJSON wr ''environment.json'' (environment p rate) d;
          (e2, d) = writeFile wr ''claims.csv'' claimsCSV d
      in (e1 @ e2, d, ([go_version p, goos p, goarch p], num_cpu p, gitCommit (git_second p), rate / 10 ^ 6),
          reproduce rate measured))"

section \<open>The command\<close>

text \<open>
  What the command does: write and print the record, print the report of the fabric, or the tables and the
  payment. A panic inside a table ends the run; the outer \<open>None\<close> is a nonce search that does not end.
\<close>

record mfspv_args =
  a_rate :: real
  a_measured :: "real \<Rightarrow> real \<times> real"
  a_edge :: "u64 \<times> real \<times> real"
  a_stream :: "bytes \<Rightarrow> static_chain \<Rightarrow> real"
  a_sig :: real
  a_times :: "int \<times> int"

datatype mfspv_output =
    Quit nat
  | Reproduced "string list" disk "string list \<times> int \<times> string \<times> real" "(string \<times> nat \<times> bench_row list \<times> capacity list) res"
  | FabricReport "report_line list res"
  | Demonstrated "bench_row list \<times> nat \<times> (nat \<times> nat \<times> int \<times> int)" "capacity list \<times> edge_profile"
      "((decision \<times> go_error option) \<times> (decision \<times> go_error option) option) res"

definition mfspv_main ::
  "(string \<Rightarrow> string \<Rightarrow> disk \<Rightarrow> string option \<times> disk) \<Rightarrow> platform \<Rightarrow> mfspv_args \<Rightarrow> string list \<Rightarrow> disk \<Rightarrow>
     mfspv_output res option" where
  "mfspv_main wr p a args d =
     (case parse_args mfspv_flags (\<lambda>_ _. False) args Map.empty of
        Exit n \<Rightarrow> Some (Inr (Quit n))
      | Parsed m _ \<Rightarrow>
        if bool_flag m ''eval'' then
          (let (errs, d, plat, figures) = reproduce_run wr p (a_rate a) (a_measured a) d in
           Some (Inr (Reproduced errs d plat figures)))
        else if bool_flag m ''fabric'' then Some (Inr (FabricReport (RunReport (a_stream a) (a_sig a))))
        else
          (case printScaling (a_measured a) of
             Inl e \<Rightarrow> Some (Inl e)
           | Inr scaling \<Rightarrow>
               map_option (\<lambda>r. Inr (Demonstrated scaling (printCapacity (a_rate a) (a_edge a)) r))
                 (run_payment (fst (a_times a)) (snd (a_times a)))))"

section \<open>What is written\<close>

text \<open>The keys of the record in the order of the file.\<close>

lemma environment_keys:
  "map fst (sort_key fst (environment p rate)) =
     [''git_commit'', ''go_version'', ''goarch'', ''gomaxprocs'', ''goos'', ''measured_sha256d_per_sec_per_core'', ''note'',
      ''num_cpu'', ''timestamp_utc'']"
  by (simp add: environment_def)

text \<open>A disk that takes every write holds both files afterwards; one that refuses all is left alone and costs two lines.\<close>

lemma reproduce_writes:
  assumes "reproduce_run (\<lambda>path s d. (None, d(path \<mapsto> s))) p rate measured d = (errs, d', plat, figures)"
  shows "errs = []" and "d' = d(''environment.json'' \<mapsto> MarshalIndent (environment p rate) @ [CHR 0x0A], ''claims.csv'' \<mapsto> claimsCSV)"
  using assms by (simp_all add: reproduce_run_def writeJSON_def writeFile_def)

lemma reproduce_refused:
  assumes "reproduce_run (\<lambda>path s d. (Some e, d)) p rate measured d = (errs, d', plat, figures)"
  shows "length errs = 2" and "d' = d" and "figures = reproduce rate measured"
  using assms by (auto simp: reproduce_run_def writeJSON_def writeFile_def)

text \<open>No flag, or flags that say false, run the demonstration; a word that is not a flag ends the flags.\<close>

lemma mfspv_plain:
  assumes "args \<in> {[], [''-eval=false''], [''--fabric=0''], [''eval'']}"
  shows "\<exists>m rest. parse_args mfspv_flags (\<lambda>_ _. False) args Map.empty = Parsed m rest \<and>
    \<not> bool_flag m ''eval'' \<and> \<not> bool_flag m ''fabric''"
  using assms by (auto simp: mfspv_flags_def split_flag_def bool_flag_def parse_bool_def)

end
