(* ===== verification/BundleForm.thy ===== *)
theory BundleForm
  imports Bundle
begin

text \<open>
  What \<open>Deserialize\<close> accepts (src/bundle/serialize.go): the bundles it returns are within the limits of
  the format, and the accepted bytes are the serialisation of the result, up to the flag bytes that
  \<open>marked_bundle\<close> points out, which the reader takes for false unless they are 1.
\<close>

section \<open>Reading forward\<close>

text \<open>The reader has gone from \<open>r\<close> to \<open>r'\<close> without an error over a variant of \<open>xs\<close>.\<close>

definition has_read :: "reader \<Rightarrow> reader \<Rightarrow> marked \<Rightarrow> bool" where
  "has_read r r' xs \<longleftrightarrow> rerr r = None \<and> rbuf r' = rbuf r \<and> roff r' = roff r + length xs \<and>
     roff r' \<le> length (rbuf r) \<and> flag_variant xs (go_slice (rbuf r) (roff r) (roff r'))"

lemma has_read_refl: "rerr r = None \<Longrightarrow> roff r \<le> length (rbuf r) \<Longrightarrow> has_read r r []"
  by (simp add: has_read_def go_slice_def flag_variant_def)

lemma has_read_trans:
  assumes "has_read r r1 xs" and "has_read r1 r2 ys"
  shows "has_read r r2 (xs @ ys)"
proof -
  have "go_slice (rbuf r) (roff r) (roff r2) = go_slice (rbuf r) (roff r) (roff r1) @ go_slice (rbuf r) (roff r1) (roff r2)"
    using assms by (intro go_slice_next) (simp_all add: has_read_def)
  then show ?thesis using assms by (fastforce simp: has_read_def flag_variant_append)
qed

text \<open>A reader that has failed stays failed.\<close>

lemma r_take_read:
  assumes "r_take n r = (b, r')" and "rerr r' = None"
  shows "\<exists>bs. b = Some bs \<and> length bs = n \<and> has_read r r' (plain bs)"
  using assms by (auto simp: r_take_def has_read_def flag_variant_plain go_slice_def split: if_splits)

lemma r_u8_read: "r_u8 r = (v, r') \<Longrightarrow> rerr r' = None \<Longrightarrow> has_read r r' (plain [v])"
proof -
  assume a: "r_u8 r = (v, r')" "rerr r' = None"
  obtain b where t: "r_take 1 r = (b, r')" using a(1) by (cases "r_take 1 r") (auto simp: r_u8_def split: option.splits)
  from r_take_read [OF t a(2)] obtain bs where bs: "b = Some bs" "length bs = 1" "has_read r r' (plain bs)" by blast
  moreover have "bs = [bs ! 0]" using bs(2) by (cases bs) auto
  ultimately show "has_read r r' (plain [v])" using a(1) t by (simp add: r_u8_def)
qed

lemma r_u16_read: "r_u16 r = (v, r') \<Longrightarrow> rerr r' = None \<Longrightarrow> has_read r r' (plain (le_bytes 2 v))"
proof -
  assume a: "r_u16 r = (v, r')" "rerr r' = None"
  obtain b where t: "r_take 2 r = (b, r')" using a(1) by (cases "r_take 2 r") (auto simp: r_u16_def split: option.splits)
  from r_take_read [OF t a(2)] obtain bs where "b = Some bs" "length bs = 2" "has_read r r' (plain bs)" by blast
  then show "has_read r r' (plain (le_bytes 2 v))" using a(1) t le_bytes_le_word [of bs, where 'a = 16] by (simp add: r_u16_def)
qed

lemma r_u32_read: "r_u32 r = (v, r') \<Longrightarrow> rerr r' = None \<Longrightarrow> has_read r r' (plain (le_bytes 4 v))"
proof -
  assume a: "r_u32 r = (v, r')" "rerr r' = None"
  obtain b where t: "r_take 4 r = (b, r')" using a(1) by (cases "r_take 4 r") (auto simp: r_u32_def split: option.splits)
  from r_take_read [OF t a(2)] obtain bs where "b = Some bs" "length bs = 4" "has_read r r' (plain bs)" by blast
  then show "has_read r r' (plain (le_bytes 4 v))" using a(1) t le_bytes_le_word [of bs, where 'a = 32] by (simp add: r_u32_def)
qed

lemma r_read_read:
  assumes "r_read r = (x, r')"
  shows "case x of Inl _ \<Rightarrow> rerr r' \<noteq> None | Inr (a :: 'n::len barray) \<Rightarrow> rerr r' = None \<and> has_read r r' (plain (bytes_of a))"
proof -
  obtain b where t: "r_take LENGTH('n) r = (b, r')"
    using assms by (cases "r_take LENGTH('n) r") (auto simp: r_read_def split: option.splits)
  show ?thesis
  proof (cases b)
    case None
    then have "rerr r' \<noteq> None" using t by (auto simp: r_take_def split: if_splits)
    then show ?thesis using None t assms by (auto simp: r_read_def)
  next
    case (Some bs)
    then have "rerr r' = None" using t by (auto simp: r_take_def split: if_splits)
    from r_take_read [OF t this] this show ?thesis using Some t assms by (auto simp: r_read_def)
  qed
qed

section \<open>Paths and fields\<close>

lemma has_read_flag: "has_read r r' (plain [v]) \<Longrightarrow> has_read r r' [(True, if v = 1 then 1 else 0)]"
  by (auto simp: has_read_def flag_variant_def plain_def list_all2_Cons1)

lemma has_read_room: "has_read r r' xs \<Longrightarrow> roff r' \<le> length (rbuf r')"
  by (simp add: has_read_def)

lemma has_read_start: "has_read r r' xs \<Longrightarrow> rerr r = None"
  by (simp add: has_read_def)

lemma r_path_loop_read:
  "r_path_loop n p r = (q, r') \<Longrightarrow> rerr r' = None \<Longrightarrow> roff r \<le> length (rbuf r) \<Longrightarrow>
   \<exists>es. q = p @ es \<and> length es = n \<and> has_read r r' (concat (map marked_elem es))"
proof (induction n arbitrary: p r)
  case 0
  then show ?case using has_read_refl by auto
next
  case (Suc n)
  obtain v r1 where v: "r_u8 r = (v, r1)" by (cases "r_u8 r") auto
  obtain x :: "hash res" and r2 where x: "r_read r1 = (x, r2)" by (cases "r_read r1 :: hash res \<times> reader") auto
  note rd = r_read_read [OF x]
  show ?case
  proof (cases x)
    case (Inl e)
    then show ?thesis using Suc.prems v x rd by simp
  next
    case (Inr sib)
    let ?e = "\<lparr>Sibling = sib, Right = (v = 1)\<rparr>"
    have h2: "has_read r1 r2 (plain (bytes_of sib))" using rd Inr by simp
    have h1: "has_read r r1 [(True, if v = 1 then 1 else 0)]"
      by (rule has_read_flag [OF r_u8_read [OF v has_read_start [OF h2]]])
    have run: "r_path_loop n (p @ [?e]) r2 = (q, r')" using Suc.prems(1) v x Inr by simp
    from Suc.IH [OF run Suc.prems(2) has_read_room [OF h2]] obtain es where
      es: "q = (p @ [?e]) @ es" "length es = n" "has_read r2 r' (concat (map marked_elem es))" by blast
    have "has_read r r' (marked_elem ?e @ concat (map marked_elem es))"
      using has_read_trans [OF has_read_trans [OF h1 h2] es(3)] by (simp add: marked_elem_def)
    then show ?thesis using es by (intro exI [of _ "?e # es"]) simp
  qed
qed

lemma r_path_read:
  assumes "r_path r = (p, r')" and "rerr r' = None"
  shows "path_ok p \<and> has_read r r' (marked_path p)"
proof -
  obtain c r1 where c: "r_u16 r = (c, r1)" by (cases "r_u16 r") auto
  have e: "rerr r1 = None"
    using assms c by (auto simp: r_path_def Let_def split: if_splits)
  have h: "has_read r r1 (plain (le_bytes 2 c))" by (rule r_u16_read [OF c e])
  show ?thesis
  proof (cases "unat c = 0")
    case True
    then have "c = 0" by (simp add: unat_eq_0)
    then show ?thesis using assms c h True by (auto simp: r_path_def path_ok_def marked_path_def)
  next
    case False
    then have n: "unat c \<le> MaxDepth + 1" and run: "r_path_loop (unat c) [] r1 = (p, r')"
      using assms c e by (auto simp: r_path_def Let_def split: if_splits)
    from r_path_loop_read [OF run assms(2) has_read_room [OF h]] obtain es where
      "p = es" "length es = unat c" "has_read r1 r' (concat (map marked_elem es))" by auto
    then show ?thesis using has_read_trans [OF h, of r' "concat (map marked_elem es)"] n
      by (simp add: path_ok_def marked_path_def)
  qed
qed

lemma r_fields_loop_read:
  "r_fields_loop n p r = (q, r') \<Longrightarrow> rerr r' = None \<Longrightarrow> roff r \<le> length (rbuf r) \<Longrightarrow>
   \<exists>fs. q = p @ fs \<and> length fs = n \<and> (\<forall>f\<in>set fs. length (Bytes f) < 2 ^ 16) \<and> has_read r r' (plain (concat (map enc_field fs)))"
proof (induction n arbitrary: p r)
  case 0
  then show ?case using has_read_refl by auto
next
  case (Suc n)
  obtain v r1 where v: "r_u8 r = (v, r1)" by (cases "r_u8 r") auto
  obtain l r2 where l: "r_u16 r1 = (l, r2)" by (cases "r_u16 r1") auto
  obtain b r3 where b: "r_take (unat l) r2 = (b, r3)" by (cases "r_take (unat l) r2") auto
  have e: "rerr r3 = None" using Suc.prems v l b by (auto split: if_splits)
  from r_take_read [OF b e] obtain bs where bs: "b = Some bs" "length bs = unat l" "has_read r2 r3 (plain bs)" by blast
  let ?f = "\<lparr>Index = v, Bytes = bs\<rparr>"
  have h2: "has_read r1 r2 (plain (le_bytes 2 l))" by (rule r_u16_read [OF l has_read_start [OF bs(3)]])
  have h1: "has_read r r1 (plain [v])" by (rule r_u8_read [OF v has_read_start [OF h2]])
  have run: "r_fields_loop n (p @ [?f]) r3 = (q, r')" using Suc.prems(1) v l b e bs(1) by simp
  from Suc.IH [OF run Suc.prems(2) has_read_room [OF bs(3)]] obtain fs where
    fs: "q = (p @ [?f]) @ fs" "length fs = n" "\<forall>f\<in>set fs. length (Bytes f) < 2 ^ 16"
      "has_read r3 r' (plain (concat (map enc_field fs)))" by blast
  have "has_read r r' (plain (enc_field ?f) @ plain (concat (map enc_field fs)))"
    using has_read_trans [OF has_read_trans [OF h1 h2] has_read_trans [OF bs(3) fs(4)]] bs(2)
    by (simp add: enc_field_def plain_Cons)
  moreover have "length bs < 2 ^ 16" using bs(2) unsigned_less [of l, where 'a = nat] by simp
  ultimately show ?case using fs by (intro exI [of _ "?f # fs"]) simp
qed

lemma r_fields_read:
  assumes "r_fields r = (fs, r')" and "rerr r' = None"
  shows "fields_ok fs \<and> has_read r r' (plain (enc_fields fs))"
proof -
  obtain c r1 where c: "r_u16 r = (c, r1)" by (cases "r_u16 r") auto
  have e: "rerr r1 = None"
    using assms c by (auto simp: r_fields_def Let_def split: if_splits)
  have h: "has_read r r1 (plain (le_bytes 2 c))" by (rule r_u16_read [OF c e])
  show ?thesis
  proof (cases "unat c = 0")
    case True
    then have "c = 0" by (simp add: unat_eq_0)
    then show ?thesis using assms c h True by (auto simp: r_fields_def fields_ok_def enc_fields_def)
  next
    case False
    then have run: "r_fields_loop (unat c) [] r1 = (fs, r')"
      using assms c e by (auto simp: r_fields_def Let_def split: if_splits)
    from r_fields_loop_read [OF run assms(2) has_read_room [OF h]] have
      f: "length fs = unat c" "\<forall>f\<in>set fs. length (Bytes f) < 2 ^ 16" "has_read r1 r' (plain (concat (map enc_field fs)))" by auto
    have "unat c < 2 ^ 16" using unsigned_less [of c, where 'a = nat] by simp
    then show ?thesis using has_read_trans [OF h f(3)] f(1,2) by (simp add: fields_ok_def enc_fields_def)
  qed
qed

section \<open>Bundles\<close>

lemma r_anchor_read:
  assumes "r_anchor r = (Inr a, r')"
  shows "anchor_ok a \<and> rerr r' = None \<and> has_read r r' (marked_anchor a)"
proof -
  obtain x1 :: "hash res" and r1 where s1: "r_read r = (x1, r1)" by (cases "r_read r :: hash res \<times> reader") auto
  obtain ap r2 where s2: "r_path r1 = (ap, r2)" by (cases "r_path r1") auto
  obtain fs r3 where s3: "r_fields r2 = (fs, r3)" by (cases "r_fields r2") auto
  obtain l0 r4 where s4: "r_path r3 = (l0, r4)" by (cases "r_path r3") auto
  obtain l1 r5 where s5: "r_path r4 = (l1, r5)" by (cases "r_path r4") auto
  obtain l2 r6 where s6: "r_path r5 = (l2, r6)" by (cases "r_path r5") auto
  obtain x7 :: "hash res" and r7 where s7: "r_read r6 = (x7, r7)" by (cases "r_read r6 :: hash res \<times> reader") auto
  obtain x8 :: "header res" and r8 where s8: "r_read r7 = (x8, r8)" by (cases "r_read r7 :: header res \<times> reader") auto
  obtain root where x1: "x1 = Inr root"
    using assms s1 by (cases x1) (simp_all add: r_anchor_def)
  obtain br where x7: "x7 = Inr br"
    using assms s1 s2 s3 s4 s5 s6 s7 x1 by (cases x7) (simp_all add: r_anchor_def)
  obtain hd where x8: "x8 = Inr hd"
    using assms s1 s2 s3 s4 s5 s6 s7 s8 x1 x7 by (cases x8) (simp_all add: r_anchor_def)
  have a: "a = \<lparr>AccRoot = root, AccPath = ap, GenTxFields = fs, GenL0 = l0, GenL1 = l1, GenL2 = l2,
      CarryingBlockMerkleRoot = br, CarryingHeader = hd\<rparr>" "r' = r8"
    using assms s1 s2 s3 s4 s5 s6 s7 s8 x1 x7 x8 by (simp_all add: r_anchor_def)
  have h8: "rerr r8 = None" "has_read r7 r8 (plain (bytes_of hd))" using r_read_read [OF s8] x8 by simp_all
  have h7: "has_read r6 r7 (plain (bytes_of br))" using r_read_read [OF s7] x7 by simp
  note h6 = r_path_read [OF s6 has_read_start [OF h7]]
  note h5 = r_path_read [OF s5 has_read_start [OF conjunct2 [OF h6]]]
  note h4 = r_path_read [OF s4 has_read_start [OF conjunct2 [OF h5]]]
  note h3 = r_fields_read [OF s3 has_read_start [OF conjunct2 [OF h4]]]
  note h2 = r_path_read [OF s2 has_read_start [OF conjunct2 [OF h3]]]
  have h1: "has_read r r1 (plain (bytes_of root))" using r_read_read [OF s1] x1 by simp
  have "has_read r r8 (plain (bytes_of root) @ marked_path ap @ plain (enc_fields fs) @ marked_path l0 @ marked_path l1 @
      marked_path l2 @ plain (bytes_of br) @ plain (bytes_of hd))"
    using h1 h2 h3 h4 h5 h6 h7 h8(2) by (blast intro: has_read_trans)
  then show ?thesis using a h8(1) h2 h3 h4 h5 h6 by (simp add: anchor_ok_def marked_anchor_def)
qed

lemma r_finish_ok: "r_finish b r = Inr b' \<Longrightarrow> b' = b \<and> rerr r = None \<and> roff r = length (rbuf r)"
  by (auto simp: r_finish_def split: option.splits if_splits)

lemma Deserialize_read:
  assumes "Deserialize data = Inr b"
  shows "wire_ok b \<and> flag_variant (marked_bundle b) data"
proof -
  let ?r = "\<lparr>rbuf = data, roff = 0, rerr = None\<rparr>"
  obtain x1 :: "hash res" and r1 where s1: "r_read ?r = (x1, r1)" by (cases "r_read ?r :: hash res \<times> reader") auto
  obtain vout r2 where s2: "r_u32 r1 = (vout, r2)" by (cases "r_u32 r1") auto
  obtain fs r3 where s3: "r_fields r2 = (fs, r3)" by (cases "r_fields r2") auto
  obtain l0 r4 where s4: "r_path r3 = (l0, r4)" by (cases "r_path r3") auto
  obtain l1 r5 where s5: "r_path r4 = (l1, r5)" by (cases "r_path r4") auto
  obtain l2 r6 where s6: "r_path r5 = (l2, r6)" by (cases "r_path r5") auto
  obtain x7 :: "header res" and r7 where s7: "r_read r6 = (x7, r7)" by (cases "r_read r6 :: header res \<times> reader") auto
  obtain v r8 where s8: "r_u8 r7 = (v, r8)" by (cases "r_u8 r7") auto
  obtain txid where x1: "x1 = Inr txid"
    using assms s1 by (cases x1) (simp_all add: Deserialize_def)
  obtain hd where x7: "x7 = Inr hd"
    using assms s1 s2 s3 s4 s5 s6 s7 x1 by (cases x7) (simp_all add: Deserialize_def)
  let ?b = "\<lparr>OutputRef = \<lparr>TXID = txid, Vout = vout\<rparr>, Fields = fs, MTxIDPath' = l0, SubtreePath = l1,
      BlockPath = l2, Header = hd, Anchor = None\<rparr>"
  have run: "(if v = 1 then let (a, r) = r_anchor r8 in
      case a of Inl e \<Rightarrow> Inl e | Inr a \<Rightarrow> r_finish (?b\<lparr>Anchor := Some a\<rparr>) r else r_finish ?b r8) = Inr b"
    using assms s1 s2 s3 s4 s5 s6 s7 s8 x1 x7 by (simp add: Deserialize_def Let_def)
  have "\<exists>r9 tl. rerr r9 = None \<and> roff r9 = length (rbuf r9) \<and> b = ?b\<lparr>Anchor := Anchor b\<rparr> \<and>
      (case Anchor b of None \<Rightarrow> True | Some a \<Rightarrow> anchor_ok a) \<and>
      (case Anchor b of None \<Rightarrow> [(True, 0)] | Some a \<Rightarrow> (True, 1) # marked_anchor a) = tl \<and> has_read r7 r9 tl"
  proof (cases "v = 1")
    case True
    then obtain a r9 where a: "r_anchor r8 = (Inr a, r9)" and f: "r_finish (?b\<lparr>Anchor := Some a\<rparr>) r9 = Inr b"
      using run by (auto split: prod.splits sum.splits)
    note h = r_anchor_read [OF a]
    have "has_read r7 r8 [(True, 1)]" using has_read_flag [OF r_u8_read [OF s8]] has_read_start [of r8] h True by auto
    from has_read_trans [OF this, of r9 "marked_anchor a"] h
    have "has_read r7 r9 ((True, 1) # marked_anchor a)" by simp
    then show ?thesis using r_finish_ok [OF f] h by (intro exI [of _ r9]) simp
  next
    case False
    then have f: "r_finish ?b r8 = Inr b" using run by simp
    note fin = r_finish_ok [OF f]
    have "has_read r7 r8 [(True, 0)]" using has_read_flag [OF r_u8_read [OF s8]] fin False by simp
    then show ?thesis using fin by (intro exI [of _ r8]) simp
  qed
  then obtain r9 tl where e: "rerr r9 = None" "roff r9 = length (rbuf r9)" "b = ?b\<lparr>Anchor := Anchor b\<rparr>"
    and an: "case Anchor b of None \<Rightarrow> True | Some a \<Rightarrow> anchor_ok a"
    and tl: "(case Anchor b of None \<Rightarrow> [(True, 0)] | Some a \<Rightarrow> (True, 1) # marked_anchor a) = tl" and h8: "has_read r7 r9 tl" by blast
  have h7: "has_read r6 r7 (plain (bytes_of hd))" using r_read_read [OF s7] x7 by simp
  note h6 = r_path_read [OF s6 has_read_start [OF h7]]
  note h5 = r_path_read [OF s5 has_read_start [OF conjunct2 [OF h6]]]
  note h4 = r_path_read [OF s4 has_read_start [OF conjunct2 [OF h5]]]
  note h3 = r_fields_read [OF s3 has_read_start [OF conjunct2 [OF h4]]]
  have h2: "has_read r1 r2 (plain (le_bytes 4 vout))" by (rule r_u32_read [OF s2 has_read_start [OF conjunct2 [OF h3]]])
  have h1: "has_read ?r r1 (plain (bytes_of txid))" using r_read_read [OF s1] x1 by simp
  have all: "has_read ?r r9 (plain (bytes_of txid) @ plain (le_bytes 4 vout) @ plain (enc_fields fs) @ marked_path l0 @ marked_path l1 @ marked_path l2 @
      plain (bytes_of hd) @ tl)"
    using h1 h2 h3 h4 h5 h6 h7 h8 by (blast intro: has_read_trans)
  have eqs: "OutputRef b = \<lparr>TXID = txid, Vout = vout\<rparr>" "Fields b = fs" "MTxIDPath' b = l0" "SubtreePath b = l1"
    "BlockPath b = l2" "Header b = hd" by (subst e(3); simp)+
  have "marked_bundle b = plain (bytes_of txid) @ plain (le_bytes 4 vout) @ plain (enc_fields fs) @ marked_path l0 @ marked_path l1 @ marked_path l2 @
      plain (bytes_of hd) @ tl"
    using tl by (simp add: marked_bundle_def eqs)
  moreover have "go_slice data 0 (roff r9) = data" using all e(2) by (simp add: has_read_def go_slice_def)
  ultimately have "flag_variant (marked_bundle b) data" using all by (simp add: has_read_def)
  moreover have "wire_ok b" using an h3 h4 h5 h6 by (simp add: wire_ok_def eqs)
  ultimately show ?thesis by blast
qed

section \<open>The property\<close>

lemma variant_bytes:
  "flag_variant (marked_bundle b) data \<longleftrightarrow> length data = length (Serialize b) \<and>
     (\<forall>k<length data. data ! k = Serialize b ! k \<or> fst (marked_bundle b ! k) \<and> Serialize b ! k = 0 \<and> data ! k \<noteq> 1)"
  by (auto simp: flag_variant_def list_all2_conv_all_nth Serialize_marked split_beta)

text \<open>
  C15. The wire format of bundles, in both directions. A bundle round-trips exactly when its field lists
  and field contents fit 16-bit lengths and its paths have at most 256 elements; other bundles are
  written without an error and are not read back. And \<open>Deserialize\<close> returns a bundle for exactly these bytes:
  the bundle is within those limits, the bytes are as many as \<open>Serialize\<close> writes for it, and each byte is the
  one that \<open>Serialize\<close> writes, except that at the flags (the first byte of each path element and the byte
  in front of the anchor, the marks of \<open>marked_bundle\<close>) any byte other than 1 may stand for a 0.
\<close>
theorem bundle_format:
  "(Deserialize (Serialize b) = Inr b \<longleftrightarrow> wire_ok b) \<and>
   (Deserialize data = Inr b \<longleftrightarrow> wire_ok b \<and> length data = length (Serialize b) \<and>
      (\<forall>k < length data. data ! k = Serialize b ! k \<or>
         fst (marked_bundle b ! k) \<and> Serialize b ! k = 0 \<and> data ! k \<noteq> 1))"
  using Deserialize_read [of "Serialize b" b] Deserialize_Serialize [of b] Deserialize_read [of data b]
    Deserialize_variant [of b data] variant_bytes [of b data] by blast

text \<open>A bundle without fields or paths, accepted with 7 as the flag of its anchor.\<close>

theorem bundle_format_witness:
  "\<exists>b. Deserialize (replicate 124 0 @ [7]) = Inr b \<and> wire_ok b \<and> Serialize b = replicate 125 0 \<and>
    fst (marked_bundle b ! 124)"
proof -
  have "case Deserialize (replicate 124 0 @ [7]) of Inl _ \<Rightarrow> False | Inr b \<Rightarrow> Serialize b = replicate 125 0"
    by code_simp
  then obtain b where b: "Deserialize (replicate 124 0 @ [7]) = Inr b" "Serialize b = replicate 125 0"
    by (auto split: sum.splits)
  define data where "data = replicate 124 0 @ [7 :: byte]"
  have d: "124 < length data" "data ! 124 = 7" by (simp_all add: data_def nth_append)
  have "wire_ok b" "\<forall>k < length data. data ! k = Serialize b ! k \<or>
      fst (marked_bundle b ! k) \<and> Serialize b ! k = 0 \<and> data ! k \<noteq> 1"
    using bundle_format [of b data] b(1) [folded data_def] by blast+
  moreover from this(2) d b(2) have "fst (marked_bundle b ! 124)" by fastforce
  ultimately show ?thesis using b by blast
qed

end
