(* ===== verification/Reorganisation.thy ===== *)
theory Reorganisation
  imports Bundle
begin

text \<open>
  What happens to a bundle when the node reorganises (src/bundle/bundle.go, \<open>Reanchor\<close> and
  \<open>NeedsReanchor\<close>; src/teranode/mocknode.go): the theorem over all runs of the node, and a run in which a
  transaction is sealed, its block is orphaned and another block with it is sealed. For the run the
  hashes of the two blocks are computed, to see that they differ.
\<close>

section \<open>The hashes of two blocks with one transaction\<close>


















section \<open>A transaction in two blocks\<close>



section \<open>The property\<close>




end
