(* ===== verification/Mutate.thy ===== *)
theory Mutate
  imports Prelude Complex_Main
begin

text \<open>
  Command \<open>mutate\<close> (src/cmd/mutate/main.go): the gate that puts each mutation of its table into a source
  file, runs the tests and puts the file back.

  A disk is a map from paths to contents, \<open>None\<close> where \<open>os.ReadFile\<close> fails. \<open>os.WriteFile\<close> and the test
  run are parameters: \<open>wr d f s\<close> gives whether the write succeeds and the disk after it, \<open>tests d\<close>
  whether the command \<open>go test\<close> ends without an error at the disk \<open>d\<close>. The result is the exit code with
  the disk that is left behind. The printed lines are not modelled.
\<close>

section \<open>The standard library\<close>

text \<open>\<open>strings.Count\<close>; an empty \<open>sub\<close> is counted once per rune of valid UTF-8 and at the end.\<close>

function str_count :: "string \<Rightarrow> string \<Rightarrow> nat" where
  "str_count s sub =
     (if sub = [] then length (filter (\<lambda>c. of_char c < (128 :: nat) \<or> (192 :: nat) \<le> of_char c) s) + 1
      else if s = [] then 0
      else if take (length sub) s = sub then Suc (str_count (drop (length sub) s) sub)
      else str_count (tl s) sub)"
  by pat_completeness auto
termination
  by (relation "measure (\<lambda>(s, sub). length s)") auto

declare str_count.simps [simp del]

text \<open>\<open>strings.Replace\<close> with the limit 1.\<close>

fun str_replace1 :: "string \<Rightarrow> string \<Rightarrow> string \<Rightarrow> string" where
  "str_replace1 old new [] = (if old = [] then new else [])"
| "str_replace1 old new (c # s) =
     (if take (length old) (c # s) = old then new @ drop (length old) (c # s) else c # str_replace1 old new s)"

section \<open>The gate\<close>

record mutation =
  mut_file :: string
  mut_old :: string
  mut_new :: string
  mut_desc :: string

definition mutations :: "mutation list" where
  "mutations =
     [\<lparr>mut_file = ''commitment/commitment.go'',
       mut_old = ''if e.Right {'',
       mut_new = ''if !e.Right {'',
       mut_desc = ''Fold: invert sibling side''\<rparr>,
      \<lparr>mut_file = ''commitment/commitment.go'',
       mut_old = ''return root == blockMerkleRoot, depth'',
       mut_new = ''return root != blockMerkleRoot, depth'',
       mut_desc = ''VerifyToBlockRoot: invert root check''\<rparr>,
      \<lparr>mut_file = ''commitment/commitment.go'',
       mut_old = ''return Fold(leaf, path) == mtxid'',
       mut_new = ''return Fold(leaf, path) != mtxid'',
       mut_desc = ''VerifyMTxIDPath: invert''\<rparr>,
      \<lparr>mut_file = ''commitment/commitment.go'',
       mut_old = ''if len(path) > 20 {'',
       mut_new = ''if len(path) > 21 {'',
       mut_desc = ''VerifySubtreePath: loosen cap to 21''\<rparr>,
      \<lparr>mut_file = ''crypto/secp256k1.go'',
       mut_old = ''return s.S.Cmp(nHalf) <= 0'',
       mut_new = ''return s.S.Cmp(nHalf) >= 0'',
       mut_desc = ''IsLowS: invert low-S test''\<rparr>,
      \<lparr>mut_file = ''crypto/secp256k1.go'',
       mut_old = ''return x.Cmp(sig.R) == 0'',
       mut_new = ''return x.Cmp(sig.R) != 0'',
       mut_desc = ''Verify: invert r comparison''\<rparr>,
      \<lparr>mut_file = ''crypto/secp256k1.go'',
       mut_old = ''return lhs.Cmp(rhs) == 0'',
       mut_new = ''return lhs.Cmp(rhs) != 0'',
       mut_desc = ''onCurve: invert''\<rparr>,
      \<lparr>mut_file = ''bundle/bundle.go'',
       mut_old = ''if mtxid != b.OutputRef.TXID {'',
       mut_new = ''if mtxid == b.OutputRef.TXID {'',
       mut_desc = ''Verify: invert L0 TXID bind''\<rparr>,
      \<lparr>mut_file = ''bundle/bundle.go'',
       mut_old = ''if blockRoot != HeaderMerkleRoot(b.Header) {'',
       mut_new = ''if blockRoot == HeaderMerkleRoot(b.Header) {'',
       mut_desc = ''Verify: invert L3 bind''\<rparr>,
      \<lparr>mut_file = ''bundle/bundle.go'',
       mut_old = ''if !headersView.Contains(a.CarryingHeader) {'',
       mut_new = ''if headersView.Contains(a.CarryingHeader) {'',
       mut_desc = ''anchorBindsToChain: drop carrier check (RT-1)''\<rparr>,
      \<lparr>mut_file = ''bundle/bundle.go'',
       mut_old = ''if HeaderMerkleRoot(a.CarryingHeader) != a.CarryingBlockMerkleRoot {'',
       mut_new = ''if HeaderMerkleRoot(a.CarryingHeader) == a.CarryingBlockMerkleRoot {'',
       mut_desc = ''anchorBindsToChain: invert root match''\<rparr>,
      \<lparr>mut_file = ''accumulator/accumulator.go'',
       mut_old = ''return root == carryingBlockMerkleRoot'',
       mut_new = ''return root != carryingBlockMerkleRoot'',
       mut_desc = ''VerifyAnchor: invert''\<rparr>,
      \<lparr>mut_file = ''accumulator/accumulator.go'',
       mut_old = ''return commitment.Fold(leaf, path) == accRoot'',
       mut_new = ''return commitment.Fold(leaf, path) != accRoot'',
       mut_desc = ''VerifyBlockInChain: invert''\<rparr>,
      \<lparr>mut_file = ''dsalert/dsalert.go'',
       mut_old = ''if ev.SpendA == ev.SpendB {'',
       mut_new = ''if ev.SpendA != ev.SpendB {'',
       mut_desc = ''VerifyAlert: invert same-tx check''\<rparr>,
      \<lparr>mut_file = ''dsalert/dsalert.go'',
       mut_old = ''if !crypto.Verify(pub, mA[:], sigA) || !crypto.Verify(pub, mB[:], sigB) {'',
       mut_new = ''if crypto.Verify(pub, mA[:], sigA) || !crypto.Verify(pub, mB[:], sigB) {'',
       mut_desc = ''VerifyAlert: drop sigA check''\<rparr>,
      \<lparr>mut_file = ''walletbob/walletbob.go'',
       mut_old = ''return valueAtRisk <= p.Tau'',
       mut_new = ''return valueAtRisk >= p.Tau'',
       mut_desc = ''Decide: invert tau threshold''\<rparr>,
      \<lparr>mut_file = ''walletbob/walletbob.go'',
       mut_old = ''d.ValueOK = sumIn >= sumOut'',
       mut_new = ''d.ValueOK = sumIn <= sumOut'',
       mut_desc = ''AcceptPayment: invert value conservation''\<rparr>]"

type_synonym disk = "string \<Rightarrow> string option"

record tally =
  killed :: nat
  survived :: nat
  errored :: nat
  survivors :: "string list"

text \<open>The loop over the table; \<open>Inl\<close> is the exit when a file cannot be put back.\<close>

fun mutate_loop ::
  "(disk \<Rightarrow> string \<Rightarrow> string \<Rightarrow> bool \<times> disk) \<Rightarrow> (disk \<Rightarrow> bool) \<Rightarrow> mutation list \<Rightarrow> tally \<Rightarrow> disk \<Rightarrow> disk + (tally \<times> disk)"
where
  "mutate_loop wr tests [] t d = Inr (t, d)"
| "mutate_loop wr tests (m # ms) t d =
     (case d (mut_file m) of
        None \<Rightarrow> mutate_loop wr tests ms (t\<lparr>errored := errored t + 1\<rparr>) d
      | Some s \<Rightarrow>
          if str_count s (mut_old m) \<noteq> 1 then mutate_loop wr tests ms (t\<lparr>errored := errored t + 1\<rparr>) d
          else
            let mutated = str_replace1 (mut_old m) (mut_new m) s in
            (case wr d (mut_file m) mutated of
               (False, d) \<Rightarrow> mutate_loop wr tests ms (t\<lparr>errored := errored t + 1\<rparr>) d
             | (True, d) \<Rightarrow>
                 let ok = tests d in
                 (case wr d (mut_file m) s of
                    (False, d) \<Rightarrow> Inl d
                  | (True, d) \<Rightarrow>
                      if ok
                      then mutate_loop wr tests ms
                        (t\<lparr>survived := survived t + 1, survivors := survivors t @ [mut_desc m]\<rparr>) d
                      else mutate_loop wr tests ms (t\<lparr>killed := killed t + 1\<rparr>) d)))"

definition score :: "tally \<Rightarrow> rat" where
  "score t = (let n = killed t + survived t in if 0 < n then of_nat (killed t) / of_nat n else 0)"

definition mutate_main ::
  "(disk \<Rightarrow> string \<Rightarrow> string \<Rightarrow> bool \<times> disk) \<Rightarrow> (disk \<Rightarrow> bool) \<Rightarrow> mutation list \<Rightarrow> disk \<Rightarrow> int \<times> disk" where
  "mutate_main wr tests ms d =
     (case mutate_loop wr tests ms \<lparr>killed = 0, survived = 0, errored = 0, survivors = []\<rparr> d of
        Inl d \<Rightarrow> (2, d)
      | Inr (t, d) \<Rightarrow>
          let gateOK = errored t = 0 \<and> survived t = 0 \<and> 85 / 100 \<le> score t
          in (if gateOK then 0 else 1, d))"

section \<open>Counting and replacing\<close>

text \<open>\<open>old\<close> stands in \<open>s\<close> after \<open>a\<close> and before \<open>b\<close>, and nowhere earlier.\<close>

definition first_at :: "string \<Rightarrow> string \<Rightarrow> string \<Rightarrow> string \<Rightarrow> bool" where
  "first_at s old a b \<longleftrightarrow> s = a @ old @ b \<and> (\<forall>k < length a. take (length old) (drop k s) \<noteq> old)"

lemma first_at_Nil: "first_at (old @ b) old [] b"
  by (simp add: first_at_def)

lemma first_at_Cons:
  "take (length old) (c # s) \<noteq> old \<Longrightarrow> first_at s old a b \<Longrightarrow> first_at (c # s) old (c # a) b"
  by (auto simp: first_at_def less_Suc_eq_0_disj)

lemma count_first: "old \<noteq> [] \<Longrightarrow> str_count s old \<noteq> 0 \<Longrightarrow> \<exists>a b. first_at s old a b"
proof (induction s)
  case Nil
  then show ?case by (simp add: str_count.simps)
next
  case (Cons c s)
  show ?case
  proof (cases "take (length old) (c # s) = old")
    case True
    then have "c # s = old @ drop (length old) (c # s)" by (metis append_take_drop_id)
    then show ?thesis using first_at_Nil by metis
  next
    case False
    then have "str_count s old \<noteq> 0" using Cons.prems by (simp add: str_count.simps [of "c # s"])
    then obtain a b where "first_at s old a b" using Cons by blast
    then show ?thesis using first_at_Cons [OF False] by blast
  qed
qed

lemma replace_first: "first_at s old a b \<Longrightarrow> str_replace1 old new s = a @ new @ b"
proof (induction a arbitrary: s)
  case Nil
  then have s: "s = old @ b" by (simp add: first_at_def)
  show ?case
  proof (cases s)
    case Nil
    then show ?thesis using s by simp
  next
    case (Cons c r)
    have "take (length old) s = old" "drop (length old) s = b" by (simp_all add: s)
    then show ?thesis by (simp add: Cons)
  qed
next
  case (Cons c a)
  then obtain r where s: "s = c # r" by (auto simp: first_at_def)
  have "take (length old) (c # r) \<noteq> old" using Cons.prems by (force simp: first_at_def s)
  moreover have "first_at r old a b" using Cons.prems by (force simp: first_at_def s)
  ultimately show ?case using Cons.IH by (simp add: s)
qed

section \<open>What the loop counts\<close>

definition writes_file :: "(disk \<Rightarrow> string \<Rightarrow> string \<Rightarrow> bool \<times> disk) \<Rightarrow> bool" where
  "writes_file wr \<longleftrightarrow> (\<forall>d f s. fst (wr d f s) \<longrightarrow> snd (wr d f s) = d(f \<mapsto> s))"

lemma writes_fileD: "writes_file wr \<Longrightarrow> fst (wr d f s) \<Longrightarrow> wr d f s = (True, d(f \<mapsto> s))"
  unfolding writes_file_def by (metis prod.collapse)

text \<open>The mutant is put in, the tests fail on it, and the file is put back.\<close>

definition mutant_killed ::
  "(disk \<Rightarrow> string \<Rightarrow> string \<Rightarrow> bool \<times> disk) \<Rightarrow> (disk \<Rightarrow> bool) \<Rightarrow> disk \<Rightarrow> mutation \<Rightarrow> bool" where
  "mutant_killed wr tests d m \<longleftrightarrow>
     (\<exists>s a b. d (mut_file m) = Some s \<and> str_count s (mut_old m) = 1 \<and> first_at s (mut_old m) a b \<and>
        fst (wr d (mut_file m) (a @ mut_new m @ b)) \<and>
        \<not> tests (d(mut_file m \<mapsto> a @ mut_new m @ b)) \<and>
        fst (wr (d(mut_file m \<mapsto> a @ mut_new m @ b)) (mut_file m) s))"

text \<open>The tallies never fall.\<close>

lemma mutate_loop_mono:
  "mutate_loop wr tests ms t d = Inr (t', d') \<Longrightarrow> errored t \<le> errored t' \<and> survived t \<le> survived t'"
  by (induction wr tests ms t d rule: mutate_loop.induct)
     (fastforce simp: Let_def split: option.splits if_splits prod.splits bool.splits)+

lemma mutate_step:
  assumes "writes_file wr" and "mut_old m \<noteq> []"
  shows "mutate_loop wr tests (m # ms) t d = Inr (t', d') \<and> errored t' = 0 \<and> survived t' = 0 \<longleftrightarrow>
    mutant_killed wr tests d m \<and>
    mutate_loop wr tests ms (t\<lparr>killed := killed t + 1\<rparr>) d = Inr (t', d') \<and> errored t' = 0 \<and> survived t' = 0"
proof (cases "\<exists>s. d (mut_file m) = Some s \<and> str_count s (mut_old m) = 1")
  case False
  then have "\<not> mutant_killed wr tests d m" by (auto simp: mutant_killed_def)
  moreover have "mutate_loop wr tests (m # ms) t d = mutate_loop wr tests ms (t\<lparr>errored := errored t + 1\<rparr>) d"
    using False by (auto split: option.split)
  moreover have "mutate_loop wr tests ms (t\<lparr>errored := errored t + 1\<rparr>) d = Inr (t', d') \<Longrightarrow> errored t' \<noteq> 0"
    using mutate_loop_mono by fastforce
  ultimately show ?thesis by auto
next
  case True
  then obtain s where s: "d (mut_file m) = Some s" "str_count s (mut_old m) = 1" by blast
  then obtain a b where ab: "first_at s (mut_old m) a b" using count_first [OF assms(2), of s] by auto
  let ?m = "a @ mut_new m @ b"
  let ?d = "d(mut_file m \<mapsto> ?m)"
  have same: "str_replace1 (mut_old m) (mut_new m) s = ?m" using replace_first [OF ab] .
  have killed: "mutant_killed wr tests d m \<longleftrightarrow>
      fst (wr d (mut_file m) ?m) \<and> \<not> tests ?d \<and> fst (wr ?d (mut_file m) s)"
  proof
    assume "mutant_killed wr tests d m"
    then obtain s' a' b' where k: "d (mut_file m) = Some s'" "first_at s' (mut_old m) a' b'"
      "fst (wr d (mut_file m) (a' @ mut_new m @ b'))" "\<not> tests (d(mut_file m \<mapsto> a' @ mut_new m @ b'))"
      "fst (wr (d(mut_file m \<mapsto> a' @ mut_new m @ b')) (mut_file m) s')"
      unfolding mutant_killed_def by blast
    have "s' = s" using k(1) s(1) by simp
    then have "a' @ mut_new m @ b' = ?m" using replace_first [OF k(2)] same by simp
    then show "fst (wr d (mut_file m) ?m) \<and> \<not> tests ?d \<and> fst (wr ?d (mut_file m) s)" using k \<open>s' = s\<close> by metis
  next
    assume "fst (wr d (mut_file m) ?m) \<and> \<not> tests ?d \<and> fst (wr ?d (mut_file m) s)"
    then show "mutant_killed wr tests d m" using s ab unfolding mutant_killed_def by blast
  qed
  note w1 = writes_fileD [OF assms(1)]
  have restored: "?d(mut_file m \<mapsto> s) = d" using s(1) by auto
  have w2: "wr ?d (mut_file m) s = (True, d)" if "fst (wr ?d (mut_file m) s)"
    using w1 [OF that] unfolding restored .
  have err: "errored t' \<noteq> 0" if "mutate_loop wr tests ms (t\<lparr>errored := errored t + 1\<rparr>) x = Inr (t', d')" for x
    using mutate_loop_mono [OF that] by simp
  have live: "survived t' \<noteq> 0"
    if "mutate_loop wr tests ms (t\<lparr>survived := survived t + 1, survivors := survivors t @ [mut_desc m]\<rparr>) d = Inr (t', d')"
    using mutate_loop_mono [OF that] by simp
  show ?thesis
  proof (cases "fst (wr d (mut_file m) ?m)")
    case False
    then show ?thesis using killed err s same
      by (cases "wr d (mut_file m) ?m") (auto simp: Let_def)
  next
    case ok1: True
    show ?thesis
    proof (cases "fst (wr ?d (mut_file m) s)")
      case False
      then show ?thesis using killed s same w1 [OF ok1]
        by (cases "wr ?d (mut_file m) s") (auto simp: Let_def)
    next
      case ok2: True
      then show ?thesis using killed s same w1 [OF ok1] w2 [OF ok2] live
        by (auto simp: Let_def simp del: fun_upd_apply)
    qed
  qed
qed

lemma mutate_loop_passes:
  assumes "writes_file wr" and "\<And>m. m \<in> set ms \<Longrightarrow> mut_old m \<noteq> []"
  shows "(mutate_loop wr tests ms t d = Inr (t', d') \<and> errored t' = 0 \<and> survived t' = 0) \<longleftrightarrow>
    errored t = 0 \<and> survived t = 0 \<and> list_all (mutant_killed wr tests d) ms \<and>
    d' = d \<and> t' = t\<lparr>killed := killed t + length ms\<rparr>"
  using assms(2)
proof (induction ms arbitrary: t)
  case Nil
  then show ?case by auto
next
  case (Cons m ms)
  have "mut_old m \<noteq> []" using Cons.prems by simp
  from mutate_step [OF assms(1) this, where tests = tests and ms = ms and t = t and d = d and t' = t' and d' = d']
  show ?case using Cons.IH [where t = "t\<lparr>killed := killed t + 1\<rparr>"] Cons.prems by auto
qed

lemma mutations_old: "m \<in> set mutations \<Longrightarrow> mut_old m \<noteq> []"
  by (auto simp: mutations_def)

lemma mutations_not_Nil: "mutations \<noteq> []"
  by (simp add: mutations_def)

lemma mutate_main_passes:
  assumes "writes_file wr" and "\<And>m. m \<in> set ms \<Longrightarrow> mut_old m \<noteq> []"
  shows "mutate_main wr tests ms d = (0, d') \<longleftrightarrow> ms \<noteq> [] \<and> list_all (mutant_killed wr tests d) ms \<and> d' = d"
proof -
  let ?t = "\<lparr>killed = 0, survived = 0, errored = 0, survivors = []\<rparr>"
  note loop = mutate_loop_passes [where ms = ms and tests = tests and t = ?t and d = d, OF assms]
  show ?thesis
  proof
    assume "mutate_main wr tests ms d = (0, d')"
    then obtain t where t: "mutate_loop wr tests ms ?t d = Inr (t, d')" "errored t = 0" "survived t = 0" "85 / 100 \<le> score t"
      by (auto simp: mutate_main_def Let_def split: sum.splits if_splits)
    then have l: "list_all (mutant_killed wr tests d) ms" "d' = d" "t = ?t\<lparr>killed := length ms\<rparr>"
      using loop [where t' = t and d' = d'] by auto
    have "ms \<noteq> []" using t(4) by (auto simp: l(3) score_def)
    then show "ms \<noteq> [] \<and> list_all (mutant_killed wr tests d) ms \<and> d' = d" using l by simp
  next
    assume k: "ms \<noteq> [] \<and> list_all (mutant_killed wr tests d) ms \<and> d' = d"
    then have "mutate_loop wr tests ms ?t d = Inr (?t\<lparr>killed := length ms\<rparr>, d)"
      using loop [where t' = "?t\<lparr>killed := length ms\<rparr>" and d' = d] by simp
    then show "mutate_main wr tests ms d = (0, d')" using k by (simp add: mutate_main_def score_def)
  qed
qed

text \<open>When no write fails the files are as before, whatever the tests say.\<close>

lemma mutate_loop_restores:
  assumes "writes_file wr" and "\<And>d f s. fst (wr d f s)"
  shows "\<exists>t'. mutate_loop wr tests ms t d = Inr (t', d)"
proof (induction ms arbitrary: t)
  case (Cons m ms)
  have w: "wr d f s = (True, d(f \<mapsto> s))" for d f s by (rule writes_fileD [OF assms])
  have "d(mut_file m \<mapsto> a, mut_file m \<mapsto> s) = d" if "d (mut_file m) = Some s" for a s using that by auto
  then show ?case using Cons.IH by (auto simp: w Let_def simp del: fun_upd_apply split: option.split)
qed simp

lemma mutate_main_restores:
  assumes "writes_file wr" and "\<And>d f s. fst (wr d f s)"
  shows "snd (mutate_main wr tests ms d) = d \<and> fst (mutate_main wr tests ms d) \<noteq> 2"
proof -
  let ?t = "\<lparr>killed = 0, survived = 0, errored = 0, survivors = []\<rparr>"
  obtain t' where "mutate_loop wr tests ms ?t d = Inr (t', d)" using mutate_loop_restores [OF assms] by blast
  then show ?thesis by (simp add: mutate_main_def Let_def)
qed

text \<open>A suite that always fails kills every mutant.\<close>

lemma failing_suite:
  assumes "\<And>d. \<not> tests d" and "\<And>d f s. fst (wr d f s)" and "mut_old m \<noteq> []"
  shows "mutant_killed wr tests d m \<longleftrightarrow> (\<exists>s. d (mut_file m) = Some s \<and> str_count s (mut_old m) = 1)"
  using count_first [OF assms(3)] assms(1,2) unfolding mutant_killed_def by (metis one_neq_zero)

section \<open>Properties\<close>

text \<open>
  C40. The gate of cmd/mutate. With a \<open>WriteFile\<close> that puts the content into the file when it reports no
  error, the command exits with 0 exactly when every mutation of the table has its target once in its file,
  is put in at that place, makes the tests fail and is taken out again, and then the disk is as before. When
  no write fails, the disk is as before in every case. The tests are never run without a mutation: a suite
  that fails on every disk passes the gate as soon as every target occurs once.
\<close>

theorem mutation_gate:
  assumes "writes_file wr"
  shows "(mutate_main wr tests mutations d = (0, d') \<longleftrightarrow> list_all (mutant_killed wr tests d) mutations \<and> d' = d) \<and>
    ((\<forall>d f s. fst (wr d f s)) \<longrightarrow> snd (mutate_main wr tests mutations d) = d) \<and>
    ((\<forall>d f s. fst (wr d f s)) \<and> (\<forall>d. \<not> tests d) \<longrightarrow>
       (mutate_main wr tests mutations d = (0, d) \<longleftrightarrow>
          list_all (\<lambda>m. \<exists>s. d (mut_file m) = Some s \<and> str_count s (mut_old m) = 1) mutations))"
proof -
  have pass: "mutate_main wr tests mutations d = (0, x) \<longleftrightarrow> list_all (mutant_killed wr tests d) mutations \<and> x = d" for x
    using mutate_main_passes [where ms = mutations, OF assms mutations_old] mutations_not_Nil by simp
  have "list_all (mutant_killed wr tests d) mutations \<longleftrightarrow>
      list_all (\<lambda>m. \<exists>s. d (mut_file m) = Some s \<and> str_count s (mut_old m) = 1) mutations"
    if "\<And>d f s. fst (wr d f s)" "\<And>d. \<not> tests d"
    using failing_suite [OF that(2,1) mutations_old] by (auto simp: list_all_iff)
  then show ?thesis using pass mutate_main_restores [OF assms] by blast
qed

text \<open>A disk on which every file is the list of its targets, and tests that always fail.\<close>

definition target_disk :: disk where
  "target_disk f = Some (concat (map (\<lambda>m. if mut_file m = f then mut_old m @ [CHR 0x0A] else []) mutations))"

lemma target_disk_once: "list_all (\<lambda>m. str_count (the (target_disk (mut_file m))) (mut_old m) = 1) mutations"
  by code_simp

theorem mutation_gate_witness:
  "mutate_main (\<lambda>d f s. (True, d(f \<mapsto> s))) (\<lambda>_. False) mutations target_disk = (0, target_disk)"
proof -
  have "list_all (\<lambda>m. \<exists>s. target_disk (mut_file m) = Some s \<and> str_count s (mut_old m) = 1) mutations"
    using target_disk_once by (simp add: list_all_iff target_disk_def)
  then show ?thesis
    using mutation_gate [of "\<lambda>d f s. (True, d(f \<mapsto> s))" "\<lambda>_. False" target_disk target_disk]
    unfolding writes_file_def by simp
qed

end
