(* ===== verification/Curve.thy ===== *)
theory Curve
  imports Crypto
begin

text \<open>
  The curve under src/crypto/secp256k1.go: every point that the affine arithmetic makes from points of the
  curve is on the curve, so public keys are, and a public key is what its encoding parses to.

  Inverses in the field exist because the field prime is prime. Its primality is not proved; instead, where
  an inverse could be missing, the lemmas exhibit a proper factor of it.
\<close>

section \<open>Inverses in the field\<close>

definition field_factor :: bool where
  "field_factor \<longleftrightarrow> (\<exists>d. 1 < d \<and> d < curveP \<and> d dvd curveP)"

lemma egcd_gcd: "0 \<le> r0 \<Longrightarrow> 0 \<le> r1 \<Longrightarrow> egcd r0 r1 x0 x1 = (d, x) \<Longrightarrow> d = gcd r0 r1"
proof (induction r0 r1 x0 x1 rule: egcd.induct)
  case (1 r0 r1 x0 x1)
  show ?case
  proof (cases "r1 \<le> 0")
    case True
    then show ?thesis using 1 by (simp add: egcd.simps)
  next
    case False
    then have "d = gcd r1 (r0 mod r1)" using 1 by (simp add: egcd.simps [of r0 r1])
    then show ?thesis by (metis gcd_red_int)
  qed
qed

lemma factor_of_gcd:
  assumes "g mod curveP \<noteq> 0" and "gcd (g mod curveP) curveP \<noteq> 1"
  shows field_factor
proof -
  let ?g = "g mod curveP" and ?d = "gcd (g mod curveP) curveP"
  have g: "0 < ?g" "?g < curveP" using assms(1) curve_bounds(2) pos_mod_bound [of curveP g] pos_mod_sign [of curveP g] by linarith+
  have "?d dvd ?g" "?d dvd curveP" by simp_all
  then have "?d \<le> ?g" using g(1) by (metis zdvd_imp_le)
  moreover have "0 < ?d" using g(1) by simp
  ultimately have "1 < ?d" "?d < curveP" using assms(2) g(2) by linarith+
  then show ?thesis unfolding field_factor_def using \<open>?d dvd curveP\<close> by blast
qed

lemma inverse_or_factor:
  assumes "g mod curveP \<noteq> 0"
  shows "(g * mod_inverse_in_place g curveP) mod curveP = 1 \<or> field_factor"
proof (cases "ModInverse g curveP")
  case None
  obtain d x where e: "egcd (g mod curveP) curveP 1 0 = (d, x)" by (cases "egcd (g mod curveP) curveP 1 0")
  then have "d = gcd (g mod curveP) curveP" using curve_bounds(2) by (intro egcd_gcd) simp_all
  moreover have "d \<noteq> 1" using None e by (auto simp: ModInverse_def)
  ultimately show ?thesis using factor_of_gcd [OF assms] by blast
next
  case (Some x)
  then show ?thesis using ModInverse_value(1) [OF Some curve_bounds(2)] by (simp add: mod_inverse_in_place_def)
qed

text \<open>A product that vanishes has a factor that does.\<close>

lemma product_zero:
  assumes "curveP dvd a * b"
  shows "curveP dvd a \<or> curveP dvd b \<or> field_factor"
proof (cases "a mod curveP = 0")
  case False
  then show ?thesis
  proof (cases "gcd (a mod curveP) curveP = 1")
    case True
    then have "coprime (a mod curveP) curveP" by (simp only: coprime_iff_gcd_eq_1)
    then have "coprime curveP a" using curve_bounds(2) by (simp add: coprime_mod_left_iff coprime_commute)
    then show ?thesis using assms by (simp add: coprime_dvd_mult_right_iff)
  next
    case False
    then show ?thesis using factor_of_gcd [of a] \<open>a mod curveP \<noteq> 0\<close> by blast
  qed
qed (simp add: mod_0_imp_dvd)

text \<open>Fermat's little theorem: multiplication by a unit permutes the units.\<close>

lemma units_product:
  assumes "\<not> field_factor" and "finite A" and "\<And>x. x \<in> A \<Longrightarrow> \<not> curveP dvd x"
  shows "\<not> curveP dvd \<Prod>A"
  using assms(2,3)
proof (induction A)
  case empty
  then show ?case using curve_bounds(2) by (auto dest: zdvd_imp_le)
next
  case (insert x A)
  then show ?case using product_zero [of x "\<Prod>A"] assms(1) by auto
qed

lemma fermat:
  assumes "\<not> field_factor" and "\<not> curveP dvd a"
  shows "a ^ nat (curveP - 1) mod curveP = 1"
proof -
  let ?S = "{1..<curveP}"
  let ?f = "\<lambda>x. (a * x) mod curveP"
  have unit: "\<not> curveP dvd x" if "x \<in> ?S" for x using that by (auto dest: zdvd_imp_le)
  have inj: "inj_on ?f ?S"
  proof (rule inj_onI)
    fix x y assume xy: "x \<in> ?S" "y \<in> ?S" "?f x = ?f y"
    then have "curveP dvd a * x - a * y" by (simp add: mod_eq_dvd_iff)
    then have "curveP dvd a * (x - y)" by (simp add: right_diff_distrib)
    then have "curveP dvd x - y" using product_zero assms by blast
    then have "x mod curveP = y mod curveP" by (simp add: mod_eq_dvd_iff)
    then show "x = y" using xy by simp
  qed
  have "?f x \<in> ?S" if "x \<in> ?S" for x
  proof -
    have "\<not> curveP dvd a * x" using product_zero assms unit [OF that] by blast
    then have "?f x \<noteq> 0" by (simp add: dvd_eq_mod_eq_0)
    moreover have "0 \<le> ?f x" "?f x < curveP" using curve_bounds(2) by simp_all
    ultimately show ?thesis by simp
  qed
  then have "?f ` ?S = ?S" by (intro endo_inj_surj inj) auto
  then have "\<Prod>?S = prod ?f ?S" using prod.reindex [OF inj, of id] by simp
  then have "\<Prod>?S mod curveP = prod ((*) a) ?S mod curveP" by (simp add: mod_prod_eq)
  also have "prod ((*) a) ?S = a ^ nat (curveP - 1) * \<Prod>?S" by (simp add: prod.distrib)
  finally have "curveP dvd (a ^ nat (curveP - 1) - 1) * \<Prod>?S"
    by (simp add: mod_eq_dvd_iff left_diff_distrib dvd_diff_commute)
  moreover have "\<not> curveP dvd \<Prod>?S" by (rule units_product [OF assms(1)]) (use unit in auto)
  ultimately have "curveP dvd a ^ nat (curveP - 1) - 1" using product_zero assms(1) by blast
  then have "a ^ nat (curveP - 1) mod curveP = 1 mod curveP" by (simp only: mod_eq_dvd_iff)
  then show ?thesis using curve_bounds(2) by simp
qed

section \<open>The chord and the tangent\<close>

text \<open>The third point of a line through points of the curve, as identities over the integers.\<close>

lemma tangent_identity:
  fixes x y l :: int
  assumes "x3 = l * l - 2 * x" and "y3 = (x - x3) * l - y"
  shows "y3 * y3 - (x3 * x3 * x3 + 7) = (y * y - (x * x * x + 7)) + (x3 - x) * (2 * y * l - x * x * 3)"
  unfolding assms by algebra

lemma chord_identity:
  fixes x1 y1 x2 y2 l :: int
  assumes "x3 = l * l - x1 - x2" and "y3 = (x1 - x3) * l - y1" and "e = (x2 - x1) * l - (y2 - y1)"
  shows "(x2 - x1) * (y3 * y3 - (x3 * x3 * x3 + 7)) =
    (x2 - x1 - (x3 - x1)) * (y1 * y1 - (x1 * x1 * x1 + 7)) +
    (x3 - x1) * (y2 * y2 - (x2 * x2 * x2 + 7)) + (x3 - x1) * (2 * y2 + e) * e"
  unfolding assms by algebra

definition curve_gap :: "int \<Rightarrow> int \<Rightarrow> int" where
  "curve_gap x y = y * y - (x * x * x + 7)"

lemma onCurve_iff: "onCurve x y \<longleftrightarrow> 0 \<le> x \<and> x < curveP \<and> 0 \<le> y \<and> y < curveP \<and> curveP dvd curve_gap x y"
  by (auto simp: onCurve_def curve_gap_def mod_eq_dvd_iff)

lemma curve_gap_cong:
  assumes "x mod curveP = x' mod curveP" and "y mod curveP = y' mod curveP"
  shows "curveP dvd curve_gap x y \<longleftrightarrow> curveP dvd curve_gap x' y'"
proof -
  have "curve_gap x y mod curveP = curve_gap x' y' mod curveP"
    unfolding curve_gap_def using assms by (intro mod_diff_cong mod_add_cong mod_mult_cong refl)
  then show ?thesis by (simp add: dvd_eq_mod_eq_0)
qed

text \<open>The reduced coordinates of the code.\<close>

lemma reduced_on_curve:
  assumes "curveP dvd curve_gap x' ((x1 - x') * l - y1)"
  shows "onCurve (x' mod curveP) (((x1 - x' mod curveP) * l - y1) mod curveP)"
proof -
  have "(((x1 - x' mod curveP) * l - y1) mod curveP) mod curveP = ((x1 - x') * l - y1) mod curveP"
    unfolding mod_mod_trivial by (intro mod_diff_cong mod_mult_cong refl mod_mod_trivial)
  then have "curveP dvd curve_gap (x' mod curveP) (((x1 - x' mod curveP) * l - y1) mod curveP)"
    using assms curve_gap_cong [of "x' mod curveP" x'] by simp
  then show ?thesis using curve_bounds(2) by (simp add: onCurve_iff)
qed

definition point_ok :: "point \<Rightarrow> bool" where
  "point_ok p \<longleftrightarrow> (case p of None \<Rightarrow> True | Some (x, y) \<Rightarrow> onCurve x y)"

text \<open>The slope times the denominator is the numerator.\<close>

lemma slope:
  assumes "(u * v) mod curveP = 1"
  shows "curveP dvd u * ((num * v) mod curveP) - num"
proof -
  have "(u * ((num * v) mod curveP)) mod curveP = (num * ((u * v) mod curveP)) mod curveP"
    by (simp add: mod_mult_right_eq) (simp add: algebra_simps)
  then show ?thesis using assms by (simp add: mod_eq_dvd_iff)
qed

lemma pointDouble_ok:
  assumes "point_ok p"
  shows "point_ok (pointDouble p) \<or> field_factor"
proof (cases p)
  case (Some q)
  obtain x y where q: "q = (x, y)" by (cases q)
  have on: "onCurve x y" using assms by (simp add: point_ok_def Some q)
  show ?thesis
  proof (cases "y = 0 \<or> field_factor")
    case False
    have y: "0 < y" "y < curveP" using on False by (auto simp: onCurve_iff)
    have "(2 * y) mod curveP \<noteq> 0"
    proof
      assume "(2 * y) mod curveP = 0"
      then have "curveP dvd 2 * y" by (rule mod_0_imp_dvd)
      then obtain k where k: "2 * y = curveP * k" by (rule dvdE)
      have "0 < curveP * k" "curveP * k < curveP * 2" using y unfolding k [symmetric] by linarith+
      then have "0 < k" "k < 2" using curve_bounds(2) by (simp_all add: zero_less_mult_iff mult_less_cancel_left)
      then have "k = 1" by simp
      then show False using k curveP_odd by (metis dvd_triv_left mult.right_neutral)
    qed
    then have inv: "(2 * y * mod_inverse_in_place (2 * y) curveP) mod curveP = 1" using inverse_or_factor False by blast
    define l where "l = (x * x * 3 * mod_inverse_in_place (2 * y) curveP) mod curveP"
    define x' where "x' = l * l - 2 * x"
    have "curveP dvd 2 * y * l - x * x * 3" using slope [OF inv, of "x * x * 3"] by (simp add: l_def)
    then have "curveP dvd curve_gap x' ((x - x') * l - y)"
      unfolding curve_gap_def tangent_identity [OF x'_def refl, of y]
      using on by (intro dvd_add dvd_mult) (simp_all add: onCurve_iff curve_gap_def)
    from reduced_on_curve [OF this] show ?thesis
      using False by (simp add: pointDouble_def point_ok_def Some q Let_def l_def x'_def)
  qed (auto simp: pointDouble_def point_ok_def Some q)
qed (simp add: pointDouble_def point_ok_def)

lemma pointAdd_ok:
  assumes "point_ok p" and "point_ok q"
  shows "point_ok (pointAdd p q) \<or> field_factor"
proof (cases "\<exists>x1 y1 x2 y2. p = Some (x1, y1) \<and> q = Some (x2, y2) \<and> x1 \<noteq> x2")
  case True
  then obtain x1 y1 x2 y2 where pq: "p = Some (x1, y1)" "q = Some (x2, y2)" "x1 \<noteq> x2" by blast
  have on: "onCurve x1 y1" "onCurve x2 y2" using assms by (simp_all add: point_ok_def pq)
  have "(x2 - x1) mod curveP \<noteq> 0"
  proof
    assume "(x2 - x1) mod curveP = 0"
    then have "x2 mod curveP = x1 mod curveP" by (simp add: mod_eq_dvd_iff dvd_eq_mod_eq_0)
    then show False using on pq(3) by (simp add: onCurve_iff)
  qed
  then consider (inv) "((x2 - x1) * mod_inverse_in_place (x2 - x1) curveP) mod curveP = 1" | (fac) field_factor
    using inverse_or_factor by blast
  then show ?thesis
  proof cases
    case inv
    define l where "l = ((y2 - y1) * mod_inverse_in_place (x2 - x1) curveP) mod curveP"
    define x' where "x' = l * l - x1 - x2"
    have "curveP dvd (x2 - x1) * l - (y2 - y1)" using slope [OF inv, of "y2 - y1"] by (simp add: l_def)
    then have "curveP dvd (x2 - x1) * curve_gap x' ((x1 - x') * l - y1)"
      unfolding curve_gap_def chord_identity [OF x'_def refl refl, of y1 y2]
      using on by (intro dvd_add dvd_mult) (simp_all add: onCurve_iff curve_gap_def)
    then have "curveP dvd mod_inverse_in_place (x2 - x1) curveP * ((x2 - x1) * curve_gap x' ((x1 - x') * l - y1))"
      by (rule dvd_mult)
    then have "((((x2 - x1) * mod_inverse_in_place (x2 - x1) curveP) mod curveP) * curve_gap x' ((x1 - x') * l - y1)) mod curveP = 0"
      by (simp add: dvd_eq_mod_eq_0 mod_mult_left_eq mult.assoc mult.left_commute)
    then have "curveP dvd curve_gap x' ((x1 - x') * l - y1)" unfolding inv by (simp add: dvd_eq_mod_eq_0)
    from reduced_on_curve [OF this] show ?thesis
      using pq by (simp add: pointAdd_def point_ok_def Let_def l_def x'_def)
  qed blast
next
  case False
  then show ?thesis using assms pointDouble_ok [OF assms(1)]
    by (cases p; cases q) (auto simp: pointAdd_def point_ok_def)
qed

lemma scalarMult_ok:
  assumes "onCurve x y"
  shows "point_ok (fst (scalarMult k x y)) \<or> field_factor"
proof (cases field_factor)
  case False
  have "point_ok (fst r) \<Longrightarrow> point_ok (fst (fold (mult_step x y) bs r))" for bs r
  proof (induction bs arbitrary: r)
    case (Cons b bs)
    have d: "point_ok (pointDouble (fst r))" using pointDouble_ok Cons.prems False by blast
    moreover have "point_ok (pointAdd (pointDouble (fst r)) (Some (x, y)))"
      using pointAdd_ok [OF d, of "Some (x, y)"] assms False by (simp add: point_ok_def)
    ultimately show ?case using Cons.IH by (simp add: mult_step_def Let_def)
  qed simp
  then show ?thesis by (simp add: scalarMult_def point_ok_def)
qed simp

section \<open>The base point\<close>

lemma base_squares:
  "curveGx * curveGx = 26187396247976283472853352193639785130011348079443841416178081230925261213881 * curveP + 60300556597753154781239923047219078515410877540607532238537983597388018023497"
  "60300556597753154781239923047219078515410877540607532238537983597388018023497 * curveGx = 28676624904799576878370641386091001092335193693854522746901794248340229297955 * curveP + 32748224938747404814623910738487752935528512903530129802856995983256684603115"
  "curveGy * curveGy = 9217920084583157935602994580951900810186344190718383666107426471107247357458 * curveP + (32748224938747404814623910738487752935528512903530129802856995983256684603115 + 7)"
  by (simp_all add: curveGx_def curveGy_def curveP_def)

lemma gap_of_squares:
  fixes p :: int
  assumes "b = q3 * p + (r2 + 7)" and "a = q1 * p + r1" and "r1 * x = q2 * p + r2"
  shows "p dvd b - (a * x + 7)"
proof -
  have "a * x = q1 * p * x + (q2 * p + r2)" unfolding assms(2) distrib_right assms(3) ..
  then have "b - (a * x + 7) = p * (q3 - q1 * x - q2)" unfolding assms(1) by (simp add: algebra_simps)
  then show ?thesis by simp
qed

lemma base_on_curve: "onCurve curveGx curveGy"
proof -
  have "curveP dvd curve_gap curveGx curveGy"
    unfolding curve_gap_def by (rule gap_of_squares [OF base_squares(3,1,2)])
  then show ?thesis by (simp add: onCurve_iff) (simp add: curveGx_def curveGy_def curveP_def)
qed

section \<open>Keys\<close>

text \<open>Two points with one first coordinate and second coordinates of one parity are the same.\<close>

lemma same_parity:
  assumes "onCurve x y" and "onCurve x y'" and "even y = even y'"
  shows "y = y' \<or> field_factor"
proof -
  have r: "0 \<le> y" "y < curveP" "0 \<le> y'" "y' < curveP" using assms(1,2) by (simp_all add: onCurve_iff)
  have "curveP dvd curve_gap x y - curve_gap x y'" using assms(1,2) by (simp add: onCurve_iff)
  also have "curve_gap x y - curve_gap x y' = (y - y') * (y + y')" unfolding curve_gap_def by (simp add: algebra_simps)
  finally consider "curveP dvd y - y'" | "curveP dvd y + y'" | field_factor using product_zero by blast
  then show ?thesis
  proof cases
    case 1
    then have "y mod curveP = y' mod curveP" by (simp add: mod_eq_dvd_iff)
    then show ?thesis using r by simp
  next
    case 2
    then obtain k where k: "y + y' = curveP * k" by (rule dvdE)
    have "even (curveP * k)" using assms(3) by (simp flip: k)
    then have "even k" using curveP_odd by simp
    moreover have "0 \<le> curveP * k" "curveP * k < curveP * 2" using r unfolding k [symmetric] by linarith+
    then have "0 \<le> k" "k < 2" using curve_bounds(2) by (simp_all add: zero_le_mult_iff mult_less_cancel_left)
    ultimately have "k = 0 \<or> k = 1" "even k" by linarith+
    then have "k = 0" by auto
    then show ?thesis using k r by simp
  qed simp
qed

lemma Public_on_curve: "Public k = Some pub \<Longrightarrow> onCurve (X pub) (Y pub) \<or> field_factor"
  using scalarMult_ok [OF base_on_curve, of "D k"]
  by (auto simp: Public_def scalarBaseMult_def point_ok_def split: option.splits prod.splits)

text \<open>The square root that the parser takes of a square.\<close>

lemma mod_exp_value: "mod_exp b e m = b ^ e mod m"
proof (induction e arbitrary: b rule: less_induct)
  case (less e)
  show ?case
  proof (cases "e = 0")
    case False
    then have "mod_exp (b * b mod m) (e div 2) m = (b * b) ^ (e div 2) mod m" using less [of "e div 2"] by (simp add: power_mod)
    moreover have "(b * b) ^ (e div 2) = b ^ (2 * (e div 2))" by (simp add: power_mult power2_eq_square)
    ultimately have half: "mod_exp (b * b mod m) (e div 2) m = b ^ (2 * (e div 2)) mod m" by simp
    show ?thesis
    proof (cases "even e")
      case True
      then show ?thesis using half False by (simp add: mod_exp.simps [of b e])
    next
      case odd: False
      then have "e = Suc (2 * (e div 2))" by simp
      then have "b * b ^ (2 * (e div 2)) = b ^ e" by (metis power_Suc)
      then show ?thesis using half odd False by (simp add: mod_exp.simps [of b e] mod_mult_right_eq)
    qed
  qed (simp add: mod_exp.simps)
qed

lemma root_exponent: "4 * nat ((curveP + 1) div 4) = Suc (Suc (nat (curveP - 1)))"
  by (simp add: curveP_def)

lemma square_root:
  assumes "\<not> field_factor" and "r mod curveP = (y * y) mod curveP"
  shows "(mod_exp r (nat ((curveP + 1) div 4)) curveP * mod_exp r (nat ((curveP + 1) div 4)) curveP) mod curveP = (y * y) mod curveP"
proof -
  let ?e = "nat ((curveP + 1) div 4)"
  have "mod_exp r ?e curveP = (y * y) ^ ?e mod curveP" unfolding mod_exp_value using assms(2) by (metis power_mod)
  then have "(mod_exp r ?e curveP * mod_exp r ?e curveP) mod curveP = ((y * y) ^ ?e * (y * y) ^ ?e) mod curveP"
    by (simp only: mod_mult_eq)
  also have "(y * y) ^ ?e * (y * y) ^ ?e = y ^ (4 * ?e)"
    by (simp only: power_add [symmetric] power2_eq_square [symmetric] power_mult [symmetric]) (simp add: mult_2 [symmetric])
  also have "\<dots> = y ^ nat (curveP - 1) * (y * y)" unfolding root_exponent by simp
  also have "\<dots> mod curveP = (y * y) mod curveP"
  proof (cases "curveP dvd y")
    case True
    then have "curveP dvd y * y" by (rule dvd_mult)
    then have "curveP dvd y ^ nat (curveP - 1) * (y * y)" by (rule dvd_mult)
    then show ?thesis using \<open>curveP dvd y * y\<close> by (simp only: dvd_eq_mod_eq_0)
  next
    case False
    have "(y ^ nat (curveP - 1) * (y * y)) mod curveP = ((y ^ nat (curveP - 1) mod curveP) * (y * y)) mod curveP"
      by (simp only: mod_mult_left_eq)
    then show ?thesis by (simp only: fermat [OF assms(1) False] mult_1)
  qed
  finally show ?thesis .
qed

text \<open>The encoding of a point of the curve parses to the point.\<close>

lemma encoding_of_point:
  assumes "onCurve (X pub) (Y pub)" and "\<not> field_factor"
  shows "\<exists>b. SerializeCompressed pub = Inr b \<and> length b = 33 \<and> ParseCompressed b = Inr pub"
proof -
  let ?x = "X pub" and ?y = "Y pub"
  obtain bs where bs: "SerializeCompressed pub = Inr ((if even ?y then 2 else 3) # bs)" "length bs = 32" "int_of_bytes bs = ?x"
    using SerializeCompressed_ok onCurve_range [OF assms(1)] by blast
  let ?b = "(if even ?y then 2 else 3) # bs :: byte list"
  define r where "r = (?x * ?x * ?x + 7) mod curveP"
  define y0 where "y0 = mod_exp r (nat ((curveP + 1) div 4)) curveP"
  define y1 where "y1 = (if odd y0 \<noteq> (?b ! 0 = 3) then curveP - y0 else y0)"
  have on: "0 \<le> ?x" "?x < curveP" "0 \<le> ?y" "?y < curveP" "r = (?y * ?y) mod curveP"
    using assms(1) by (auto simp: onCurve_def r_def split: if_splits)
  have sq: "(y0 * y0) mod curveP = r" using square_root [OF assms(2), of r ?y] on(5) by (simp add: y0_def)
  have y0: "0 \<le> y0" "y0 < curveP" using curve_bounds(2) by (simp_all add: y0_def mod_exp_value)
  have odd: "(?b ! 0 = 3) = odd ?y" by simp
  have same: "even y1 = even ?y" using curveP_odd unfolding y1_def odd by auto
  have zero: "?y = 0" if "y0 = 0"
  proof -
    have "curveP dvd ?y * ?y" using sq on(5) that by (simp add: dvd_eq_mod_eq_0)
    then have "curveP dvd ?y" using product_zero assms(2) by blast
    then show ?thesis using on(3,4) by (auto dest: zdvd_imp_le)
  qed
  then have "0 < y0" if "odd y0 \<noteq> odd ?y" using that y0(1) by (cases "y0 = 0") auto
  then have y1: "0 \<le> y1" "y1 < curveP" using y0 unfolding y1_def odd by (auto split: if_splits)
  have "(y1 * y1) mod curveP = (y0 * y0) mod curveP"
  proof -
    have "(curveP - y0) * (curveP - y0) = y0 * y0 + curveP * (curveP - 2 * y0)" by algebra
    then show ?thesis by (simp add: y1_def)
  qed
  then have on1: "onCurve ?x y1" using y1 on(1,2) sq by (simp add: onCurve_def r_def)
  then have "y1 = ?y" using same_parity [OF on1 assms(1) same] assms(2) by blast
  moreover have "ParseCompressed ?b = Inr \<lparr>X = ?x, Y = y1\<rparr>"
  proof -
    have "ParseCompressed ?b =
      (if length ?b \<noteq> 33 \<or> (?b ! 0 \<noteq> 2 \<and> ?b ! 0 \<noteq> 3) then Inl (ErrOther ''crypto: bad compressed public key'')
       else if curveP \<le> ?x then Inl (ErrOther ''crypto: x out of field range'')
       else if (y0 * y0) mod curveP \<noteq> r then Inl (ErrOther ''crypto: point not on curve'')
       else if \<not> onCurve ?x y1 then Inl (ErrOther ''crypto: decompressed point not on curve'')
       else Inr \<lparr>X = ?x, Y = y1\<rparr>)"
      unfolding ParseCompressed_def Let_def y1_def y0_def r_def using bs(3) by simp
    then show ?thesis using bs(2) on(2) sq on1 by simp
  qed
  ultimately show ?thesis using bs(1,2) by (intro exI [of _ ?b]) simp
qed

lemma NewPrivateKey_range: "1 \<le> D (NewPrivateKey seed) \<and> D (NewPrivateKey seed) < curveN"
  using curve_bounds(1) pos_mod_bound [of "curveN - 1" "int_of_bytes seed"] pos_mod_sign [of "curveN - 1" "int_of_bytes seed"]
  by (simp add: NewPrivateKey_def) (simp add: curveN_def)

section \<open>Properties\<close>

text \<open>
  C18. The curve is closed and encodings are unique. A scalar multiple of a point of the curve, and so every
  public key, is at infinity or on the curve; a public key has an encoding of 33 bytes, which parses to
  this key. Conversely a key that parses is on the curve and has the parsed bytes as its encoding. Or the
  theorem exhibits a proper factor of the field prime.
\<close>

theorem public_keys_canonical:
  "(onCurve x y \<and> fst (scalarMult k x y) = Some (x', y') \<longrightarrow> onCurve x' y' \<or> field_factor) \<and>
   (Public key = Some pub \<longrightarrow>
      field_factor \<or>
      onCurve (X pub) (Y pub) \<and>
      (\<exists>b. SerializeCompressed pub = Inr b \<and> length b = 33 \<and> ParseCompressed b = Inr pub)) \<and>
   (ParseCompressed b = Inr pub \<longrightarrow> onCurve (X pub) (Y pub) \<and> SerializeCompressed pub = Inr b)"
proof (intro conjI impI)
  assume "onCurve x y \<and> fst (scalarMult k x y) = Some (x', y')"
  then show "onCurve x' y' \<or> field_factor" using scalarMult_ok [of x y k] by (auto simp: point_ok_def)
next
  assume "Public key = Some pub"
  then have "onCurve (X pub) (Y pub) \<or> field_factor" by (rule Public_on_curve)
  then show "field_factor \<or> onCurve (X pub) (Y pub) \<and> (\<exists>b. SerializeCompressed pub = Inr b \<and> length b = 33 \<and>
      ParseCompressed b = Inr pub)"
    using encoding_of_point [of pub] by blast
qed (use ParseCompressed_ok(4) ParseCompressed_sound in blast)+

text \<open>The key 1 has the base point as its public key.\<close>

theorem public_keys_canonical_witness:
  "field_factor \<or> onCurve curveGx curveGy \<and>
     (\<exists>b. SerializeCompressed \<lparr>X = curveGx, Y = curveGy\<rparr> = Inr b \<and> length b = 33 \<and>
        ParseCompressed b = Inr \<lparr>X = curveGx, Y = curveGy\<rparr>)"
proof -
  have "int_bits 1 = [True]" by (simp add: int_bits_def bit_len.simps)
  then have "Public \<lparr>D = 1\<rparr> = Some \<lparr>X = curveGx, Y = curveGy\<rparr>"
    by (simp add: Public_def scalarBaseMult_def scalarMult_def mult_step_def pointDouble_def pointAdd_def)
  then show ?thesis
    using public_keys_canonical [of 0 0 0 0 0 "\<lparr>D = 1\<rparr>" "\<lparr>X = curveGx, Y = curveGy\<rparr>" "[]"] by auto
qed

end
