(* ===== verification/SumLaw.thy ===== *)
theory SumLaw
  imports Main
begin

text \<open>
  The complete addition formulas of src/crypto/ct.go as polynomials over an integral domain, and their
  associativity on the curve \<open>y^2 = x^3 + 7\<close>: the two ways to add three affine points give proportional
  coordinates. The coordinates of a sum of three points are compared in the form in which every second
  coordinate occurs at most once.
\<close>

section \<open>The formulas\<close>

definition sumX :: "'a::comm_ring_1 \<Rightarrow> 'a \<Rightarrow> 'a \<Rightarrow> 'a \<Rightarrow> 'a \<Rightarrow> 'a \<Rightarrow> 'a" where
  "sumX X1 Y1 Z1 X2 Y2 Z2 =
     (X1 * Y2 + X2 * Y1) * (Y1 * Y2 - 21 * Z1 * Z2) - 21 * (Y1 * Z2 + Y2 * Z1) * (X1 * Z2 + X2 * Z1)"

definition sumY :: "'a::comm_ring_1 \<Rightarrow> 'a \<Rightarrow> 'a \<Rightarrow> 'a \<Rightarrow> 'a \<Rightarrow> 'a \<Rightarrow> 'a" where
  "sumY X1 Y1 Z1 X2 Y2 Z2 =
     (Y1 * Y2 + 21 * Z1 * Z2) * (Y1 * Y2 - 21 * Z1 * Z2) + 63 * X1 * X2 * (X1 * Z2 + X2 * Z1)"

definition sumZ :: "'a::comm_ring_1 \<Rightarrow> 'a \<Rightarrow> 'a \<Rightarrow> 'a \<Rightarrow> 'a \<Rightarrow> 'a \<Rightarrow> 'a" where
  "sumZ X1 Y1 Z1 X2 Y2 Z2 =
     (Y1 * Z2 + Y2 * Z1) * (Y1 * Y2 + 21 * Z1 * Z2) + 3 * X1 * X2 * (X1 * Y2 + X2 * Y1)"

lemma sum_commute:
  fixes X1 Y1 Z1 X2 Y2 Z2 :: "'a::idom"
  shows "sumX X1 Y1 Z1 X2 Y2 Z2 = sumX X2 Y2 Z2 X1 Y1 Z1"
    and "sumY X1 Y1 Z1 X2 Y2 Z2 = sumY X2 Y2 Z2 X1 Y1 Z1"
    and "sumZ X1 Y1 Z1 X2 Y2 Z2 = sumZ X2 Y2 Z2 X1 Y1 Z1"
  unfolding sumX_def sumY_def sumZ_def by algebra+

lemma sum_of_int:
  "of_int (sumX X1 Y1 Z1 X2 Y2 Z2) = sumX (of_int X1) (of_int Y1) (of_int Z1) (of_int X2) (of_int Y2) (of_int Z2)"
  "of_int (sumY X1 Y1 Z1 X2 Y2 Z2) = sumY (of_int X1) (of_int Y1) (of_int Z1) (of_int X2) (of_int Y2) (of_int Z2)"
  "of_int (sumZ X1 Y1 Z1 X2 Y2 Z2) = sumZ (of_int X1) (of_int Y1) (of_int Z1) (of_int X2) (of_int Y2) (of_int Z2)"
  by (simp_all add: sumX_def sumY_def sumZ_def)

section \<open>Two points\<close>

definition twoX :: "'a::comm_ring_1 \<Rightarrow> 'a \<Rightarrow> 'a \<Rightarrow> 'a \<Rightarrow> 'a" where
  "twoX x1 y1 x2 y2 =
     x1^3 * x2 * y2 + x1 * y1 * x2^3 - 14 * x1 * y1 - 42 * x1 * y2 - 42 * y1 * x2 - 14 * x2 * y2"

definition twoY :: "'a::comm_ring_1 \<Rightarrow> 'a \<Rightarrow> 'a \<Rightarrow> 'a \<Rightarrow> 'a" where
  "twoY x1 y1 x2 y2 =
     x1^3 * x2^3 + 7 * x1^3 + 63 * x1^2 * x2 + 63 * x1 * x2^2 + 7 * x2^3 - 392"

definition twoZ :: "'a::comm_ring_1 \<Rightarrow> 'a \<Rightarrow> 'a \<Rightarrow> 'a \<Rightarrow> 'a" where
  "twoZ x1 y1 x2 y2 =
     x1^3 * y2 + 3 * x1^2 * x2 * y2 + 3 * x1 * y1 * x2^2 + y1 * x2^3 + 28 * y1 + 28 * y2"

lemma sum_two:
  fixes x1 y1 x2 y2 :: "'a::idom"
  assumes "y1 ^ 2 = x1 ^ 3 + 7" and "y2 ^ 2 = x2 ^ 3 + 7"
  shows "sumX x1 y1 1 x2 y2 1 = twoX x1 y1 x2 y2"
    and "sumY x1 y1 1 x2 y2 1 = twoY x1 y1 x2 y2"
    and "sumZ x1 y1 1 x2 y2 1 = twoZ x1 y1 x2 y2"
  using assms unfolding sumX_def sumY_def sumZ_def twoX_def twoY_def twoZ_def by algebra+

section \<open>Three points\<close>

definition threeX :: "'a::comm_ring_1 \<Rightarrow> 'a \<Rightarrow> 'a \<Rightarrow> 'a \<Rightarrow> 'a \<Rightarrow> 'a \<Rightarrow> 'a" where
  "threeX x1 y1 x2 y2 x3 y3 =
     x1^6 * x2^6 * x3 * y3 + x1^6 * x2^4 * y2 * x3^3 - 14 * x1^6 * x2^4 * y2 - 42 * x1^6 * x2^4 * y3 - 42 * x1^6
     * x2^3 * y2 * x3 - 7 * x1^6 * x2^3 * x3 * y3 + 7 * x1^6 * x2 * y2 * x3^3 - 98 * x1^6 * x2 * y2 - 294 * x1^6
     * x2 * y3 - 294 * x1^6 * y2 * x3 - 98 * x1^6 * x3 * y3 - 252 * x1^5 * x2^5 * y3 - 126 * x1^5 * x2^4 * y2 *
     x3 - 189 * x1^5 * x2^4 * x3 * y3 + 63 * x1^5 * x2^2 * y2 * x3^3 - 882 * x1^5 * x2^2 * y2 + 882 * x1^5 *
     x2^2 * y3 - 3528 * x1^5 * x2 * y2 * x3 + x1^4 * y1 * x2^6 * x3^3 - 14 * x1^4 * y1 * x2^6 - 126 * x1^4 * y1
     * x2^5 * x3 - 168 * x1^4 * y1 * x2^3 * y2 * y3 - 7 * x1^4 * y1 * x2^3 * x3^3 + 98 * x1^4 * y1 * x2^3 - 126
     * x1^4 * y1 * x2^2 * y2 * x3 * y3 - 882 * x1^4 * y1 * x2^2 * x3 + 588 * x1^4 * y1 * y2 * y3 - 98 * x1^4 *
     y1 * x3^3 + 1372 * x1^4 * y1 - 42 * x1^4 * x2^6 * y3 - 189 * x1^4 * x2^5 * x3 * y3 + 21 * x1^4 * x2^3 * y2
     * x3^3 - 294 * x1^4 * x2^3 * y2 + 6468 * x1^4 * x2^3 * y3 - 10584 * x1^4 * x2^2 * y2 * x3 - 294 * x1^4 * y2
     * x3^3 + 4116 * x1^4 * y2 + 28812 * x1^4 * y3 - 42 * x1^3 * y1 * x2^6 * x3 - 168 * x1^3 * y1 * x2^4 * y2 *
     y3 + 21 * x1^3 * y1 * x2^4 * x3^3 - 294 * x1^3 * y1 * x2^4 - 420 * x1^3 * y1 * x2^3 * y2 * x3 * y3 - 9408 *
     x1^3 * y1 * x2^3 * x3 + 2352 * x1^3 * y1 * x2 * y2 * y3 - 1176 * x1^3 * y1 * x2 * x3^3 + 16464 * x1^3 * y1
     * x2 - 1176 * x1^3 * y1 * y2 * x3 * y3 - 8232 * x1^3 * y1 * x3 - 7 * x1^3 * x2^6 * x3 * y3 - 7 * x1^3 *
     x2^4 * y2 * x3^3 + 98 * x1^3 * x2^4 * y2 + 6468 * x1^3 * x2^4 * y3 - 9408 * x1^3 * x2^3 * y2 * x3 + 4900 *
     x1^3 * x2^3 * x3 * y3 - 3136 * x1^3 * x2 * y2 * x3^3 + 43904 * x1^3 * x2 * y2 + 82320 * x1^3 * x2 * y3 +
     8232 * x1^3 * y2 * x3 - 30184 * x1^3 * x3 * y3 + 63 * x1^2 * y1 * x2^5 * x3^3 - 882 * x1^2 * y1 * x2^5 -
     126 * x1^2 * y1 * x2^4 * y2 * x3 * y3 - 10584 * x1^2 * y1 * x2^4 * x3 + 10584 * x1^2 * y1 * x2^2 * y2 * y3
     - 3528 * x1^2 * y1 * x2^2 * x3^3 + 49392 * x1^2 * y1 * x2^2 - 3528 * x1^2 * y1 * x2 * y2 * x3 * y3 - 74088
     * x1^2 * y1 * x2 * x3 + 882 * x1^2 * x2^5 * y3 - 882 * x1^2 * x2^4 * y2 * x3 - 3528 * x1^2 * x2^2 * y2 *
     x3^3 + 49392 * x1^2 * x2^2 * y2 + 24696 * x1^2 * x2^2 * y3 - 24696 * x1^2 * x2 * y2 * x3 - 74088 * x1^2 *
     x2 * x3 * y3 + 7 * x1 * y1 * x2^6 * x3^3 - 98 * x1 * y1 * x2^6 - 3528 * x1 * y1 * x2^5 * x3 + 2352 * x1 *
     y1 * x2^3 * y2 * y3 - 3136 * x1 * y1 * x2^3 * x3^3 + 43904 * x1 * y1 * x2^3 - 3528 * x1 * y1 * x2^2 * y2 *
     x3 * y3 - 24696 * x1 * y1 * x2^2 * x3 + 65856 * x1 * y1 * y2 * y3 + 5488 * x1 * y1 * x3^3 - 76832 * x1 * y1
     - 294 * x1 * x2^6 * y3 - 1176 * x1 * x2^3 * y2 * x3^3 + 16464 * x1 * x2^3 * y2 + 82320 * x1 * x2^3 * y3 -
     74088 * x1 * x2^2 * y2 * x3 - 74088 * x1 * x2^2 * x3 * y3 + 16464 * x1 * y2 * x3^3 - 230496 * x1 * y2 +
     460992 * x1 * y3 - 294 * y1 * x2^6 * x3 + 588 * y1 * x2^4 * y2 * y3 - 294 * y1 * x2^4 * x3^3 + 4116 * y1 *
     x2^4 - 1176 * y1 * x2^3 * y2 * x3 * y3 + 8232 * y1 * x2^3 * x3 + 65856 * y1 * x2 * y2 * y3 + 16464 * y1 *
     x2 * x3^3 - 230496 * y1 * x2 - 32928 * y1 * y2 * x3 * y3 + 460992 * y1 * x3 - 98 * x2^6 * x3 * y3 - 98 *
     x2^4 * y2 * x3^3 + 1372 * x2^4 * y2 + 28812 * x2^4 * y3 - 8232 * x2^3 * y2 * x3 - 30184 * x2^3 * x3 * y3 +
     5488 * x2 * y2 * x3^3 - 76832 * x2 * y2 + 460992 * x2 * y3 + 460992 * y2 * x3 - 76832 * x3 * y3"

definition threeY :: "'a::comm_ring_1 \<Rightarrow> 'a \<Rightarrow> 'a \<Rightarrow> 'a \<Rightarrow> 'a \<Rightarrow> 'a \<Rightarrow> 'a" where
  "threeY x1 y1 x2 y2 x3 y3 =
     x1^6 * x2^6 * x3^3 + 7 * x1^6 * x2^6 + 63 * x1^6 * x2^5 * x3 + 63 * x1^6 * x2^4 * x3^2 + 14 * x1^6 * x2^3 *
     x3^3 - 343 * x1^6 * x2^3 + 441 * x1^6 * x2^2 * x3 + 441 * x1^6 * x2 * x3^2 + 49 * x1^6 * x3^3 - 2744 * x1^6
     + 63 * x1^5 * x2^6 * x3 + 378 * x1^5 * x2^5 * x3^2 + 126 * x1^5 * x2^4 * x3^3 - 5733 * x1^5 * x2^4 - 1764 *
     x1^5 * x2^3 * x3 - 1323 * x1^5 * x2^2 * x3^2 + 882 * x1^5 * x2 * x3^3 - 12348 * x1^5 * x2 + 12348 * x1^5 *
     x3 + 126 * x1^4 * y1 * x2^4 * y2 * x3 + 252 * x1^4 * y1 * x2^3 * y2 * x3^2 - 2646 * x1^4 * y1 * x2^2 * y2 -
     1764 * x1^4 * y1 * x2 * y2 * x3 - 882 * x1^4 * y1 * y2 * x3^2 + 63 * x1^4 * x2^6 * x3^2 + 126 * x1^4 * x2^5
     * x3^3 - 5733 * x1^4 * x2^5 - 10584 * x1^4 * x2^4 * x3 - 9702 * x1^4 * x2^3 * x3^2 + 4851 * x1^4 * x2^2 *
     x3^3 - 67914 * x1^4 * x2^2 + 37044 * x1^4 * x2 * x3 - 43218 * x1^4 * x3^2 + 252 * x1^3 * y1 * x2^4 * y2 *
     x3^2 - 8820 * x1^3 * y1 * x2^3 * y2 - 5292 * x1^3 * y1 * x2^2 * y2 * x3 - 3528 * x1^3 * y1 * x2 * y2 * x3^2
     - 24696 * x1^3 * y1 * y2 + 14 * x1^3 * x2^6 * x3^3 - 343 * x1^3 * x2^6 - 1764 * x1^3 * x2^5 * x3 - 9702 *
     x1^3 * x2^4 * x3^2 + 7252 * x1^3 * x2^3 * x3^3 + 1372 * x1^3 * x2^3 + 98784 * x1^3 * x2^2 * x3 - 123480 *
     x1^3 * x2 * x3^2 - 5488 * x1^3 * x3^3 - 557032 * x1^3 - 2646 * x1^2 * y1 * x2^4 * y2 - 5292 * x1^2 * y1 *
     x2^3 * y2 * x3 - 15876 * x1^2 * y1 * x2^2 * y2 * x3^2 - 74088 * x1^2 * y1 * x2 * y2 + 74088 * x1^2 * y1 *
     y2 * x3 + 441 * x1^2 * x2^6 * x3 - 1323 * x1^2 * x2^5 * x3^2 + 4851 * x1^2 * x2^4 * x3^3 - 67914 * x1^2 *
     x2^4 + 98784 * x1^2 * x2^3 * x3 - 37044 * x1^2 * x2^2 * x3^2 - 49392 * x1^2 * x2 * x3^3 - 864360 * x1^2 *
     x2 + 864360 * x1^2 * x3 - 1764 * x1 * y1 * x2^4 * y2 * x3 - 3528 * x1 * y1 * x2^3 * y2 * x3^2 - 74088 * x1
     * y1 * x2^2 * y2 + 246960 * x1 * y1 * x2 * y2 * x3 - 98784 * x1 * y1 * y2 * x3^2 + 441 * x1 * x2^6 * x3^2 +
     882 * x1 * x2^5 * x3^3 - 12348 * x1 * x2^5 + 37044 * x1 * x2^4 * x3 - 123480 * x1 * x2^3 * x3^2 - 49392 *
     x1 * x2^2 * x3^3 - 864360 * x1 * x2^2 + 1037232 * x1 * x2 * x3 - 691488 * x1 * x3^2 - 882 * y1 * x2^4 * y2
     * x3^2 - 24696 * y1 * x2^3 * y2 + 74088 * y1 * x2^2 * y2 * x3 - 98784 * y1 * x2 * y2 * x3^2 - 691488 * y1 *
     y2 + 49 * x2^6 * x3^3 - 2744 * x2^6 + 12348 * x2^5 * x3 - 43218 * x2^4 * x3^2 - 5488 * x2^3 * x3^3 - 557032
     * x2^3 + 864360 * x2^2 * x3 - 691488 * x2 * x3^2 + 153664 * x3^3 - 3764768"

definition threeZ :: "'a::comm_ring_1 \<Rightarrow> 'a \<Rightarrow> 'a \<Rightarrow> 'a \<Rightarrow> 'a \<Rightarrow> 'a \<Rightarrow> 'a" where
  "threeZ x1 y1 x2 y2 x3 y3 =
     x1^6 * x2^6 * y3 + 3 * x1^6 * x2^5 * x3 * y3 + 3 * x1^6 * x2^4 * y2 * x3^2 + x1^6 * x2^3 * y2 * x3^3 + 28 *
     x1^6 * x2^3 * y2 + 35 * x1^6 * x2^3 * y3 + 21 * x1^6 * x2^2 * x3 * y3 + 21 * x1^6 * x2 * y2 * x3^2 + 7 *
     x1^6 * y2 * x3^3 + 196 * x1^6 * y2 + 196 * x1^6 * y3 + 3 * x1^5 * x2^6 * x3 * y3 + 3 * x1^5 * x2^4 * y2 *
     x3^3 + 84 * x1^5 * x2^4 * y2 + 441 * x1^5 * x2^4 * y3 - 84 * x1^5 * x2^3 * x3 * y3 + 189 * x1^5 * x2^2 * y2
     * x3^2 + 84 * x1^5 * x2 * y2 * x3^3 + 2352 * x1^5 * x2 * y2 + 1764 * x1^5 * x2 * y3 + 588 * x1^5 * x3 * y3
     + 3 * x1^4 * y1 * x2^6 * x3^2 + 3 * x1^4 * y1 * x2^5 * x3^3 + 84 * x1^4 * y1 * x2^5 + 6 * x1^4 * y1 * x2^4
     * y2 * x3 * y3 - 21 * x1^4 * y1 * x2^3 * x3^2 + 126 * x1^4 * y1 * x2^2 * y2 * y3 + 21 * x1^4 * y1 * x2^2 *
     x3^3 + 588 * x1^4 * y1 * x2^2 - 84 * x1^4 * y1 * x2 * y2 * x3 * y3 - 294 * x1^4 * y1 * x3^2 + 441 * x1^4 *
     x2^5 * y3 - 504 * x1^4 * x2^4 * x3 * y3 + 63 * x1^4 * x2^3 * y2 * x3^2 + 252 * x1^4 * x2^2 * y2 * x3^3 +
     7056 * x1^4 * x2^2 * y2 + 9702 * x1^4 * x2^2 * y3 + 1764 * x1^4 * x2 * x3 * y3 - 882 * x1^4 * y2 * x3^2 +
     x1^3 * y1 * x2^6 * x3^3 + 28 * x1^3 * y1 * x2^6 + 63 * x1^3 * y1 * x2^4 * x3^2 + 420 * x1^3 * y1 * x2^3 *
     y2 * y3 + 224 * x1^3 * y1 * x2^3 * x3^3 + 6272 * x1^3 * y1 * x2^3 - 252 * x1^3 * y1 * x2^2 * y2 * x3 * y3 -
     3528 * x1^3 * y1 * x2 * x3^2 + 1176 * x1^3 * y1 * y2 * y3 + 196 * x1^3 * y1 * x3^3 + 5488 * x1^3 * y1 + 35
     * x1^3 * x2^6 * y3 - 84 * x1^3 * x2^5 * x3 * y3 - 21 * x1^3 * x2^4 * y2 * x3^2 + 224 * x1^3 * x2^3 * y2 *
     x3^3 + 6272 * x1^3 * x2^3 * y2 + 9604 * x1^3 * x2^3 * y3 + 4704 * x1^3 * x2^2 * x3 * y3 - 9408 * x1^3 * x2
     * y2 * x3^2 - 196 * x1^3 * y2 * x3^3 - 5488 * x1^3 * y2 + 19208 * x1^3 * y3 + 189 * x1^2 * y1 * x2^5 * x3^2
     + 126 * x1^2 * y1 * x2^4 * y2 * y3 + 252 * x1^2 * y1 * x2^4 * x3^3 + 7056 * x1^2 * y1 * x2^4 - 252 * x1^2 *
     y1 * x2^3 * y2 * x3 * y3 - 10584 * x1^2 * y1 * x2^2 * x3^2 + 3528 * x1^2 * y1 * x2 * y2 * y3 + 1764 * x1^2
     * y1 * x2 * x3^3 + 49392 * x1^2 * y1 * x2 + 3528 * x1^2 * y1 * y2 * x3 * y3 + 21 * x1^2 * x2^6 * x3 * y3 +
     21 * x1^2 * x2^4 * y2 * x3^3 + 588 * x1^2 * x2^4 * y2 + 9702 * x1^2 * x2^4 * y3 + 4704 * x1^2 * x2^3 * x3 *
     y3 - 10584 * x1^2 * x2^2 * y2 * x3^2 + 588 * x1^2 * x2 * y2 * x3^3 + 16464 * x1^2 * x2 * y2 - 24696 * x1^2
     * x2 * y3 + 41160 * x1^2 * x3 * y3 + 21 * x1 * y1 * x2^6 * x3^2 + 84 * x1 * y1 * x2^5 * x3^3 + 2352 * x1 *
     y1 * x2^5 - 84 * x1 * y1 * x2^4 * y2 * x3 * y3 - 9408 * x1 * y1 * x2^3 * x3^2 + 3528 * x1 * y1 * x2^2 * y2
     * y3 + 588 * x1 * y1 * x2^2 * x3^3 + 16464 * x1 * y1 * x2^2 + 11760 * x1 * y1 * x2 * y2 * x3 * y3 + 16464 *
     x1 * y1 * x3^2 + 1764 * x1 * x2^5 * y3 + 1764 * x1 * x2^4 * x3 * y3 - 3528 * x1 * x2^3 * y2 * x3^2 + 1764 *
     x1 * x2^2 * y2 * x3^3 + 49392 * x1 * x2^2 * y2 - 24696 * x1 * x2^2 * y3 + 49392 * x1 * x2 * x3 * y3 + 49392
     * x1 * y2 * x3^2 + 7 * y1 * x2^6 * x3^3 + 196 * y1 * x2^6 - 882 * y1 * x2^4 * x3^2 + 1176 * y1 * x2^3 * y2
     * y3 - 196 * y1 * x2^3 * x3^3 - 5488 * y1 * x2^3 + 3528 * y1 * x2^2 * y2 * x3 * y3 + 49392 * y1 * x2 * x3^2
     + 32928 * y1 * y2 * y3 - 10976 * y1 * x3^3 - 307328 * y1 + 196 * x2^6 * y3 + 588 * x2^5 * x3 * y3 - 294 *
     x2^4 * y2 * x3^2 + 196 * x2^3 * y2 * x3^3 + 5488 * x2^3 * y2 + 19208 * x2^3 * y3 + 41160 * x2^2 * x3 * y3 +
     16464 * x2 * y2 * x3^2 - 10976 * y2 * x3^3 - 307328 * y2 + 384160 * y3"

lemma sum_threeX:
  fixes x1 y1 x2 y2 x3 y3 :: "'a::idom"
  assumes "y1 ^ 2 = x1 ^ 3 + 7" and "y2 ^ 2 = x2 ^ 3 + 7" and "y3 ^ 2 = x3 ^ 3 + 7"
  shows "sumX (twoX x1 y1 x2 y2) (twoY x1 y1 x2 y2) (twoZ x1 y1 x2 y2) x3 y3 1 = threeX x1 y1 x2 y2 x3 y3"
  using assms unfolding sumX_def threeX_def twoX_def twoY_def twoZ_def by algebra

lemma sum_threeY:
  fixes x1 y1 x2 y2 x3 y3 :: "'a::idom"
  assumes "y1 ^ 2 = x1 ^ 3 + 7" and "y2 ^ 2 = x2 ^ 3 + 7" and "y3 ^ 2 = x3 ^ 3 + 7"
  shows "sumY (twoX x1 y1 x2 y2) (twoY x1 y1 x2 y2) (twoZ x1 y1 x2 y2) x3 y3 1 = threeY x1 y1 x2 y2 x3 y3"
  using assms unfolding sumY_def threeY_def twoX_def twoY_def twoZ_def by algebra

lemma sum_threeZ:
  fixes x1 y1 x2 y2 x3 y3 :: "'a::idom"
  assumes "y1 ^ 2 = x1 ^ 3 + 7" and "y2 ^ 2 = x2 ^ 3 + 7" and "y3 ^ 2 = x3 ^ 3 + 7"
  shows "sumZ (twoX x1 y1 x2 y2) (twoY x1 y1 x2 y2) (twoZ x1 y1 x2 y2) x3 y3 1 = threeZ x1 y1 x2 y2 x3 y3"
  using assms unfolding sumZ_def threeZ_def twoX_def twoY_def twoZ_def by algebra

text \<open>The order of the three points does not matter, up to a factor.\<close>

lemma three_crossX:
  fixes x1 y1 x2 y2 x3 y3 :: "'a::idom"
  assumes "y1 ^ 2 = x1 ^ 3 + 7" and "y2 ^ 2 = x2 ^ 3 + 7" and "y3 ^ 2 = x3 ^ 3 + 7"
  shows "threeX x1 y1 x2 y2 x3 y3 * threeZ x3 y3 x2 y2 x1 y1 = threeX x3 y3 x2 y2 x1 y1 * threeZ x1 y1 x2 y2 x3 y3"
  using assms unfolding threeX_def threeZ_def by algebra

lemma three_crossY:
  fixes x1 y1 x2 y2 x3 y3 :: "'a::idom"
  assumes "y1 ^ 2 = x1 ^ 3 + 7" and "y2 ^ 2 = x2 ^ 3 + 7" and "y3 ^ 2 = x3 ^ 3 + 7"
  shows "threeY x1 y1 x2 y2 x3 y3 * threeZ x3 y3 x2 y2 x1 y1 = threeY x3 y3 x2 y2 x1 y1 * threeZ x1 y1 x2 y2 x3 y3"
  using assms unfolding threeY_def threeZ_def by algebra

text \<open>The two ways to add three points.\<close>

lemma sum_assoc:
  fixes x1 y1 x2 y2 x3 y3 :: "'a::idom"
  assumes "y1 ^ 2 = x1 ^ 3 + 7" and "y2 ^ 2 = x2 ^ 3 + 7" and "y3 ^ 2 = x3 ^ 3 + 7"
  defines "X12 \<equiv> sumX x1 y1 1 x2 y2 1" and "Y12 \<equiv> sumY x1 y1 1 x2 y2 1" and "Z12 \<equiv> sumZ x1 y1 1 x2 y2 1"
    and "X23 \<equiv> sumX x2 y2 1 x3 y3 1" and "Y23 \<equiv> sumY x2 y2 1 x3 y3 1" and "Z23 \<equiv> sumZ x2 y2 1 x3 y3 1"
  shows "sumX X12 Y12 Z12 x3 y3 1 * sumZ x1 y1 1 X23 Y23 Z23 = sumX x1 y1 1 X23 Y23 Z23 * sumZ X12 Y12 Z12 x3 y3 1"
    and "sumY X12 Y12 Z12 x3 y3 1 * sumZ x1 y1 1 X23 Y23 Z23 = sumY x1 y1 1 X23 Y23 Z23 * sumZ X12 Y12 Z12 x3 y3 1"
proof -
  have left: "sumX X12 Y12 Z12 x3 y3 1 = threeX x1 y1 x2 y2 x3 y3" "sumY X12 Y12 Z12 x3 y3 1 = threeY x1 y1 x2 y2 x3 y3"
    "sumZ X12 Y12 Z12 x3 y3 1 = threeZ x1 y1 x2 y2 x3 y3"
    unfolding X12_def Y12_def Z12_def sum_two [OF assms(1,2)]
    by (rule sum_threeX [OF assms(1-3)] sum_threeY [OF assms(1-3)] sum_threeZ [OF assms(1-3)])+
  have swap: "X23 = sumX x3 y3 1 x2 y2 1" "Y23 = sumY x3 y3 1 x2 y2 1" "Z23 = sumZ x3 y3 1 x2 y2 1"
    unfolding X23_def Y23_def Z23_def by (rule sum_commute)+
  have right: "sumX x1 y1 1 X23 Y23 Z23 = threeX x3 y3 x2 y2 x1 y1" "sumY x1 y1 1 X23 Y23 Z23 = threeY x3 y3 x2 y2 x1 y1"
    "sumZ x1 y1 1 X23 Y23 Z23 = threeZ x3 y3 x2 y2 x1 y1"
    unfolding sum_commute [of x1 y1 1 X23 Y23 Z23] unfolding swap sum_two [OF assms(3,2)]
    by (rule sum_threeX [OF assms(3,2,1)] sum_threeY [OF assms(3,2,1)] sum_threeZ [OF assms(3,2,1)])+
  show "sumX X12 Y12 Z12 x3 y3 1 * sumZ x1 y1 1 X23 Y23 Z23 = sumX x1 y1 1 X23 Y23 Z23 * sumZ X12 Y12 Z12 x3 y3 1"
    unfolding left right by (rule three_crossX [OF assms(1-3)])
  show "sumY X12 Y12 Z12 x3 y3 1 * sumZ x1 y1 1 X23 Y23 Z23 = sumY x1 y1 1 X23 Y23 Z23 * sumZ X12 Y12 Z12 x3 y3 1"
    unfolding left right by (rule three_crossY [OF assms(1-3)])
qed

end
