(* ===== verification/Ladder.thy ===== *)
theory Ladder
  imports Curve SumLaw
begin

text \<open>
  The two arithmetics of package \<open>crypto\<close> agree: the constant-time ladder over projective points
  (src/crypto/ct.go) computes what double-and-add over affine points (src/crypto/secp256k1.go) computes.

  A projective point represents an affine one; the complete formulas take representations to a
  representation of the sum that \<open>pointAdd\<close> makes. This needs that the field prime is prime and that no point
  of the curve has the second coordinate 0. Neither is proved: the lemmas exhibit the exception, \<open>curve_defect\<close>.
\<close>

section \<open>Zero modulo the prime\<close>

definition curve_defect :: bool where
  "curve_defect \<longleftrightarrow> field_factor \<or> (\<exists>x. onCurve x 0)"

abbreviation zp :: "int \<Rightarrow> bool" where
  "zp a \<equiv> curveP dvd a"

lemma zp_mult: "\<not> field_factor \<Longrightarrow> zp (a * b) \<longleftrightarrow> zp a \<or> zp b"
  using product_zero by (auto intro: dvd_mult dvd_mult2)

lemma zp_power: "\<not> field_factor \<Longrightarrow> zp (a ^ n) \<Longrightarrow> zp a"
proof (induction n)
  case 0
  then show ?case using curve_bounds(2) by simp
qed (auto simp: zp_mult)

lemma zp_mod: "zp (a mod curveP - a)"
  by (simp flip: mod_eq_dvd_iff)

lemma zp_diff: "zp (a - b) \<Longrightarrow> zp a \<longleftrightarrow> zp b"
  using dvd_diff_commute dvd_add [of curveP "a - b" b] dvd_diff [of curveP a "a - b"] by auto

lemma zp_small: "0 \<le> a \<Longrightarrow> a < curveP \<Longrightarrow> zp a \<longleftrightarrow> a = 0"
  by (auto dest: zdvd_not_zless [of a curveP, rotated])

lemma zp_small_numeral: "\<not> zp 2" "\<not> zp 8"
  using zp_small [of 2] zp_small [of 8] by (simp_all add: curveP_def)

section \<open>Chords and tangents of the code\<close>

lemma slope_of:
  assumes "\<not> zp u" and "\<not> field_factor"
  shows "zp (u * ((num * mod_inverse_in_place u curveP) mod curveP) - num)"
  using inverse_or_factor [of u] assms slope [of u _ num] by (simp add: dvd_eq_mod_eq_0)

lemma line_scaled:
  fixes x1 y1 x2 u l m x3 y3 :: int
  assumes "zp (u * l - m)" and "zp (x3 - (l * l - x1 - x2))" and "zp (y3 - ((x1 - (l * l - x1 - x2)) * l - y1))"
  shows "zp (u ^ 2 * x3 - (m ^ 2 - (x1 + x2) * u ^ 2))"
    and "zp (u ^ 3 * y3 - ((2 * x1 + x2) * u ^ 2 * m - m ^ 3 - y1 * u ^ 3))"
proof -
  have "u ^ 2 * x3 - (m ^ 2 - (x1 + x2) * u ^ 2) = u ^ 2 * (x3 - (l * l - x1 - x2)) + (u * l + m) * (u * l - m)"
    by algebra
  then show "zp (u ^ 2 * x3 - (m ^ 2 - (x1 + x2) * u ^ 2))" using assms by (simp only:) (intro dvd_add dvd_mult)
  have "u ^ 3 * y3 - ((2 * x1 + x2) * u ^ 2 * m - m ^ 3 - y1 * u ^ 3)
      = u ^ 3 * (y3 - ((x1 - (l * l - x1 - x2)) * l - y1)) +
        ((2 * x1 + x2) * u ^ 2 - (u * l) ^ 2 - u * l * m - m ^ 2) * (u * l - m)"
    by algebra
  then show "zp (u ^ 3 * y3 - ((2 * x1 + x2) * u ^ 2 * m - m ^ 3 - y1 * u ^ 3))"
    using assms by (simp only:) (intro dvd_add dvd_mult)
qed

lemma zp_reduced: "zp ((x1 - x mod curveP) * l - y1 - ((x1 - x) * l - y1))"
proof -
  have "(x1 - x mod curveP) * l - y1 - ((x1 - x) * l - y1) = (- l) * (x mod curveP - x)" by algebra
  then show ?thesis using zp_mod by (simp only:) (intro dvd_mult)
qed

lemma zp_reduced2: "zp (((x1 - x mod curveP) * l - y1) mod curveP - ((x1 - x) * l - y1))"
proof -
  have "((x1 - x mod curveP) * l - y1) mod curveP - ((x1 - x) * l - y1) =
      (((x1 - x mod curveP) * l - y1) mod curveP - ((x1 - x mod curveP) * l - y1)) +
      ((x1 - x mod curveP) * l - y1 - ((x1 - x) * l - y1))" by simp
  then show ?thesis using zp_mod zp_reduced by (simp only:) (intro dvd_add)
qed

lemma pointAdd_chord:
  assumes "onCurve x1 y1" and "onCurve x2 y2" and "x1 \<noteq> x2" and "\<not> field_factor"
  obtains x3 y3 where "pointAdd (Some (x1, y1)) (Some (x2, y2)) = Some (x3, y3)" and "onCurve x3 y3"
    and "zp ((x2 - x1) ^ 2 * x3 - ((y2 - y1) ^ 2 - (x1 + x2) * (x2 - x1) ^ 2))"
    and "zp ((x2 - x1) ^ 3 * y3 - ((2 * x1 + x2) * (x2 - x1) ^ 2 * (y2 - y1) - (y2 - y1) ^ 3 - y1 * (x2 - x1) ^ 3))"
proof -
  have "\<not> zp (x2 - x1)"
  proof
    assume "zp (x2 - x1)"
    then have "x2 mod curveP = x1 mod curveP" by (simp add: mod_eq_dvd_iff)
    then show False using assms(1-3) by (simp add: onCurve_iff)
  qed
  define l where "l = ((y2 - y1) * mod_inverse_in_place (x2 - x1) curveP) mod curveP"
  have l: "zp ((x2 - x1) * l - (y2 - y1))" unfolding l_def by (rule slope_of) fact+
  define x3 where "x3 = (l * l - x1 - x2) mod curveP"
  define y3 where "y3 = ((x1 - x3) * l - y1) mod curveP"
  have out: "pointAdd (Some (x1, y1)) (Some (x2, y2)) = Some (x3, y3)"
    using assms(3) by (simp add: pointAdd_def Let_def l_def x3_def y3_def)
  have on: "onCurve x3 y3" using pointAdd_ok [of "Some (x1, y1)" "Some (x2, y2)"] assms out by (simp add: point_ok_def)
  have "zp (x3 - (l * l - x1 - x2))" unfolding x3_def by (rule zp_mod)
  moreover have "zp (y3 - ((x1 - (l * l - x1 - x2)) * l - y1))" unfolding y3_def x3_def by (rule zp_reduced2)
  ultimately show thesis using that [OF out on] line_scaled [OF l] by blast
qed

lemma pointDouble_tangent:
  assumes "onCurve x y" and "y \<noteq> 0" and "\<not> field_factor"
  obtains x3 y3 where "pointDouble (Some (x, y)) = Some (x3, y3)" and "onCurve x3 y3"
    and "zp ((2 * y) ^ 2 * x3 - ((x * x * 3) ^ 2 - (x + x) * (2 * y) ^ 2))"
    and "zp ((2 * y) ^ 3 * y3 - ((2 * x + x) * (2 * y) ^ 2 * (x * x * 3) - (x * x * 3) ^ 3 - y * (2 * y) ^ 3))"
proof -
  have "0 \<le> y" "y < curveP" using assms(1) by (simp_all add: onCurve_iff)
  then have "\<not> zp y" using zp_small assms(2) by blast
  then have u: "\<not> zp (2 * y)" using zp_mult [OF assms(3)] zp_small_numeral by blast
  define l where "l = (x * x * 3 * mod_inverse_in_place (2 * y) curveP) mod curveP"
  have l: "zp (2 * y * l - x * x * 3)" unfolding l_def by (rule slope_of [OF u assms(3)])
  define x3 where "x3 = (l * l - 2 * x) mod curveP"
  define y3 where "y3 = ((x - x3) * l - y) mod curveP"
  have out: "pointDouble (Some (x, y)) = Some (x3, y3)"
    using assms(2) by (simp add: pointDouble_def Let_def l_def x3_def y3_def)
  have on: "onCurve x3 y3" using pointDouble_ok [of "Some (x, y)"] assms out by (simp add: point_ok_def)
  have two: "l * l - 2 * x = l * l - x - x" by simp
  have "zp (x3 - (l * l - x - x))" unfolding x3_def two by (rule zp_mod)
  moreover have "zp (y3 - ((x - (l * l - x - x)) * l - y))" unfolding y3_def x3_def two by (rule zp_reduced2)
  ultimately show thesis using that [OF out on] line_scaled [OF l] by blast
qed

section \<open>The complete formulas at affine points\<close>

text \<open>Two points with different first coordinates.\<close>

lemma chord_certificates:
  fixes x1 y1 x2 y2 :: int
  defines "u \<equiv> x2 - x1" and "m \<equiv> y2 - y1"
  shows "u ^ 2 * sumX x1 y1 1 x2 y2 1 - (m ^ 2 - (x1 + x2) * u ^ 2) * sumZ x1 y1 1 x2 y2 1 =
      (- 3 * x1^2 * x2 * y2 - 3 * x1 * y1 * x2^2 + 3 * x1 * x2^2 * y2 - y1^2 * y2 + y1 * y2^2 - 21 * y1 + 2 *
       x2^3 * y2 + y2^3 + 14 * y2) * curve_gap x1 y1 +
      (3 * x1^3 * y1 + x1^3 * y2 + 3 * x1^2 * y1 * x2 - 3 * x1^2 * x2 * y2 - 3 * x1 * y1 * x2^2 - y1 * y2^2 + 21
       * y1 - 14 * y2) * curve_gap x2 y2"
    and "u ^ 3 * sumY x1 y1 1 x2 y2 1 - ((2 * x1 + x2) * u ^ 2 * m - m ^ 3 - y1 * u ^ 3) * sumZ x1 y1 1 x2 y2 1 =
      (- 3 * x1^2 * y1 * x2 * y2 - 9 * x1^2 * x2^4 + 15 * x1^2 * x2 * y2^2 - 3 * x1 * y1^2 * x2^2 + 6 * x1 * y1
       * x2^2 * y2 + 6 * x1 * x2^5 - 15 * x1 * x2^2 * y2^2 - 84 * x1 * x2^2 - y1^3 * y2 + 2 * y1^2 * y2^2 - 21 *
       y1^2 + 2 * y1 * x2^3 * y2 + 35 * y1 * y2 + 2 * x2^3 * y2^2 + 42 * x2^3 - 2 * y2^4 + 14 * y2^2 - 147) * curve_gap x1 y1 +
      (9 * x1^5 * x2 - 6 * x1^4 * x2^2 - 2 * x1^3 * y1 * y2 - 2 * x1^3 * y2^2 - 42 * x1^3 - 6 * x1^2 * y1 * x2 *
       y2 + 3 * x1^2 * x2 * y2^2 + 189 * x1^2 * x2 + 3 * x1 * y1 * x2^2 * y2 - 105 * x1 * x2^2 + y1 * y2^3 - 35
       * y1 * y2 + 7 * y2^2 + 147) * curve_gap x2 y2"
    and "sumZ x1 y1 1 x2 y2 1 - ((2 * x1 + x2) * u ^ 2 * (- y2 - y1) - (- y2 - y1) ^ 3 - y1 * u ^ 3) =
      (- y1 - 2 * y2) * curve_gap x1 y1 + (- 2 * y1 - y2) * curve_gap x2 y2"
  unfolding u_def m_def sumX_def sumY_def sumZ_def curve_gap_def by algebra+

text \<open>One point twice, and a point with its opposite.\<close>

lemma tangent_certificates:
  fixes x y :: int
  defines "u \<equiv> 2 * y" and "m \<equiv> x * x * 3"
  shows "u ^ 2 * sumX x y 1 x y 1 - (m ^ 2 - (x + x) * u ^ 2) * sumZ x y 1 x y 1 = (54 * x^4 * y + 24 * x * y^3) * curve_gap x y"
    and "u ^ 3 * sumY x y 1 x y 1 - ((2 * x + x) * u ^ 2 * m - m ^ 3 - y * u ^ 3) * sumZ x y 1 x y 1 =
      (- 162 * x^6 * y + 24 * y^5 + 504 * y^3) * curve_gap x y"
    and "sumZ x y 1 x y 1 - 8 * y ^ 3 = (- 6 * y) * curve_gap x y"
    and "sumX x y 1 x (- y) 1 = 0" and "sumZ x y 1 x (- y) 1 = 0"
    and "sumY x y 1 x (- y) 1 - ((2 * x + x) * u ^ 2 * m - m ^ 3 - y * u ^ 3) = (- 27 * x^3 + 9 * y^2 + 63) * curve_gap x y"
  unfolding u_def m_def sumX_def sumY_def sumZ_def curve_gap_def by algebra+

section \<open>Representations\<close>

text \<open>\<open>(U : V : W)\<close> represents a point when it is a unit times the coordinates of the point.\<close>

definition rep :: "int \<Rightarrow> int \<Rightarrow> int \<Rightarrow> point \<Rightarrow> bool" where
  "rep U V W p \<longleftrightarrow>
     (\<exists>w. \<not> zp w \<and>
        (case p of
           None \<Rightarrow> zp U \<and> zp (V - w) \<and> zp W
         | Some (x, y) \<Rightarrow> zp (U - w * x) \<and> zp (V - w * y) \<and> zp (W - w)))"

definition proj :: "point \<Rightarrow> int \<times> int \<times> int" where
  "proj p = (case p of None \<Rightarrow> (0, 1, 0) | Some (x, y) \<Rightarrow> (x, y, 1))"

lemma rep_proj:
  "rep U V W p \<longleftrightarrow> (\<exists>w a b c. \<not> zp w \<and> proj p = (a, b, c) \<and> zp (U - w * a) \<and> zp (V - w * b) \<and> zp (W - w * c))"
  by (cases p) (auto simp: rep_def proj_def)

lemma rep_cong:
  assumes "zp (U - U')" and "zp (V - V')" and "zp (W - W')" and "rep U' V' W' p"
  shows "rep U V W p"
proof -
  obtain w a b c where w: "\<not> zp w" "proj p = (a, b, c)" "zp (U' - w * a)" "zp (V' - w * b)" "zp (W' - w * c)"
    using assms(4) unfolding rep_proj by blast
  have "zp (U - w * a)" "zp (V - w * b)" "zp (W - w * c)"
    using dvd_add [OF assms(1) w(3)] dvd_add [OF assms(2) w(4)] dvd_add [OF assms(3) w(5)] by simp_all
  then show ?thesis using w(1,2) unfolding rep_proj by blast
qed

lemma zp_eq: "zp (a - b) \<longleftrightarrow> a mod curveP = b mod curveP"
  by (simp add: mod_eq_dvd_iff)

text \<open>The formulas are homogeneous of degree 2 in each point.\<close>

lemma sum_scaled:
  fixes a1 b1 c1 a2 b2 c2 :: int
  assumes "zp (X1 - w1 * a1)" "zp (Y1 - w1 * b1)" "zp (Z1 - w1 * c1)"
    and "zp (X2 - w2 * a2)" "zp (Y2 - w2 * b2)" "zp (Z2 - w2 * c2)"
  shows "zp (sumX X1 Y1 Z1 X2 Y2 Z2 - w1 ^ 2 * w2 ^ 2 * sumX a1 b1 c1 a2 b2 c2)"
    and "zp (sumY X1 Y1 Z1 X2 Y2 Z2 - w1 ^ 2 * w2 ^ 2 * sumY a1 b1 c1 a2 b2 c2)"
    and "zp (sumZ X1 Y1 Z1 X2 Y2 Z2 - w1 ^ 2 * w2 ^ 2 * sumZ a1 b1 c1 a2 b2 c2)"
proof -
  note same = assms [unfolded zp_eq]
  have "w1 ^ 2 * w2 ^ 2 * sumX a1 b1 c1 a2 b2 c2 = sumX (w1 * a1) (w1 * b1) (w1 * c1) (w2 * a2) (w2 * b2) (w2 * c2)"
    "w1 ^ 2 * w2 ^ 2 * sumY a1 b1 c1 a2 b2 c2 = sumY (w1 * a1) (w1 * b1) (w1 * c1) (w2 * a2) (w2 * b2) (w2 * c2)"
    "w1 ^ 2 * w2 ^ 2 * sumZ a1 b1 c1 a2 b2 c2 = sumZ (w1 * a1) (w1 * b1) (w1 * c1) (w2 * a2) (w2 * b2) (w2 * c2)"
    unfolding sumX_def sumY_def sumZ_def by algebra+
  then show "zp (sumX X1 Y1 Z1 X2 Y2 Z2 - w1 ^ 2 * w2 ^ 2 * sumX a1 b1 c1 a2 b2 c2)"
    and "zp (sumY X1 Y1 Z1 X2 Y2 Z2 - w1 ^ 2 * w2 ^ 2 * sumY a1 b1 c1 a2 b2 c2)"
    and "zp (sumZ X1 Y1 Z1 X2 Y2 Z2 - w1 ^ 2 * w2 ^ 2 * sumZ a1 b1 c1 a2 b2 c2)"
    unfolding zp_eq by (simp_all only: sumX_def sumY_def sumZ_def)
      (intro mod_diff_cong mod_add_cong mod_mult_cong refl same)+
qed

section \<open>The sum at affine points\<close>

text \<open>A second coordinate of the curve is a unit, unless it is that of a point of order two.\<close>

lemma second_unit:
  assumes "onCurve x y" and "\<not> curve_defect"
  shows "\<not> zp y" and "y \<noteq> 0"
proof -
  show y: "y \<noteq> 0" using assms by (auto simp: curve_defect_def)
  have "0 \<le> y" "y < curveP" using assms(1) by (simp_all add: onCurve_iff)
  then show "\<not> zp y" using zp_small y by blast
qed

lemma no_factor: "\<not> curve_defect \<Longrightarrow> \<not> field_factor"
  by (simp add: curve_defect_def)

lemma zp_cancel: "\<not> field_factor \<Longrightarrow> \<not> zp u \<Longrightarrow> zp (u ^ n * a) \<Longrightarrow> zp a"
  using zp_mult [of "u ^ n" a] zp_power [of u n] by blast

text \<open>Cancelling the power of the denominator in the two coordinates.\<close>

lemma sum_coordinates:
  assumes "\<not> field_factor" and "\<not> zp u" and "zp (u ^ 2 * a - f * c)" and "zp (u ^ 3 * b - g * c)"
    and "zp (u ^ 2 * x - f)" and "zp (u ^ 3 * y - g)"
  shows "zp (a - c * x)" and "zp (b - c * y)"
proof -
  have "u ^ 2 * (a - c * x) = (u ^ 2 * a - f * c) - c * (u ^ 2 * x - f)" by algebra
  then have "zp (u ^ 2 * (a - c * x))" using dvd_diff [OF assms(3) dvd_mult [OF assms(5), of c]] by (simp only:)
  then show "zp (a - c * x)" by (rule zp_cancel [OF assms(1,2)])
  have "u ^ 3 * (b - c * y) = (u ^ 3 * b - g * c) - c * (u ^ 3 * y - g)" by algebra
  then have "zp (u ^ 3 * (b - c * y))" using dvd_diff [OF assms(4) dvd_mult [OF assms(6), of c]] by (simp only:)
  then show "zp (b - c * y)" by (rule zp_cancel [OF assms(1,2)])
qed

lemma sum_chord:
  assumes "onCurve x1 y1" and "onCurve x2 y2" and "x1 \<noteq> x2" and "\<not> curve_defect"
  shows "rep (sumX x1 y1 1 x2 y2 1) (sumY x1 y1 1 x2 y2 1) (sumZ x1 y1 1 x2 y2 1) (pointAdd (Some (x1, y1)) (Some (x2, y2)))"
proof -
  note nf = no_factor [OF assms(4)]
  let ?u = "x2 - x1" and ?Z = "sumZ x1 y1 1 x2 y2 1"
  note gap = assms(1,2) [unfolded onCurve_iff]
  have g: "zp (a * curve_gap x1 y1 + b * curve_gap x2 y2)" for a b
    using gap by (intro dvd_add dvd_mult) simp_all
  have u: "\<not> zp ?u"
  proof
    assume "zp ?u"
    then have "x2 mod curveP = x1 mod curveP" by (simp add: zp_eq)
    then show False using gap assms(3) by simp
  qed
  obtain x3 y3 where p: "pointAdd (Some (x1, y1)) (Some (x2, y2)) = Some (x3, y3)"
    "zp (?u ^ 2 * x3 - ((y2 - y1) ^ 2 - (x1 + x2) * ?u ^ 2))"
    "zp (?u ^ 3 * y3 - ((2 * x1 + x2) * ?u ^ 2 * (y2 - y1) - (y2 - y1) ^ 3 - y1 * ?u ^ 3))"
    by (rule pointAdd_chord [OF assms(1-3) nf])
  have xy: "zp (sumX x1 y1 1 x2 y2 1 - ?Z * x3)" "zp (sumY x1 y1 1 x2 y2 1 - ?Z * y3)"
    using sum_coordinates [OF nf u _ _ p(2,3), of "sumX x1 y1 1 x2 y2 1" ?Z "sumY x1 y1 1 x2 y2 1"]
      g chord_certificates(1,2) [where ?x1.0 = x1 and ?y1.0 = y1 and ?x2.0 = x2 and ?y2.0 = y2] by simp_all
  have "\<not> zp ?Z"
  proof
    assume W: "zp ?Z"
    let ?y = "curveP - y2"
    have "y2 \<noteq> 0" using second_unit(2) [OF assms(2,4)] .
    then have "0 \<le> ?y" "?y < curveP" using gap by auto
    moreover have "curve_gap x2 ?y - curve_gap x2 y2 = curveP * (curveP - 2 * y2)" unfolding curve_gap_def by algebra
    then have "zp (curve_gap x2 ?y)" using gap zp_diff [of "curve_gap x2 ?y" "curve_gap x2 y2"] by simp
    ultimately have on: "onCurve x2 ?y" using gap by (simp add: onCurve_iff)
    obtain x4 y4 where d: "onCurve x4 y4"
      "zp (?u ^ 3 * y4 - ((2 * x1 + x2) * ?u ^ 2 * (?y - y1) - (?y - y1) ^ 3 - y1 * ?u ^ 3))"
      by (rule pointAdd_chord [OF assms(1) on assms(3) nf])
    let ?N = "\<lambda>m. (2 * x1 + x2) * ?u ^ 2 * m - m ^ 3 - y1 * ?u ^ 3"
    have "zp (?Z - ?N (- y2 - y1))"
      unfolding chord_certificates(3) by (rule g)
    then have N: "zp (?N (- y2 - y1))" using W zp_diff by blast
    have "?N (?y - y1) - ?N (- y2 - y1) = curveP * ((2 * x1 + x2) * ?u ^ 2 -
        ((?y - y1) ^ 2 + (?y - y1) * (- y2 - y1) + (- y2 - y1) ^ 2))" by algebra
    then have "zp (?N (?y - y1) - ?N (- y2 - y1))" by simp
    then have "zp (?u ^ 3 * y4)" using N d(2) zp_diff by blast
    then have "zp y4" by (rule zp_cancel [OF nf u])
    then show False using second_unit(1) [OF d(1) assms(4)] by blast
  qed
  then show ?thesis using p(1) xy unfolding rep_def by (intro exI [of _ ?Z]) simp
qed

lemma sum_tangent:
  assumes "onCurve x y" and "\<not> curve_defect"
  shows "rep (sumX x y 1 x y 1) (sumY x y 1 x y 1) (sumZ x y 1 x y 1) (pointDouble (Some (x, y)))"
proof -
  note nf = no_factor [OF assms(2)]
  let ?u = "2 * y" and ?Z = "sumZ x y 1 x y 1"
  note y = second_unit [OF assms]
  have g: "zp (a * curve_gap x y)" for a using assms(1) by (intro dvd_mult) (simp add: onCurve_iff)
  have u: "\<not> zp ?u" using zp_mult [OF nf] zp_small_numeral(1) y(1) by blast
  obtain x3 y3 where p: "pointDouble (Some (x, y)) = Some (x3, y3)"
    "zp (?u ^ 2 * x3 - ((x * x * 3) ^ 2 - (x + x) * ?u ^ 2))"
    "zp (?u ^ 3 * y3 - ((2 * x + x) * ?u ^ 2 * (x * x * 3) - (x * x * 3) ^ 3 - y * ?u ^ 3))"
    by (rule pointDouble_tangent [OF assms(1) y(2) nf])
  have xy: "zp (sumX x y 1 x y 1 - ?Z * x3)" "zp (sumY x y 1 x y 1 - ?Z * y3)"
    using sum_coordinates [OF nf u _ _ p(2,3), of "sumX x y 1 x y 1" ?Z "sumY x y 1 x y 1"]
      g tangent_certificates(1,2) [where x = x and y = y] by simp_all
  have "zp (?Z - 8 * y ^ 3)" unfolding tangent_certificates(3) by (rule g)
  moreover have "\<not> zp (8 * y ^ 3)" using zp_mult [OF nf] zp_small_numeral(2) zp_power [OF nf, of y 3] y(1) by blast
  ultimately have "\<not> zp ?Z" using zp_diff by blast
  then show ?thesis using p(1) xy unfolding rep_def by (intro exI [of _ ?Z]) simp
qed

lemma sum_opposite:
  assumes "onCurve x y" and "zp (y + y')" and "\<not> curve_defect"
  shows "rep (sumX x y 1 x y' 1) (sumY x y 1 x y' 1) (sumZ x y 1 x y' 1) None"
proof -
  note nf = no_factor [OF assms(3)]
  let ?u = "2 * y"
  note y = second_unit [OF assms(1,3)]
  have u: "\<not> zp ?u" using zp_mult [OF nf] zp_small_numeral(1) y(1) by blast
  obtain x3 y3 where p: "onCurve x3 y3"
    "zp (?u ^ 3 * y3 - ((2 * x + x) * ?u ^ 2 * (x * x * 3) - (x * x * 3) ^ 3 - y * ?u ^ 3))"
    by (rule pointDouble_tangent [OF assms(1) y(2) nf])
  let ?Y = "sumY x y 1 x (- y) 1"
  have "zp (?Y - ((2 * x + x) * ?u ^ 2 * (x * x * 3) - (x * x * 3) ^ 3 - y * ?u ^ 3))"
    unfolding tangent_certificates(6) using assms(1) by (intro dvd_mult) (simp add: onCurve_iff)
  then have "zp ?Y \<longleftrightarrow> zp (?u ^ 3 * y3)" using p(2) zp_diff by blast
  then have V: "\<not> zp ?Y" using zp_cancel [OF nf u] second_unit(1) [OF p(1) assms(3)] by blast
  have opp: "zp (y' - 1 * (- y))" using assms(2) by (simp add: add.commute)
  have one: "zp (a - 1 * a)" for a by simp
  from sum_scaled [OF one [of x] one [of y] one [of 1] one [of x] opp one [of 1]]
  have "zp (sumX x y 1 x y' 1)" "zp (sumY x y 1 x y' 1 - ?Y)" "zp (sumZ x y 1 x y' 1)"
    by (simp_all add: tangent_certificates(4,5))
  then show ?thesis using V unfolding rep_def by (intro exI [of _ ?Y]) simp
qed

text \<open>All cases of \<open>pointAdd\<close>.\<close>

lemma sum_proj:
  assumes "point_ok p" and "point_ok q" and "\<not> curve_defect"
    and "proj p = (a1, b1, c1)" and "proj q = (a2, b2, c2)"
  shows "rep (sumX a1 b1 c1 a2 b2 c2) (sumY a1 b1 c1 a2 b2 c2) (sumZ a1 b1 c1 a2 b2 c2) (pointAdd p q)"
proof (cases p)
  case None
  note p = None
  show ?thesis
  proof (cases q)
    case None
    then show ?thesis using p assms(4,5) zp_small [of 1] curve_bounds(2)
      by (auto simp: rep_def proj_def pointAdd_def sumX_def sumY_def sumZ_def intro!: exI [of _ 1])
  next
    case (Some r)
    then show ?thesis using p assms second_unit(1)
      by (cases r) (auto simp: rep_def proj_def pointAdd_def sumX_def sumY_def sumZ_def point_ok_def algebra_simps
          intro!: exI [of _ b2])
  qed
next
  case (Some r)
  obtain x1 y1 where p: "p = Some (x1, y1)" using Some by (cases r) simp
  then have on1: "onCurve x1 y1" using assms(1) by (simp add: point_ok_def)
  show ?thesis
  proof (cases q)
    case None
    then show ?thesis using p assms second_unit(1)
      by (auto simp: rep_def proj_def pointAdd_def sumX_def sumY_def sumZ_def point_ok_def algebra_simps
          intro!: exI [of _ b1])
  next
    case (Some s)
    obtain x2 y2 where q: "q = Some (x2, y2)" using Some by (cases s) simp
    then have on2: "onCurve x2 y2" using assms(2) by (simp add: point_ok_def)
    have coords: "a1 = x1" "b1 = y1" "c1 = 1" "a2 = x2" "b2 = y2" "c2 = 1"
      using assms(4,5) p q by (simp_all add: proj_def)
    consider "x1 \<noteq> x2" | "x1 = x2" "y1 = y2" | "x1 = x2" "y1 \<noteq> y2" by blast
    then show ?thesis
    proof cases
      case 1
      then show ?thesis using sum_chord [OF on1 on2 _ assms(3)] by (simp add: coords p q)
    next
      case 2
      then show ?thesis using sum_tangent [OF on1 assms(3)] by (simp add: coords p q pointAdd_def)
    next
      case 3
      have "zp (curve_gap x1 y1 - curve_gap x1 y2)" using on1 on2 3 by (simp add: onCurve_iff)
      also have "curve_gap x1 y1 - curve_gap x1 y2 = (y1 - y2) * (y1 + y2)" unfolding curve_gap_def by algebra
      finally have "zp (y1 - y2) \<or> zp (y1 + y2)" using zp_mult [OF no_factor [OF assms(3)]] by blast
      moreover have "\<not> zp (y1 - y2)" using on1 on2 3 by (auto simp: zp_eq onCurve_iff)
      ultimately show ?thesis using sum_opposite [OF on1 _ assms(3)] 3 by (simp add: coords p q pointAdd_def)
    qed
  qed
qed

lemma rep_sum:
  assumes "rep X1 Y1 Z1 p" and "rep X2 Y2 Z2 q" and "point_ok p" and "point_ok q" and "\<not> curve_defect"
  shows "rep (sumX X1 Y1 Z1 X2 Y2 Z2) (sumY X1 Y1 Z1 X2 Y2 Z2) (sumZ X1 Y1 Z1 X2 Y2 Z2) (pointAdd p q)"
proof -
  note nf = no_factor [OF assms(5)]
  obtain w1 a1 b1 c1 where p: "\<not> zp w1" "proj p = (a1, b1, c1)" "zp (X1 - w1 * a1)" "zp (Y1 - w1 * b1)" "zp (Z1 - w1 * c1)"
    using assms(1) unfolding rep_proj by blast
  obtain w2 a2 b2 c2 where q: "\<not> zp w2" "proj q = (a2, b2, c2)" "zp (X2 - w2 * a2)" "zp (Y2 - w2 * b2)" "zp (Z2 - w2 * c2)"
    using assms(2) unfolding rep_proj by blast
  note scaled = sum_scaled [OF p(3-5) q(3-5)]
  let ?w = "w1 ^ 2 * w2 ^ 2"
  obtain w a b c where w: "\<not> zp w" "proj (pointAdd p q) = (a, b, c)" "zp (sumX a1 b1 c1 a2 b2 c2 - w * a)"
    "zp (sumY a1 b1 c1 a2 b2 c2 - w * b)" "zp (sumZ a1 b1 c1 a2 b2 c2 - w * c)"
    using sum_proj [OF assms(3-5) p(2) q(2)] unfolding rep_proj by blast
  have "?w * s - ?w * w * t = ?w * (s - w * t)" for s t by algebra
  then have "zp (?w * s - ?w * w * t)" if "zp (s - w * t)" for s t using that by (simp only:) (rule dvd_mult)
  then have "rep (?w * sumX a1 b1 c1 a2 b2 c2) (?w * sumY a1 b1 c1 a2 b2 c2) (?w * sumZ a1 b1 c1 a2 b2 c2) (pointAdd p q)"
    unfolding rep_proj
    using w zp_mult [OF nf] zp_power [OF nf, of w1 2] zp_power [OF nf, of w2 2] p(1) q(1) by (metis (no_types))
  then show ?thesis by (rule rep_cong [OF scaled])
qed

section \<open>Limbs\<close>

definition jac_rep :: "jac \<Rightarrow> point \<Rightarrow> bool" where
  "jac_rep J p \<longleftrightarrow> rep (fe_val (JX J)) (fe_val (JY J)) (fe_val (JZ J)) p"

lemma p_field_curveP: "p_field = curveP"
  by (simp add: p_field_def curveP_def)

lemma completeAdd_rep:
  assumes "jac_rep J p" and "jac_rep K q" and "point_ok p" and "point_ok q" and "\<not> curve_defect"
  shows "jac_rep (completeAdd J K) (pointAdd p q)"
proof -
  note sum = rep_sum [OF assms(1,2) [unfolded jac_rep_def] assms(3-5)]
  show ?thesis
    unfolding jac_rep_def
    by (rule rep_cong [OF _ _ _ sum])
      (use completeAdd_values [OF refl refl refl refl refl refl, of J K] zp_mod
        in \<open>simp_all only: p_field_curveP sumX_def sumY_def sumZ_def\<close>)
qed

lemma identity_rep: "jac_rep identity None"
  using zp_small [of 1] curve_bounds(2)
  by (auto simp: jac_rep_def rep_def identity_def fe_val_def intro!: exI [of _ 1])

lemma pointAdd_same: "pointAdd p p = pointDouble p"
  by (cases p) (auto simp: pointAdd_def pointDouble_def)

lemma ladder_rep:
  assumes "jac_rep P (Some (x, y))" and "onCurve x y" and "\<not> curve_defect"
  shows "jac_rep A r \<Longrightarrow> point_ok r \<Longrightarrow>
    jac_rep (fold (\<lambda>b A. if b then completeAdd (completeAdd A A) P else completeAdd A A) bs A)
      (fst (fold (mult_step x y) bs (r, c)))"
proof (induction bs arbitrary: A r c)
  case (Cons b bs)
  have xy: "point_ok (Some (x, y))" using assms(2) by (simp add: point_ok_def)
  have d: "jac_rep (completeAdd A A) (pointDouble r)"
    using completeAdd_rep [OF Cons.prems(1,1,2,2) assms(3)] by (simp add: pointAdd_same)
  have dok: "point_ok (pointDouble r)" using pointDouble_ok [OF Cons.prems(2)] no_factor [OF assms(3)] by blast
  show ?case
  proof (cases b)
    case True
    have "jac_rep (completeAdd (completeAdd A A) P) (pointAdd (pointDouble r) (Some (x, y)))"
      by (rule completeAdd_rep [OF d assms(1) dok xy assms(3)])
    moreover have "point_ok (pointAdd (pointDouble r) (Some (x, y)))"
      using pointAdd_ok [OF dok xy] no_factor [OF assms(3)] by blast
    ultimately show ?thesis using Cons.IH True by (simp add: mult_step_def Let_def)
  next
    case False
    then show ?thesis using Cons.IH [OF d dok] by (simp add: mult_step_def Let_def)
  qed
qed simp

section \<open>Bits\<close>

lemma int_bits_snoc:
  assumes "0 < 2 * n + of_bool b"
  shows "int_bits (int (2 * n + of_bool b)) = int_bits (int n) @ [b]"
proof -
  let ?m = "2 * n + of_bool b :: nat"
  have half: "?m div 2 = n" by simp
  then have len: "bit_len ?m = Suc (bit_len n)" using bit_len_pos [OF assms] by simp
  have "?m div 2 ^ Suc i = n div 2 ^ i" for i
    unfolding power_Suc div_mult2_eq half ..
  moreover have "?m mod 2 = 1 \<longleftrightarrow> b" by (cases b) simp_all
  moreover have "[0..<Suc k] = 0 # map Suc [0..<k]" for k by (simp add: upt_conv_Cons map_Suc_upt del: upt_Suc)
  ultimately show ?thesis
    by (simp add: int_bits_def len rev_map comp_def del: upt_Suc power_Suc of_nat_add of_nat_mult)
qed

lemma int_bits_bits_val: "int_bits (int (bits_val bs)) = dropWhile Not bs"
proof (induction bs rule: rev_induct)
  case Nil
  then show ?case by (simp add: int_bits_def)
next
  case (snoc b bs)
  show ?case
  proof (cases "0 < 2 * bits_val bs + of_bool b")
    case True
    then have "int_bits (int (bits_val (bs @ [b]))) = dropWhile Not bs @ [b]"
      using int_bits_snoc [OF True] snoc.IH by simp
    moreover have "dropWhile Not (bs @ [b]) = dropWhile Not bs @ [b]"
    proof (cases "\<exists>x \<in> set bs. x")
      case True
      then show ?thesis by (metis dropWhile_append1)
    next
      case False
      then have "dropWhile Not bs = []" by (auto simp: dropWhile_eq_Nil_conv)
      then have "int_bits (int (bits_val bs)) = []" using snoc.IH by simp
      then have "bits_val bs = 0" using bit_len_pos [of "bits_val bs"] by (auto simp: int_bits_def)
      then have b using True by (cases b) simp_all
      then show ?thesis using False by (simp add: dropWhile_append dropWhile_eq_Nil_conv)
    qed
    ultimately show ?thesis by simp
  next
    case False
    then have z: "bits_val bs = 0" "\<not> b" by (cases b; simp)+
    then have "dropWhile Not bs = []" using snoc.IH by (simp add: int_bits_def)
    then show ?thesis using z by (simp add: dropWhile_append int_bits_def)
  qed
qed

text \<open>Leading zeros leave infinity alone.\<close>

lemma mult_leading_zeros: "fold (mult_step x y) bs (None, False) = fold (mult_step x y) (dropWhile Not bs) (None, False)"
  by (induction bs) (auto simp: mult_step_def pointDouble_def)

lemma scalarMultCT_rep:
  assumes "jac_rep P (Some (x, y))" and "onCurve x y" and "\<not> curve_defect"
  shows "jac_rep (scalarMultCT k P) (fst (scalarMult (fe_val k) x y))"
proof -
  have "scalarMult (fe_val k) x y = fold (mult_step x y) (limb_bits k) (None, False)"
    unfolding scalarMult_def limb_bits_val [symmetric] int_bits_bits_val mult_leading_zeros [symmetric] ..
  then show ?thesis
    unfolding scalarMultCT_fold using ladder_rep [OF assms identity_rep] by (simp add: point_ok_def)
qed

section \<open>Back to affine coordinates\<close>

lemma quotient_value:
  assumes "\<not> field_factor" and "\<not> zp w" and "zp (a - w * x)" and "zp (z - w)" and "0 \<le> x" and "x < curveP"
  shows "(a * (z ^ nat (curveP - 2) mod curveP)) mod curveP = x"
proof -
  have "a mod curveP = (w * x) mod curveP" "z mod curveP = w mod curveP" using assms(3,4) by (simp_all add: zp_eq)
  then have "(a * z ^ nat (curveP - 2)) mod curveP = (w * x * w ^ nat (curveP - 2)) mod curveP"
    by (metis mod_mult_cong power_mod)
  also have "w * x * w ^ nat (curveP - 2) = w ^ Suc (nat (curveP - 2)) * x" by simp
  also have "Suc (nat (curveP - 2)) = nat (curveP - 1)" by (simp add: curveP_def)
  also have "(w ^ nat (curveP - 1) * x) mod curveP = x mod curveP"
    using fermat [OF assms(1,2)] by (metis mod_mult_left_eq mult_1)
  finally show ?thesis using assms(5,6) by (simp add: mod_mult_right_eq)
qed

lemma affineXY_rep:
  assumes "jac_rep J (Some (x, y))" and "onCurve x y" and "\<not> field_factor"
  shows "fe_val (fst (affineXY J)) = x" and "fe_val (snd (affineXY J)) = y" and "fe_val (affineX J) = x"
proof -
  obtain w where w: "\<not> zp w" "zp (fe_val (JX J) - w * x)" "zp (fe_val (JY J) - w * y)" "zp (fe_val (JZ J) - w)"
    using assms(1) by (auto simp: jac_rep_def rep_def)
  have r: "0 \<le> x" "x < curveP" "0 \<le> y" "y < curveP" using assms(2) by (simp_all add: onCurve_iff)
  show "fe_val (fst (affineXY J)) = x" "fe_val (snd (affineXY J)) = y" "fe_val (affineX J) = x"
    using quotient_value [OF assms(3) w(1,2,4) r(1,2)] quotient_value [OF assms(3) w(1,3,4) r(3,4)]
    by (simp_all add: affineXY_def affineX_def Let_def feMul_value feInv_value p_field_curveP)
qed

lemma affineX_infinity:
  assumes "jac_rep J None"
  shows "fe_val (affineX J) = 0" and "zp (fe_val (JZ J))"
proof -
  have z: "zp (fe_val (JX J))" "zp (fe_val (JZ J))" using assms by (auto simp: jac_rep_def rep_def)
  then show "zp (fe_val (JZ J))" by blast
  show "fe_val (affineX J) = 0"
    using dvd_mult2 [OF z(1)] by (simp add: affineX_def Let_def feMul_value p_field_curveP)
qed

lemma fe_big_val: "fe_big f = fe_val f"
  by (simp add: fe_big_def fe_val_def B64_def)

lemma feFromBig_val:
  assumes "0 \<le> x" and "x < 2 ^ 256"
  shows "fe_val (feFromBig x) = x"
proof -
  define q1 where "q1 = x div 2 ^ 64"
  define q2 where "q2 = q1 div 2 ^ 64"
  define q3 where "q3 = q2 div 2 ^ 64"
  have q: "x div 2 ^ 128 = q2" "x div 2 ^ 192 = q3"
    by (simp_all add: q1_def q2_def q3_def flip: zdiv_zmult2_eq)
  have "q3 div 2 ^ 64 = x div 2 ^ 256" by (simp add: q1_def q2_def q3_def flip: zdiv_zmult2_eq)
  then have "q3 mod 2 ^ 64 = q3" using assms mult_div_mod_eq [of "2 ^ 64" q3] by simp
  then have top: "q3 mod B64 = q3" by (simp only: B64_def)
  have "fe_val (feFromBig x) = x mod B64 + B64 * (q1 mod B64) + B64 ^ 2 * (q2 mod B64) + B64 ^ 3 * (q3 mod B64)"
    unfolding feFromBig_def q q1_def [symmetric] by (simp add: fe_val_def uint_word_of_int B64_def)
  moreover have "B64 * q1 + x mod B64 = x" "B64 * q2 + q1 mod B64 = q1" "B64 * q3 + q2 mod B64 = q2"
    unfolding q1_def q2_def q3_def B64_def by (rule mult_div_mod_eq)+
  ultimately show ?thesis unfolding top by algebra
qed

lemma base_rep: "jac_rep ctBaseG (Some (curveGx, curveGy))"
proof -
  have "fe_val (feFromBig curveGx) = curveGx" "fe_val (feFromBig curveGy) = curveGy"
    by (rule feFromBig_val; simp add: curveGx_def curveGy_def)+
  then show ?thesis using zp_small [of 1] curve_bounds(2)
    by (auto simp: jac_rep_def rep_def ctBaseG_def fe_val_def [of "FE 1 0 0 0"] intro!: exI [of _ 1])
qed

text \<open>The first coordinate that \<open>Sign\<close> takes.\<close>

lemma nonce_point:
  assumes "\<not> curve_defect" and "0 \<le> d" and "d < 2 ^ 256"
  shows "fe_big (affineX (scalarMultCT (scalarBits d) ctBaseG)) = (case scalarBaseMult d of None \<Rightarrow> 0 | Some (x, _) \<Rightarrow> x)"
  using scalarMultCT_rep [OF base_rep base_on_curve assms(1), of "feFromBig d"] scalarMult_ok [OF base_on_curve, of d]
    affineX_infinity(1) affineXY_rep(3) no_factor [OF assms(1)] feFromBig_val [of d] assms(2,3)
  by (auto simp: point_ok_def scalarBaseMult_def scalarBits_def fe_big_val split: option.splits)

section \<open>Properties\<close>

text \<open>
  C19. The constant-time arithmetic computes the reference arithmetic. On representations of points of the
  curve \<open>completeAdd\<close> represents the sum of \<open>pointAdd\<close>, in every case: at infinity, for equal, opposite and
  other points. So the ladder represents the scalar multiple of \<open>scalarMult\<close>, its affine coordinates
  are that multiple, and the first coordinate that \<open>Sign\<close> takes is the one of the scalar multiple of the base
  point, or 0 at infinity. Or the theorem exhibits a factor of the field prime or a point of order two.
\<close>

theorem ladder_equals_reference:
  assumes "onCurve x y" and "jac_rep P (Some (x, y))"
  shows "curve_defect \<or>
    (jac_rep J p \<and> jac_rep K q \<and> point_ok p \<and> point_ok q \<longrightarrow> jac_rep (completeAdd J K) (pointAdd p q)) \<and>
    (case fst (scalarMult (fe_val k) x y) of
       None \<Rightarrow> curveP dvd fe_val (JZ (scalarMultCT k P))
     | Some (x', y') \<Rightarrow> fe_val (fst (affineXY (scalarMultCT k P))) = x' \<and> fe_val (snd (affineXY (scalarMultCT k P))) = y') \<and>
    (0 \<le> d \<and> d < 2 ^ 256 \<longrightarrow>
       fe_big (affineX (scalarMultCT (scalarBits d) ctBaseG)) = (case scalarBaseMult d of None \<Rightarrow> 0 | Some (x', _) \<Rightarrow> x'))"
proof (cases curve_defect)
  case False
  note nf = no_factor [OF False]
  have ok: "point_ok (fst (scalarMult n a b))" if "onCurve a b" for n a b using scalarMult_ok [OF that] nf by blast
  have "jac_rep J p \<and> jac_rep K q \<and> point_ok p \<and> point_ok q \<longrightarrow> jac_rep (completeAdd J K) (pointAdd p q)"
    using completeAdd_rep False by blast
  moreover have "case fst (scalarMult (fe_val k) x y) of None \<Rightarrow> zp (fe_val (JZ (scalarMultCT k P)))
     | Some (x', y') \<Rightarrow> fe_val (fst (affineXY (scalarMultCT k P))) = x' \<and> fe_val (snd (affineXY (scalarMultCT k P))) = y'"
    using scalarMultCT_rep [OF assms(2,1) False, of k] ok [OF assms(1), of "fe_val k"] affineX_infinity(2) affineXY_rep(1,2) nf
    by (auto simp: point_ok_def split: option.splits)
  moreover have "fe_big (affineX (scalarMultCT (scalarBits d) ctBaseG)) = (case scalarBaseMult d of None \<Rightarrow> 0 | Some (x', _) \<Rightarrow> x')"
    if "0 \<le> d \<and> d < 2 ^ 256"
    using nonce_point [OF False] that by blast
  ultimately show ?thesis by blast
qed simp

text \<open>The base point, and the scalar 1.\<close>

theorem ladder_equals_reference_witness:
  "curve_defect \<or> fe_big (affineX (scalarMultCT (scalarBits 1) ctBaseG)) = curveGx"
proof -
  have "int_bits 1 = [True]" by (simp add: int_bits_def bit_len.simps)
  then have "scalarBaseMult 1 = Some (curveGx, curveGy)"
    by (simp add: scalarBaseMult_def scalarMult_def mult_step_def pointDouble_def pointAdd_def)
  then show ?thesis
    using ladder_equals_reference [OF base_on_curve base_rep, of identity None identity None "FE 1 0 0 0" 1] by auto
qed

end
