(* ===== verification/PointGroup.thy ===== *)
theory PointGroup
  imports Ladder
begin

text \<open>
  The affine arithmetic of src/crypto/secp256k1.go is a group: \<open>pointAdd\<close> is commutative and associative on
  points of the curve, \<open>scalarMult\<close> is repeated addition, and a signature that \<open>Sign\<close> makes verifies.

  Associativity comes from the complete formulas, which represent \<open>pointAdd\<close> in every case (theory Ladder) and
  are associative as polynomials (theory SumLaw). The polynomials are taken over the residues \<open>fp\<close>. The
  exceptions that are not excluded by proof are exhibited: a factor of one of the two primes, a point of order
  two, or a base point whose multiple by \<open>curveN\<close> is not infinity.
\<close>

section \<open>Residues\<close>

text \<open>Residues modulo the field prime; if that had a factor, the type would be that of the parities.\<close>

definition field_order :: int where
  "field_order = (if field_factor then 2 else curveP)"

lemma field_order_gt: "1 < field_order"
  using curve_bounds(2) by (simp add: field_order_def)

lemma field_order_prime: "field_order dvd a * b \<Longrightarrow> field_order dvd a \<or> field_order dvd b"
  using product_zero [of a b] by (auto simp: field_order_def split: if_splits)

typedef fp = "{0..<field_order}"
  using field_order_gt by (intro exI [of _ 0]) simp

setup_lifting type_definition_fp

instantiation fp :: idom
begin

lift_definition zero_fp :: fp is 0
  using field_order_gt by simp

lift_definition one_fp :: fp is 1
  using field_order_gt by simp

lift_definition plus_fp :: "fp \<Rightarrow> fp \<Rightarrow> fp" is "\<lambda>a b. (a + b) mod field_order"
  using field_order_gt by simp

lift_definition minus_fp :: "fp \<Rightarrow> fp \<Rightarrow> fp" is "\<lambda>a b. (a - b) mod field_order"
  using field_order_gt by simp

lift_definition uminus_fp :: "fp \<Rightarrow> fp" is "\<lambda>a. (- a) mod field_order"
  using field_order_gt by simp

lift_definition times_fp :: "fp \<Rightarrow> fp \<Rightarrow> fp" is "\<lambda>a b. (a * b) mod field_order"
  using field_order_gt by simp

instance
proof
  fix a b c :: fp
  show "a + b + c = a + (b + c)" by transfer (simp add: mod_simps add.assoc)
  show "a + b = b + a" by transfer (simp add: add.commute)
  show "0 + a = a" by transfer simp
  show "- a + a = 0" by transfer (simp add: mod_simps)
  show "a - b = a + - b" by transfer (simp add: mod_simps)
  show "a * b * c = a * (b * c)" by transfer (simp add: mod_simps mult.assoc)
  show "a * b = b * a" by transfer (simp add: mult.commute)
  show "1 * a = a" by transfer simp
  show "(a + b) * c = a * c + b * c" by transfer (simp add: mod_simps distrib_right)
  show "a * (b + c) = a * b + a * c" by transfer (simp add: mod_simps distrib_left)
  show "0 * a = 0" and "a * 0 = 0" by (transfer; simp)+
  show "(0 :: fp) \<noteq> 1" by transfer simp
  show "a * b \<noteq> 0" if "a \<noteq> 0" "b \<noteq> 0" using that
    by transfer (auto simp flip: dvd_eq_mod_eq_0 dest!: field_order_prime dest: zdvd_imp_le)
qed

end

lemma Rep_fp_of_nat: "Rep_fp (of_nat n) = int n mod field_order"
  using field_order_gt by (induction n) (simp_all add: zero_fp.rep_eq one_fp.rep_eq plus_fp.rep_eq mod_simps)

lemma Rep_fp_of_int: "Rep_fp (of_int a) = a mod field_order"
  by (cases a rule: int_cases2) (simp_all add: Rep_fp_of_nat uminus_fp.rep_eq mod_simps)

lemma of_int_fp_zero: "(of_int a :: fp) = 0 \<longleftrightarrow> field_order dvd a"
  by (simp add: Rep_fp_inject [symmetric] Rep_fp_of_int zero_fp.rep_eq dvd_eq_mod_eq_0)

lemma of_int_fp_eq: "\<not> field_factor \<Longrightarrow> (of_int a :: fp) = of_int b \<longleftrightarrow> zp (a - b)"
  using of_int_fp_zero [of "a - b"] by (simp add: field_order_def)

section \<open>Associativity\<close>

text \<open>Proportional coordinates represent the same point.\<close>

lemma rep_unique:
  assumes "rep U1 V1 W1 p" and "rep U2 V2 W2 q" and "point_ok p" and "point_ok q" and "\<not> field_factor"
    and "zp (U1 * W2 - U2 * W1)" and "zp (V1 * W2 - V2 * W1)"
  shows "p = q"
proof -
  obtain w1 a1 b1 c1 where p: "\<not> zp w1" "proj p = (a1, b1, c1)" "zp (U1 - w1 * a1)" "zp (V1 - w1 * b1)" "zp (W1 - w1 * c1)"
    using assms(1) unfolding rep_proj by blast
  obtain w2 a2 b2 c2 where q: "\<not> zp w2" "proj q = (a2, b2, c2)" "zp (U2 - w2 * a2)" "zp (V2 - w2 * b2)" "zp (W2 - w2 * c2)"
    using assms(2) unfolding rep_proj by blast
  have cross: "zp (a1 * c2 - a2 * c1)" if "zp (A1 * W2 - A2 * W1)" "zp (A1 - w1 * a1)" "zp (A2 - w2 * a2)" for A1 A2 a1 a2
  proof -
    have "A1 mod curveP = (w1 * a1) mod curveP" "A2 mod curveP = (w2 * a2) mod curveP"
      "W1 mod curveP = (w1 * c1) mod curveP" "W2 mod curveP = (w2 * c2) mod curveP"
      using that p(5) q(5) by (simp_all add: zp_eq)
    then have "(A1 * W2 - A2 * W1) mod curveP = (w1 * a1 * (w2 * c2) - w2 * a2 * (w1 * c1)) mod curveP"
      by (intro mod_diff_cong mod_mult_cong)
    also have "w1 * a1 * (w2 * c2) - w2 * a2 * (w1 * c1) = w1 * w2 * (a1 * c2 - a2 * c1)" by algebra
    finally have "zp (w1 * w2 * (a1 * c2 - a2 * c1))" using that(1) by (simp only: dvd_eq_mod_eq_0)
    then show ?thesis using zp_mult [OF assms(5)] p(1) q(1) by blast
  qed
  have x: "zp (a1 * c2 - a2 * c1)" using cross assms(6) p(3) q(3) by blast
  have y: "zp (b1 * c2 - b2 * c1)" using cross assms(7) p(4) q(4) by blast
  have one: "\<not> zp 1" "\<not> zp (- 1)" using zp_small [of 1] curve_bounds(2) by simp_all
  show ?thesis
  proof (cases p; cases q)
    fix r s assume rs: "p = Some r" "q = Some s"
    obtain x1 y1 x2 y2 where xy: "r = (x1, y1)" "s = (x2, y2)" by (cases r; cases s) simp
    have "x1 mod curveP = x2 mod curveP" "y1 mod curveP = y2 mod curveP"
      using x y p(2) q(2) by (simp_all add: rs xy proj_def zp_eq)
    then show ?thesis using assms(3,4) by (simp add: rs xy point_ok_def onCurve_iff)
  qed (use x y one p(2) q(2) in \<open>auto simp: proj_def\<close>)
qed

lemma pointAdd_closed: "point_ok p \<Longrightarrow> point_ok q \<Longrightarrow> \<not> curve_defect \<Longrightarrow> point_ok (pointAdd p q)"
  using pointAdd_ok no_factor by blast

lemma pointAdd_None [simp]: "pointAdd None p = p" "pointAdd p None = p"
  by (simp_all add: pointAdd_def split: option.split)

lemma pointAdd_commute:
  assumes "point_ok p" and "point_ok q" and "\<not> curve_defect"
  shows "pointAdd p q = pointAdd q p"
proof -
  obtain a1 b1 c1 a2 b2 c2 where pq: "proj p = (a1, b1, c1)" "proj q = (a2, b2, c2)" by (cases "proj p"; cases "proj q")
  note left = sum_proj [OF assms pq] and right = sum_proj [OF assms(2,1,3) pq(2,1)]
  show ?thesis
    by (rule rep_unique [OF left right pointAdd_closed [OF assms] pointAdd_closed [OF assms(2,1,3)] no_factor [OF assms(3)]])
      (simp_all add: sum_commute [of a1 b1 c1 a2 b2 c2])
qed

lemma curve_fp: "onCurve x y \<Longrightarrow> \<not> field_factor \<Longrightarrow> (of_int y :: fp) ^ 2 = of_int x ^ 3 + 7"
  using of_int_fp_eq [of "y * y" "x * x * x + 7"]
  by (simp add: onCurve_iff curve_gap_def power2_eq_square power3_eq_cube)

lemma rep_affine: "rep x y 1 (Some (x, y))"
  using zp_small [of 1] curve_bounds(2) by (auto simp: rep_def intro!: exI [of _ 1])

lemma pointAdd_assoc:
  assumes "point_ok p" and "point_ok q" and "point_ok r" and "\<not> curve_defect"
  shows "pointAdd (pointAdd p q) r = pointAdd p (pointAdd q r)"
proof (cases "p = None \<or> q = None \<or> r = None")
  case False
  note nf = no_factor [OF assms(4)]
  obtain x1 y1 x2 y2 x3 y3 where pqr: "p = Some (x1, y1)" "q = Some (x2, y2)" "r = Some (x3, y3)" using False by auto
  have on: "onCurve x1 y1" "onCurve x2 y2" "onCurve x3 y3" using assms(1-3) by (simp_all add: pqr point_ok_def)
  let ?X12 = "sumX x1 y1 1 x2 y2 1" and ?Y12 = "sumY x1 y1 1 x2 y2 1" and ?Z12 = "sumZ x1 y1 1 x2 y2 1"
  let ?X23 = "sumX x2 y2 1 x3 y3 1" and ?Y23 = "sumY x2 y2 1 x3 y3 1" and ?Z23 = "sumZ x2 y2 1 x3 y3 1"
  note rp = rep_affine [of x1 y1, folded pqr(1)] and rq = rep_affine [of x2 y2, folded pqr(2)]
    and rr = rep_affine [of x3 y3, folded pqr(3)]
  have ok: "point_ok (pointAdd p q)" "point_ok (pointAdd q r)" using pointAdd_closed assms by blast+
  have left: "rep (sumX ?X12 ?Y12 ?Z12 x3 y3 1) (sumY ?X12 ?Y12 ?Z12 x3 y3 1) (sumZ ?X12 ?Y12 ?Z12 x3 y3 1) (pointAdd (pointAdd p q) r)"
    by (rule rep_sum [OF rep_sum [OF rp rq assms(1,2,4)] rr ok(1) assms(3,4)])
  have right: "rep (sumX x1 y1 1 ?X23 ?Y23 ?Z23) (sumY x1 y1 1 ?X23 ?Y23 ?Z23) (sumZ x1 y1 1 ?X23 ?Y23 ?Z23) (pointAdd p (pointAdd q r))"
    by (rule rep_sum [OF rp rep_sum [OF rq rr assms(2,3,4)] assms(1) ok(2) assms(4)])
  note assoc = sum_assoc [OF curve_fp [OF on(1) nf] curve_fp [OF on(2) nf] curve_fp [OF on(3) nf]]
  have one: "(1 :: fp) = of_int 1" by simp
  have "zp (sumX ?X12 ?Y12 ?Z12 x3 y3 1 * sumZ x1 y1 1 ?X23 ?Y23 ?Z23 - sumX x1 y1 1 ?X23 ?Y23 ?Z23 * sumZ ?X12 ?Y12 ?Z12 x3 y3 1)"
    unfolding of_int_fp_eq [OF nf, symmetric] of_int_mult sum_of_int of_int_1 by (rule assoc(1))
  moreover have "zp (sumY ?X12 ?Y12 ?Z12 x3 y3 1 * sumZ x1 y1 1 ?X23 ?Y23 ?Z23 - sumY x1 y1 1 ?X23 ?Y23 ?Z23 * sumZ ?X12 ?Y12 ?Z12 x3 y3 1)"
    unfolding of_int_fp_eq [OF nf, symmetric] of_int_mult sum_of_int of_int_1 by (rule assoc(2))
  ultimately show ?thesis
    using rep_unique [OF left right _ _ nf] pointAdd_closed ok assms by blast
qed auto

text \<open>The opposite of a point.\<close>

definition pointNeg :: "point \<Rightarrow> point" where
  "pointNeg p = (case p of None \<Rightarrow> None | Some (x, y) \<Rightarrow> Some (x, curveP - y))"

lemma pointNeg_ok:
  assumes "point_ok p" and "\<not> curve_defect"
  shows "point_ok (pointNeg p)" and "pointAdd p (pointNeg p) = None"
proof -
  have "point_ok (pointNeg p) \<and> pointAdd p (pointNeg p) = None"
  proof (cases p)
    case (Some r)
    obtain x y where r: "r = (x, y)" by (cases r)
    have on: "onCurve x y" using assms(1) by (simp add: Some r point_ok_def)
    have y: "y \<noteq> 0" using second_unit(2) [OF on assms(2)] .
    have "curve_gap x (curveP - y) - curve_gap x y = curveP * (curveP - 2 * y)" unfolding curve_gap_def by algebra
    then have "zp (curve_gap x (curveP - y))" using on zp_diff [of "curve_gap x (curveP - y)" "curve_gap x y"] by (simp add: onCurve_iff)
    then have "onCurve x (curveP - y)" using on y by (auto simp: onCurve_iff)
    moreover have "y \<noteq> curveP - y" using curveP_odd by (metis diff_add_cancel even_add)
    ultimately show ?thesis by (simp add: Some r pointNeg_def point_ok_def pointAdd_def)
  qed (simp add: pointNeg_def point_ok_def)
  then show "point_ok (pointNeg p)" and "pointAdd p (pointNeg p) = None" by blast+
qed

section \<open>Multiples\<close>

text \<open>\<open>scalarMult\<close> is repeated addition.\<close>

primrec nmul :: "nat \<Rightarrow> point \<Rightarrow> point" where
  "nmul 0 p = None"
| "nmul (Suc n) p = pointAdd (nmul n p) p"

lemma nmul_None [simp]: "nmul n None = None"
  by (induction n) simp_all

lemma nmul_ok: "point_ok p \<Longrightarrow> \<not> curve_defect \<Longrightarrow> point_ok (nmul n p)"
  by (induction n) (simp_all add: pointAdd_closed point_ok_def [of None])

lemma nmul_add:
  assumes "point_ok p" and "\<not> curve_defect"
  shows "nmul (m + n) p = pointAdd (nmul m p) (nmul n p)"
  by (induction n) (simp_all add: pointAdd_assoc assms nmul_ok)

lemma nmul_mult:
  assumes "point_ok p" and "\<not> curve_defect"
  shows "nmul (m * n) p = nmul m (nmul n p)"
proof (induction m)
  case (Suc m)
  then show ?case using nmul_add [OF assms, of "m * n" n] by (simp add: add.commute)
qed simp

lemma nmul_mod:
  assumes "point_ok p" and "\<not> curve_defect" and "nmul n p = None"
  shows "nmul m p = nmul (m mod n) p"
proof -
  have "nmul m p = nmul (m div n * n + m mod n) p" by simp
  also have "\<dots> = pointAdd (nmul (m div n * n) p) (nmul (m mod n) p)" by (rule nmul_add [OF assms(1,2)])
  also have "nmul (m div n * n) p = None" using nmul_mult [OF assms(1,2)] assms(3) by simp
  finally show ?thesis by simp
qed

lemma scalarMult_nmul:
  assumes "onCurve x y" and "\<not> curve_defect"
  shows "fst (scalarMult (int n) x y) = nmul n (Some (x, y))"
proof (induction n rule: less_induct)
  case (less n)
  have ok: "point_ok (Some (x, y))" using assms(1) by (simp add: point_ok_def)
  show ?case
  proof (cases "n = 0")
    case True
    then show ?thesis by (simp add: scalarMult_def int_bits_def)
  next
    case False
    define h where "h = n div 2"
    have n: "2 * h + of_bool (odd n) = n" unfolding h_def by (cases "even n") auto
    have "int_bits (int n) = int_bits (int h) @ [odd n]"
      using int_bits_snoc [of h "odd n"] False unfolding n by simp
    then have step: "scalarMult (int n) x y = mult_step x y (odd n) (scalarMult (int h) x y)"
      by (simp add: scalarMult_def)
    have "fst (scalarMult (int h) x y) = nmul h (Some (x, y))" using less False by (simp add: h_def)
    then have "pointDouble (fst (scalarMult (int h) x y)) = nmul (h + h) (Some (x, y))"
      using nmul_add [OF ok assms(2)] by (simp flip: pointAdd_same)
    then have "fst (scalarMult (int n) x y) = nmul (2 * h + of_bool (odd n)) (Some (x, y))"
      unfolding step mult_step_def Let_def by (cases "odd n") (simp_all add: mult_2)
    then show ?thesis unfolding n .
  qed
qed

lemma opposite_unique:
  assumes "point_ok p" and "point_ok q" and "\<not> curve_defect" and "pointAdd p q = None"
  shows "q = pointNeg p"
proof -
  note neg = pointNeg_ok [OF assms(1,3)]
  have "q = pointAdd (pointAdd p (pointNeg p)) q" using neg(2) by simp
  also have "\<dots> = pointAdd (pointAdd (pointNeg p) p) q" using pointAdd_commute [OF assms(1) neg(1) assms(3)] by simp
  also have "\<dots> = pointAdd (pointNeg p) (pointAdd p q)" by (rule pointAdd_assoc [OF neg(1) assms(1-3)])
  finally show ?thesis using assms(4) by simp
qed

section \<open>The order of the base point\<close>

abbreviation base_point :: point where
  "base_point \<equiv> Some (curveGx, curveGy)"

definition order_factor :: bool where
  "order_factor \<longleftrightarrow> (\<exists>d. 1 < d \<and> d < curveN \<and> d dvd curveN)"

text \<open>What is left to exclude: an exception of the curve, a factor of the order, or a base point of another order.\<close>

definition group_defect :: bool where
  "group_defect \<longleftrightarrow> curve_defect \<or> order_factor \<or> scalarBaseMult curveN \<noteq> None"

lemma base_ok: "point_ok base_point"
  using base_on_curve by (simp add: point_ok_def)

lemma scalarBaseMult_nmul: "\<not> curve_defect \<Longrightarrow> 0 \<le> k \<Longrightarrow> scalarBaseMult k = nmul (nat k) base_point"
  using scalarMult_nmul [OF base_on_curve, of "nat k"] by (simp add: scalarBaseMult_def)

lemma base_order: "\<not> group_defect \<Longrightarrow> nmul (nat curveN) base_point = None"
  using scalarBaseMult_nmul [of curveN] curve_bounds(1) by (simp add: group_defect_def del: not_None_eq)

text \<open>Multiples of the base point depend on the multiplier modulo the order.\<close>

lemma base_mod:
  assumes "\<not> group_defect" and "curveN dvd a - b" and "0 \<le> a" and "0 \<le> b"
  shows "nmul (nat a) base_point = nmul (nat b) base_point"
proof -
  have cd: "\<not> curve_defect" using assms(1) by (simp add: group_defect_def)
  have "a mod curveN = b mod curveN" using assms(2) by (simp add: mod_eq_dvd_iff)
  then have "nat a mod nat curveN = nat b mod nat curveN"
    using assms(3,4) curve_bounds(1) by (simp flip: nat_mod_distrib)
  then show ?thesis using nmul_mod [OF base_ok cd base_order [OF assms(1)]] by metis
qed

lemma scalar_inverse:
  assumes "0 < g" and "g < curveN" and "\<not> order_factor"
  obtains x where "ModInverse g curveN = Some x" and "curveN dvd g * x - 1" and "0 \<le> x" and "x < curveN"
proof (cases "ModInverse g curveN")
  case None
  obtain d x where e: "egcd (g mod curveN) curveN 1 0 = (d, x)" by (cases "egcd (g mod curveN) curveN 1 0")
  have g: "g mod curveN = g" using assms(1,2) by simp
  have d: "d = gcd g curveN" using egcd_gcd [OF _ _ e] assms(1) curve_bounds(1) unfolding g by simp
  have "d \<noteq> 1" using None e by (auto simp: ModInverse_def)
  moreover have "d \<le> g" "0 < d" "d dvd curveN" using assms(1) unfolding d by (simp_all add: zdvd_imp_le)
  ultimately have "1 < d \<and> d < curveN \<and> d dvd curveN" using assms(2) by linarith
  then show thesis using assms(3) unfolding order_factor_def by blast
next
  case (Some x)
  note inv = ModInverse_value [OF Some curve_bounds(1)]
  have "(g * x) mod curveN = 1 mod curveN" using inv(1) curve_bounds(1) by simp
  then show thesis using that Some inv(2,3) by (simp add: mod_eq_dvd_iff)
qed

lemma base_multiple_affine:
  assumes "\<not> group_defect" and "0 < d" and "d < curveN"
  obtains x y where "nmul (nat d) base_point = Some (x, y)" and "onCurve x y"
proof -
  have cd: "\<not> curve_defect" and nf: "\<not> order_factor" using assms(1) by (simp_all add: group_defect_def)
  obtain e where e: "curveN dvd d * e - 1" "0 \<le> e" by (rule scalar_inverse [OF assms(2,3) nf])
  have "nmul (nat e) (nmul (nat d) base_point) = nmul (nat (d * e)) base_point"
    using nmul_mult [OF base_ok cd, of "nat e" "nat d"] assms(2) e(2) by (simp add: nat_mult_distrib mult.commute)
  also have "\<dots> = nmul (nat 1) base_point" by (rule base_mod [OF assms(1) e(1)]) (use assms(2) e(2) in simp_all)
  also have "nmul (nat 1) base_point = base_point" by simp
  finally have "nmul (nat d) base_point \<noteq> None" using nmul_None by (metis option.distinct(1))
  then obtain p where p: "nmul (nat d) base_point = Some p" by blast
  obtain x y where "p = (x, y)" by (cases p)
  then show thesis using that p nmul_ok [OF base_ok cd, of "nat d"] by (simp add: point_ok_def)
qed

section \<open>Signatures\<close>

text \<open>The multiple that \<open>Verify\<close> computes is the nonce, or its opposite, modulo the order.\<close>

lemma signature_multiple:
  fixes n :: int
  assumes "n dvd s * w - 1" and "n dvd s * k - e * (r * d + z)" and "e * e = 1"
  shows "n dvd (z * w) mod n + (r * w) mod n * d - e * k"
proof -
  have "((z * w) mod n + (r * w) mod n * d - e * k) mod n = (z * w + r * w * d - e * k) mod n"
    by (intro mod_diff_cong mod_add_cong mod_mult_cong) simp_all
  moreover have "z * w + r * w * d - e * k = (e * k) * (s * w - 1) - (e * w) * (s * k - e * (r * d + z)) - (e * e - 1) * w * (r * d + z)"
    by algebra
  then have "z * w + r * w * d - e * k = (e * k) * (s * w - 1) - (e * w) * (s * k - e * (r * d + z))"
    unfolding assms(3) by simp
  then have "n dvd z * w + r * w * d - e * k" using dvd_diff [OF dvd_mult [OF assms(1), of "e * k"] dvd_mult [OF assms(2), of "e * w"]] by (simp only:)
  ultimately show ?thesis by (simp only: dvd_eq_mod_eq_0)
qed

text \<open>The opposite multiple has the same first coordinate.\<close>

lemma opposite_multiple:
  assumes "\<not> group_defect" and "0 < k" and "k < curveN" and "nmul (nat k) base_point = Some (x, y)"
  shows "nmul (nat (curveN - k)) base_point = Some (x, curveP - y)"
proof -
  have cd: "\<not> curve_defect" using assms(1) by (simp add: group_defect_def)
  have "nat k + nat (curveN - k) = nat curveN" using assms(2,3) by simp
  then have "pointAdd (nmul (nat k) base_point) (nmul (nat (curveN - k)) base_point) = None"
    using nmul_add [OF base_ok cd, of "nat k" "nat (curveN - k)"] base_order [OF assms(1)] by simp
  then have "nmul (nat (curveN - k)) base_point = pointNeg (nmul (nat k) base_point)"
    using opposite_unique nmul_ok [OF base_ok cd] cd by blast
  then show ?thesis by (simp add: assms(4) pointNeg_def)
qed

text \<open>The equation of a signature is what \<open>Verify\<close> accepts, for both signs.\<close>

lemma equation_verifies:
  assumes "\<not> group_defect" and "0 < d" and "d < curveN" and "0 < k" and "k < curveN"
    and "nmul (nat d) base_point = Some (X pub, Y pub)" and "nmul (nat k) base_point = Some (x, y)"
    and "R sig = x mod curveN" and "0 < R sig" and "0 < S sig" and "S sig < curveN"
    and "curveN dvd S sig * k - e * (R sig * d + bits2int hash 256)" and "e = 1 \<or> e = - 1"
  shows "VerifySig pub hash sig = Inr True"
proof -
  have cd: "\<not> curve_defect" and nf: "\<not> order_factor" using assms(1) by (simp_all add: group_defect_def)
  have on: "onCurve (X pub) (Y pub)" using nmul_ok [OF base_ok cd, of "nat d"] assms(6) by (simp add: point_ok_def)
  obtain w where w: "ModInverse (S sig) curveN = Some w" "curveN dvd S sig * w - 1" by (rule scalar_inverse [OF assms(10,11) nf])
  define u1 where "u1 = (bits2int hash 256 * w) mod curveN"
  define u2 where "u2 = (R sig * w) mod curveN"
  have u: "0 \<le> u1" "0 \<le> u2" using curve_bounds(1) by (simp_all add: u1_def u2_def)
  have p1: "scalarBaseMult u1 = nmul (nat u1) base_point" by (rule scalarBaseMult_nmul [OF cd u(1)])
  have "fst (scalarMult u2 (X pub) (Y pub)) = nmul (nat u2) (nmul (nat d) base_point)"
    using scalarMult_nmul [OF on cd, of "nat u2"] u(2) assms(6) by simp
  then have p2: "fst (scalarMult u2 (X pub) (Y pub)) = nmul (nat (u2 * d)) base_point"
    using nmul_mult [OF base_ok cd, of "nat u2" "nat d"] u(2) by (simp add: nat_mult_distrib)
  have sum: "pointAdd (scalarBaseMult u1) (fst (scalarMult u2 (X pub) (Y pub))) = nmul (nat (u1 + u2 * d)) base_point"
    unfolding p1 p2 using nmul_add [OF base_ok cd, of "nat u1" "nat (u2 * d)"] u assms(2) by (simp add: nat_add_distrib)
  have m: "curveN dvd u1 + u2 * d - e * k"
    unfolding u1_def u2_def by (rule signature_multiple [OF w(2) assms(12)]) (use assms(13) in auto)
  have pos: "0 \<le> u1 + u2 * d" using u assms(2) by simp
  have "\<exists>y'. nmul (nat (u1 + u2 * d)) base_point = Some (x, y')"
  proof (cases "e = 1")
    case True
    then have "nmul (nat (u1 + u2 * d)) base_point = nmul (nat k) base_point"
      using m pos assms(4) by (intro base_mod [OF assms(1)]) simp_all
    then show ?thesis using assms(7) by simp
  next
    case False
    then have e: "e = - 1" using assms(13) by blast
    have "curveN dvd u1 + u2 * d - (curveN - k)" using dvd_diff [OF m dvd_refl] unfolding e by (simp add: algebra_simps)
    then have "nmul (nat (u1 + u2 * d)) base_point = nmul (nat (curveN - k)) base_point"
      using pos assms(5) by (intro base_mod [OF assms(1)]) simp_all
    then show ?thesis using opposite_multiple [OF assms(1,4,5,7)] by simp
  qed
  moreover obtain p own where run: "scalarMult u2 (X pub) (Y pub) = (p, own)" by fastforce
  ultimately obtain y' where y': "pointAdd (scalarBaseMult u1) p = Some (x, y')" using sum by auto
  have "R sig < curveN" unfolding assms(8) using curve_bounds(1) by simp
  then show ?thesis
    using on w(1) assms(9-11) y' [unfolded u1_def] run [unfolded u2_def] assms(8) [symmetric]
    by (simp add: VerifySig_def Verify_run_def Let_def)
qed

text \<open>Nonces are in range.\<close>

lemma nonce_range: "nonce_loop kk v = Some k \<Longrightarrow> 0 < k \<and> k < curveN"
  by (erule nonce_loop.raw_induct [where P = "\<lambda>_ _ k. 0 < k \<and> k < curveN", rotated])
    (auto simp: Let_def split: if_splits)

lemma rfc6979Nonce_range: "rfc6979Nonce d hash = Some k \<Longrightarrow> 0 < k \<and> k < curveN"
  by (auto simp: rfc6979Nonce_def Let_def dest: nonce_range)

lemma nHalf_less: "s \<le> nHalf \<Longrightarrow> s < curveN"
  by (simp add: nHalf_def curveN_def)

text \<open>The other sign.\<close>

lemma other_sign:
  fixes n :: int
  assumes "n dvd s * k - e * a"
  shows "n dvd (n - s) * k - (- e) * a"
proof -
  have "(n - s) * k - (- e) * a = n * k - (s * k - e * a)" by algebra
  then show ?thesis using dvd_diff [OF dvd_triv_left assms] by (simp only:)
qed

text \<open>What one attempt makes of a nonce satisfies the equation, with the sign that the low form takes.\<close>

lemma sign_attempt_equation:
  assumes "\<not> group_defect" and "0 < k" and "k < curveN" and "sign_attempt d z k = Inr (Some sig)"
  obtains x y e where "nmul (nat k) base_point = Some (x, y)" and "R sig = x mod curveN"
    and "curveN dvd S sig * k - e * (R sig * d + z)" and "e = 1 \<or> e = - 1"
proof -
  have cd: "\<not> curve_defect" using assms(1) by (simp add: group_defect_def)
  obtain x y where xy: "nmul (nat k) base_point = Some (x, y)" "onCurve x y" by (rule base_multiple_affine [OF assms(1-3)])
  have "k < 2 ^ 256" using assms(3) curve_bounds(3) by simp
  then have "fe_big (affineX (scalarMultCT (scalarBits k) ctBaseG)) = x"
    using nonce_point [OF cd, of k] scalarBaseMult_nmul [OF cd, of k] xy(1) assms(2) by simp
  then obtain kInv where inv: "ModInverse k curveN = Some kInv" and r: "R sig = x mod curveN"
    and s: "S sig = (let s = ((R sig * d + z) * kInv) mod curveN in if nHalf < s then curveN - s else s)"
    using assms(4) by (auto simp: sign_attempt_def Let_def split: option.splits if_splits)
  define t where "t = ((R sig * d + z) * kInv) mod curveN"
  have "(k * kInv) mod curveN = 1 mod curveN" using ModInverse_value(1) [OF inv curve_bounds(1)] curve_bounds(1) by simp
  then have k: "curveN dvd k * kInv - 1" by (simp add: mod_eq_dvd_iff)
  have "curveN dvd t - (R sig * d + z) * kInv" unfolding t_def by (simp flip: mod_eq_dvd_iff)
  then have "curveN dvd k * (t - (R sig * d + z) * kInv) + (R sig * d + z) * (k * kInv - 1)" using k by (intro dvd_add dvd_mult)
  also have "k * (t - (R sig * d + z) * kInv) + (R sig * d + z) * (k * kInv - 1) = t * k - 1 * (R sig * d + z)" by algebra
  finally have t: "curveN dvd t * k - 1 * (R sig * d + z)" .
  show thesis
  proof (cases "nHalf < t")
    case True
    then have "S sig = curveN - t" using s unfolding t_def [symmetric] Let_def by simp
    then show thesis using that [OF xy(1) r, of "- 1"] other_sign [OF t] by simp
  next
    case False
    then have "S sig = t" using s unfolding t_def [symmetric] Let_def by simp
    then show thesis using that [OF xy(1) r, of 1] t by simp
  qed
qed

lemma sign_loop_attempt:
  "sign_loop d z hash n i = Some (Inr sig) \<Longrightarrow> \<exists>k. 0 < k \<and> k < curveN \<and> sign_attempt d z k = Inr (Some sig)"
proof (induction n arbitrary: i)
  case (Suc n)
  then show ?case using rfc6979Nonce_range by (auto split: option.splits sum.splits if_splits)
qed simp

lemma sign_attempt_total:
  assumes "0 < k" and "k < curveN" and "\<not> order_factor"
  shows "\<exists>r. sign_attempt d z k = Inr r"
proof -
  obtain x where "ModInverse k curveN = Some x" by (rule scalar_inverse [OF assms])
  then show ?thesis by (simp add: sign_attempt_def Let_def)
qed

lemma sign_loop_error:
  assumes "\<not> order_factor"
  shows "sign_loop d z hash n i = Some (Inl e) \<Longrightarrow> e = ErrOther ''crypto: signing failed''"
proof (induction n arbitrary: i)
  case (Suc n)
  have "\<exists>r. sign_attempt d z k = Inr r" if "rfc6979Nonce d h = Some k" for h k
    using sign_attempt_total rfc6979Nonce_range that assms by blast
  then have "sign_attempt d z k \<noteq> Inl e'" if "rfc6979Nonce d h = Some k" for h k e'
    using that by (metis Inl_Inr_False)
  then show ?case using Suc by (auto split: option.splits sum.splits if_splits)
qed simp

text \<open>Keys of the range that \<open>NewPrivateKey\<close> makes.\<close>

lemma key_public:
  assumes "\<not> group_defect" and "0 < D k" and "D k < curveN"
  obtains pub where "Public k = Some pub" and "onCurve (X pub) (Y pub)"
proof -
  have cd: "\<not> curve_defect" using assms(1) by (simp add: group_defect_def)
  obtain x y where xy: "nmul (nat (D k)) base_point = Some (x, y)" "onCurve x y" by (rule base_multiple_affine [OF assms])
  then show thesis using that [of "\<lparr>X = x, Y = y\<rparr>"] scalarBaseMult_nmul [OF cd, of "D k"] assms(2) by (simp add: Public_def)
qed

lemma Sign_verifies:
  assumes "\<not> group_defect" and "0 < D k" and "Public k = Some pub" and "Sign (Some k) hash = Some (Inr sig)"
  shows "VerifySig pub hash sig = Inr True" and "VerifySig pub hash (sig\<lparr>S := curveN - S sig\<rparr>) = Inr True"
proof -
  let ?z = "bits2int hash 256"
  have cd: "\<not> curve_defect" using assms(1) by (simp add: group_defect_def)
  have d: "D k < curveN" and sig: "sign_loop (D k) ?z hash 1000 0 = Some (Inr sig)"
    using assms(4) by (auto simp: Sign_def split: if_splits)
  have pub: "nmul (nat (D k)) base_point = Some (X pub, Y pub)"
    using assms(2,3) scalarBaseMult_nmul [OF cd, of "D k"] by (auto simp: Public_def)
  obtain n where n: "0 < n" "n < curveN" "sign_attempt (D k) ?z n = Inr (Some sig)" using sign_loop_attempt [OF sig] by blast
  obtain x y e where e: "nmul (nat n) base_point = Some (x, y)" "R sig = x mod curveN"
    "curveN dvd S sig * n - e * (R sig * D k + ?z)" "e = 1 \<or> e = - 1"
    by (rule sign_attempt_equation [OF assms(1) n])
  have r: "0 < R sig" "0 < S sig" "S sig < curveN" using sign_attempt_range [OF n(3)] nHalf_less by auto
  note verifies = equation_verifies [OF assms(1,2) d n(1,2) pub e(1), where hash = hash]
  show "VerifySig pub hash sig = Inr True" by (rule verifies [OF e(2) r e(3,4)])
  show "VerifySig pub hash (sig\<lparr>S := curveN - S sig\<rparr>) = Inr True"
    by (rule verifies [where e = "- e"]) (use e r other_sign [OF e(3)] in auto)
qed

lemma Sign_fails:
  assumes "\<not> order_factor" and "0 < D k" and "D k < curveN" and "Sign (Some k) hash = Some (Inl e)"
  shows "e = ErrOther ''crypto: signing failed''"
  using assms(2-4) sign_loop_error [OF assms(1)] by (auto simp: Sign_def split: if_splits)

section \<open>Properties\<close>

text \<open>
  C20. A signature that \<open>Sign\<close> returns verifies. For the key of any seed and any hash, the public key exists and
  is a point of the curve; \<open>Sign\<close> fails at most by running out of attempts, never by a panic; and when it returns
  a signature, \<open>Verify\<close> accepts it under the public key. It accepts the malleated form with \<open>n - S\<close> as well, so
  only the low-S rule tells the two apart. Or the theorem exhibits a factor of one of the primes, a point of
  order two, or that the order of the base point does not divide \<open>curveN\<close>.
\<close>

theorem signatures_verify:
  "group_defect \<or>
   (\<exists>pub. Public (NewPrivateKey seed) = Some pub \<and> onCurve (X pub) (Y pub) \<and>
      (case Sign (Some (NewPrivateKey seed)) hash of
         Some (Inr sig) \<Rightarrow>
           VerifySig pub hash sig = Inr True \<and> VerifySig pub hash (sig\<lparr>S := curveN - S sig\<rparr>) = Inr True
       | Some (Inl e) \<Rightarrow> e = ErrOther ''crypto: signing failed''
       | None \<Rightarrow> True))"
proof (cases group_defect)
  case False
  let ?k = "NewPrivateKey seed"
  have nf: "\<not> order_factor" using False by (simp add: group_defect_def)
  have d: "0 < D ?k" "D ?k < curveN" using NewPrivateKey_range [of seed] by simp_all
  obtain pub where pub: "Public ?k = Some pub" "onCurve (X pub) (Y pub)" by (rule key_public [OF False d])
  show ?thesis
    using pub Sign_verifies [OF False d(1) pub(1)] Sign_fails [OF nf d]
    by (intro disjI2 exI [of _ pub]) (auto split: option.split sum.split)
qed simp

end
