(* ===== verification/EndToEnd.thy ===== *)
theory EndToEnd
  imports PointGroup Demo
begin

text \<open>
  The parts together, with the signatures made by \<open>crypto.Sign\<close>: a payment that the payer's wallet signs is
  accepted by the merchant, the evidence that the owner of an output signs is admitted by the alert bus and
  stops the payment at the merchant, and the demonstration of cmd/mfspv accepts its payment and then refuses it.

  What these need beyond the theorems on the parts is that signatures verify (theory PointGroup), so they hold or
  exhibit \<open>group_defect\<close>.
\<close>

section \<open>Keys\<close>

text \<open>Keys as \<open>NewPrivateKey\<close> makes them.\<close>

definition key_ok :: "private_key \<Rightarrow> bool" where
  "key_ok k \<longleftrightarrow> 0 < D k \<and> D k < curveN"

lemma new_key_ok [simp]: "key_ok (NewPrivateKey seed)"
  using NewPrivateKey_range [of seed] by (simp add: key_ok_def)

lemma key_encoding:
  assumes "\<not> group_defect" and "key_ok k"
  obtains pub pk where "Public k = Some pub" and "SerializeCompressed pub = Inr pk" and "length pk = 33"
    and "ParseCompressed pk = Inr pub"
proof -
  have nf: "\<not> field_factor" using assms(1) no_factor by (auto simp: group_defect_def)
  obtain pub where pub: "Public k = Some pub" "onCurve (X pub) (Y pub)"
    using key_public [OF assms(1)] assms(2) unfolding key_ok_def by blast
  then show thesis using that encoding_of_point [OF pub(2) nf] by blast
qed

text \<open>A wallet of such keys; adding outputs keeps it one.\<close>

definition wallet_ok :: "alice_wallet \<Rightarrow> bool" where
  "wallet_ok w \<longleftrightarrow> (\<forall>ou k. keys w ou = Some (Some k) \<longrightarrow> key_ok k)"

lemma wallet_ok_New [simp]: "wallet_ok New"
  by (simp add: wallet_ok_def New_def)

lemma wallet_ok_AddOutput [simp]: "wallet_ok w \<Longrightarrow> key_ok k \<Longrightarrow> wallet_ok (AddOutput w b (Some k))"
  by (auto simp: wallet_ok_def AddOutput_def)

section \<open>Signed inputs\<close>

text \<open>The input that the wallet signed is what the merchant calls signed.\<close>

lemma held_key_signs:
  assumes "\<not> group_defect" and "wallet_ok w" and "spends_with_held_key w tx b j" and "j < length (Inputs tx)"
  shows "signed_by_own_key tx j"
proof -
  let ?i = "Inputs tx ! j"
  obtain k pub sig where k: "keys w (OutputRef b) = Some (Some k)" "Public k = Some pub"
    "SerializeCompressed pub = Inr (PubKey ?i)" "Sign (Some k) (bytes_of (Sighash tx (int j))) = Some (Inr sig)"
    "SerializeSig sig = Inr (Sig ?i)"
    using assms(3) by (auto simp: spends_with_held_key_def)
  have ok: "key_ok k" using assms(2) k(1) by (auto simp: wallet_ok_def)
  obtain pk where pk: "SerializeCompressed pub = Inr pk" "length pk = 33" "ParseCompressed pk = Inr pub"
    using key_encoding [OF assms(1) ok] k(2) by auto
  note form = Sign_form [OF k(4)]
  have "VerifySig pub (bytes_of (Sighash tx (int j))) sig = Inr True"
    using Sign_verifies(1) [OF assms(1) _ k(2,4)] ok by (simp add: key_ok_def)
  then show ?thesis
    using assms(4) pk k(3,5) form(5,6) by (auto simp: signed_by_own_key_def VerifyInputSignature_def)
qed

lemma filled_signed:
  assumes "\<not> group_defect" and "wallet_ok w" and "FillTemplate w t ins cs v = Some (Inr tx)"
  shows "list_all (signed_by_own_key tx) [0..<length (Inputs tx)]"
  using held_key_signs [OF assms(1,2)] FillTemplate_ok [OF assms(3)] by (auto simp: list_all_iff)

section \<open>Evidence\<close>

lemma SignSpend_ok:
  assumes "SignSpend (Some k) out spend = Some (Inr s)"
  obtains sig where "Sign (Some k) (bytes_of (spendMessage out spend)) = Some (Inr sig)"
    and "ParseSignature s = Inr sig" and "IsLowS sig"
proof -
  obtain sig where sig: "Sign (Some k) (bytes_of (spendMessage out spend)) = Some (Inr sig)" "SerializeSig sig = Inr s"
    using assms by (auto simp: SignSpend_def split: option.splits sum.splits)
  then show thesis using that Sign_form(5,6) [OF sig(1)] by auto
qed

lemma SignSpend_fails:
  assumes "\<not> group_defect" and "key_ok k" and "SignSpend (Some k) out spend = Some (Inl e)"
  shows "e = ErrOther ''crypto: signing failed''"
proof (cases "Sign (Some k) (bytes_of (spendMessage out spend))")
  case (Some r)
  show ?thesis
  proof (cases r)
    case (Inl x)
    then show ?thesis using Some assms Sign_fails [of k] by (simp add: SignSpend_def group_defect_def key_ok_def)
  next
    case (Inr sig)
    then show ?thesis using Some assms(3) Sign_form(6) [of "Some k" _ sig] by (auto simp: SignSpend_def)
  qed
qed (use assms(3) in \<open>simp add: SignSpend_def\<close>)

text \<open>Evidence of two spends, signed by the owner and attested, is admitted.\<close>

lemma own_evidence_admitted:
  assumes "\<not> group_defect" and "key_ok k" and "Public k = Some pub" and "X pub < curveN"
    and "A \<noteq> B" and "A \<noteq> zero_hash" and "B \<noteq> zero_hash"
    and "BuildEvidence (Some k) out A B = Some (Inr ev)" and "Attest out ev = Some a"
  shows "VerifyAlert a = Inr True" and "Outpoint a = out" and "Evidence a = ev"
    and "SerializeCompressed pub = Inr (OwnerPubKey ev)" and "OwnerPubKey ev \<noteq> []"
proof -
  obtain pk where pk: "SerializeCompressed pub = Inr pk" "length pk = 33" "ParseCompressed pk = Inr pub"
    using key_encoding [OF assms(1,2)] assms(3) by auto
  obtain s1 s2 where s: "SignSpend (Some k) out A = Some (Inr s1)" "SignSpend (Some k) out B = Some (Inr s2)"
    and ev: "ev = \<lparr>OwnerPubKey = pk, SpendA = A, SigA = s1, SpendB = B, SigB = s2\<rparr>"
    using assms(3,8) pk(1) by (auto simp: BuildEvidence_def split: option.splits sum.splits)
  obtain sigA where sA: "Sign (Some k) (bytes_of (spendMessage out A)) = Some (Inr sigA)" "ParseSignature s1 = Inr sigA" "IsLowS sigA"
    by (rule SignSpend_ok [OF s(1)])
  obtain sigB where sB: "Sign (Some k) (bytes_of (spendMessage out B)) = Some (Inr sigB)" "ParseSignature s2 = Inr sigB" "IsLowS sigB"
    by (rule SignSpend_ok [OF s(2)])
  have d: "0 < D k" using assms(2) by (simp add: key_ok_def)
  note v = Sign_verifies(1) [OF assms(1) d assms(3) sA(1)] Sign_verifies(1) [OF assms(1) d assms(3) sB(1)]
  obtain pub' where run: "Verify_run pub (bytes_of (spendMessage out A)) sigA = Inr (True, pub')"
    using v(1) by (auto simp: VerifySig_def)
  have "0 \<le> X pub" using onCurve_range ParseCompressed_ok(4) [OF pk(3)] by blast
  then have same: "pub' = pub" using Verify_run_key [OF run] assms(4) by auto
  obtain n where a: "a = with_nonce \<lparr>Outpoint = out, Evidence = ev, AttesterPoW = []\<rparr> n" "attested a"
    using attest_loop_sound assms(9) unfolding Attest_def by blast
  show out: "Outpoint a = out" "Evidence a = ev" by (simp_all add: a(1) with_nonce_def)
  have "\<not> leadingZeroBits (alertDigest a) < PoWBits" using a(2) pow_bound [of "alertDigest a"] by (simp add: attested_def)
  then show "VerifyAlert a = Inr True"
    using assms(5-7) out pk(3) sA(2,3) sB(2,3) run v(2) same by (simp add: VerifyAlert_def ev)
  show "SerializeCompressed pub = Inr (OwnerPubKey ev)" using pk(1) by (simp add: ev)
  show "OwnerPubKey ev \<noteq> []" using pk(2) by (auto simp: ev)
qed

lemma BuildEvidence_fails:
  assumes "\<not> group_defect" and "key_ok k" and "BuildEvidence (Some k) out A B = Some (Inl e)"
  shows "e = ErrOther ''crypto: signing failed''"
proof -
  obtain pub pk where "Public k = Some pub" "SerializeCompressed pub = Inr pk" by (rule key_encoding [OF assms(1,2)])
  then show ?thesis using assms(3) SignSpend_fails [OF assms(1,2)]
    by (auto simp: BuildEvidence_def split: option.splits sum.splits)
qed

lemma BuildEvidence_key:
  "BuildEvidence (Some k) out A B = Some (Inr ev) \<Longrightarrow> length (OwnerPubKey ev) = 33"
  by (auto simp: BuildEvidence_def dest: length_key_sig(1) split: option.splits sum.splits)

text \<open>What is published stays on the bus, and speaks against a payment that spends the output with the key.\<close>

lemma published_alert_heard:
  assumes "VerifyAlert a = Inr True" and "Publish now a b = Inr (ok, b')" and "run_bus es b' = Inr b''"
    and "alerts w = Some b''" and "AcceptPayment w t msg template v policy = Inr (d, None)" and "DecodeMessage msg = Inr m"
    and "spending_key (Inputs (Tx m)) (Outpoint a) = Some (OwnerPubKey (Evidence a))" and "t - Window policy < now"
  shows "\<not> AlertQuiet d" and "\<not> Accepted d"
proof -
  have "rec_of (now, a) \<in> set (go_get [] (seen b') (Outpoint a))"
    using assms(1) by (cases rule: Publish_cases [OF assms(2)]) (simp_all add: go_get_def)
  then have r: "rec_of (now, a) \<in> set (go_get [] (seen b'') (Outpoint a))" using run_seen [OF assms(3)] by simp
  have "\<not> no_alert b'' (t - Window policy) (Inputs (Tx m))"
    unfolding no_alert_def using assms(7,8) r by (force simp: rec_of_def)
  then have "\<not> AlertQuiet d \<and> \<not> Accepted d"
    using assms(4,6) by (cases rule: AcceptPayment_run [OF assms(5)]) (simp add: signals_def final_accepted)
  then show "\<not> AlertQuiet d" and "\<not> Accepted d" by blast+
qed

section \<open>The demonstration\<close>

lemma demo_fill_fails:
  assumes "\<not> group_defect" and "FillTemplate (demo_wallet fund) t [fund] None 0 = Some (Inl e)"
  shows "e = ErrOther ''crypto: signing failed''"
proof -
  let ?k = "demo_key ''alice''"
  have k: "key_ok ?k" by (simp add: demo_key_def)
  obtain pub pk where pub: "Public ?k = Some pub" "SerializeCompressed pub = Inr pk" by (rule key_encoding [OF assms(1) k])
  let ?tx = "t\<lparr>Inputs := [\<lparr>Prev = OutputRef fund, Sig = [], PubKey = pk\<rparr>]\<rparr>"
  have key: "keys (demo_wallet fund) (OutputRef fund) = Some (Some ?k)" by (simp add: demo_wallet_def AddOutput_def)
  have run: "sign_inputs (demo_wallet fund) [fund] 0 ?tx = Some (Inl e)"
    using assms(2) pub key by (simp add: FillTemplate_def new_input_def Let_def)
  then have "SignInput ?tx 0 (Some ?k) = Some (Inl e)"
    using key by (auto simp: go_get_def split: option.splits sum.splits)
  then show ?thesis
    using Sign_form(6) Sign_fails [of ?k] assms(1) k
    by (fastforce simp: SignInput_def group_defect_def key_ok_def split: option.splits sum.splits)
qed

text \<open>The transaction that the demonstration's wallet fills has one input, with a signature and a key of full length.\<close>

lemma filled_one:
  assumes "FillTemplate (demo_wallet fund) (demo_template script) [fund] None 0 = Some (Inr tx)"
  shows "\<exists>i. Inputs tx = [i] \<and> Prev i = OutputRef fund \<and> length (Sig i) = 64 \<and> length (PubKey i) = 33"
    and "Outputs tx = [\<lparr>Value = 900, ScriptPubKey = script\<rparr>]"
proof -
  note filled = FillTemplate_ok [OF assms]
  show "Outputs tx = [\<lparr>Value = 900, ScriptPubKey = script\<rparr>]" using filled by (simp add: change_outputs_def demo_template_def)
  obtain i where i: "Inputs tx = [i]" "Prev i = OutputRef fund"
    using filled by (cases "Inputs tx") (auto simp: spends_with_held_key_def)
  obtain pub sig where "SerializeCompressed pub = Inr (PubKey i)" "SerializeSig sig = Inr (Sig i)"
    using filled i(1) by (auto simp: spends_with_held_key_def)
  then show "\<exists>i. Inputs tx = [i] \<and> Prev i = OutputRef fund \<and> length (Sig i) = 64 \<and> length (PubKey i) = 33"
    using i length_key_sig by blast
qed

lemma demo_decision_accepts: "Accepted (demo_decision True)" "Reason (demo_decision True) = ''accepted''"
  by (simp_all add: demo_decision_def final_decision_def Decide_def demo_policy_def)

section \<open>Properties\<close>

text \<open>
  C36. An honest payment is settled, or \<open>group_defect\<close> holds: an exception of the curve or of its order, which
  theory PointGroup names and does not refute. The hypotheses are that the payer's wallet, all of whose keys are in
  \<open>[1, n-1]\<close>, fills and signs the merchant's template without an error from bundles that verify at the merchant and exports it; that the
  message is within the length fields of the format; that the outputs are unspent, no alert under a spending key
  lies inside the window, the value check passes, and the value at risk is within the threshold. Then
  the merchant's decision on the exported bytes is \<open>accepted\<close>. That the signatures verify is not a
  hypothesis: outside \<open>group_defect\<close> it is proved.
\<close>

theorem honest_payment_settles:
  assumes "FillTemplate aw template ins cs cv = Some (Inr tx)" and "Export ins tx = Inr msg"
    and "message_ok \<lparr>Tx = tx, Bundles = ins\<rparr>" and "wallet_ok aw"
    and "list_all (\<lambda>b. fst (Verify b (till_headers w)) \<and> IsUnspent (utxo w) (OutputRef b) = Inr True) ins"
    and "case alerts w of None \<Rightarrow> True | Some b \<Rightarrow> no_alert b (now - Window policy) (Inputs tx)"
    and "value_check (utxo w) tx = Inr True" and "float_le v (Tau policy)"
  shows "group_defect \<or>
    (\<exists>d. AcceptPayment w now msg template v policy = Inr (d, None) \<and> Accepted d \<and> Reason d = ''accepted'')"
proof (cases group_defect)
  case False
  then show ?thesis
    using honest_payment_accepted [OF assms(1-3,5) filled_signed [OF False assms(4,1)] assms(6-8)] by blast
qed simp

text \<open>
  A payment without inputs at a till without alerts, and the payment of the demonstration, with one signed
  input, at a till that reads the demonstration's node and a bus without alerts.
\<close>

theorem honest_payment_settles_witness:
  "(let t = \<lparr>Version = 2, Inputs = [], Outputs = [\<lparr>Value = 7, ScriptPubKey = [1]\<rparr>], LockTime = 3\<rparr>
    in group_defect \<or> (\<exists>d. AcceptPayment plain_till 0 (Encode \<lparr>Tx = t, Bundles = []\<rparr>) t (Finite 7)
        \<lparr>Tau = Finite 10, Window = 60\<rparr> = Inr (d, None) \<and> Accepted d \<and> Reason d = ''accepted'')) \<and>
   (\<exists>node fund. demo_node = Inr (node, fund) \<and>
     (case FillTemplate (demo_wallet fund) (demo_template [1, 2, 3]) [fund] None 0 of
        Some (Inr tx) \<Rightarrow> length (Inputs tx) = 1 \<and> length (Sig (Inputs tx ! 0)) = 64 \<and>
          (group_defect \<or> (\<exists>d. AcceptPayment (till_at (plain_till\<lparr>alerts := Some NewBus\<rparr>) node) 0
             (Encode \<lparr>Tx = tx, Bundles = [fund]\<rparr>) (demo_template [1, 2, 3]) (Finite 900) demo_policy = Inr (d, None) \<and>
             Accepted d \<and> Reason d = ''accepted''))
      | Some (Inl e) \<Rightarrow> group_defect \<or> e = ErrOther ''crypto: signing failed''
      | None \<Rightarrow> True))"
proof (intro conjI)
  show "let t = \<lparr>Version = 2, Inputs = [], Outputs = [\<lparr>Value = 7, ScriptPubKey = [1]\<rparr>], LockTime = 3\<rparr>
    in group_defect \<or> (\<exists>d. AcceptPayment plain_till 0 (Encode \<lparr>Tx = t, Bundles = []\<rparr>) t (Finite 7)
        \<lparr>Tau = Finite 10, Window = 60\<rparr> = Inr (d, None) \<and> Accepted d \<and> Reason d = ''accepted'')"
    unfolding Let_def
    by (rule honest_payment_settles [where aw = New and ins = "[]" and cs = None and cv = 0
        and tx = "\<lparr>Version = 2, Inputs = [], Outputs = [\<lparr>Value = 7, ScriptPubKey = [1]\<rparr>], LockTime = 3\<rparr>"])
      (simp_all add: FillTemplate_def Export_def message_ok_def tx_ok_def out_ok_def plain_till_def NewTill_def
        value_check_def)
next
  obtain node fund where n: "demo_node = Inr (node, fund)" "fst (Verify fund (Some (node_chain node)))" "Fields fund \<noteq> []"
    "wire_ok fund" "length (Serialize fund) < 2 ^ 32" "node_IsUnspent node (OutputRef fund) = Inr True"
    "node_OutputValue node (OutputRef fund) = Inr (1000, True)" by (rule demo_node_ok)
  let ?t = "demo_template [1, 2, 3]" and ?w = "till_at (plain_till\<lparr>alerts := Some NewBus\<rparr>) node"
  have paid: "length (Inputs tx) = 1 \<and> length (Sig (Inputs tx ! 0)) = 64 \<and>
      (group_defect \<or> (\<exists>d. AcceptPayment ?w 0 (Encode \<lparr>Tx = tx, Bundles = [fund]\<rparr>) ?t (Finite 900) demo_policy
         = Inr (d, None) \<and> Accepted d \<and> Reason d = ''accepted''))"
    if fill: "FillTemplate (demo_wallet fund) ?t [fund] None 0 = Some (Inr tx)" for tx
  proof (intro conjI)
    obtain i where one: "Inputs tx = [i]" "Prev i = OutputRef fund" "length (Sig i) = 64" "length (PubKey i) = 33"
      "Outputs tx = [\<lparr>Value = 900, ScriptPubKey = [1, 2, 3]\<rparr>]" using filled_one [OF fill] by blast
    show "length (Inputs tx) = 1" "length (Sig (Inputs tx ! 0)) = 64" using one by simp_all
    show "group_defect \<or> (\<exists>d. AcceptPayment ?w 0 (Encode \<lparr>Tx = tx, Bundles = [fund]\<rparr>) ?t (Finite 900) demo_policy
         = Inr (d, None) \<and> Accepted d \<and> Reason d = ''accepted'')"
    proof (rule honest_payment_settles [OF fill])
      show "message_ok \<lparr>Tx = tx, Bundles = [fund]\<rparr>"
        using one n(4,5) by (simp add: message_ok_def tx_ok_def in_ok_def out_ok_def)
      show "value_check (utxo ?w) tx = Inr True"
        using one n(7) by (simp add: value_check_def node_utxo_def sum_out_def)
    qed (use n in \<open>simp_all add: Export_def demo_wallet_def demo_key_def node_utxo_def no_alert_def NewBus_def
          demo_policy_def plain_till_def NewTill_def go_get_def\<close>)
  qed
  show "\<exists>node fund. demo_node = Inr (node, fund) \<and>
     (case FillTemplate (demo_wallet fund) ?t [fund] None 0 of
        Some (Inr tx) \<Rightarrow> length (Inputs tx) = 1 \<and> length (Sig (Inputs tx ! 0)) = 64 \<and>
          (group_defect \<or> (\<exists>d. AcceptPayment (till_at (plain_till\<lparr>alerts := Some NewBus\<rparr>) node) 0
             (Encode \<lparr>Tx = tx, Bundles = [fund]\<rparr>) ?t (Finite 900) demo_policy = Inr (d, None) \<and>
             Accepted d \<and> Reason d = ''accepted''))
      | Some (Inl e) \<Rightarrow> group_defect \<or> e = ErrOther ''crypto: signing failed''
      | None \<Rightarrow> True)"
    using n(1) paid demo_fill_fails [of fund ?t]
    by (intro exI [of _ node] exI [of _ fund]) (auto split: option.split sum.split)
qed

text \<open>
  C37. An owner's double spend stops the payment. Let the owner's key be in \<open>[1, n-1]\<close>, its public key have its first
  coordinate below \<open>n\<close> (\<open>Verify\<close> may change others), and \<open>A\<close>, \<open>B\<close> be two different, nonzero spends of an output.
  Then \<open>group_defect\<close> holds (an exception of the curve or of its order, not refuted), or \<open>BuildEvidence\<close> does not end
  (the search of a nonce), or it fails with \<open>crypto: signing failed\<close> and no other error, or it makes evidence. If \<open>Attest\<close>
  then ends, every bus admits the alert, and whatever happens on the bus afterwards, a merchant who listens to
  it and decides without an error records the alert and refuses each payment in which the last input that
  spends the output carries the owner's key, as long as the alert lies inside the window. (The code asks only for
  the key of the last of several inputs with one outpoint.)
\<close>

theorem double_spend_stops_payment:
  assumes "key_ok k" and "Public k = Some pub" and "X pub < curveN"
    and "A \<noteq> B" and "A \<noteq> zero_hash" and "B \<noteq> zero_hash"
  shows "group_defect \<or>
    (case BuildEvidence (Some k) ou A B of
       None \<Rightarrow> True
     | Some (Inl e) \<Rightarrow> e = ErrOther ''crypto: signing failed''
     | Some (Inr ev) \<Rightarrow>
       (case Attest ou ev of
          None \<Rightarrow> True
        | Some a \<Rightarrow>
          (\<exists>b'. Publish now a b = Inr (True, b') \<and>
            (run_bus es b' = Inr b'' \<and> alerts w = Some b'' \<and>
             AcceptPayment w t msg template v policy = Inr (d, None) \<and> DecodeMessage msg = Inr m \<and>
             spending_key (Inputs (Tx m)) ou = Some (OwnerPubKey ev) \<and> t - Window policy < now
             \<longrightarrow> \<not> AlertQuiet d \<and> \<not> Accepted d))))"
proof (cases group_defect)
  case False
  have admitted: "\<exists>b'. Publish now a b = Inr (True, b') \<and>
      (run_bus es b' = Inr b'' \<and> alerts w = Some b'' \<and>
       AcceptPayment w t msg template v policy = Inr (d, None) \<and> DecodeMessage msg = Inr m \<and>
       spending_key (Inputs (Tx m)) ou = Some (OwnerPubKey ev) \<and> t - Window policy < now
       \<longrightarrow> \<not> AlertQuiet d \<and> \<not> Accepted d)"
    if "BuildEvidence (Some k) ou A B = Some (Inr ev)" "Attest ou ev = Some a" for ev a
  proof -
    note ok = own_evidence_admitted [OF False assms that]
    obtain b' where pub: "Publish now a b = Inr (True, b')" using ok(1) by (simp add: Publish_def Let_def)
    show ?thesis
      using pub published_alert_heard [OF ok(1) pub, of es b'' w t msg template v policy d m] ok(2,3) by auto
  qed
  then show ?thesis
    using BuildEvidence_fails [OF False assms(1), of ou A B]
    by (intro disjI2) (auto split: option.split sum.split)
qed simp

text \<open>A message whose input spends the output with a key and is not signed.\<close>

definition owner_message :: "bytes \<Rightarrow> message" where
  "owner_message pk = unsigned_message\<lparr>Tx := (Tx unsigned_message)\<lparr>Inputs :=
     [\<lparr>Prev = \<lparr>TXID = zero_hash, Vout = 0\<rparr>, Sig = [], PubKey = pk\<rparr>]\<rparr>\<rparr>"

lemma owner_message_decides:
  assumes "length pk < 2 ^ 16"
  shows "DecodeMessage (Encode (owner_message pk)) = Inr (owner_message pk)"
    and "\<exists>d. AcceptPayment (plain_till\<lparr>alerts := Some b\<rparr>) t (Encode (owner_message pk)) template v policy = Inr (d, None)"
proof -
  let ?m = "owner_message pk"
  show dec: "DecodeMessage (Encode ?m) = Inr ?m"
    by (rule DecodeMessage_Encode)
      (use assms in \<open>simp add: message_ok_def owner_message_def unsigned_message_def tx_ok_def in_ok_def out_ok_def wire_ok_def
          path_ok_def fields_ok_def Serialize_def w_u8_def w_u16_def w_u32_def w_bytes_def w_path_def w_fields_def\<close>)
  have "inclusion_loop None (Inputs (Tx ?m)) 0 (Bundles ?m) = Inr (False, ''inclusion:L0'')"
    by (simp add: owner_message_def unsigned_message_def Verify_def MaxDepth_def)
  moreover have "signature_loop (Tx ?m) 0 (Inputs (Tx ?m)) = Inr False"
    by (simp add: owner_message_def VerifyInputSignature_def)
  moreover have "length (Bundles ?m) = length (Inputs (Tx ?m))" by (simp add: owner_message_def unsigned_message_def)
  moreover have "liveness_loop (utxo plain_till) (Inputs (Tx ?m)) True [] = (True, [(\<lparr>TXID = zero_hash, Vout = 0\<rparr>, pk)], None)"
    by (simp add: owner_message_def plain_till_def NewTill_def)
  moreover have "value_check (utxo plain_till) (Tx ?m) = Inr True"
    by (simp add: value_check_def plain_till_def NewTill_def)
  ultimately show "\<exists>d. AcceptPayment (plain_till\<lparr>alerts := Some b\<rparr>) t (Encode ?m) template v policy = Inr (d, None)"
    by (simp add: AcceptPayment_def dec plain_till_def NewTill_def)
qed

text \<open>
  The key 1 and two spends of one output: the alert is published at time 5 on an empty bus, and a till on that bus
  decides at time 6 on a payment that spends the output with this key.
\<close>

theorem double_spend_stops_payment_witness:
  "group_defect \<or>
    (case BuildEvidence (Some \<lparr>D = 1\<rparr>) \<lparr>TXID = zero_hash, Vout = 0\<rparr> (barray_of [1]) (barray_of [2]) of
       None \<Rightarrow> True
     | Some (Inl e) \<Rightarrow> e = ErrOther ''crypto: signing failed''
     | Some (Inr ev) \<Rightarrow>
       (case Attest \<lparr>TXID = zero_hash, Vout = 0\<rparr> ev of
          None \<Rightarrow> True
        | Some a \<Rightarrow> \<exists>b' d. Publish 5 a NewBus = Inr (True, b') \<and>
            AcceptPayment (plain_till\<lparr>alerts := Some b'\<rparr>) 6 (Encode (owner_message (OwnerPubKey ev)))
              (Tx unsigned_message) (Finite 0) demo_policy = Inr (d, None) \<and> \<not> AlertQuiet d \<and> \<not> Accepted d))"
    (is "_ \<or> ?evidence")
proof (cases group_defect)
  case False
  let ?k = "\<lparr>D = 1\<rparr>" and ?ou = "\<lparr>TXID = zero_hash, Vout = 0\<rparr>" and ?A = "barray_of [1] :: hash" and ?B = "barray_of [2] :: hash"
  have "int_bits 1 = [True]" by (simp add: int_bits_def bit_len.simps)
  then have pub: "Public ?k = Some \<lparr>X = curveGx, Y = curveGy\<rparr>"
    by (simp add: Public_def scalarBaseMult_def scalarMult_def mult_step_def pointDouble_def pointAdd_def)
  have k: "key_ok ?k" using curve_bounds(1) by (simp add: key_ok_def)
  have x: "X \<lparr>X = curveGx, Y = curveGy\<rparr> < curveN" by (simp add: curveGx_def curveN_def)
  have ne: "?A \<noteq> ?B" "?A \<noteq> zero_hash" "?B \<noteq> zero_hash"
    by (auto simp: zero_hash_def bytes_of_barray_of dest!: arg_cong [of _ _ "\<lambda>h. bytes_of h ! 0"])
  note stops = double_spend_stops_payment [OF k pub x ne, where ou = ?ou and now = 5 and b = NewBus and es = "[]"
      and t = 6 and template = "Tx unsigned_message" and v = "Finite 0" and policy = demo_policy]
  have heard: "\<exists>b' d. Publish 5 a NewBus = Inr (True, b') \<and>
      AcceptPayment (plain_till\<lparr>alerts := Some b'\<rparr>) 6 (Encode (owner_message (OwnerPubKey ev)))
        (Tx unsigned_message) (Finite 0) demo_policy = Inr (d, None) \<and> \<not> AlertQuiet d \<and> \<not> Accepted d"
    if e: "BuildEvidence (Some ?k) ?ou ?A ?B = Some (Inr ev)" "Attest ?ou ev = Some a" for ev a
  proof -
    let ?m = "owner_message (OwnerPubKey ev)"
    have len: "length (OwnerPubKey ev) < 2 ^ 16" using BuildEvidence_key [OF e(1)] by simp
    obtain b' where b': "Publish 5 a NewBus = Inr (True, b')" using stops [of NewBus plain_till "[]" no_decision unsigned_message] False e by auto
    let ?w = "plain_till\<lparr>alerts := Some b'\<rparr>"
    obtain d where d: "AcceptPayment ?w 6 (Encode ?m) (Tx unsigned_message) (Finite 0) demo_policy = Inr (d, None)"
      using owner_message_decides(2) [OF len] by blast
    have key: "spending_key (Inputs (Tx ?m)) ?ou = Some (OwnerPubKey ev)"
      by (simp add: owner_message_def spending_key_def)
    have "6 - Window demo_policy < 5" by (simp add: demo_policy_def)
    then have "\<not> AlertQuiet d \<and> \<not> Accepted d"
      using stops [of b' ?w "Encode ?m" d ?m] False e b' d owner_message_decides(1) [OF len] key by simp
    then show ?thesis using b' d by blast
  qed
  have ?evidence using stops [of NewBus plain_till "[]" no_decision unsigned_message] False heard by (auto split: option.splits sum.splits)
  then show ?thesis ..
qed simp

text \<open>
  C38. The demonstration does what it shows. At any times of its two calls, \<open>runPayment\<close> of cmd/mfspv lets the
  merchant accept the payment with reason \<open>accepted\<close>, and after the output is marked as spent refuse it with
  reason \<open>double-spend:utxo-spent\<close> while inclusion still holds; unless the payer's signing does not end (the search of a
  nonce) or runs out of its attempts, which is the only error, or \<open>group_defect\<close> holds, an exception of the curve or
  of its order that is not refuted.
\<close>

theorem demonstration_accepts:
  "group_defect \<or>
   (case run_payment t1 t2 of
      None \<Rightarrow> True
    | Some (Inl e) \<Rightarrow> e = ErrOther ''crypto: signing failed''
    | Some (Inr ((d, err), second)) \<Rightarrow>
        Accepted d \<and> Reason d = ''accepted'' \<and> err = None \<and>
        (\<exists>d2. second = Some (d2, None) \<and> \<not> Accepted d2 \<and> Reason d2 = ''double-spend:utxo-spent'' \<and> InclusionOK d2))"
proof (cases group_defect)
  case False
  have "key_ok (demo_key ''bob'')" by (simp add: demo_key_def)
  then obtain bobP script where bob: "Public (demo_key ''bob'') = Some bobP" "SerializeCompressed bobP = Inr script"
    using key_encoding [OF False] by blast
  obtain fund where run: "run_payment t1 t2 =
       (case FillTemplate (demo_wallet fund) (demo_template script) [fund] None 0 of
          None \<Rightarrow> None
        | Some (Inl e) \<Rightarrow> Some (Inl e)
        | Some (Inr stx) \<Rightarrow> Some (map_res (\<lambda>ok. ((demo_decision ok, None), Some (demo_spent (demo_decision ok), None)))
            (signature_loop stx 0 (Inputs stx))))" by (rule run_payment_runs [OF bob])
  have w: "wallet_ok (demo_wallet fund)" by (simp add: demo_wallet_def demo_key_def)
  have "signature_loop stx 0 (Inputs stx) = Inr True"
    if "FillTemplate (demo_wallet fund) (demo_template script) [fund] None 0 = Some (Inr stx)" for stx
    using signature_loop_all [of stx 0 "Inputs stx"] filled_signed [OF False w that] by simp
  moreover have "demo_spent (demo_decision True) = (demo_decision True)\<lparr>Accepted := False, AllUnspent := False,
      Reason := ''double-spend:utxo-spent''\<rparr>" "InclusionOK (demo_decision True)"
    by (simp_all add: demo_spent_def demo_decision_accepts(2) spent_reasons) (simp add: demo_decision_def)
  ultimately show ?thesis
    unfolding run using demo_fill_fails [OF False, of fund "demo_template script"] demo_decision_accepts
    by (intro disjI2) (auto split: option.split sum.split)
qed simp

text \<open>The first call at time 0, the second a second later: no panic, and no other error than the signing's.\<close>

theorem demonstration_accepts_witness:
  "group_defect \<or> run_payment 0 1000000000 = None \<or>
   run_payment 0 1000000000 = Some (Inl (ErrOther ''crypto: signing failed'')) \<or>
   (\<exists>d d2. run_payment 0 1000000000 = Some (Inr ((d, None), Some (d2, None))) \<and>
      Accepted d \<and> \<not> Accepted d2 \<and> InclusionOK d2)"
  using demonstration_accepts [of 0 1000000000] by (auto split: option.splits sum.splits prod.splits)

end
