(* ===== verification/Spec2Isabelle.thy ===== *)
theory Spec2Isabelle
  imports Artifacts BundleForm Reorganisation Mutate EndToEnd
begin

text \<open>
  A model of the Merkle-Forest SPV program and the theorems that make its parts correct.

  \<^bold>\<open>The program.\<close> A payer holds, next to each of its outputs, a proof that the transaction of the output
  is in a block: the fields of the transaction under its identifier (level L0), the identifier under the root
  of a subtree (L1), the subtree root under the Merkle root of the block header (L2), the header on the
  header chain (L3), and optionally the header under the root of an accumulator that a later block commits to
  (L4). The payer sends payment and proofs in one message; the merchant checks them offline against
  its headers, asks a node whether the outputs are unspent, asks a bus of double-spend alerts whether they
  are quiet, and decides. A second half of the program checks proofs in bulk and measures how fast it does so.

  \<^bold>\<open>Theories and sources.\<close> Each theory opens with what it holds; the definitions follow the order of the code.

  \<^item> Prelude: bytes, fixed-size arrays (with instances of \<open>equal\<close> and \<open>size\<close>), errors, integers as bytes,
    the bit length, and the lemmas on lists and words that the others share. Sha256: the SHA-256 and
    HMAC of the standard library, executable, with a known answer. Codec: the contracts \<open>byte_reader\<close>
    and \<open>wire_format\<close> that the readers of three packages meet.
  \<^item> Commitment (commitment/commitment.go): trees, paths, folds, and the checks of levels L0 to L2.
  \<^item> Accumulator (accumulator/accumulator.go): the Merkle mountain range, its anchor, the coverage gaps.
  \<^item> Teranode (teranode/teranode.go): the interfaces \<open>ProofSource\<close>, \<open>HeaderChain\<close> and \<open>UTXOClient\<close> as
    records of functions, and the node \<open>MockNode\<close> with its blocks, index and unspent outputs as a record; one
    definition per method. The contracts of the interfaces are the locales \<open>proof_source_contract\<close> and
    \<open>header_view\<close>, interpreted on the node and on the pruned header chain.
  \<^item> Bundle, BundleForm, Reorganisation (bundle/bundle.go, bundle/serialize.go): building, verifying and re-anchoring
    a proof bundle, its wire format in both directions, and what a reorganisation of the node does to it.
  \<^item> Field, Crypto (crypto/ct.go, crypto/secp256k1.go): the field on four 64-bit limbs, the complete
    addition, the ladder; keys, nonces, signatures and their encodings. Curve, SumLaw, Ladder, PointGroup: the curve is
    closed, the complete formulas are associative, the constant-time arithmetic agrees with the affine one, the
    affine one is a group, and so signatures verify.
  \<^item> Payment (payment/payment.go), WalletAlice (walletalice/walletalice.go): the transaction, its digest, the
    message, and the payer's wallet.
  \<^item> Dsalert (dsalert/dsalert.go): evidence, attestation and the alert bus; the locale \<open>alert_log\<close>
    is the contract of a bus against the log of what was published.
  \<^item> WalletBob (walletbob/walletbob.go): the merchant's decision. Demo (cmd/mfspv/main.go): the demonstration
    from the sealing of the block to the second decision, and the table of claims. EndToEnd: wallet, bus and merchant
    together, with the signatures that \<open>Sign\<close> makes.
  \<^item> Fabric, FabricCodec, FabricStream (fabric/fabric.go, fetch.go, codec.go, stream.go): the proof and batch
    verifiers, the wire codec, and the streaming verifier at byte offsets. FabricBuild, Pull (fabric/report.go,
    fabric/pull.go): the batches and blocks that are measured and the pass of a pulling worker.
  \<^item> Sha256mb (internal/sha256mb), Lockstep, BenchLanes (bench/fabric16.go, bench/blockverify.go): hashing in 16
    lanes, folding in lockstep, and the tree of a block in two alternating arrays. The locale
    \<open>sixteen_lanes\<close> is the contract of a 16-lane hasher, interpreted on both builds.
  \<^item> Bench (bench/bench.go, capacity.go, backend.go, backend_minio.go, fabric.go): the derived figures, the
    backends, the constructed batches.
  \<^item> Workers, MeasureBench, MeasureFabric: the goroutines of all measuring functions as a step relation over pools
    of workers, with the passes that a run completes as its history. The locale \<open>worker_loop\<close> states what a pass must
    keep; each measuring function is an instance.
  \<^item> Reports, Commands, Artifacts, Mutate (fabric/report.go, scalebench/main.go, cmd/mfspv/main.go,
    cmd/verifyfabric/main.go, cmd/mutate/main.go): the reports as the numbers they print, the flags, the two files
    that \<open>mfspv -eval\<close> writes, and the mutation gate over a disk of files.

  \<^bold>\<open>How code becomes definitions.\<close> A struct is a record with the names of its fields, a method takes the record and
  returns it. A function with an error result returns a sum; a run-time panic is the error \<open>Panic\<close>, so an index or
  a slice out of range is a branch of the model. Machine integers are words of their width. A nil pointer,
  interface or map entry is \<open>None\<close>. A Go map is a partial function, or the association list of
  its entries where the code ranges over it. A slice is a list: the sharing of backing arrays is modelled only where
  the code depends on it (the two arrays of \<open>buildTree16\<close>, the reused buffers of the pulling worker).
  A method under a mutex is one step. A clock is an argument, or a component of the pool.

  \<^bold>\<open>Loops and fuel.\<close> Loops over data are structural or have a measure. Three loops of the program may run for
  ever and are partial functions with values in \<open>option\<close>: the scan of \<open>CoverageGaps\<close>, which the largest tip keeps
  running, the search of a nonce in \<open>Sign\<close>, and the search of \<open>Attest\<close>, whose 64-bit counter wraps around. No
  definition takes fuel. The pools of workers may be scheduled without end; what is proved of them is an
  invariant of every reachable pool, that no reachable pool is stuck before all workers are done, and that after
  the deadline every step of a worker brings the end nearer.

  \<^bold>\<open>What the lemmas show.\<close>
  \<^item> Completeness: a built tree yields verifying paths of the stated length, a node serves proofs that verify,
    a bundle built at a node verifies, and after a reorganisation re-anchoring gives one that does if the transaction
    is on the best chain again, a header stays provable under later appends, a signature that \<open>Sign\<close> makes verifies,
    a payment that the wallet fills and signs is accepted, and so is the one of the demonstration.
  \<^item> Soundness: a path, a bundle, an accumulator proof, a batch or a digest that is accepted belongs to what was
    committed, or the theorem exhibits two different inputs with one SHA-256d digest. No injectivity
    of the hash is assumed anywhere.
  \<^item> Formats: every codec inverts its encoder, refuses truncated input, and the accepted bytes of the bundle format
    are characterised exactly, flag bytes included.
  \<^item> Refinement and equivalence: limbs against the prime field, the batch verifier against single proofs, the streaming
    verifier against the batch verifier, 16 lanes against one, the alternating arrays against the tree, the bus
    against its log.
  \<^item> Invariants: the node, the bus and the pools of workers in every reachable state.
  \<^item> Across the parts: the evidence of an owner's double spend is admitted by every bus and stops the payment at
    every merchant who listens to it, whatever else happens on the bus.
  \<^item> Decisions: the exact condition under which a payment is accepted, and the reason for each refusal; the exact
    condition under which the mutation gate passes.
  \<^item> Deviations: what the code accepts although its documentation excludes it is proved as a theorem as well: an ordinary
    transaction that anchors an accumulator root, a repeated input that hides an alert, a batch whose later headers
    are not checked, a gate that a failing test suite passes.

  \<^bold>\<open>Not modelled.\<close>
  \<^item> The AVX-512 assembly of the 16-lane kernel and \<open>Sum256\<close> of minio/sha256-simd: parameters with their documented
    behaviour, instantiated by executable reference functions.
  \<^item> Real elapsed time, and with it the measured values: they are arguments of the figures and reports. A \<open>float64\<close> is a
    real number there, without rounding; in the merchant's policy it is a rational, an infinity or NaN.
  \<^item> The formats of printed lines, the durations that flags of \<open>verifyfabric\<close> take, the run of git (its output is an
    argument), and the file system beyond \<open>ReadFile\<close> and \<open>WriteFile\<close>.
  \<^item> Four numerical facts of secp256k1: the field prime and the group order have no proper factor, no point has
    order two, and \<open>curveN\<close> times the base point is infinity. The theorems of Curve, Ladder and PointGroup hold or
    exhibit the exception (\<open>field_factor\<close>, \<open>curve_defect\<close>, \<open>group_defect\<close>); nothing is assumed.
    They are facts of arithmetic on numbers of 256 bits that the kernel does not decide in reasonable time.
  \<^item> A nil UTXO client at the merchant's till, on which the code panics.
  \<^item> Timing and side channels: the masked select and the fixed length of the ladder are proved as equations only.
  \<^item> The tests.
\<close>

end
